(* ===== verification/Spl_Prelude.thy ===== *)
theory Spl_Prelude
  imports Main "HOL-Library.Word"
begin

text \<open>
  Shared vocabulary of the development: the C integer types of
  \<^verbatim>\<open>include/spl/sys/types.h\<close> as words, the error numbers the module
  returns, the collections of simplification rules, and the generic facts on
  lists and words that the component theories use.
\<close>

unbundle bit_operations_syntax

section \<open>C integer types\<close>

type_synonym u8 = "8 word"
type_synonym u16 = "16 word"
type_synonym u32 = "32 word"
type_synonym u64 = "64 word"

text \<open>Addresses of kernel objects; \<open>0\<close> is the null pointer.\<close>

type_synonym addr = nat

section \<open>Error numbers\<close>

text \<open>
  The error numbers of the Linux kernel that the module returns.  Success is
  \<^verbatim>\<open>0\<close> in C; here it is \<open>None\<close> of an option or \<open>Inr\<close> of a sum.
\<close>

datatype errno =
    EPERM | ENOENT | EIO | EAGAIN | ENOMEM | EACCES | EFAULT | EBUSY | EEXIST
  | EINVAL | ENOSPC | ERANGE | ENAMETOOLONG | EUNATCH | EOVERFLOW | EOPNOTSUPP

section \<open>Collections\<close>

named_theorems ring_simps \<open>rewrite rules for rings of list heads\<close>
named_theorems tsd_simps \<open>unfolding rules for the thread specific data table\<close>
named_theorems xdr_simps \<open>unfolding rules for the XDR stream operations\<close>
named_theorems taskq_simps \<open>unfolding rules for the task queue operations\<close>

section \<open>Lists\<close>

lemma in_split_distinct:
  assumes "distinct xs" "x \<in> set xs"
  obtains ys zs where "xs = ys @ x # zs" "x \<notin> set ys" "x \<notin> set zs"
proof -
  from assms(2) obtain ys zs where "xs = ys @ x # zs" "x \<notin> set ys"
    by (metis split_list_first)
  with assms(1) that show thesis by auto
qed

lemma last_notin_butlast: "distinct xs \<Longrightarrow> xs \<noteq> [] \<Longrightarrow> last xs \<notin> set (butlast xs)"
  by (cases xs rule: rev_cases) auto

lemma distinct_singleton_set: "distinct xs \<Longrightarrow> set xs = {a} \<Longrightarrow> xs = [a]"
  by (cases xs; cases "tl xs") auto

section \<open>Arithmetic\<close>

lemma mod_add_inj:
  assumes "(c + i) mod n = (c + j) mod (n :: nat)" "i < n" "j < n"
  shows "i = j"
  using assms
proof (induction i j rule: linorder_wlog)
  case (le i j)
  then have "n dvd (c + j) - (c + i)" by (metis add_le_cancel_left mod_eq_dvd_iff_nat)
  then have "n dvd j - i" by simp
  with le show ?case by (metis diff_diff_cancel diff_is_0_eq' dvd_imp_le less_imp_diff_less
        linorder_not_less zero_less_diff antisym_conv)
qed simp

section \<open>Words\<close>

lemma unat_u32_less: "unat (w :: u32) < 2 ^ 32"
  using unsigned_less [of w] by (simp del: unsigned_less)

lemma unat_ucast_u32: "unat (ucast (w :: u32) :: u64) = unat w"
  using unat_u32_less [of w] by (simp add: unsigned_ucast_eq take_bit_nat_eq_self)

lemma word_less_plus_one:
  fixes x :: "'a::len word"
  assumes "x \<noteq> - 1"
  shows "x < x + 1"
proof -
  have "1 + x \<noteq> 0" using assms by (metis add_eq_0_iff)
  then have "unat (1 + x) = Suc (unat x)" by (rule unatSuc)
  then show ?thesis by (simp add: word_less_nat_alt add.commute)
qed

section \<open>Runs of operations that refine abstract ones\<close>

text \<open>The interface of a component whose operations, where allowed, keep an invariant and act on its abstraction as the
  abstract operations do: so do its runs, and none gets stuck.\<close>

locale stepwise_refinement =
  fixes inv :: "'s \<Rightarrow> bool"
    and abs :: "'s \<Rightarrow> 'a"
    and step :: "'o \<Rightarrow> 's \<Rightarrow> 's option"
    and astep :: "'o \<Rightarrow> 'a \<Rightarrow> 'a"
    and allowed :: "'o \<Rightarrow> 's \<Rightarrow> bool"
  assumes refine: "inv s \<Longrightarrow> allowed x s \<Longrightarrow> \<exists>s'. step x s = Some s' \<and> inv s' \<and> abs s' = astep x (abs s)"
begin

inductive run :: "'s \<Rightarrow> 'o list \<Rightarrow> 's \<Rightarrow> bool" where
  run_Nil: "run s [] s"
| run_Cons: "allowed x s \<Longrightarrow> step x s = Some s' \<Longrightarrow> run s' xs s'' \<Longrightarrow> run s (x # xs) s''"

lemma run_refines: "run s xs s' \<Longrightarrow> inv s \<Longrightarrow> inv s' \<and> abs s' = fold astep xs (abs s)"
proof (induction rule: run.induct)
  case (run_Cons x s s' xs s'')
  then show ?case using refine [of s x] by auto
qed simp

lemma never_stuck: "run s xs s' \<Longrightarrow> inv s \<Longrightarrow> allowed x s' \<Longrightarrow> \<exists>s''. step x s' = Some s''"
  using run_refines [of s xs s'] refine [of s' x] by blast

end

end
