(* ===== verification/Linux_List.thy ===== *)
theory Linux_List
  imports Spl_Prelude
begin

text \<open>
  Rings of \<^verbatim>\<open>struct list_head\<close>.  The kernel links objects through an embedded
  pair of pointers; the store below holds the two pointers of every node, so
  that sharing and aliasing are visible.  \<open>linked\<close> and \<open>ring\<close> say that a
  circular, doubly linked ring starting at a head holds given nodes in order.
  The lemmas state what insertion and removal do to a ring and that a ring is
  not disturbed by operations on nodes outside it.  The list API of
  \<^verbatim>\<open>list.h\<close> and the key and pid rings of \<^verbatim>\<open>spl-tsd.c\<close> rest on them.
\<close>

section \<open>Nodes and the kernel's primitives\<close>

record ring_heap =
  nxt :: "addr \<Rightarrow> addr"
  prv :: "addr \<Rightarrow> addr"

definition set_nxt :: "addr \<Rightarrow> addr \<Rightarrow> ring_heap \<Rightarrow> ring_heap" where
  "set_nxt a v h = h\<lparr>nxt := (nxt h)(a := v)\<rparr>"

definition set_prv :: "addr \<Rightarrow> addr \<Rightarrow> ring_heap \<Rightarrow> ring_heap" where
  "set_prv a v h = h\<lparr>prv := (prv h)(a := v)\<rparr>"

definition LIST_POISON1 :: addr where "LIST_POISON1 = 0x100"
definition LIST_POISON2 :: addr where "LIST_POISON2 = 0x200"

definition INIT_LIST_HEAD :: "addr \<Rightarrow> ring_heap \<Rightarrow> ring_heap" where
  "INIT_LIST_HEAD e h = set_prv e e (set_nxt e e h)"

definition list_link :: "addr \<Rightarrow> addr \<Rightarrow> addr \<Rightarrow> ring_heap \<Rightarrow> ring_heap" where
  "list_link n p q h = set_nxt p n (set_prv n p (set_nxt n q (set_prv q n h)))"

definition list_add :: "addr \<Rightarrow> addr \<Rightarrow> ring_heap \<Rightarrow> ring_heap" where
  "list_add n head h = list_link n head (nxt h head) h"

definition list_add_tail :: "addr \<Rightarrow> addr \<Rightarrow> ring_heap \<Rightarrow> ring_heap" where
  "list_add_tail n head h = list_link n (prv h head) head h"

definition list_unlink :: "addr \<Rightarrow> ring_heap \<Rightarrow> ring_heap" where
  "list_unlink e h = set_nxt (prv h e) (nxt h e) (set_prv (nxt h e) (prv h e) h)"

definition list_del :: "addr \<Rightarrow> ring_heap \<Rightarrow> ring_heap" where
  "list_del e h = set_prv e LIST_POISON2 (set_nxt e LIST_POISON1 (list_unlink e h))"

definition list_del_init :: "addr \<Rightarrow> ring_heap \<Rightarrow> ring_heap" where
  "list_del_init e h = INIT_LIST_HEAD e (list_unlink e h)"

definition list_empty :: "addr \<Rightarrow> ring_heap \<Rightarrow> bool" where
  "list_empty head h \<longleftrightarrow> nxt h head = head"

definition list_splice_init :: "addr \<Rightarrow> addr \<Rightarrow> ring_heap \<Rightarrow> ring_heap" where
  "list_splice_init l head h =
     (if list_empty l h then h
      else let first = nxt h l; last = prv h l; n = nxt h head in
        INIT_LIST_HEAD l
          (set_prv n last (set_nxt last n (set_nxt head first (set_prv first head h)))))"

lemmas list_head_defs =
  set_nxt_def set_prv_def INIT_LIST_HEAD_def list_link_def list_add_def list_add_tail_def
  list_unlink_def list_del_def list_del_init_def

section \<open>Rings\<close>

fun linked :: "ring_heap \<Rightarrow> addr \<Rightarrow> addr list \<Rightarrow> addr \<Rightarrow> bool" where
  "linked h a [] b \<longleftrightarrow> nxt h a = b \<and> prv h b = a"
| "linked h a (x # xs) b \<longleftrightarrow> nxt h a = x \<and> prv h x = a \<and> linked h x xs b"

definition ring :: "ring_heap \<Rightarrow> addr \<Rightarrow> addr list \<Rightarrow> bool" where
  "ring h a xs \<longleftrightarrow> distinct (a # xs) \<and> linked h a xs a"

lemma linked_append [ring_simps]:
  "linked h a (xs @ x # ys) b \<longleftrightarrow> linked h a xs x \<and> linked h x ys b"
  by (induction xs arbitrary: a) auto

text \<open>A segment depends only on the successors of its start and its inner
  nodes and on the predecessors of its inner nodes and its end.\<close>

lemma linked_cong:
  assumes "\<And>x. x \<in> set (a # xs) \<Longrightarrow> nxt h' x = nxt h x"
    and "\<And>x. x \<in> set (xs @ [b]) \<Longrightarrow> prv h' x = prv h x"
  shows "linked h' a xs b = linked h a xs b"
  using assms by (induction xs arbitrary: a) auto

lemma ring_distinct [dest]: "ring h a xs \<Longrightarrow> distinct (a # xs)"
  by (simp add: ring_def)

lemma ring_cong:
  assumes "\<And>x. x \<in> set (a # xs) \<Longrightarrow> nxt h' x = nxt h x \<and> prv h' x = prv h x"
  shows "ring h' a xs = ring h a xs"
  using assms linked_cong [of a xs h' h a] by (auto simp: ring_def)

lemma ring_rotate: "ring h a (xs @ b # ys) \<longleftrightarrow> ring h b (ys @ a # xs)"
  by (auto simp: ring_def linked_append)

lemma ring_nxt: "ring h a xs \<Longrightarrow> nxt h a = hd (xs @ [a])"
  by (cases xs) (auto simp: ring_def)

lemma linked_prv_last: "linked h a xs b \<Longrightarrow> prv h b = last (a # xs)"
  by (induction xs arbitrary: a) auto

lemma ring_prv: "ring h a xs \<Longrightarrow> prv h a = last (a # xs)"
  unfolding ring_def by (blast dest: linked_prv_last)

lemma ring_empty_iff: "ring h a xs \<Longrightarrow> list_empty a h \<longleftrightarrow> xs = []"
  by (cases xs) (auto simp: ring_def list_empty_def)

lemma ring_member_rotate:
  assumes "ring h a xs" "x \<in> set xs"
  obtains ys zs where "xs = ys @ x # zs" "ring h x (zs @ a # ys)"
  using assms by (metis ring_rotate split_list)

lemma ring_nxt_in: "ring h a xs \<Longrightarrow> x \<in> set (a # xs) \<Longrightarrow> nxt h x \<in> set (a # xs)"
proof -
  assume r: "ring h a xs" and x: "x \<in> set (a # xs)"
  show ?thesis
  proof (cases "x = a")
    case True
    with ring_nxt [OF r] show ?thesis by (cases xs) auto
  next
    case False
    with x have "x \<in> set xs" by simp
    from r this obtain ys zs where s: "xs = ys @ x # zs" "ring h x (zs @ a # ys)"
      by (rule ring_member_rotate)
    from ring_nxt [OF s(2)] s(1) show ?thesis by (cases zs) auto
  qed
qed

section \<open>What the primitives do to a ring\<close>

lemma ring_INIT [ring_simps, intro]: "ring (INIT_LIST_HEAD e h) e []"
  by (simp add: ring_def list_head_defs)

lemma INIT_frame:
  "ring h a xs \<Longrightarrow> e \<notin> set (a # xs) \<Longrightarrow> ring (INIT_LIST_HEAD e h) a xs"
  by (subst ring_cong [where h = h]) (auto simp: list_head_defs)

lemma ring_list_link_head:
  assumes r: "ring h a xs" and n: "n \<notin> set (a # xs)"
  shows "ring (list_link n a (nxt h a) h) a (n # xs)"
proof (cases xs)
  case Nil
  with r n show ?thesis by (auto simp: ring_def list_head_defs)
next
  case (Cons x ys)
  let ?h = "list_link n a (nxt h a) h"
  from r Cons have a: "nxt h a = x" "prv h x = a" and l: "linked h x ys a"
    and d: "distinct (a # x # ys)" by (auto simp: ring_def)
  from l have "linked ?h x ys a"
    by (subst linked_cong [where h = h]) (use a d n Cons in \<open>auto simp: list_head_defs\<close>)
  with a d n Cons show ?thesis by (auto simp: ring_def list_head_defs)
qed

lemma ring_list_add [ring_simps]:
  "ring h a xs \<Longrightarrow> n \<notin> set (a # xs) \<Longrightarrow> ring (list_add n a h) a (n # xs)"
  unfolding list_add_def by (rule ring_list_link_head)

lemma ring_list_add_after:
  assumes r: "ring h a (ys @ x # zs)" and n: "n \<notin> set (a # ys @ x # zs)"
  shows "ring (list_add n x h) a (ys @ x # n # zs)"
proof -
  from r have "ring h x (zs @ a # ys)" by (simp add: ring_rotate)
  then have "ring (list_add n x h) x (n # zs @ a # ys)"
    using n by (intro ring_list_add) auto
  then show ?thesis using ring_rotate [of "list_add n x h" a ys x "n # zs"] by simp
qed

lemma ring_list_add_before:
  assumes r: "ring h a (ys @ x # zs)" and n: "n \<notin> set (a # ys @ x # zs)"
  shows "ring (list_add_tail n x h) a (ys @ n # x # zs)"
proof -
  from r have rx: "ring h x (zs @ a # ys)" by (simp add: ring_rotate)
  define p where "p = last (a # ys)"
  have p: "prv h x = p" "nxt h p = x"
  proof -
    from ring_prv [OF rx] show "prv h x = p" by (simp add: p_def)
    show "nxt h p = x"
    proof (cases ys rule: rev_cases)
      case Nil
      with r show ?thesis by (simp add: p_def ring_def)
    next
      case (snoc us u)
      with r have "ring h a (us @ u # (x # zs))" by simp
      then have "ring h u ((x # zs) @ a # us)" by (rule ring_rotate [THEN iffD1])
      from ring_nxt [OF this] snoc show ?thesis by (simp add: p_def)
    qed
  qed
  then have eq: "list_add_tail n x h = list_add n p h"
    by (simp add: list_add_tail_def list_add_def)
  show ?thesis
  proof (cases ys rule: rev_cases)
    case Nil
    with r n ring_list_add [of h a "x # zs" n] show ?thesis
      by (simp add: eq p_def)
  next
    case (snoc us u)
    with r n ring_list_add_after [of h a us u "x # zs" n] show ?thesis
      by (simp add: eq p_def)
  qed
qed

lemma ring_list_add_tail [ring_simps]:
  assumes r: "ring h a xs" and n: "n \<notin> set (a # xs)"
  shows "ring (list_add_tail n a h) a (xs @ [n])"
proof (cases xs)
  case Nil
  with r n show ?thesis by (auto simp: ring_def list_head_defs)
next
  case (Cons x ys)
  with r have "ring h x (ys @ a # [])" by (simp add: ring_rotate [of h a "[]" x ys, simplified])
  with n Cons have "ring (list_add_tail n a h) x (ys @ n # a # [])"
    by (intro ring_list_add_before) auto
  then have "ring (list_add_tail n a h) x ((ys @ [n]) @ a # [])" by simp
  with Cons show ?thesis unfolding ring_rotate by simp
qed

lemma linked_unlink:
  assumes "ring h a (ys @ x # zs)"
  shows "ring (list_unlink x h) a (ys @ zs)"
proof -
  from assms have rx: "ring h x (zs @ a # ys)" by (simp add: ring_rotate)
  have l: "linked h a ys x" "linked h x zs a" and d: "distinct (a # ys @ x # zs)"
    using assms by (auto simp: ring_def linked_append)
  let ?p = "last (a # ys)" and ?q = "hd (zs @ [a])"
  have p: "prv h x = ?p" using ring_prv [OF rx] by simp
  have q: "nxt h x = ?q" using ring_nxt [OF rx] by (cases zs) auto
  have "linked (list_unlink x h) a (ys @ zs) a"
  proof (cases ys rule: rev_cases)
    case Nil
    show ?thesis
    proof (cases zs)
      case Nil
      with \<open>ys = []\<close> p q show ?thesis by (simp add: list_head_defs)
    next
      case (Cons z ws)
      with l have "linked h z ws a" by simp
      then have "linked (list_unlink x h) z ws a"
        by (subst linked_cong [where h = h])
          (use p q d Cons Nil in \<open>auto simp: list_head_defs\<close>)
      with \<open>ys = []\<close> Cons p q show ?thesis by (simp add: list_head_defs)
    qed
  next
    case (snoc us u)
    with l have "linked h a us u" by (simp add: linked_append)
    then have 1: "linked (list_unlink x h) a us u"
      by (subst linked_cong [where h = h])
        (use p q d snoc in \<open>auto simp: list_head_defs hd_append\<close>)
    show ?thesis
    proof (cases zs)
      case Nil
      with snoc 1 p q show ?thesis by (simp add: linked_append list_head_defs)
    next
      case (Cons z ws)
      with l have "linked h z ws a" by simp
      then have "linked (list_unlink x h) z ws a"
        by (subst linked_cong [where h = h])
          (use p q d Cons snoc in \<open>auto simp: list_head_defs\<close>)
      with 1 snoc Cons p q show ?thesis by (simp add: linked_append list_head_defs)
    qed
  qed
  with d show ?thesis by (auto simp: ring_def)
qed

lemma ring_list_del:
  assumes "ring h a (ys @ x # zs)"
  shows "ring (list_del x h) a (ys @ zs)"
proof -
  from assms have "x \<notin> set (a # ys @ zs)" by (auto simp: ring_def)
  with linked_unlink [OF assms] show ?thesis
    by (subst ring_cong [where h = "list_unlink x h"]) (auto simp: list_del_def set_nxt_def set_prv_def)
qed

lemma ring_list_del_init:
  assumes "ring h a (ys @ x # zs)"
  shows "ring (list_del_init x h) a (ys @ zs)"
proof -
  from assms have "x \<notin> set (a # ys @ zs)" by (auto simp: ring_def)
  with linked_unlink [OF assms] show ?thesis
    unfolding list_del_init_def by (rule INIT_frame)
qed

lemma ring_list_del_head:
  assumes "ring h a (x # xs)"
  shows "ring (list_del a h) x xs"
proof -
  from assms have "ring h x (xs @ a # [])" by (rule ring_rotate [of h a "[]" x xs, simplified, THEN iffD1])
  from ring_list_del [OF this] show ?thesis by simp
qed

section \<open>Frames: rings that an operation does not touch\<close>

lemma list_add_frame:
  assumes r: "ring h a xs" and o: "ring h b zs" and m: "m \<in> set (b # zs)"
    and dis: "set (a # xs) \<inter> set (b # zs) = {}" and n: "n \<notin> set (a # xs)"
  shows "ring (list_add n m h) a xs"
proof -
  from ring_nxt_in [OF o m] have "nxt h m \<in> set (b # zs)" .
  with m dis n show ?thesis
    by (subst ring_cong [where h = h]) (use r in \<open>auto simp: list_head_defs\<close>)
qed

lemma ring_prv_in:
  assumes "ring h a xs" "x \<in> set (a # xs)"
  shows "prv h x \<in> set (a # xs)"
proof (cases "x = a")
  case True
  with ring_prv [OF assms(1)] show ?thesis by (cases xs rule: rev_cases) auto
next
  case False
  with assms(2) have "x \<in> set xs" by simp
  from assms(1) this obtain ys zs where s: "xs = ys @ x # zs" "ring h x (zs @ a # ys)"
    by (rule ring_member_rotate)
  from ring_prv [OF s(2)] s(1) show ?thesis by (cases ys rule: rev_cases) auto
qed

lemma unlink_frame:
  assumes r: "ring h a xs" and o: "ring h b zs" and m: "m \<in> set (b # zs)"
    and dis: "set (a # xs) \<inter> set (b # zs) = {}"
  shows "ring (list_unlink m h) a xs"
proof -
  from ring_nxt_in [OF o m] ring_prv_in [OF o m]
  have "nxt h m \<in> set (b # zs)" "prv h m \<in> set (b # zs)" .
  with dis show ?thesis
    by (subst ring_cong [where h = h]) (use r in \<open>auto simp: list_head_defs\<close>)
qed

lemma list_del_init_frame:
  assumes r: "ring h a xs" and o: "ring h b zs" and m: "m \<in> set (b # zs)"
    and dis: "set (a # xs) \<inter> set (b # zs) = {}"
  shows "ring (list_del_init m h) a xs"
proof -
  from m dis have "m \<notin> set (a # xs)" by auto
  with unlink_frame [OF assms] show ?thesis
    unfolding list_del_init_def by (rule INIT_frame)
qed

section \<open>Splicing one ring into another\<close>

text \<open>A segment can be closed onto another end node: only the last successor
  and the new end's predecessor have to be set.\<close>

lemma linked_retarget:
  assumes "linked h a xs b" "distinct (a # xs)"
    and "\<And>x. x \<in> set (butlast (a # xs)) \<Longrightarrow> nxt h' x = nxt h x"
    and "\<And>x. x \<in> set xs \<Longrightarrow> prv h' x = prv h x"
    and "nxt h' (last (a # xs)) = c" "prv h' c = last (a # xs)"
  shows "linked h' a xs c"
  using assms
proof (induction xs arbitrary: a)
  case Nil
  then show ?case by simp
next
  case (Cons x xs)
  have "linked h' x xs c"
    by (rule Cons.IH) (use Cons.prems in auto)
  moreover have "nxt h' a = nxt h a" "prv h' x = prv h x"
    using Cons.prems by auto
  ultimately show ?case using Cons.prems(1) by simp
qed

lemma ring_last_nxt: "ring h a xs \<Longrightarrow> nxt h (last (a # xs)) = a"
  by (cases xs rule: rev_cases) (auto simp: ring_def linked_append)

lemma ring_splice:
  assumes ra: "ring h a xs" and rb: "ring h b ys"
    and dis: "set (a # xs) \<inter> set (b # ys) = {}"
  shows "ring (list_splice_init b (prv h a) h) a (xs @ ys)"
    and "ring (list_splice_init b (prv h a) h) b []"
proof -
  let ?h = "list_splice_init b (prv h a) h"
  have p: "prv h a = last (a # xs)" "nxt h (prv h a) = a"
    using ring_prv [OF ra] ring_last_nxt [OF ra] by simp_all
  show "ring ?h a (xs @ ys)"
  proof (cases ys)
    case Nil
    with rb have "list_empty b h" by (simp add: ring_empty_iff)
    with ra Nil show ?thesis by (simp add: list_splice_init_def)
  next
    case (Cons y zs)
    with rb have ne: "\<not> list_empty b h" by (simp add: ring_empty_iff)
    from rb Cons have f: "nxt h b = y" and l: "prv h b = last (y # zs)"
      using ring_nxt [OF rb] ring_prv [OF rb] by simp_all
    define p' where "p' = last (a # xs)"
    define q where "q = last (y # zs)"
    have h: "?h = INIT_LIST_HEAD b (set_prv a q (set_nxt q a (set_nxt p' y (set_prv y p' h))))"
      using ne p f l unfolding p'_def q_def by (simp add: list_splice_init_def Let_def)
    have mem: "p' \<in> set (a # xs)" "q \<in> set (y # zs)"
      unfolding p'_def q_def by (rule last_in_set, simp)+
    have ds: "distinct (a # xs)" "distinct (b # ys)" using ra rb by (auto simp: ring_def)
    have bl: "p' \<notin> set (butlast (a # xs))" "q \<notin> set (butlast (y # zs))"
      using ds Cons last_notin_butlast [of "a # xs"] last_notin_butlast [of "y # zs"]
      unfolding p'_def q_def by (simp_all only: distinct.simps(2) list.distinct simp_thms)
    have sub: "x \<in> set (butlast (a # xs)) \<Longrightarrow> x \<in> set (a # xs)"
      "x \<in> set (butlast (y # zs)) \<Longrightarrow> x \<in> set (y # zs)" for x
      by (rule in_set_butlastD, assumption)+
    have nq: "q \<notin> set (a # xs)" "p' \<notin> set (y # zs)" "q \<noteq> p'" "q \<noteq> b" "p' \<noteq> b" "a \<noteq> b" "y \<noteq> b" "y \<noteq> a"
      using mem dis ds Cons by auto
    have n: "nxt ?h x = (if x = b then b else if x = q then a else if x = p' then y else nxt h x)"
      and v: "prv ?h x = (if x = b then b else if x = a then q else if x = y then p' else prv h x)" for x
      unfolding h by (simp_all add: list_head_defs)
    have "linked ?h a xs y"
    proof (rule linked_retarget [where h = h and b = a])
      show "nxt ?h x = nxt h x" if "x \<in> set (butlast (a # xs))" for x
        using that sub(1) [OF that] bl nq dis by (auto simp: n)
      show "prv ?h x = prv h x" if "x \<in> set xs" for x
        using that ds dis Cons by (auto simp: v)
    qed (use ra ds nq n v in \<open>auto simp: ring_def p'_def [symmetric] simp del: last.simps\<close>)
    moreover have "linked ?h y zs a"
    proof (rule linked_retarget [where h = h and b = b])
      show "nxt ?h x = nxt h x" if "x \<in> set (butlast (y # zs))" for x
        using that sub(2) [OF that] bl nq ds dis Cons by (auto simp: n)
      show "prv ?h x = prv h x" if "x \<in> set zs" for x
        using that ds dis Cons by (auto simp: v)
    qed (use rb Cons ds nq n v in \<open>auto simp: ring_def q_def [symmetric] simp del: last.simps\<close>)
    ultimately show ?thesis
      using ds dis Cons by (auto simp: ring_def linked_append)
  qed
  show "ring ?h b []"
  proof (cases "list_empty b h")
    case True
    with rb have "ys = []" by (simp add: ring_empty_iff)
    with True rb show ?thesis by (simp add: list_splice_init_def)
  next
    case False
    then show ?thesis by (simp add: list_splice_init_def Let_def ring_INIT)
  qed
qed

section \<open>Families of disjoint rings\<close>

text \<open>
  Several rings over the same pointers, one for each anchor in \<open>A\<close>; \<open>M a\<close> is
  the set of nodes linked off the anchor \<open>a\<close>.
\<close>

definition rings :: "ring_heap \<Rightarrow> addr set \<Rightarrow> (addr \<Rightarrow> addr set) \<Rightarrow> bool" where
  "rings h A M \<longleftrightarrow> (\<forall>a\<in>A. \<exists>xs. ring h a xs \<and> set xs = M a) \<and>
     (\<forall>a\<in>A. \<forall>b\<in>A. a \<noteq> b \<longrightarrow> M a \<inter> M b = {}) \<and> (\<forall>a\<in>A. A \<inter> M a = {})"

lemma ringsD:
  assumes "rings h A M" "a \<in> A"
  obtains xs where "ring h a xs" "set xs = M a"
  using assms by (auto simp: rings_def)

lemma rings_memD:
  assumes "rings h A M" "a \<in> A" "b \<in> A"
  shows "b \<notin> M a" "a \<noteq> b \<Longrightarrow> x \<in> M a \<Longrightarrow> x \<notin> M b"
  using assms unfolding rings_def by blast+

lemma ringsI:
  assumes "\<And>a. a \<in> A \<Longrightarrow> \<exists>xs. ring h a xs \<and> set xs = M a"
    and "\<And>a b x. a \<in> A \<Longrightarrow> b \<in> A \<Longrightarrow> a \<noteq> b \<Longrightarrow> x \<in> M a \<Longrightarrow> x \<notin> M b"
    and "\<And>a b. a \<in> A \<Longrightarrow> b \<in> A \<Longrightarrow> b \<notin> M a"
  shows "rings h A M"
  unfolding rings_def using assms by blast

lemma rings_congI: "rings h A M \<Longrightarrow> (\<And>a. a \<in> A \<Longrightarrow> M' a = M a) \<Longrightarrow> rings h A M'"
  by (simp add: rings_def)

lemma rings_disjoint:
  assumes "rings h A M" "a \<in> A" "d \<in> A" "a \<noteq> d" "ring h a xs" "set xs = M a" "ring h d zs" "set zs = M d"
  shows "set (a # xs) \<inter> set (d # zs) = {}"
  using assms by (auto simp: rings_def)

lemma rings_new_anchor:
  assumes r: "rings h A M" and n: "n \<notin> A" "\<And>a. a \<in> A \<Longrightarrow> n \<notin> M a"
  shows "rings (INIT_LIST_HEAD n h) (insert n A) (M(n := {}))"
proof (rule ringsI)
  fix a assume a: "a \<in> insert n A"
  show "\<exists>xs. ring (INIT_LIST_HEAD n h) a xs \<and> set xs = (M(n := {})) a"
  proof (cases "a = n")
    case True
    then show ?thesis by (auto intro: exI [of _ "[]"])
  next
    case False
    with a have "a \<in> A" by simp
    with r obtain xs where "ring h a xs" "set xs = M a" by (rule ringsD)
    with False n(2) [OF \<open>a \<in> A\<close>] show ?thesis by (auto intro!: exI [of _ xs] INIT_frame)
  qed
next
  show "y \<notin> (M(n := {})) c" if "a \<in> insert n A" "c \<in> insert n A" "a \<noteq> c" "y \<in> (M(n := {})) a" for a c y
    using that n rings_memD(2) [OF r, of a c y] by (auto split: if_splits)
  show "c \<notin> (M(n := {})) a" if "a \<in> insert n A" "c \<in> insert n A" for a c
    using that n rings_memD(1) [OF r, of a c] by (auto split: if_splits)
qed

lemma rings_add:
  assumes r: "rings h A M" and d: "d \<in> A" and n: "n \<notin> A" "\<And>a. a \<in> A \<Longrightarrow> n \<notin> M a"
  shows "rings (list_add n d (INIT_LIST_HEAD n h)) A (M(d := insert n (M d)))"
proof (rule ringsI)
  let ?h = "INIT_LIST_HEAD n h"
  obtain zs where zs: "ring h d zs" "set zs = M d" using r d by (rule ringsD)
  have dz: "ring ?h d zs" using zs n(1) n(2) [OF d] d by (intro INIT_frame) auto
  fix a assume a: "a \<in> A"
  show "\<exists>xs. ring (list_add n d ?h) a xs \<and> set xs = (M(d := insert n (M d))) a"
  proof (cases "a = d")
    case True
    have "n \<notin> set (d # zs)" using zs(2) n(1) n(2) [OF d] d by auto
    with dz have "ring (list_add n d ?h) d (n # zs)" by (rule ring_list_add)
    moreover have "set (n # zs) = (M(d := insert n (M d))) d" using zs(2) by simp
    ultimately show ?thesis using True by blast
  next
    case False
    obtain xs where xs: "ring h a xs" "set xs = M a" using r a by (rule ringsD)
    have "ring ?h a xs" using xs n(1) n(2) [OF a] a by (intro INIT_frame) auto
    moreover have "set (a # xs) \<inter> set (d # zs) = {}"
      using rings_disjoint [OF r a d False xs zs] .
    ultimately have "ring (list_add n d ?h) a xs"
      using dz xs n(1) n(2) [OF a] a by (intro list_add_frame [where b = d and zs = zs]) auto
    with False xs show ?thesis by auto
  qed
next
  show "y \<notin> (M(d := insert n (M d))) c" if "a \<in> A" "c \<in> A" "a \<noteq> c" "y \<in> (M(d := insert n (M d))) a" for a c y
    using that d n rings_memD(2) [OF r, of a c y] by (auto split: if_splits)
  show "c \<notin> (M(d := insert n (M d))) a" if "a \<in> A" "c \<in> A" for a c
    using that d n rings_memD(1) [OF r, of a c] by (auto split: if_splits)
qed

lemma rings_del_member:
  assumes r: "rings h A M" and d: "d \<in> A" and b: "b \<in> M d"
  shows "rings (list_del_init b h) A (M(d := M d - {b}))"
proof (rule ringsI)
  obtain zs where zs: "ring h d zs" "set zs = M d" using r d by (rule ringsD)
  fix a assume a: "a \<in> A"
  show "\<exists>xs. ring (list_del_init b h) a xs \<and> set xs = (M(d := M d - {b})) a"
  proof (cases "a = d")
    case True
    from zs have dz: "distinct zs" by auto
    moreover have "b \<in> set zs" using zs b by simp
    ultimately obtain us vs where s: "zs = us @ b # vs" "b \<notin> set us" "b \<notin> set vs"
      by (rule in_split_distinct)
    from zs(1) s(1) have "ring (list_del_init b h) d (us @ vs)" by (simp add: ring_list_del_init)
    moreover have "set (us @ vs) = (M(d := M d - {b})) d" using zs(2) s by auto
    ultimately show ?thesis using True by blast
  next
    case False
    obtain xs where xs: "ring h a xs" "set xs = M a" using r a by (rule ringsD)
    from rings_disjoint [OF r a d False xs zs] have "ring (list_del_init b h) a xs"
      using xs zs b by (intro list_del_init_frame [where b = d and zs = zs]) auto
    with False xs show ?thesis by auto
  qed
next
  show "y \<notin> (M(d := M d - {b})) c" if "a \<in> A" "c \<in> A" "a \<noteq> c" "y \<in> (M(d := M d - {b})) a" for a c y
    using that d rings_memD(2) [OF r, of a c y] by (auto split: if_splits)
  show "c \<notin> (M(d := M d - {b})) a" if "a \<in> A" "c \<in> A" for a c
    using that d rings_memD(1) [OF r, of a c] by (auto split: if_splits)
qed

lemma rings_del_anchor:
  assumes r: "rings h A M" and d: "d \<in> A" and e: "M d = {}"
  shows "rings (list_del_init d h) (A - {d}) M"
proof (rule ringsI)
  obtain zs where zs: "ring h d zs" "set zs = M d" using r d by (rule ringsD)
  fix a assume a: "a \<in> A - {d}"
  then have "a \<in> A" "a \<noteq> d" by auto
  obtain xs where xs: "ring h a xs" "set xs = M a" using r \<open>a \<in> A\<close> by (rule ringsD)
  from rings_disjoint [OF r \<open>a \<in> A\<close> d \<open>a \<noteq> d\<close> xs zs] have "ring (list_del_init d h) a xs"
    using xs zs by (intro list_del_init_frame [where b = d and zs = zs]) auto
  with xs show "\<exists>xs. ring (list_del_init d h) a xs \<and> set xs = M a" by auto
next
  show "y \<notin> (M) c" if "a \<in> A - {d}" "c \<in> A - {d}" "a \<noteq> c" "y \<in> (M) a" for a c y
    using that  rings_memD(2) [OF r, of a c y] by (auto split: if_splits)
  show "c \<notin> (M) a" if "a \<in> A - {d}" "c \<in> A - {d}" for a c
    using that  rings_memD(1) [OF r, of a c] by (auto split: if_splits)
qed

lemma rings_empty_iff: "rings h A M \<Longrightarrow> a \<in> A \<Longrightarrow> list_empty a h \<longleftrightarrow> M a = {}"
  by (auto elim!: ringsD simp: ring_empty_iff)

lemma rings_nxt:
  "rings h A M \<Longrightarrow> a \<in> A \<Longrightarrow> M a \<noteq> {} \<Longrightarrow> nxt h a \<in> M a"
proof -
  assume r: "rings h A M" "a \<in> A" and ne: "M a \<noteq> {}"
  from r obtain xs where xs: "ring h a xs" "set xs = M a" by (rule ringsD)
  with ne have "xs \<noteq> []" by auto
  with ring_nxt [OF xs(1)] xs(2) show ?thesis by (cases xs) auto
qed

end
