(* ===== verification/Spl_List.thy ===== *)
theory Spl_List
  imports Linux_List
begin

text \<open>
  The Solaris list API of \<^verbatim>\<open>include/spl/sys/list.h\<close>, implemented over the
  kernel's \<^verbatim>\<open>struct list_head\<close>.  An object is linked through the node found at
  \<open>list_offset\<close> bytes from its start.  \<open>list_rep h l objs\<close> relates the store to
  the sequence of objects on the list; every operation is shown to act on that
  sequence as its name says.  The locale \<open>deque\<close> is the contract a client of the
  API relies on, and it is interpreted on the operations of \<^verbatim>\<open>list.h\<close>.
\<close>

section \<open>The operations of list.h\<close>

record list_t =
  list_size :: nat
  list_offset :: nat
  list_head_node :: addr

definition list_d2l :: "list_t \<Rightarrow> addr \<Rightarrow> addr" where
  "list_d2l a obj = obj + list_offset a"

definition list_object :: "list_t \<Rightarrow> addr \<Rightarrow> addr" where
  "list_object a node = node - list_offset a"

definition list_is_empty :: "list_t \<Rightarrow> ring_heap \<Rightarrow> bool" where
  "list_is_empty l h \<longleftrightarrow> list_empty (list_head_node l) h"

definition list_link_init :: "addr \<Rightarrow> ring_heap \<Rightarrow> ring_heap" where
  "list_link_init node h = set_prv node LIST_POISON2 (set_nxt node LIST_POISON1 h)"

definition list_create :: "list_t \<Rightarrow> nat \<Rightarrow> nat \<Rightarrow> ring_heap \<Rightarrow> list_t \<times> ring_heap" where
  "list_create l sz offset h =
     (let l' = l\<lparr>list_size := sz, list_offset := offset\<rparr>
      in (l', INIT_LIST_HEAD (list_head_node l') h))"

definition list_destroy :: "list_t \<Rightarrow> ring_heap \<Rightarrow> ring_heap" where
  "list_destroy l h = list_del (list_head_node l) h"

definition list_insert_head :: "list_t \<Rightarrow> addr \<Rightarrow> ring_heap \<Rightarrow> ring_heap" where
  "list_insert_head l obj h = list_add (list_d2l l obj) (list_head_node l) h"

definition list_insert_tail :: "list_t \<Rightarrow> addr \<Rightarrow> ring_heap \<Rightarrow> ring_heap" where
  "list_insert_tail l obj h = list_add_tail (list_d2l l obj) (list_head_node l) h"

definition list_insert_after :: "list_t \<Rightarrow> addr option \<Rightarrow> addr \<Rightarrow> ring_heap \<Rightarrow> ring_heap" where
  "list_insert_after l obj nobj h =
     (case obj of None \<Rightarrow> list_insert_head l nobj h
      | Some ob \<Rightarrow> list_add (list_d2l l nobj) (list_d2l l ob) h)"

definition list_insert_before :: "list_t \<Rightarrow> addr option \<Rightarrow> addr \<Rightarrow> ring_heap \<Rightarrow> ring_heap" where
  "list_insert_before l obj nobj h =
     (case obj of None \<Rightarrow> list_insert_tail l nobj h
      | Some ob \<Rightarrow> list_add_tail (list_d2l l nobj) (list_d2l l ob) h)"

definition list_remove :: "list_t \<Rightarrow> addr \<Rightarrow> ring_heap \<Rightarrow> ring_heap" where
  "list_remove l obj h = list_del (list_d2l l obj) h"

definition list_remove_head :: "list_t \<Rightarrow> ring_heap \<Rightarrow> addr option \<times> ring_heap" where
  "list_remove_head l h =
     (let head = nxt h (list_head_node l)
      in if head = list_head_node l then (None, h)
         else (Some (list_object l head), list_del head h))"

definition list_remove_tail :: "list_t \<Rightarrow> ring_heap \<Rightarrow> addr option \<times> ring_heap" where
  "list_remove_tail l h =
     (let tail = prv h (list_head_node l)
      in if tail = list_head_node l then (None, h)
         else (Some (list_object l tail), list_del tail h))"

definition list_head :: "list_t \<Rightarrow> ring_heap \<Rightarrow> addr option" where
  "list_head l h =
     (if list_is_empty l h then None else Some (list_object l (nxt h (list_head_node l))))"

definition list_tail :: "list_t \<Rightarrow> ring_heap \<Rightarrow> addr option" where
  "list_tail l h =
     (if list_is_empty l h then None else Some (list_object l (prv h (list_head_node l))))"

definition list_next :: "list_t \<Rightarrow> addr \<Rightarrow> ring_heap \<Rightarrow> addr option" where
  "list_next l obj h =
     (let node = list_d2l l obj
      in if nxt h node \<noteq> list_head_node l then Some (list_object l (nxt h node)) else None)"

definition list_prev :: "list_t \<Rightarrow> addr \<Rightarrow> ring_heap \<Rightarrow> addr option" where
  "list_prev l obj h =
     (let node = list_d2l l obj
      in if prv h node \<noteq> list_head_node l then Some (list_object l (prv h node)) else None)"

definition list_link_active :: "addr \<Rightarrow> ring_heap \<Rightarrow> bool" where
  "list_link_active node h \<longleftrightarrow> nxt h node \<noteq> LIST_POISON1 \<and> prv h node \<noteq> LIST_POISON2"

definition spl_list_move_tail :: "list_t \<Rightarrow> list_t \<Rightarrow> ring_heap \<Rightarrow> ring_heap" where
  "spl_list_move_tail dst src h =
     list_splice_init (list_head_node src) (prv h (list_head_node dst)) h"

definition list_link_replace :: "addr \<Rightarrow> addr \<Rightarrow> ring_heap \<Rightarrow> ring_heap" where
  "list_link_replace old new h0 =
     (let h1 = set_nxt new (nxt h0 old) h0;
          h2 = set_prv new (prv h1 old) h1;
          h3 = set_nxt (prv h2 old) new h2;
          h4 = set_prv (nxt h3 old) new h3
      in list_link_init old h4)"

section \<open>The sequence a list holds\<close>

definition list_rep :: "list_t \<Rightarrow> ring_heap \<Rightarrow> addr list \<Rightarrow> bool" where
  "list_rep l h objs \<longleftrightarrow> ring h (list_head_node l) (map (list_d2l l) objs)"

text \<open>An object that can be linked: its node is not the list head itself.\<close>

definition linkable :: "list_t \<Rightarrow> addr \<Rightarrow> bool" where
  "linkable l obj \<longleftrightarrow> list_d2l l obj \<noteq> list_head_node l"

lemma list_object_d2l [simp]: "list_object l (list_d2l l obj) = obj"
  by (simp add: list_object_def list_d2l_def)

lemma d2l_eq [simp]: "list_d2l l a = list_d2l l b \<longleftrightarrow> a = b"
  by (simp add: list_d2l_def)

lemma inj_d2l: "inj (list_d2l l)"
  by (simp add: inj_on_def)

lemma d2l_in_map [simp]: "list_d2l l x \<in> list_d2l l ` A \<longleftrightarrow> x \<in> A"
  by (auto simp: image_iff)

lemma list_rep_distinct: "list_rep l h objs \<Longrightarrow> distinct objs"
  by (auto simp: list_rep_def distinct_map dest!: ring_distinct)

lemma list_rep_linkable: "list_rep l h objs \<Longrightarrow> x \<in> set objs \<Longrightarrow> linkable l x"
  by (force simp: list_rep_def linkable_def dest!: ring_distinct)

lemma list_rep_create: "list_create l sz offset h = (l', h') \<Longrightarrow> list_rep l' h' []"
  by (auto simp: list_create_def list_rep_def Let_def)

lemma rep_is_empty: "list_rep l h objs \<Longrightarrow> list_is_empty l h \<longleftrightarrow> objs = []"
  by (simp add: list_rep_def list_is_empty_def ring_empty_iff)

lemma rep_insert_head:
  "list_rep l h objs \<Longrightarrow> linkable l x \<Longrightarrow> x \<notin> set objs \<Longrightarrow>
     list_rep l (list_insert_head l x h) (x # objs)"
  unfolding list_rep_def list_insert_head_def linkable_def
  using ring_list_add [of h "list_head_node l" "map (list_d2l l) objs" "list_d2l l x"] by auto

lemma rep_insert_tail:
  "list_rep l h objs \<Longrightarrow> linkable l x \<Longrightarrow> x \<notin> set objs \<Longrightarrow>
     list_rep l (list_insert_tail l x h) (objs @ [x])"
  unfolding list_rep_def list_insert_tail_def linkable_def
  using ring_list_add_tail [of h "list_head_node l" "map (list_d2l l) objs" "list_d2l l x"] by auto

lemma rep_insert_after:
  "list_rep l h (xs @ y # zs) \<Longrightarrow> linkable l x \<Longrightarrow> x \<notin> set (xs @ y # zs) \<Longrightarrow>
     list_rep l (list_insert_after l (Some y) x h) (xs @ y # x # zs)"
  unfolding list_rep_def list_insert_after_def linkable_def
  using ring_list_add_after [of h "list_head_node l" "map (list_d2l l) xs" "list_d2l l y"
      "map (list_d2l l) zs" "list_d2l l x"] by auto

lemma rep_insert_before:
  "list_rep l h (xs @ y # zs) \<Longrightarrow> linkable l x \<Longrightarrow> x \<notin> set (xs @ y # zs) \<Longrightarrow>
     list_rep l (list_insert_before l (Some y) x h) (xs @ x # y # zs)"
  unfolding list_rep_def list_insert_before_def linkable_def
  using ring_list_add_before [of h "list_head_node l" "map (list_d2l l) xs" "list_d2l l y"
      "map (list_d2l l) zs" "list_d2l l x"] by auto

lemma rep_remove:
  "list_rep l h (xs @ x # zs) \<Longrightarrow> list_rep l (list_remove l x h) (xs @ zs)"
  unfolding list_rep_def list_remove_def
  using ring_list_del [of h "list_head_node l" "map (list_d2l l) xs" "list_d2l l x"
      "map (list_d2l l) zs"] by simp

lemma rep_remove_head_Nil: "list_rep l h [] \<Longrightarrow> list_remove_head l h = (None, h)"
  by (auto simp: list_rep_def list_remove_head_def dest: ring_nxt)

lemma rep_remove_head_Cons:
  assumes "list_rep l h (x # xs)"
  obtains h' where "list_remove_head l h = (Some x, h')" "list_rep l h' xs"
proof -
  from assms have n: "nxt h (list_head_node l) = list_d2l l x" and
    ne: "list_d2l l x \<noteq> list_head_node l"
    by (auto simp: list_rep_def dest: ring_nxt)
  then have "list_remove_head l h = (Some x, list_remove l x h)"
    by (simp add: list_remove_head_def list_remove_def)
  moreover have "list_rep l (list_remove l x h) xs"
    using rep_remove [of l h "[]" x xs] assms by simp
  ultimately show thesis by (rule that)
qed

lemma rep_remove_tail_Nil: "list_rep l h [] \<Longrightarrow> list_remove_tail l h = (None, h)"
  by (auto simp: list_rep_def list_remove_tail_def dest: ring_prv)

lemma rep_remove_tail_snoc:
  assumes "list_rep l h (xs @ [x])"
  obtains h' where "list_remove_tail l h = (Some x, h')" "list_rep l h' xs"
proof -
  from assms have n: "prv h (list_head_node l) = list_d2l l x" and
    ne: "list_d2l l x \<noteq> list_head_node l"
    by (auto simp: list_rep_def dest: ring_prv)
  then have "list_remove_tail l h = (Some x, list_remove l x h)"
    by (simp add: list_remove_tail_def list_remove_def)
  moreover have "list_rep l (list_remove l x h) xs"
    using rep_remove [of l h xs x "[]"] assms by simp
  ultimately show thesis by (rule that)
qed

lemma rep_list_next:
  assumes "list_rep l h (xs @ x # zs)"
  shows "list_next l x h = (case zs of [] \<Rightarrow> None | z # _ \<Rightarrow> Some z)"
proof -
  from assms have r: "ring h (list_d2l l x) (map (list_d2l l) zs @ list_head_node l # map (list_d2l l) xs)"
    by (simp add: list_rep_def ring_rotate)
  have "z \<in> set zs \<Longrightarrow> list_d2l l z \<noteq> list_head_node l" for z
    using list_rep_linkable [OF assms, of z] by (simp add: linkable_def)
  with ring_nxt [OF r] show ?thesis by (cases zs) (auto simp: list_next_def Let_def)
qed

lemma rep_list_prev:
  assumes "list_rep l h (xs @ x # zs)"
  shows "list_prev l x h = (if xs = [] then None else Some (last xs))"
proof -
  from assms have r: "ring h (list_d2l l x) (map (list_d2l l) zs @ list_head_node l # map (list_d2l l) xs)"
    by (simp add: list_rep_def ring_rotate)
  have "z \<in> set xs \<Longrightarrow> list_d2l l z \<noteq> list_head_node l" for z
    using list_rep_linkable [OF assms, of z] by (simp add: linkable_def)
  with ring_prv [OF r] show ?thesis by (cases xs rule: rev_cases) (auto simp: list_prev_def Let_def)
qed

lemma rep_list_head:
  assumes "list_rep l h xs"
  shows "list_head l h = (case xs of [] \<Rightarrow> None | x # _ \<Rightarrow> Some x)"
    and "list_tail l h = (if xs = [] then None else Some (last xs))"
proof -
  from assms have r: "ring h (list_head_node l) (map (list_d2l l) xs)" by (simp add: list_rep_def)
  from ring_nxt [OF r] show "list_head l h = (case xs of [] \<Rightarrow> None | x # _ \<Rightarrow> Some x)"
    by (cases xs) (auto simp: list_head_def rep_is_empty [OF assms])
  from ring_prv [OF r] show "list_tail l h = (if xs = [] then None else Some (last xs))"
    by (cases xs rule: rev_cases) (auto simp: list_tail_def rep_is_empty [OF assms])
qed

lemma rep_move_tail:
  assumes d: "list_rep dst h xs" and s: "list_rep src h ys"
    and dis: "set (list_head_node dst # map (list_d2l dst) xs) \<inter>
              set (list_head_node src # map (list_d2l src) ys) = {}"
    and off: "list_offset dst = list_offset src"
  shows "list_rep dst (spl_list_move_tail dst src h) (xs @ ys)"
    and "list_rep src (spl_list_move_tail dst src h) []"
proof -
  have eq: "list_d2l dst = list_d2l src" using off by (simp add: fun_eq_iff list_d2l_def)
  from d s have r: "ring h (list_head_node dst) (map (list_d2l dst) xs)"
    "ring h (list_head_node src) (map (list_d2l src) ys)" by (simp_all add: list_rep_def)
  from ring_splice [OF r dis] eq
  show "list_rep dst (spl_list_move_tail dst src h) (xs @ ys)"
    "list_rep src (spl_list_move_tail dst src h) []"
    by (simp_all add: list_rep_def spl_list_move_tail_def)
qed

lemma ring_link_replace:
  assumes r: "ring h a (ys @ old # zs)" and n: "new \<notin> set (a # ys @ old # zs)"
  shows "ring (list_link_replace old new h) a (ys @ new # zs)"
proof -
  let ?g = "list_del old (list_add new old h)"
  from ring_list_del [OF ring_list_add_after [OF r n, simplified], simplified]
  have g: "ring ?g a (ys @ new # zs)" by simp
  from r have o: "ring h old (zs @ a # ys)" by (simp add: ring_rotate)
  have "old \<notin> set (zs @ a # ys)" using o by (auto simp: ring_def)
  moreover have "nxt h old \<in> set (zs @ a # ys)" using ring_nxt [OF o] by (cases zs) simp_all
  moreover have "prv h old \<in> set (zs @ a # ys)"
    using ring_prv [OF o] by (cases ys rule: rev_cases) simp_all
  ultimately have "nxt h old \<noteq> old" "prv h old \<noteq> old" by auto
  moreover have "nxt h old \<noteq> new" "prv h old \<noteq> new" "new \<noteq> old"
    using n ring_nxt_in [OF o, of old] ring_prv_in [OF o, of old] by auto
  ultimately have "nxt (list_link_replace old new h) x = nxt ?g x \<and>
      prv (list_link_replace old new h) x = prv ?g x" for x
    by (auto simp: list_link_replace_def list_link_init_def list_head_defs Let_def)
  with g show ?thesis by (subst ring_cong [where h = ?g]) auto
qed

lemma rep_link_replace:
  assumes "list_rep l h (xs @ x # zs)" "linkable l y" "y \<notin> set (xs @ x # zs)"
  shows "list_rep l (list_link_replace (list_d2l l x) (list_d2l l y) h) (xs @ y # zs)"
  using ring_link_replace [of h "list_head_node l" "map (list_d2l l) xs" "list_d2l l x"
      "map (list_d2l l) zs" "list_d2l l y"] assms
  by (auto simp: list_rep_def linkable_def)

lemma remove_not_active: "\<not> list_link_active (list_d2l l x) (list_remove l x h)"
  by (simp add: list_link_active_def list_remove_def list_head_defs)

section \<open>The contract of a double ended list\<close>

text \<open>Popping \<open>n\<close> times, collecting what comes out.\<close>

primrec pops :: "('h \<Rightarrow> 'o option \<times> 'h) \<Rightarrow> nat \<Rightarrow> 'h \<Rightarrow> 'o option list \<times> 'h" where
  "pops f 0 h = ([], h)"
| "pops f (Suc n) h = (let (x, h') = f h; (xs, h'') = pops f n h' in (x # xs, h''))"

locale deque =
  fixes rep :: "'h \<Rightarrow> 'o list \<Rightarrow> bool"
    and ok :: "'o \<Rightarrow> bool"
    and push_head :: "'o \<Rightarrow> 'h \<Rightarrow> 'h"
    and push_tail :: "'o \<Rightarrow> 'h \<Rightarrow> 'h"
    and pop_head :: "'h \<Rightarrow> 'o option \<times> 'h"
    and pop_tail :: "'h \<Rightarrow> 'o option \<times> 'h"
  assumes push_head: "rep h xs \<Longrightarrow> ok x \<Longrightarrow> x \<notin> set xs \<Longrightarrow> rep (push_head x h) (x # xs)"
    and push_tail: "rep h xs \<Longrightarrow> ok x \<Longrightarrow> x \<notin> set xs \<Longrightarrow> rep (push_tail x h) (xs @ [x])"
    and pop_head_empty: "rep h [] \<Longrightarrow> pop_head h = (None, h)"
    and pop_head: "rep h (x # xs) \<Longrightarrow> fst (pop_head h) = Some x \<and> rep (snd (pop_head h)) xs"
    and pop_tail_empty: "rep h [] \<Longrightarrow> pop_tail h = (None, h)"
    and pop_tail: "rep h (xs @ [x]) \<Longrightarrow> fst (pop_tail h) = Some x \<and> rep (snd (pop_tail h)) xs"
begin

lemma fold_push_tail:
  assumes "rep h xs" "list_all ok ys" "distinct (xs @ ys)"
  shows "rep (fold push_tail ys h) (xs @ ys)"
  using assms
proof (induction ys arbitrary: xs h)
  case Nil
  then show ?case by simp
next
  case (Cons y ys)
  then have "rep (push_tail y h) (xs @ [y])" by (intro push_tail) auto
  with Cons.prems Cons.IH [of "push_tail y h" "xs @ [y]"] show ?case by simp
qed

lemma fold_push_head:
  assumes "rep h xs" "list_all ok ys" "distinct (xs @ ys)"
  shows "rep (fold push_head ys h) (rev ys @ xs)"
  using assms
proof (induction ys arbitrary: xs h)
  case Nil
  then show ?case by simp
next
  case (Cons y ys)
  then have "rep (push_head y h) (y # xs)" by (intro push_head) auto
  with Cons.prems Cons.IH [of "push_head y h" "y # xs"] show ?case by simp
qed

lemma pops_head:
  assumes "rep h (xs @ ys)"
  shows "fst (pops pop_head (length xs) h) = map Some xs \<and>
         rep (snd (pops pop_head (length xs) h)) ys"
  using assms
proof (induction xs arbitrary: h)
  case Nil
  then show ?case by simp
next
  case (Cons x xs)
  from pop_head [of h x "xs @ ys"] Cons.prems
  obtain h' where h': "pop_head h = (Some x, h')" "rep h' (xs @ ys)"
    by (metis append_Cons prod.collapse)
  with Cons.IH [OF h'(2)] show ?case by (auto simp: Let_def split: prod.splits)
qed

text \<open>First in, first out; last in, first out.\<close>

lemma fifo:
  assumes "rep h []" "list_all ok ys" "distinct ys"
  shows "fst (pops pop_head (length ys) (fold push_tail ys h)) = map Some ys"
  using pops_head [of _ ys "[]"] fold_push_tail [of h "[]" ys] assms by simp

lemma lifo:
  assumes "rep h []" "list_all ok ys" "distinct ys"
  shows "fst (pops pop_head (length ys) (fold push_head ys h)) = map Some (rev ys)"
  using pops_head [of _ "rev ys" "[]"] fold_push_head [of h "[]" ys] assms by simp

end

text \<open>The operations of \<^verbatim>\<open>list.h\<close> on one list keep that contract.\<close>

interpretation spl_list: deque
  "list_rep l" "linkable l" "list_insert_head l" "list_insert_tail l"
  "list_remove_head l" "list_remove_tail l" for l
proof (unfold_locales, goal_cases)
  case (1 h xs x)
  then show ?case by (rule rep_insert_head)
next
  case (2 h xs x)
  then show ?case by (rule rep_insert_tail)
next
  case (3 h)
  then show ?case by (rule rep_remove_head_Nil)
next
  case (4 h x xs)
  then show ?case by (rule rep_remove_head_Cons) simp
next
  case (5 h)
  then show ?case by (rule rep_remove_tail_Nil)
next
  case (6 h xs x)
  then show ?case by (rule rep_remove_tail_snoc) simp
qed

section \<open>Properties\<close>

text \<open>on a list made by \<^verbatim>\<open>list_create\<close>, distinct objects inserted at the tail
  come out of \<^verbatim>\<open>list_remove_head\<close> in the order they went in, objects inserted at
  the head in the opposite order, and the next removal finds the list empty.\<close>

theorem list_fifo_lifo:
  assumes "list_create l0 sz offset h0 = (l, h)" "list_all (linkable l) objs" "distinct objs"
  shows "fst (pops (list_remove_head l) (length objs) (fold (list_insert_tail l) objs h)) = map Some objs
    \<and> fst (pops (list_remove_head l) (length objs) (fold (list_insert_head l) objs h)) = map Some (rev objs)
    \<and> fst (list_remove_head l (snd (pops (list_remove_head l) (length objs)
           (fold (list_insert_tail l) objs h)))) = None"
proof -
  from assms(1) have r: "list_rep l h []" by (rule list_rep_create)
  from spl_list.fold_push_tail [OF r assms(2)] assms(3)
  have "list_rep l (fold (list_insert_tail l) objs h) (objs @ [])" by simp
  from spl_list.pops_head [OF this] spl_list.lifo [OF r assms(2,3)]
  show ?thesis by (simp add: rep_remove_head_Nil)
qed

theorem list_fifo_lifo_witness:
  "let l = \<lparr>list_size = 64, list_offset = 16, list_head_node = 8\<rparr>;
       h = snd (list_create l 64 16 \<lparr>nxt = \<lambda>_. 0, prv = \<lambda>_. 0\<rparr>)
   in fst (pops (list_remove_head l) (length [100 :: addr, 200, 300]) (fold (list_insert_tail l) [100, 200, 300] h))
        = [Some 100, Some 200, Some 300]"
proof -
  let ?l = "\<lparr>list_size = 64, list_offset = 16, list_head_node = 8\<rparr>"
  let ?h = "\<lparr>nxt = \<lambda>_. 0, prv = \<lambda>_. 0\<rparr>"
  have c: "list_create ?l 64 16 ?h = (?l, snd (list_create ?l 64 16 ?h))"
    by (simp add: list_create_def)
  have "list_all (linkable ?l) [100, 200, 300]" "distinct [100::addr, 200, 300]"
    by (simp_all add: linkable_def list_d2l_def)
  from list_fifo_lifo [OF c this, THEN conjunct1] show ?thesis unfolding Let_def by (simp only: list.map)
qed

text \<open>C30: the positional operations act on the sequence a list holds exactly as their
  names say: insertion after and before an element, removal of an element (whose
  link is then inactive), replacement of one link by another, and the neighbours
  that \<^verbatim>\<open>list_next\<close> and \<^verbatim>\<open>list_prev\<close> find.\<close>

theorem list_edit_sequence:
  assumes "list_rep l h (xs @ y # zs)" "linkable l x" "x \<notin> set (xs @ y # zs)"
  shows "list_rep l (list_insert_after l (Some y) x h) (xs @ y # x # zs)
    \<and> list_rep l (list_insert_before l (Some y) x h) (xs @ x # y # zs)
    \<and> list_rep l (list_remove l y h) (xs @ zs)
    \<and> \<not> list_link_active (list_d2l l y) (list_remove l y h)
    \<and> list_rep l (list_link_replace (list_d2l l y) (list_d2l l x) h) (xs @ x # zs)
    \<and> list_next l y h = (case zs of [] \<Rightarrow> None | z # _ \<Rightarrow> Some z)
    \<and> list_prev l y h = (if xs = [] then None else Some (last xs))"
  by (intro conjI rep_insert_after rep_insert_before rep_remove rep_link_replace
      rep_list_next [OF assms(1)] rep_list_prev [OF assms(1)] remove_not_active assms)

theorem list_edit_sequence_witness:
  "let l = \<lparr>list_size = 64, list_offset = 16, list_head_node = 8\<rparr>;
       h = fold (list_insert_tail l) [100, 200] (snd (list_create l 64 16 \<lparr>nxt = \<lambda>_. 0, prv = \<lambda>_. 0\<rparr>))
   in list_rep l (list_insert_after l (Some 100) 300 h) [100, 300, 200]"
proof -
  let ?l = "\<lparr>list_size = 64, list_offset = 16, list_head_node = 8\<rparr>"
  let ?h = "fold (list_insert_tail ?l) [100, 200] (snd (list_create ?l 64 16 \<lparr>nxt = \<lambda>_. 0, prv = \<lambda>_. 0\<rparr>))"
  have "list_rep ?l ?h [100, 200]"
    by (simp add: list_rep_def list_d2l_def list_create_def list_insert_tail_def list_head_defs ring_def)
  then show ?thesis
    using list_edit_sequence [of ?l ?h "[]" 100 "[200]" 300]
    by (simp add: linkable_def list_d2l_def Let_def)
qed

text \<open>\<^verbatim>\<open>list_move_tail\<close> appends the whole source list to the destination, in
  order, and leaves the source empty.\<close>

theorem list_move_tail_concat:
  assumes "list_rep dst h xs" "list_rep src h ys"
    and "set (list_head_node dst # map (list_d2l dst) xs) \<inter>
         set (list_head_node src # map (list_d2l src) ys) = {}"
    and "list_offset dst = list_offset src"
  shows "list_rep dst (spl_list_move_tail dst src h) (xs @ ys) \<and>
         list_rep src (spl_list_move_tail dst src h) []"
  using rep_move_tail [OF assms] by simp

theorem list_move_tail_concat_witness:
  "let d = \<lparr>list_size = 64, list_offset = 16, list_head_node = 8\<rparr>;
       s = \<lparr>list_size = 64, list_offset = 16, list_head_node = 32\<rparr>;
       h = list_insert_tail s 200 (list_insert_tail d 100
             (INIT_LIST_HEAD 32 (INIT_LIST_HEAD 8 \<lparr>nxt = \<lambda>_. 0, prv = \<lambda>_. 0\<rparr>)))
   in list_rep d (spl_list_move_tail d s h) [100, 200]"
proof -
  let ?d = "\<lparr>list_size = 64, list_offset = 16, list_head_node = 8\<rparr>"
  let ?s = "\<lparr>list_size = 64, list_offset = 16, list_head_node = 32\<rparr>"
  let ?h = "list_insert_tail ?s 200 (list_insert_tail ?d 100
             (INIT_LIST_HEAD 32 (INIT_LIST_HEAD 8 \<lparr>nxt = \<lambda>_. 0, prv = \<lambda>_. 0\<rparr>)))"
  have "list_rep ?d ?h [100]" "list_rep ?s ?h [200]"
    by (simp_all add: list_rep_def list_d2l_def list_insert_tail_def list_head_defs ring_def)
  then show ?thesis
    using list_move_tail_concat [of ?d ?h "[100]" ?s "[200]"] by (simp add: list_d2l_def)
qed

end
