(* ===== verification/Tsd.thy ===== *)
theory Tsd
  imports Linux_List
begin

text \<open>
  Thread specific data, \<^verbatim>\<open>module/spl/spl-tsd.c\<close>.  A hash table of entries keyed by
  (key, pid).  An entry \<open>(key, DTOR_PID)\<close> anchors the ring of all entries of that
  key, an entry \<open>(PID_KEY, pid)\<close> the ring of all entries of that thread.  The store
  keeps the bins as lists of entry addresses, the entries in a heap whose domain
  is the set of allocated entries, and the two rings' pointers.  An operation
  that would follow a null pointer or a freed entry yields \<open>None\<close>, so
  that \<open>Some\<close> in a theorem says that the operation is memory safe; destructors
  are recorded in \<open>dtor_log\<close> in the order they are called.

  \<open>hash_long\<close> of the kernel is the parameter \<open>H\<close>, of which only
  \<open>H v b < 2 ^ b\<close> is used.  The result of each \<^verbatim>\<open>kmem_alloc\<close> is a parameter: \<open>None\<close>
  for failure, \<open>Some a\<close> for a fresh entry \<open>a\<close>.
\<close>

section \<open>State\<close>

definition TSD_HASH_TABLE_BITS_DEFAULT :: nat where "TSD_HASH_TABLE_BITS_DEFAULT = 9"
definition TSD_KEYS_MAX :: u32 where "TSD_KEYS_MAX = 32768"

text \<open>\<open>PID_MAX_LIMIT\<close> is the kernel's limit on 64-bit machines, 4 * 1024 * 1024.\<close>

definition DTOR_PID :: u32 where "DTOR_PID = 4194304 + 1"
definition PID_KEY :: u32 where "PID_KEY = TSD_KEYS_MAX + 1"

record tsd_hash_entry =
  he_key :: u32
  he_pid :: u32
  he_dtor :: "nat option"
  he_value :: u64

record tsd_hash_table =
  ht_bits :: nat
  ht_key :: u32
  ht_bins :: "addr list list"

record tsd_state = tsd_hash_table +
  ents :: "addr \<rightharpoonup> tsd_hash_entry"
  he_key_list :: ring_heap
  he_pid_list :: ring_heap
  dtor_log :: "(nat \<times> u64) list"

type_synonym hashfn = "u64 \<Rightarrow> nat \<Rightarrow> nat"

section \<open>Operations\<close>

definition tsd_hash :: "hashfn \<Rightarrow> nat \<Rightarrow> u32 \<Rightarrow> u32 \<Rightarrow> nat" where
  "tsd_hash H bits key pid = H (ucast key * scast pid) bits"

definition tsd_hash_search :: "hashfn \<Rightarrow> tsd_state \<Rightarrow> u32 \<Rightarrow> u32 \<Rightarrow> addr option" where
  "tsd_hash_search H s key pid =
     find (\<lambda>a. case ents s a of None \<Rightarrow> False | Some e \<Rightarrow> he_key e = key \<and> he_pid e = pid)
       (ht_bins s ! tsd_hash H (ht_bits s) key pid)"

text \<open>The body of the loop of \<^verbatim>\<open>tsd_hash_dtor\<close>: run the destructor, free the entry.\<close>

definition dtor_call :: "tsd_hash_entry \<Rightarrow> (nat \<times> u64) list" where
  "dtor_call e = (case he_dtor e of
     Some f \<Rightarrow> if he_pid e \<noteq> DTOR_PID then [(f, he_value e)] else []
   | None \<Rightarrow> [])"

definition tsd_dtor_one :: "addr \<Rightarrow> tsd_state \<Rightarrow> tsd_state option" where
  "tsd_dtor_one a s =
     (case ents s a of None \<Rightarrow> None
      | Some e \<Rightarrow> Some (s\<lparr>dtor_log := dtor_log s @ dtor_call e, ents := (ents s)(a := None)\<rparr>))"

primrec tsd_hash_dtor :: "addr list \<Rightarrow> tsd_state \<Rightarrow> tsd_state option" where
  "tsd_hash_dtor [] s = Some s"
| "tsd_hash_dtor (a # work) s = Option.bind (tsd_dtor_one a s) (tsd_hash_dtor work)"

definition hlist_add_head :: "addr \<Rightarrow> nat \<Rightarrow> tsd_state \<Rightarrow> tsd_state" where
  "hlist_add_head a i s = s\<lparr>ht_bins := (ht_bins s)[i := a # ht_bins s ! i]\<rparr>"

text \<open>A new entry with its two list heads initialised to themselves.\<close>

definition tsd_new_entry :: "addr \<Rightarrow> tsd_hash_entry \<Rightarrow> tsd_state \<Rightarrow> tsd_state" where
  "tsd_new_entry a e s = s\<lparr>ents := (ents s)(a \<mapsto> e),
     he_key_list := INIT_LIST_HEAD a (he_key_list s),
     he_pid_list := INIT_LIST_HEAD a (he_pid_list s)\<rparr>"

definition tsd_hash_add ::
  "hashfn \<Rightarrow> addr option \<Rightarrow> u32 \<Rightarrow> u32 \<Rightarrow> u64 \<Rightarrow> tsd_state \<Rightarrow> (errno option \<times> tsd_state) option" where
  "tsd_hash_add H mem key pid v s =
     (case mem of None \<Rightarrow> Some (Some ENOMEM, s)
      | Some a \<Rightarrow>
          (case tsd_hash_search H s key DTOR_PID of None \<Rightarrow> None
           | Some dtor_entry \<Rightarrow>
          (case ents s dtor_entry of None \<Rightarrow> None
           | Some de \<Rightarrow>
             let s1 = tsd_new_entry a
                  \<lparr>he_key = key, he_pid = pid, he_dtor = he_dtor de, he_value = v\<rparr> s in
          (case tsd_hash_search H s1 PID_KEY pid of None \<Rightarrow> None
           | Some pid_entry \<Rightarrow>
             let s2 = hlist_add_head a (tsd_hash H (ht_bits s1) key pid) s1
             in Some (None, s2\<lparr>he_key_list := list_add a dtor_entry (he_key_list s2),
                               he_pid_list := list_add a pid_entry (he_pid_list s2)\<rparr>)))))"

text \<open>
  The loop that looks for the next free key: it returns the counter as left in
  the table, and whether the key found is free.
\<close>

function tsd_next_key :: "hashfn \<Rightarrow> tsd_state \<Rightarrow> u32 \<Rightarrow> nat \<Rightarrow> u32 \<times> bool" where
  "tsd_next_key H s k keys_checked =
     (let k' = (if k > TSD_KEYS_MAX then 1 else k + 1)
      in if keys_checked \<ge> unat TSD_KEYS_MAX then (k', False)
         else if tsd_hash_search H s k' DTOR_PID \<noteq> None
              then tsd_next_key H s k' (keys_checked + 1)
              else (k', True))"
  by auto
termination
  by (relation "measure (\<lambda>(H, s, k, c). unat TSD_KEYS_MAX - c)") auto

definition tsd_hash_add_key ::
  "hashfn \<Rightarrow> addr option \<Rightarrow> u32 \<Rightarrow> nat option \<Rightarrow> tsd_state \<Rightarrow> errno option \<times> u32 \<times> tsd_state" where
  "tsd_hash_add_key H mem keyp dtor s =
     (case mem of None \<Rightarrow> (Some ENOMEM, keyp, s)
      | Some a \<Rightarrow>
          let (k, free) = tsd_next_key H s (ht_key s) 0;
              e = \<lparr>he_key = k, he_pid = DTOR_PID, he_dtor = dtor, he_value = 0\<rparr> in
          if \<not> free then (Some ENOENT, keyp, s\<lparr>ht_key := k, ents := (ents s)(a \<mapsto> e)\<rparr>)
          else (None, k, hlist_add_head a (tsd_hash H (ht_bits s) k DTOR_PID)
                           (tsd_new_entry a e (s\<lparr>ht_key := k\<rparr>))))"

definition tsd_hash_add_pid ::
  "hashfn \<Rightarrow> addr option \<Rightarrow> u32 \<Rightarrow> tsd_state \<Rightarrow> errno option \<times> tsd_state" where
  "tsd_hash_add_pid H mem pid s =
     (case mem of None \<Rightarrow> (Some ENOMEM, s)
      | Some a \<Rightarrow>
          (None, hlist_add_head a (tsd_hash H (ht_bits s) PID_KEY pid)
                   (tsd_new_entry a
                      \<lparr>he_key = PID_KEY, he_pid = pid, he_dtor = None, he_value = 0\<rparr> s)))"

text \<open>\<^verbatim>\<open>hlist_del\<close> takes the node off the bin it is on.\<close>

definition tsd_hash_del :: "addr \<Rightarrow> tsd_state \<Rightarrow> tsd_state" where
  "tsd_hash_del a s = s\<lparr>ht_bins := map (removeAll a) (ht_bins s),
     he_key_list := list_del_init a (he_key_list s),
     he_pid_list := list_del_init a (he_pid_list s)\<rparr>"

definition tsd_hash_table_init :: "nat \<Rightarrow> bool \<Rightarrow> bool \<Rightarrow> tsd_state option" where
  "tsd_hash_table_init bits table_ok bins_ok =
     (if \<not> table_ok then None else if \<not> bins_ok then None
      else Some \<lparr>ht_bits = bits, ht_key = 1, ht_bins = replicate (2 ^ bits) [],
             ents = (\<lambda>_. None), he_key_list = \<lparr>nxt = \<lambda>_. 0, prv = \<lambda>_. 0\<rparr>,
             he_pid_list = \<lparr>nxt = \<lambda>_. 0, prv = \<lambda>_. 0\<rparr>, dtor_log = []\<rparr>)"

text \<open>Emptying one bin, then all of them, onto the work list.\<close>

partial_function (option) tsd_fini_bin ::
  "nat \<Rightarrow> tsd_state \<Rightarrow> addr list \<Rightarrow> (tsd_state \<times> addr list) option" where
  [code]: "tsd_fini_bin i s work =
     (case ht_bins s ! i of [] \<Rightarrow> Some (s, work)
      | a # _ \<Rightarrow> if ents s a = None then None
                 else tsd_fini_bin i (tsd_hash_del a s) (a # work))"

primrec tsd_fini_bins ::
  "nat list \<Rightarrow> tsd_state \<Rightarrow> addr list \<Rightarrow> (tsd_state \<times> addr list) option" where
  "tsd_fini_bins [] s work = Some (s, work)"
| "tsd_fini_bins (i # js) s work =
     Option.bind (tsd_fini_bin i s work) (\<lambda>(s', work'). tsd_fini_bins js s' work')"

definition tsd_hash_table_fini :: "tsd_state \<Rightarrow> tsd_state option" where
  "tsd_hash_table_fini s =
     Option.bind (tsd_fini_bins [0..<2 ^ ht_bits s] s []) (\<lambda>(s', work). tsd_hash_dtor work s')"

definition tsd_remove_entry :: "hashfn \<Rightarrow> addr \<Rightarrow> tsd_state \<Rightarrow> tsd_state option" where
  "tsd_remove_entry H a s =
     (let pid_entry = nxt (he_pid_list s) a; s1 = tsd_hash_del a s; work = [a] in
      case ents s1 pid_entry of None \<Rightarrow> None
      | Some pe \<Rightarrow>
          if he_key pe = PID_KEY \<and> list_empty pid_entry (he_pid_list s1)
          then tsd_hash_dtor (pid_entry # work) (tsd_hash_del pid_entry s1)
          else tsd_hash_dtor work s1)"

definition set_value :: "addr \<Rightarrow> u64 \<Rightarrow> tsd_state \<Rightarrow> tsd_state" where
  "set_value a v s = s\<lparr>ents := (ents s)(a := map_option (\<lambda>e. e\<lparr>he_value := v\<rparr>) (ents s a))\<rparr>"

definition tsd_set ::
  "hashfn \<Rightarrow> addr option \<Rightarrow> addr option \<Rightarrow> u32 \<Rightarrow> u32 \<Rightarrow> u64 \<Rightarrow> tsd_state \<Rightarrow>
     (errno option \<times> tsd_state) option" where
  "tsd_set H pid_mem mem pid key v s =
     (if key = 0 \<or> key > TSD_KEYS_MAX then Some (Some EINVAL, s)
      else case tsd_hash_search H s key pid of
        Some a \<Rightarrow>
          let s1 = set_value a v s
          in if v = 0 then map_option (\<lambda>s2. (None, s2)) (tsd_remove_entry H a s1)
             else Some (None, s1)
      | None \<Rightarrow>
          if v = 0 then Some (None, s)
          else case tsd_hash_search H s PID_KEY pid of
            Some _ \<Rightarrow> tsd_hash_add H mem key pid v s
          | None \<Rightarrow>
              (case tsd_hash_add_pid H pid_mem pid s of
                 (Some err, s1) \<Rightarrow> Some (Some err, s1)
               | (None, s1) \<Rightarrow> tsd_hash_add H mem key pid v s1))"

definition tsd_get :: "hashfn \<Rightarrow> u32 \<Rightarrow> u32 \<Rightarrow> tsd_state \<Rightarrow> u64" where
  "tsd_get H pid key s =
     (if key = 0 \<or> key > TSD_KEYS_MAX then 0
      else case tsd_hash_search H s key pid of None \<Rightarrow> 0 | Some a \<Rightarrow> he_value (the (ents s a)))"

text \<open>The same body with the pid of another thread.\<close>

definition tsd_get_by_thread :: "hashfn \<Rightarrow> u32 \<Rightarrow> u32 \<Rightarrow> tsd_state \<Rightarrow> u64" where
  "tsd_get_by_thread H key thread_pid s =
     (if key = 0 \<or> key > TSD_KEYS_MAX then 0
      else case tsd_hash_search H s key thread_pid of None \<Rightarrow> 0 | Some a \<Rightarrow> he_value (the (ents s a)))"

definition tsd_create ::
  "hashfn \<Rightarrow> addr option \<Rightarrow> u32 \<Rightarrow> nat option \<Rightarrow> tsd_state \<Rightarrow> u32 \<times> tsd_state" where
  "tsd_create H mem keyp dtor s =
     (if keyp \<noteq> 0 then (keyp, s) else snd (tsd_hash_add_key H mem keyp dtor s))"

text \<open>
  The loop of \<^verbatim>\<open>tsd_destroy\<close> and of \<^verbatim>\<open>tsd_exit\<close>: while the ring \<open>sel s\<close> of the anchor
  holds an entry, take its first entry off the table onto the work list.
\<close>

partial_function (option) tsd_drain ::
  "(tsd_state \<Rightarrow> ring_heap) \<Rightarrow> addr \<Rightarrow> tsd_state \<Rightarrow> addr list \<Rightarrow> (tsd_state \<times> addr list) option" where
  [code]: "tsd_drain sel anchor s work =
     (if list_empty anchor (sel s) then Some (s, work)
      else let a = nxt (sel s) anchor in
           if ents s a = None then None
           else tsd_drain sel anchor (tsd_hash_del a s) (a # work))"

definition tsd_destroy :: "hashfn \<Rightarrow> u32 \<Rightarrow> tsd_state \<Rightarrow> (u32 \<times> tsd_state) option" where
  "tsd_destroy H keyp s =
     (case tsd_hash_search H s keyp DTOR_PID of None \<Rightarrow> Some (keyp, s)
      | Some dtor_entry \<Rightarrow>
          Option.bind (tsd_drain he_key_list dtor_entry s []) (\<lambda>(s1, work).
            map_option (\<lambda>s2. (0, s2))
              (tsd_hash_dtor (dtor_entry # work) (tsd_hash_del dtor_entry s1))))"

definition tsd_exit :: "hashfn \<Rightarrow> u32 \<Rightarrow> tsd_state \<Rightarrow> tsd_state option" where
  "tsd_exit H pid s =
     (case tsd_hash_search H s PID_KEY pid of None \<Rightarrow> Some s
      | Some pid_entry \<Rightarrow>
          Option.bind (tsd_drain he_pid_list pid_entry s []) (\<lambda>(s1, work).
            tsd_hash_dtor (pid_entry # work) (tsd_hash_del pid_entry s1)))"

definition spl_tsd_init :: "bool \<Rightarrow> bool \<Rightarrow> tsd_state option" where
  "spl_tsd_init table_ok bins_ok =
     tsd_hash_table_init TSD_HASH_TABLE_BITS_DEFAULT table_ok bins_ok"

definition spl_tsd_fini :: "tsd_state \<Rightarrow> tsd_state option" where
  "spl_tsd_fini s = tsd_hash_table_fini s"

declare tsd_next_key.simps [simp del]

section \<open>The invariant\<close>

text \<open>
  The linked entries form a map \<open>m\<close>; anchors are destructor and pid entries, the
  rest is data.  \<open>kmem m d\<close> and \<open>pmem m p\<close> are the data that must hang off the
  anchors \<open>d\<close> and \<open>p\<close>.
\<close>

definition hash_bound :: "hashfn \<Rightarrow> bool" where
  "hash_bound H \<longleftrightarrow> (\<forall>v b. H v b < 2 ^ b)"

definition lent :: "tsd_state \<Rightarrow> addr \<rightharpoonup> tsd_hash_entry" where
  "lent s = ents s |` set (concat (ht_bins s))"

definition is_anchor :: "tsd_hash_entry \<Rightarrow> bool" where
  "is_anchor e \<longleftrightarrow> he_pid e = DTOR_PID \<or> he_key e = PID_KEY"

definition anchors :: "(addr \<rightharpoonup> tsd_hash_entry) \<Rightarrow> addr set" where
  "anchors m = {a. \<exists>e. m a = Some e \<and> is_anchor e}"

definition kmem :: "(addr \<rightharpoonup> tsd_hash_entry) \<Rightarrow> addr \<Rightarrow> addr set" where
  "kmem m d = {a. \<exists>e f. m d = Some f \<and> he_pid f = DTOR_PID \<and>
                 m a = Some e \<and> \<not> is_anchor e \<and> he_key e = he_key f}"

definition pmem :: "(addr \<rightharpoonup> tsd_hash_entry) \<Rightarrow> addr \<Rightarrow> addr set" where
  "pmem m p = {a. \<exists>e f. m p = Some f \<and> he_pid f \<noteq> DTOR_PID \<and>
                 m a = Some e \<and> \<not> is_anchor e \<and> he_pid e = he_pid f}"

definition unique_ids :: "(addr \<rightharpoonup> tsd_hash_entry) \<Rightarrow> bool" where
  "unique_ids m \<longleftrightarrow> (\<forall>a b e f. m a = Some e \<longrightarrow> m b = Some f \<longrightarrow>
     he_key e = he_key f \<longrightarrow> he_pid e = he_pid f \<longrightarrow> a = b)"

definition anchored :: "(addr \<rightharpoonup> tsd_hash_entry) \<Rightarrow> bool" where
  "anchored m \<longleftrightarrow> (\<forall>a e. m a = Some e \<longrightarrow> \<not> is_anchor e \<longrightarrow>
     (\<exists>d f. m d = Some f \<and> he_key f = he_key e \<and> he_pid f = DTOR_PID \<and> he_dtor f = he_dtor e) \<and>
     (\<exists>p f. m p = Some f \<and> he_key f = PID_KEY \<and> he_pid f = he_pid e))"

definition sane :: "tsd_hash_entry \<Rightarrow> bool" where
  "sane e \<longleftrightarrow> he_key e \<noteq> 0 \<and> he_key e \<le> PID_KEY \<and>
     (he_key e = PID_KEY \<longrightarrow> he_pid e \<noteq> DTOR_PID \<longrightarrow> he_dtor e = None)"

definition ents_ok :: "(addr \<rightharpoonup> tsd_hash_entry) \<Rightarrow> bool" where
  "ents_ok m \<longleftrightarrow> unique_ids m \<and> anchored m \<and> (\<forall>a e. m a = Some e \<longrightarrow> sane e)"

definition rings_ok :: "(addr \<rightharpoonup> tsd_hash_entry) \<Rightarrow> ring_heap \<Rightarrow> ring_heap \<Rightarrow> bool" where
  "rings_ok m K P \<longleftrightarrow> ents_ok m \<and> rings K (anchors m) (kmem m) \<and> rings P (anchors m) (pmem m)"

definition table_ok :: "hashfn \<Rightarrow> tsd_state \<Rightarrow> bool" where
  "table_ok H s \<longleftrightarrow> length (ht_bins s) = 2 ^ ht_bits s \<and> distinct (concat (ht_bins s)) \<and>
     (\<forall>i < length (ht_bins s). \<forall>a \<in> set (ht_bins s ! i).
        \<exists>e. ents s a = Some e \<and> tsd_hash H (ht_bits s) (he_key e) (he_pid e) = i)"

definition tsd_inv :: "hashfn \<Rightarrow> tsd_state \<Rightarrow> bool" where
  "tsd_inv H s \<longleftrightarrow> table_ok H s \<and> rings_ok (lent s) (he_key_list s) (he_pid_list s) \<and>
     ht_key s \<le> PID_KEY"

section \<open>The map of linked entries under the elementary updates\<close>

lemma unique_idsD:
  "unique_ids m \<Longrightarrow> m a = Some e \<Longrightarrow> m b = Some f \<Longrightarrow> he_key e = he_key f \<Longrightarrow>
     he_pid e = he_pid f \<Longrightarrow> a = b"
  unfolding unique_ids_def by blast

lemma anchoredE:
  assumes "anchored m" "m a = Some e" "\<not> is_anchor e"
  obtains d f p g where "m d = Some f" "he_key f = he_key e" "he_pid f = DTOR_PID"
    "he_dtor f = he_dtor e" "m p = Some g" "he_key g = PID_KEY" "he_pid g = he_pid e"
  using assms unfolding anchored_def by blast

lemma unique_ids_add:
  assumes "unique_ids m" "\<And>b f. m b = Some f \<Longrightarrow> \<not> (he_key f = he_key e \<and> he_pid f = he_pid e)"
  shows "unique_ids (m(a \<mapsto> e))"
  using assms unfolding unique_ids_def by (auto split: if_splits) metis+

lemma unique_ids_del: "unique_ids m \<Longrightarrow> unique_ids (m(a := None))"
  unfolding unique_ids_def by (auto split: if_splits)

lemma anchored_add:
  assumes "anchored m" "m a = None"
    and "\<not> is_anchor e \<Longrightarrow> \<exists>d f. m d = Some f \<and> he_key f = he_key e \<and> he_pid f = DTOR_PID \<and> he_dtor f = he_dtor e"
    and "\<not> is_anchor e \<Longrightarrow> \<exists>p f. m p = Some f \<and> he_key f = PID_KEY \<and> he_pid f = he_pid e"
  shows "anchored (m(a \<mapsto> e))"
  unfolding anchored_def
proof (intro allI impI)
  fix b f
  assume b: "(m(a \<mapsto> e)) b = Some f" "\<not> is_anchor f"
  have "(\<exists>d g. m d = Some g \<and> he_key g = he_key f \<and> he_pid g = DTOR_PID \<and> he_dtor g = he_dtor f) \<and>
        (\<exists>p g. m p = Some g \<and> he_key g = PID_KEY \<and> he_pid g = he_pid f)"
  proof (cases "b = a")
    case True
    with b assms(3,4) show ?thesis by simp
  next
    case False
    with b have "m b = Some f" by simp
    with assms(1) b(2) show ?thesis unfolding anchored_def by blast
  qed
  then show "(\<exists>d g. (m(a \<mapsto> e)) d = Some g \<and> he_key g = he_key f \<and> he_pid g = DTOR_PID \<and> he_dtor g = he_dtor f) \<and>
        (\<exists>p g. (m(a \<mapsto> e)) p = Some g \<and> he_key g = PID_KEY \<and> he_pid g = he_pid f)"
    using assms(2) by (metis fun_upd_other option.distinct(1))
qed

lemma anchored_del:
  assumes "anchored m" "m a = Some e"
    and "\<And>b f. m b = Some f \<Longrightarrow> \<not> is_anchor f \<Longrightarrow>
      \<not> (he_pid e = DTOR_PID \<and> he_key e = he_key f) \<and> \<not> (he_key e = PID_KEY \<and> he_pid e = he_pid f)"
  shows "anchored (m(a := None))"
  unfolding anchored_def
proof (intro allI impI)
  fix b f
  assume b: "(m(a := None)) b = Some f" "\<not> is_anchor f"
  then have mb: "m b = Some f" by (auto split: if_splits)
  from assms(1) this b(2) obtain d g p k where dp: "m d = Some g" "he_key g = he_key f"
    "he_pid g = DTOR_PID" "he_dtor g = he_dtor f" "m p = Some k" "he_key k = PID_KEY" "he_pid k = he_pid f"
    by (rule anchoredE)
  with assms(2) assms(3) [OF mb b(2)] have "d \<noteq> a" "p \<noteq> a" by auto
  with dp show "(\<exists>d g. (m(a := None)) d = Some g \<and> he_key g = he_key f \<and> he_pid g = DTOR_PID \<and> he_dtor g = he_dtor f) \<and>
        (\<exists>p g. (m(a := None)) p = Some g \<and> he_key g = PID_KEY \<and> he_pid g = he_pid f)"
    by (metis fun_upd_other)
qed

lemma anchors_upd:
  "m a = None \<Longrightarrow> anchors (m(a \<mapsto> e)) = (if is_anchor e then insert a (anchors m) else anchors m)"
  "anchors (m(a := None)) = anchors m - {a}"
  by (auto simp: anchors_def split: if_splits)

lemma data_not_anchor: "m a = Some e \<Longrightarrow> \<not> is_anchor e \<Longrightarrow> a \<notin> anchors m"
  by (simp add: anchors_def)

lemma mem_data: "x \<in> kmem m d \<Longrightarrow> \<exists>e. m x = Some e \<and> \<not> is_anchor e"
  "x \<in> pmem m d \<Longrightarrow> \<exists>e. m x = Some e \<and> \<not> is_anchor e"
  by (auto simp: kmem_def pmem_def)

lemma no_orphan:
  assumes "anchored m" "m b = Some f" "\<not> is_anchor f"
    and "\<And>c g. m c = Some g \<Longrightarrow> \<not> (he_key g = he_key e \<and> he_pid g = he_pid e)"
  shows "\<not> (he_pid e = DTOR_PID \<and> he_key f = he_key e)"
    and "\<not> (he_key e = PID_KEY \<and> he_pid f = he_pid e)"
  using anchoredE [OF assms(1-3)] assms(4) by metis+

lemma mem_add:
  assumes "m a = None" "x \<noteq> a"
  shows "kmem (m(a \<mapsto> e)) x =
      (if \<not> is_anchor e \<and> (\<exists>f. m x = Some f \<and> he_pid f = DTOR_PID \<and> he_key f = he_key e)
       then insert a (kmem m x) else kmem m x)"
    and "pmem (m(a \<mapsto> e)) x =
      (if \<not> is_anchor e \<and> (\<exists>f. m x = Some f \<and> he_pid f \<noteq> DTOR_PID \<and> he_pid f = he_pid e)
       then insert a (pmem m x) else pmem m x)"
  using assms by (auto simp: kmem_def pmem_def)

lemma mem_del:
  assumes "x \<noteq> a"
  shows "kmem (m(a := None)) x = kmem m x - {a}" "pmem (m(a := None)) x = pmem m x - {a}"
  using assms by (auto simp: kmem_def pmem_def)

lemma unique_anchor:
  assumes "unique_ids m" "x \<in> anchors m" "m x = Some f"
  shows "m d = Some g \<Longrightarrow> he_pid f = DTOR_PID \<Longrightarrow> he_pid g = DTOR_PID \<Longrightarrow> he_key f = he_key g \<Longrightarrow> x = d"
    and "m p = Some g \<Longrightarrow> he_pid f \<noteq> DTOR_PID \<Longrightarrow> he_key g = PID_KEY \<Longrightarrow> he_pid f = he_pid g \<Longrightarrow> x = p"
proof -
  show "m d = Some g \<Longrightarrow> he_pid f = DTOR_PID \<Longrightarrow> he_pid g = DTOR_PID \<Longrightarrow> he_key f = he_key g \<Longrightarrow> x = d"
    using unique_idsD [OF assms(1,3)] by metis
  assume "m p = Some g" "he_pid f \<noteq> DTOR_PID" "he_key g = PID_KEY" "he_pid f = he_pid g"
  moreover from this(2) assms(2,3) have "he_key f = PID_KEY" by (auto simp: anchors_def is_anchor_def)
  ultimately show "x = p" using unique_idsD [OF assms(1,3)] by metis
qed

lemma rings_ok_add_anchor:
  assumes w: "rings_ok m K P" and a: "m a = None" and e: "is_anchor e" "sane e"
    and u: "\<And>b f. m b = Some f \<Longrightarrow> \<not> (he_key f = he_key e \<and> he_pid f = he_pid e)"
  shows "rings_ok (m(a \<mapsto> e)) (INIT_LIST_HEAD a K) (INIT_LIST_HEAD a P)"
proof -
  let ?m = "m(a \<mapsto> e)"
  from w have eo: "unique_ids m" "anchored m" "\<And>a e. m a = Some e \<Longrightarrow> sane e"
    and r: "rings K (anchors m) (kmem m)" "rings P (anchors m) (pmem m)"
    by (auto simp: rings_ok_def ents_ok_def)
  have "ents_ok ?m"
    using unique_ids_add [OF eo(1) u] anchored_add [OF eo(2) a, of e] e eo(3)
    by (auto simp: ents_ok_def)
  moreover have na: "a \<notin> anchors m" "a \<notin> kmem m x" "a \<notin> pmem m x" for x
    using a mem_data [of a m x] by (auto simp: anchors_def)
  have k: "kmem ?m x = ((kmem m)(a := {})) x" if "x \<in> insert a (anchors m)" for x
  proof (cases "x = a")
    case True
    with no_orphan(1) [OF eo(2) _ _ u] e show ?thesis by (auto simp: kmem_def split: if_splits)
  next
    case False
    with e show ?thesis by (simp add: mem_add [of m a, OF a])
  qed
  have p: "pmem ?m x = ((pmem m)(a := {})) x" if "x \<in> insert a (anchors m)" for x
  proof (cases "x = a")
    case True
    have "\<not> (he_pid e \<noteq> DTOR_PID \<and> he_pid f = he_pid e)" if "m b = Some f" "\<not> is_anchor f" for b f
      using no_orphan(2) [OF eo(2) that u] e by (auto simp: is_anchor_def)
    with True e show ?thesis by (auto simp: pmem_def split: if_splits)
  next
    case False
    with e show ?thesis by (simp add: mem_add [of m a, OF a])
  qed
  have "rings (INIT_LIST_HEAD a K) (anchors ?m) (kmem ?m)"
    using rings_congI [OF rings_new_anchor [OF r(1) na(1,2)] k] e(1)
    by (simp add: anchors_upd(1) [of m a, OF a])
  moreover have "rings (INIT_LIST_HEAD a P) (anchors ?m) (pmem ?m)"
    using rings_congI [OF rings_new_anchor [OF r(2) na(1,3)] p] e(1)
    by (simp add: anchors_upd(1) [of m a, OF a])
  ultimately show ?thesis by (simp add: rings_ok_def)
qed

lemma rings_ok_add_data:
  assumes w: "rings_ok m K P" and a: "m a = None" and e: "\<not> is_anchor e" "sane e"
    and u: "\<And>b f. m b = Some f \<Longrightarrow> \<not> (he_key f = he_key e \<and> he_pid f = he_pid e)"
    and d: "m d = Some df" "he_key df = he_key e" "he_pid df = DTOR_PID" "he_dtor df = he_dtor e"
    and p: "m p = Some pf" "he_key pf = PID_KEY" "he_pid pf = he_pid e"
  shows "rings_ok (m(a \<mapsto> e)) (list_add a d (INIT_LIST_HEAD a K)) (list_add a p (INIT_LIST_HEAD a P))"
proof -
  let ?m = "m(a \<mapsto> e)"
  from w have eo: "unique_ids m" "anchored m" "\<And>a e. m a = Some e \<Longrightarrow> sane e"
    and r: "rings K (anchors m) (kmem m)" "rings P (anchors m) (pmem m)"
    by (auto simp: rings_ok_def ents_ok_def)
  have "anchored ?m" by (rule anchored_add [OF eo(2) a]) (use d p in blast)+
  with unique_ids_add [OF eo(1) u] e(2) eo(3) have "ents_ok ?m" by (simp add: ents_ok_def)
  moreover have na: "a \<notin> anchors m" "a \<notin> kmem m x" "a \<notin> pmem m x" for x
    using a mem_data [of a m x] by (auto simp: anchors_def)
  have ad: "d \<in> anchors m" "p \<in> anchors m" using d p by (auto simp: anchors_def is_anchor_def)
  have k: "kmem ?m x = ((kmem m)(d := insert a (kmem m d))) x" if "x \<in> anchors m" for x
  proof -
    have "x \<noteq> a" using that na(1) by auto
    moreover have "(\<exists>f. m x = Some f \<and> he_pid f = DTOR_PID \<and> he_key f = he_key e) \<longleftrightarrow> x = d"
      using d unique_anchor(1) [OF eo(1) that _ d(1)] by metis
    ultimately show ?thesis using mem_add(1) [of m a x e, OF a] e(1) by simp
  qed
  have pd: "he_pid e \<noteq> DTOR_PID" using e by (auto simp: is_anchor_def)
  have q: "pmem ?m x = ((pmem m)(p := insert a (pmem m p))) x" if "x \<in> anchors m" for x
  proof -
    have "x \<noteq> a" using that na(1) by auto
    moreover have "(\<exists>f. m x = Some f \<and> he_pid f \<noteq> DTOR_PID \<and> he_pid f = he_pid e) \<longleftrightarrow> x = p"
      using p pd unique_anchor(2) [OF eo(1) that _ p(1)] by metis
    ultimately show ?thesis using mem_add(2) [of m a x e, OF a] e(1) by simp
  qed
  have "rings (list_add a d (INIT_LIST_HEAD a K)) (anchors ?m) (kmem ?m)"
    using rings_congI [OF rings_add [OF r(1) ad(1) na(1,2)] k] e(1)
    by (simp add: anchors_upd(1) [of m a, OF a])
  moreover have "rings (list_add a p (INIT_LIST_HEAD a P)) (anchors ?m) (pmem ?m)"
    using rings_congI [OF rings_add [OF r(2) ad(2) na(1,3)] q] e(1)
    by (simp add: anchors_upd(1) [of m a, OF a])
  ultimately show ?thesis by (simp add: rings_ok_def)
qed

lemma rings_ok_del_data:
  assumes w: "rings_ok m K P" and a: "m a = Some e" and e: "\<not> is_anchor e"
  shows "rings_ok (m(a := None)) (list_del_init a K) (list_del_init a P)"
proof -
  let ?m = "m(a := None)"
  from w have eo: "unique_ids m" "anchored m" "\<And>a e. m a = Some e \<Longrightarrow> sane e"
    and r: "rings K (anchors m) (kmem m)" "rings P (anchors m) (pmem m)"
    by (auto simp: rings_ok_def ents_ok_def)
  from eo(2) a e obtain d df p pf where d: "m d = Some df" "he_key df = he_key e" "he_pid df = DTOR_PID"
    and p: "m p = Some pf" "he_key pf = PID_KEY" "he_pid pf = he_pid e" by (rule anchoredE)
  have "ents_ok ?m"
    using unique_ids_del [OF eo(1)] anchored_del [OF eo(2) a] e eo(3)
    by (auto simp: ents_ok_def is_anchor_def)
  moreover have na: "a \<notin> anchors m" using a e by (rule data_not_anchor)
  have ad: "d \<in> anchors m" "p \<in> anchors m" using d p by (auto simp: anchors_def is_anchor_def)
  have mem: "a \<in> kmem m d" "a \<in> pmem m p"
    using a e d p by (auto simp: kmem_def pmem_def is_anchor_def)
  have mem_a: "x \<in> anchors m \<Longrightarrow> a \<in> kmem m x \<Longrightarrow> x = d" "x \<in> anchors m \<Longrightarrow> a \<in> pmem m x \<Longrightarrow> x = p" for x
    using a d p unique_anchor(1) [OF eo(1) _ _ d(1)] unique_anchor(2) [OF eo(1) _ _ p(1)]
    by (auto simp: kmem_def pmem_def)
  have k: "kmem ?m x = ((kmem m)(d := kmem m d - {a})) x" if "x \<in> anchors m" for x
  proof -
    have "x \<noteq> a" using that na by auto
    with mem_a(1) [OF that] show ?thesis by (auto simp: mem_del)
  qed
  have q: "pmem ?m x = ((pmem m)(p := pmem m p - {a})) x" if "x \<in> anchors m" for x
  proof -
    have "x \<noteq> a" using that na by auto
    with mem_a(2) [OF that] show ?thesis by (auto simp: mem_del)
  qed
  have A: "anchors ?m = anchors m" using na by (simp add: anchors_upd(2))
  have "rings (list_del_init a K) (anchors ?m) (kmem ?m)"
    using rings_congI [OF rings_del_member [OF r(1) ad(1) mem(1)] k] by (simp add: A)
  moreover have "rings (list_del_init a P) (anchors ?m) (pmem ?m)"
    using rings_congI [OF rings_del_member [OF r(2) ad(2) mem(2)] q] by (simp add: A)
  ultimately show ?thesis by (simp add: rings_ok_def)
qed

lemma rings_ok_del_anchor:
  assumes w: "rings_ok m K P" and a: "m a = Some e" and e: "is_anchor e"
    and m: "kmem m a = {}" "pmem m a = {}"
  shows "rings_ok (m(a := None)) (list_del_init a K) (list_del_init a P)"
proof -
  let ?m = "m(a := None)"
  from w have eo: "unique_ids m" "anchored m" "\<And>a e. m a = Some e \<Longrightarrow> sane e"
    and r: "rings K (anchors m) (kmem m)" "rings P (anchors m) (pmem m)"
    by (auto simp: rings_ok_def ents_ok_def)
  have "ents_ok ?m"
  proof -
    have "\<not> (he_pid e = DTOR_PID \<and> he_key e = he_key f) \<and> \<not> (he_key e = PID_KEY \<and> he_pid e = he_pid f)"
      if "m b = Some f" "\<not> is_anchor f" for b f
    proof -
      have "b \<notin> kmem m a" "b \<notin> pmem m a" using m by simp_all
      with that a show ?thesis by (simp add: kmem_def pmem_def is_anchor_def) metis
    qed
    then have "anchored ?m" by (rule anchored_del [OF eo(2) a])
    with unique_ids_del [OF eo(1)] eo(3) show ?thesis by (auto simp: ents_ok_def)
  qed
  moreover have ad: "a \<in> anchors m" using a e by (auto simp: anchors_def)
  have k: "kmem ?m x = kmem m x" "pmem ?m x = pmem m x" if "x \<in> anchors m - {a}" for x
    using that a e by (auto simp: kmem_def pmem_def)
  have "rings (list_del_init a K) (anchors ?m) (kmem ?m)"
    using rings_congI [OF rings_del_anchor [OF r(1) ad m(1)] k(1)]
    by (simp add: anchors_upd(2))
  moreover have "rings (list_del_init a P) (anchors ?m) (pmem ?m)"
    using rings_congI [OF rings_del_anchor [OF r(2) ad m(2)] k(2)]
    by (simp add: anchors_upd(2))
  ultimately show ?thesis by (simp add: rings_ok_def)
qed

lemma rings_ok_set_value:
  assumes w: "rings_ok m K P" and a: "m a = Some e"
  shows "rings_ok (m(a \<mapsto> e\<lparr>he_value := v\<rparr>)) K P"
proof -
  let ?m = "m(a \<mapsto> e\<lparr>he_value := v\<rparr>)"
  have up: "(\<exists>g. ?m b = Some g \<and> Q g) \<longleftrightarrow> (\<exists>g. m b = Some g \<and> Q g)"
    if "\<And>g. Q (g\<lparr>he_value := v\<rparr>) = Q g" for b Q
    using a that by auto
  have [simp]: "is_anchor (g\<lparr>he_value := v\<rparr>) = is_anchor g" for g by (simp add: is_anchor_def)
  have "anchors ?m = anchors m" using a by (auto simp: anchors_def)
  moreover have "kmem ?m = kmem m" "pmem ?m = pmem m"
    using a by (auto simp: fun_eq_iff kmem_def pmem_def)
  moreover have "ents_ok ?m" unfolding ents_ok_def
  proof (intro conjI allI impI)
    show "unique_ids ?m" using w a by (auto simp: rings_ok_def ents_ok_def unique_ids_def split: if_splits)
    show "sane g" if "?m b = Some g" for b g
    proof (cases "b = a")
      case True
      with w a have "sane e" by (auto simp: rings_ok_def ents_ok_def)
      with True that show ?thesis by (auto simp: sane_def)
    next
      case False
      with w that show ?thesis by (auto simp: rings_ok_def ents_ok_def)
    qed
    have an: "anchored m" using w by (simp add: rings_ok_def ents_ok_def)
    show "anchored ?m" unfolding anchored_def
    proof (intro allI impI)
      fix b f assume b: "?m b = Some f" "\<not> is_anchor f"
      obtain f' where f': "m b = Some f'" "\<not> is_anchor f'" "he_key f' = he_key f" "he_pid f' = he_pid f"
        "he_dtor f' = he_dtor f"
        using a b by (cases "b = a") auto
      from anchoredE [OF an f'(1,2)] f'(3-5)
      have "\<exists>d. \<exists>g. m d = Some g \<and> (he_key g = he_key f \<and> he_pid g = DTOR_PID \<and> he_dtor g = he_dtor f)"
        "\<exists>p. \<exists>g. m p = Some g \<and> (he_key g = PID_KEY \<and> he_pid g = he_pid f)" by metis+
      then show "(\<exists>d g. ?m d = Some g \<and> he_key g = he_key f \<and> he_pid g = DTOR_PID \<and> he_dtor g = he_dtor f) \<and>
          (\<exists>p g. ?m p = Some g \<and> he_key g = PID_KEY \<and> he_pid g = he_pid f)"
        by (subst up, simp, subst up, simp) simp
    qed
  qed
  ultimately show ?thesis using w by (simp add: rings_ok_def)
qed

section \<open>The table under the elementary updates\<close>

lemma tsd_hash_lt: "hash_bound H \<Longrightarrow> tsd_hash H b k p < 2 ^ b"
  by (simp add: hash_bound_def tsd_hash_def)

lemma lent_SomeD: "lent s a = Some e \<Longrightarrow> ents s a = Some e"
  by (auto simp: lent_def restrict_map_def split: if_splits)

lemma table_okD:
  assumes "table_ok H s" "i < 2 ^ ht_bits s" "a \<in> set (ht_bins s ! i)"
  obtains e where "ents s a = Some e" "tsd_hash H (ht_bits s) (he_key e) (he_pid e) = i"
  using assms unfolding table_ok_def by metis

lemma lent_in_bin:
  assumes "table_ok H s" "lent s a = Some e"
  shows "a \<in> set (ht_bins s ! tsd_hash H (ht_bits s) (he_key e) (he_pid e))"
proof -
  from assms(2) obtain b where b: "b \<in> set (ht_bins s)" "a \<in> set b" "ents s a = Some e"
    by (auto simp: lent_def restrict_map_def split: if_splits)
  then obtain i where i: "i < length (ht_bins s)" "ht_bins s ! i = b" by (auto simp: in_set_conv_nth)
  moreover have "length (ht_bins s) = 2 ^ ht_bits s" using assms(1) by (simp add: table_ok_def)
  ultimately have "tsd_hash H (ht_bits s) (he_key e) (he_pid e) = i"
    using table_okD [OF assms(1), of i a] b by auto
  with i b show ?thesis by simp
qed

lemma bin_in_lent:
  assumes "table_ok H s" "i < 2 ^ ht_bits s" "a \<in> set (ht_bins s ! i)"
  shows "\<exists>e. ents s a = Some e \<and> lent s a = Some e"
proof -
  have "ht_bins s ! i \<in> set (ht_bins s)" using assms(1,2) by (simp add: table_ok_def)
  with assms(3) have "lent s a = ents s a" by (auto simp: lent_def restrict_map_def)
  with table_okD [OF assms] show ?thesis by metis
qed

lemma search_Some:
  assumes H: "hash_bound H" and t: "table_ok H s" and u: "unique_ids (lent s)"
  shows "tsd_hash_search H s key pid = Some a \<longleftrightarrow>
     (\<exists>e. lent s a = Some e \<and> he_key e = key \<and> he_pid e = pid)"
proof -
  let ?i = "tsd_hash H (ht_bits s) key pid"
  let ?P = "\<lambda>a. case ents s a of None \<Rightarrow> False | Some e \<Rightarrow> he_key e = key \<and> he_pid e = pid"
  have hit: "\<exists>e. lent s b = Some e \<and> he_key e = key \<and> he_pid e = pid"
    if "find ?P (ht_bins s ! ?i) = Some b" for b
  proof -
    from that have "b \<in> set (ht_bins s ! ?i)" "?P b" by (auto simp: find_Some_iff)
    with bin_in_lent [OF t tsd_hash_lt [OF H], of b key pid] show ?thesis by (auto split: option.splits)
  qed
  show ?thesis
  proof
    assume "tsd_hash_search H s key pid = Some a"
    then show "\<exists>e. lent s a = Some e \<and> he_key e = key \<and> he_pid e = pid"
      unfolding tsd_hash_search_def by (rule hit)
  next
    assume "\<exists>e. lent s a = Some e \<and> he_key e = key \<and> he_pid e = pid"
    then obtain e where e: "lent s a = Some e" "he_key e = key" "he_pid e = pid" by blast
    with lent_in_bin [OF t e(1)] lent_SomeD [OF e(1)]
    have "find ?P (ht_bins s ! ?i) \<noteq> None" by (auto simp: find_None_iff)
    then obtain b where b: "find ?P (ht_bins s ! ?i) = Some b" by auto
    from hit [OF b] e u have "b = a" unfolding unique_ids_def by blast
    with b show "tsd_hash_search H s key pid = Some a" by (simp add: tsd_hash_search_def)
  qed
qed

lemma search_None:
  assumes "hash_bound H" "table_ok H s" "unique_ids (lent s)"
  shows "tsd_hash_search H s key pid = None \<longleftrightarrow>
     (\<forall>a e. lent s a = Some e \<longrightarrow> \<not> (he_key e = key \<and> he_pid e = pid))"
  using search_Some [OF assms] by (metis option.exhaust option.distinct(1))

lemma table_ok_add:
  assumes t: "table_ok H s" and H: "hash_bound H" and a: "ents s a = None" and e: "b = ht_bits s"
    "k = he_key e" "p = he_pid e"
  shows "table_ok H (hlist_add_head a (tsd_hash H b k p) (tsd_new_entry a e s))"
    and "lent (hlist_add_head a (tsd_hash H b k p) (tsd_new_entry a e s)) = (lent s)(a \<mapsto> e)"
proof -
  let ?i = "tsd_hash H b k p" and ?B = "ht_bins s"
  let ?s = "hlist_add_head a ?i (tsd_new_entry a e s)"
  have i: "?i < length ?B" using tsd_hash_lt [OF H] t e(1) by (simp add: table_ok_def)
  have live: "\<exists>e. ents s x = Some e" if "x \<in> set (concat ?B)" for x
    using that t by (auto simp: table_ok_def in_set_conv_nth) (metis nth_mem)
  with a have na: "a \<notin> set (concat ?B)" by fastforce
  have B: "?B = take ?i ?B @ ?B ! ?i # drop (Suc ?i) ?B" using i by (rule id_take_nth_drop)
  have B': "ht_bins ?s = take ?i ?B @ (a # ?B ! ?i) # drop (Suc ?i) ?B"
    using i by (simp add: hlist_add_head_def tsd_new_entry_def upd_conv_take_nth_drop)
  have c: "set (concat (ht_bins ?s)) = insert a (set (concat ?B))"
    unfolding B' by (subst (4) B) auto
  have "distinct (concat ?B)" using t by (simp add: table_ok_def)
  then have d: "distinct (concat (ht_bins ?s))"
    using na unfolding B' by (subst (asm) (1 2) B) auto
  have fields: "ents ?s = (ents s)(a \<mapsto> e)" "ht_bits ?s = ht_bits s" "length (ht_bins ?s) = length ?B"
    by (simp_all add: hlist_add_head_def tsd_new_entry_def)
  show "lent ?s = (lent s)(a \<mapsto> e)"
    unfolding lent_def c fields by (auto simp: restrict_map_def fun_eq_iff)
  show "table_ok H ?s" unfolding table_ok_def fields
  proof (intro conjI d allI impI ballI)
    show "length ?B = 2 ^ ht_bits s" using t by (simp add: table_ok_def)
    fix j x assume j: "j < length ?B" "x \<in> set (ht_bins ?s ! j)"
    show "\<exists>f. ((ents s)(a \<mapsto> e)) x = Some f \<and> tsd_hash H (ht_bits s) (he_key f) (he_pid f) = j"
    proof (cases "x = a")
      case True
      have "a \<notin> set (?B ! j)" using na nth_mem [OF j(1)] by auto
      with True j e have "j = ?i"
        by (cases "j = ?i") (auto simp: hlist_add_head_def tsd_new_entry_def)
      with True e show ?thesis by simp
    next
      case False
      with j have "x \<in> set (?B ! j)"
        by (cases "j = ?i") (auto simp: hlist_add_head_def tsd_new_entry_def)
      with False j t show ?thesis by (auto simp: table_ok_def)
    qed
  qed
qed

lemma concat_removeAll: "concat (map (removeAll a) bs) = removeAll a (concat bs)"
  by (induction bs) auto

lemma table_ok_del:
  assumes t: "table_ok H s"
  shows "table_ok H (tsd_hash_del a s)" and "lent (tsd_hash_del a s) = (lent s)(a := None)"
proof -
  show "lent (tsd_hash_del a s) = (lent s)(a := None)"
    by (auto simp: lent_def tsd_hash_del_def concat_removeAll restrict_map_def fun_eq_iff)
  show "table_ok H (tsd_hash_del a s)"
    using t by (auto simp: table_ok_def tsd_hash_del_def concat_removeAll distinct_removeAll)
qed

section \<open>The invariant under the operations\<close>

lemma tsd_invD:
  assumes "tsd_inv H s"
  shows "table_ok H s" "rings_ok (lent s) (he_key_list s) (he_pid_list s)" "unique_ids (lent s)"
    "anchored (lent s)" "\<And>a e. lent s a = Some e \<Longrightarrow> sane e" "ht_key s \<le> PID_KEY"
    "rings (he_key_list s) (anchors (lent s)) (kmem (lent s))"
    "rings (he_pid_list s) (anchors (lent s)) (pmem (lent s))"
  using assms by (auto simp: tsd_inv_def rings_ok_def ents_ok_def)

lemma inv_search:
  assumes "hash_bound H" "tsd_inv H s"
  shows "tsd_hash_search H s key pid = Some a \<longleftrightarrow> (\<exists>e. lent s a = Some e \<and> he_key e = key \<and> he_pid e = pid)"
    and "tsd_hash_search H s key pid = None \<longleftrightarrow> (\<forall>a e. lent s a = Some e \<longrightarrow> \<not> (he_key e = key \<and> he_pid e = pid))"
  using search_Some [OF assms(1)] search_None [OF assms(1)] tsd_invD [OF assms(2)] by blast+

lemma lent_fresh: "ents s a = None \<Longrightarrow> lent s a = None"
  by (simp add: lent_def restrict_map_def)

lemma inv_add_anchor:
  assumes H: "hash_bound H" and i: "tsd_inv H s" and a: "ents s a = None" and e: "is_anchor e" "sane e"
    and n: "tsd_hash_search H s (he_key e) (he_pid e) = None" and k: "k \<le> PID_KEY"
    and s': "s' = hlist_add_head a (tsd_hash H (ht_bits s) (he_key e) (he_pid e)) (tsd_new_entry a e (s\<lparr>ht_key := k\<rparr>))"
  shows "tsd_inv H s'" "lent s' = (lent s)(a \<mapsto> e)" "ents s' = (ents s)(a \<mapsto> e)" "dtor_log s' = dtor_log s"
proof -
  let ?s = "s\<lparr>ht_key := k\<rparr>"
  have t: "table_ok H ?s" using tsd_invD(1) [OF i] by (simp add: table_ok_def)
  have l: "lent ?s = lent s" by (simp add: lent_def)
  note u = n [unfolded inv_search(2) [OF H i]]
  note add = table_ok_add [OF t H, of a "ht_bits s" "he_key e" e "he_pid e", simplified, OF a]
  show "lent s' = (lent s)(a \<mapsto> e)" using add(2) unfolding s' l .
  moreover have "rings_ok ((lent s)(a \<mapsto> e)) (INIT_LIST_HEAD a (he_key_list s)) (INIT_LIST_HEAD a (he_pid_list s))"
    by (rule rings_ok_add_anchor [OF tsd_invD(2) [OF i] lent_fresh [OF a] e]) (use u in blast)
  ultimately show "tsd_inv H s'"
    using add(1) k unfolding s' tsd_inv_def by (simp add: hlist_add_head_def tsd_new_entry_def)
  show "ents s' = (ents s)(a \<mapsto> e)" "dtor_log s' = dtor_log s"
    by (simp_all add: s' hlist_add_head_def tsd_new_entry_def)
qed

lemma search_new_entry:
  assumes "table_ok H s" "hash_bound H" "ents s a = None"
  shows "tsd_hash_search H (tsd_new_entry a e s) key pid = tsd_hash_search H s key pid"
proof -
  let ?B = "ht_bins s ! tsd_hash H (ht_bits s) key pid"
  have "a \<notin> set ?B"
  proof
    assume "a \<in> set ?B"
    from table_okD [OF assms(1) tsd_hash_lt [OF assms(2)] this] assms(3) show False by simp
  qed
  then show ?thesis unfolding tsd_hash_search_def tsd_new_entry_def
    by (auto intro!: find_cong)
qed

lemma inv_hash_add:
  assumes H: "hash_bound H" and i: "tsd_inv H s" and a: "ents s a = None"
    and kp: "key \<noteq> 0" "key \<le> TSD_KEYS_MAX" "pid \<noteq> DTOR_PID"
    and n: "tsd_hash_search H s key pid = None"
    and d: "tsd_hash_search H s key DTOR_PID = Some d" and p: "tsd_hash_search H s PID_KEY pid = Some p"
  obtains s' e where "tsd_hash_add H (Some a) key pid v s = Some (None, s')" "tsd_inv H s'"
    "lent s' = (lent s)(a \<mapsto> e)" "ents s' = (ents s)(a \<mapsto> e)" "dtor_log s' = dtor_log s"
    "he_key e = key" "he_pid e = pid" "he_value e = v" "\<not> is_anchor e"
proof -
  note S = inv_search [OF H i]
  from d [unfolded S(1)] obtain de
    where de: "lent s d = Some de" "he_key de = key" "he_pid de = DTOR_PID" by blast
  from p [unfolded S(1)] obtain pe
    where pe: "lent s p = Some pe" "he_key pe = PID_KEY" "he_pid pe = pid" by blast
  define e where "e = \<lparr>he_key = key, he_pid = pid, he_dtor = he_dtor de, he_value = v\<rparr>"
  define s2 where "s2 = hlist_add_head a (tsd_hash H (ht_bits s) key pid) (tsd_new_entry a e s)"
  define s' where "s' = s2\<lparr>he_key_list := list_add a d (he_key_list s2), he_pid_list := list_add a p (he_pid_list s2)\<rparr>"
  have "key < PID_KEY" using kp(2) by (simp add: PID_KEY_def TSD_KEYS_MAX_def word_le_nat_alt word_less_nat_alt)
  then have e: "\<not> is_anchor e" "sane e" "he_key e = key" "he_pid e = pid"
    using kp by (auto simp: e_def is_anchor_def sane_def)
  note add = table_ok_add [OF tsd_invD(1) [OF i] H a refl e(3,4) [symmetric], folded s2_def]
  have l: "lent s' = lent s2" "table_ok H s' = table_ok H s2" by (simp_all add: s'_def lent_def table_ok_def)
  have f: "he_key_list s2 = INIT_LIST_HEAD a (he_key_list s)" "he_pid_list s2 = INIT_LIST_HEAD a (he_pid_list s)"
    "ht_key s2 = ht_key s" "ents s2 = (ents s)(a \<mapsto> e)" "dtor_log s2 = dtor_log s"
    by (simp_all add: s2_def hlist_add_head_def tsd_new_entry_def)
  have ro: "rings_ok ((lent s)(a \<mapsto> e)) (list_add a d (INIT_LIST_HEAD a (he_key_list s)))
      (list_add a p (INIT_LIST_HEAD a (he_pid_list s)))"
  proof (rule rings_ok_add_data [OF tsd_invD(2) [OF i] lent_fresh [OF a] e(1,2) _ de(1) _ de(3) _ pe(1,2)])
    show "\<not> (he_key f = he_key e \<and> he_pid f = he_pid e)" if "lent s b = Some f" for b f
      using n that unfolding S(2) e(3,4) by blast
  qed (simp_all add: de pe e_def)
  have inv: "tsd_inv H s'"
    using add ro tsd_invD(6) [OF i] l f by (simp add: tsd_inv_def s'_def)
  have "tsd_hash_add H (Some a) key pid v s = Some (None, s')"
    using d p lent_SomeD [OF de(1)] search_new_entry [OF tsd_invD(1) [OF i] H a]
    by (simp add: tsd_hash_add_def Let_def e_def [symmetric] s'_def s2_def)
      (simp add: tsd_new_entry_def)
  moreover have "lent s' = (lent s)(a \<mapsto> e)" using add(2) l(1) by simp
  moreover have "ents s' = (ents s)(a \<mapsto> e)" "dtor_log s' = dtor_log s" using f by (simp_all add: s'_def)
  moreover have "he_value e = v" by (simp add: e_def)
  ultimately show thesis using inv e by (intro that)
qed

lemma inv_del_data:
  assumes "tsd_inv H s" "lent s a = Some e" "\<not> is_anchor e"
  shows "tsd_inv H (tsd_hash_del a s)" "lent (tsd_hash_del a s) = (lent s)(a := None)"
  using table_ok_del [OF tsd_invD(1) [OF assms(1)], of a] rings_ok_del_data [OF tsd_invD(2) [OF assms(1)] assms(2,3)]
    tsd_invD(6) [OF assms(1)] by (simp_all add: tsd_inv_def) (simp_all add: tsd_hash_del_def)

lemma inv_del_anchor:
  assumes "tsd_inv H s" "lent s a = Some e" "is_anchor e" "kmem (lent s) a = {}" "pmem (lent s) a = {}"
  shows "tsd_inv H (tsd_hash_del a s)" "lent (tsd_hash_del a s) = (lent s)(a := None)"
  using table_ok_del [OF tsd_invD(1) [OF assms(1)], of a] rings_ok_del_anchor [OF tsd_invD(2) [OF assms(1)] assms(2-5)]
    tsd_invD(6) [OF assms(1)] by (simp_all add: tsd_inv_def) (simp_all add: tsd_hash_del_def)

lemma hash_del_fields [simp]:
  "ents (tsd_hash_del a s) = ents s" "dtor_log (tsd_hash_del a s) = dtor_log s"
  "he_key_list (tsd_hash_del a s) = list_del_init a (he_key_list s)"
  "he_pid_list (tsd_hash_del a s) = list_del_init a (he_pid_list s)"
  "ht_bits (tsd_hash_del a s) = ht_bits s"
  by (simp_all add: tsd_hash_del_def)

text \<open>Freeing a work list of entries that are no longer linked.\<close>

definition dtor_calls :: "(addr \<rightharpoonup> tsd_hash_entry) \<Rightarrow> addr list \<Rightarrow> (nat \<times> u64) list" where
  "dtor_calls m as = concat (map (\<lambda>a. dtor_call (the (m a))) as)"

lemma tsd_hash_dtor_eq:
  assumes "distinct work" "set work \<subseteq> dom (ents s)"
  shows "tsd_hash_dtor work s = Some (s\<lparr>dtor_log := dtor_log s @ dtor_calls (ents s) work,
                                        ents := ents s |` (- set work)\<rparr>)"
  using assms
proof (induction work arbitrary: s)
  case Nil
  then show ?case by (simp add: dtor_calls_def restrict_map_def)
next
  case (Cons a work)
  then obtain e where e: "ents s a = Some e" by auto
  let ?s = "s\<lparr>dtor_log := dtor_log s @ dtor_call e, ents := (ents s)(a := None)\<rparr>"
  have "set work \<subseteq> dom (ents ?s)" using Cons.prems by auto
  note IH = Cons.IH [OF _ this]
  have "dtor_calls ((ents s)(a := None)) work = dtor_calls (ents s) work"
    using Cons.prems(1) by (auto simp: dtor_calls_def intro!: arg_cong [of _ _ concat] map_cong)
  moreover have "(ents s)(a := None) |` (- set work) = ents s |` (- set (a # work))"
    by (auto simp: restrict_map_def fun_eq_iff)
  moreover have "tsd_hash_dtor (a # work) s = tsd_hash_dtor work ?s" using e by (simp add: tsd_dtor_one_def)
  moreover have "ents ?s = (ents s)(a := None)" by simp
  ultimately have "tsd_hash_dtor (a # work) s = Some (?s\<lparr>dtor_log := dtor_log ?s @ dtor_calls (ents s) work,
      ents := ents s |` (- set (a # work))\<rparr>)"
    using IH Cons.prems(1) by (simp only: distinct.simps simp_thms)
  also have "dtor_log ?s @ dtor_calls (ents s) work = dtor_log s @ dtor_calls (ents s) (a # work)"
    using e by (simp add: dtor_calls_def)
  finally show ?case by simp
qed

lemma inv_free:
  assumes i: "tsd_inv H s" and d: "set work \<inter> dom (lent s) = {}"
  shows "tsd_inv H (s\<lparr>dtor_log := l, ents := ents s |` (- set work)\<rparr>)"
    and "lent (s\<lparr>dtor_log := l, ents := ents s |` (- set work)\<rparr>) = lent s"
proof -
  let ?s = "s\<lparr>dtor_log := l, ents := ents s |` (- set work)\<rparr>"
  note t = tsd_invD(1) [OF i]
  show l: "lent ?s = lent s"
    using d by (auto simp: lent_def restrict_map_def fun_eq_iff dom_def split: if_splits)
  have "ents ?s a = ents s a" if "i < 2 ^ ht_bits s" "a \<in> set (ht_bins s ! i)" for i a
    using bin_in_lent [OF t that] d by (auto simp: restrict_map_def)
  then have "table_ok H ?s" using t by (simp add: table_ok_def)
  then show "tsd_inv H ?s" using i l by (simp add: tsd_inv_def)
qed

section \<open>Draining a ring\<close>

lemma anchor_no_other:
  assumes "lent s d = Some f"
  shows "he_pid f = DTOR_PID \<Longrightarrow> pmem (lent s) d = {}" "he_pid f \<noteq> DTOR_PID \<Longrightarrow> kmem (lent s) d = {}"
  using assms by (auto simp: kmem_def pmem_def)

text \<open>The two instances of the loop: the key ring and the pid ring.\<close>

definition drains ::
  "(tsd_state \<Rightarrow> ring_heap) \<Rightarrow> ((addr \<rightharpoonup> tsd_hash_entry) \<Rightarrow> addr \<Rightarrow> addr set) \<Rightarrow> bool" where
  "drains sel mem \<longleftrightarrow> sel = he_key_list \<and> mem = kmem \<or> sel = he_pid_list \<and> mem = pmem"

lemma drainsD:
  assumes "drains sel mem"
  shows "tsd_inv H s \<Longrightarrow> rings (sel s) (anchors (lent s)) (mem (lent s))"
    and "x \<in> mem m d \<Longrightarrow> \<exists>e. m x = Some e \<and> \<not> is_anchor e"
    and "d \<noteq> a \<Longrightarrow> mem (m(a := None)) d = mem m d - {a}"
proof -
  consider "sel = he_key_list" "mem = kmem" | "sel = he_pid_list" "mem = pmem"
    using assms by (auto simp: drains_def)
  note sm = this
  show "tsd_inv H s \<Longrightarrow> rings (sel s) (anchors (lent s)) (mem (lent s))"
    using sm by cases (simp_all add: tsd_invD(7,8))
  show "x \<in> mem m d \<Longrightarrow> \<exists>e. m x = Some e \<and> \<not> is_anchor e"
    using sm by cases (simp_all add: mem_data)
  show "d \<noteq> a \<Longrightarrow> mem (m(a := None)) d = mem m d - {a}"
    using sm by cases (simp_all add: mem_del)
qed

lemma finite_mem: "drains sel mem \<Longrightarrow> finite (mem (lent s) d)"
proof (rule finite_subset)
  assume d: "drains sel mem"
  show "mem (lent s) d \<subseteq> set (concat (ht_bins s))"
  proof
    fix x assume "x \<in> mem (lent s) d"
    from drainsD(2) [OF d this] obtain e where "lent s x = Some e" by blast
    then show "x \<in> set (concat (ht_bins s))" by (simp add: lent_def restrict_map_def split: if_splits)
  qed
qed simp

lemma tsd_drain_ok:
  assumes "drains sel mem" "tsd_inv H s" "d \<in> anchors (lent s)"
  shows "\<exists>s' as. tsd_drain sel d s w = Some (s', as @ w) \<and> distinct as \<and> set as = mem (lent s) d \<and>
     tsd_inv H s' \<and> lent s' = lent s |` (- mem (lent s) d) \<and> ents s' = ents s \<and> dtor_log s' = dtor_log s"
  using assms(2,3)
proof (induction "card (mem (lent s) d)" arbitrary: s w)
  case 0
  then have e: "mem (lent s) d = {}" using finite_mem [OF assms(1)] by simp
  with rings_empty_iff [OF drainsD(1) [OF assms(1) 0(2)] 0(3)]
  have "tsd_drain sel d s w = Some (s, [] @ w)" by (simp add: tsd_drain.simps)
  with 0(2) e show ?case by (intro exI [of _ s] exI [of _ "[]"]) (simp add: restrict_map_def)
next
  case (Suc n)
  note r = drainsD(1) [OF assms(1) Suc(3)]
  let ?a = "nxt (sel s) d"
  have ne: "mem (lent s) d \<noteq> {}" using Suc(2) by auto
  then have a: "?a \<in> mem (lent s) d" by (rule rings_nxt [OF r Suc(4)])
  from drainsD(2) [OF assms(1) this] obtain e where e: "lent s ?a = Some e" "\<not> is_anchor e" by blast
  let ?s = "tsd_hash_del ?a s"
  note del = inv_del_data [OF Suc(3) e]
  have da: "d \<noteq> ?a" using Suc(4) e by (auto simp: anchors_def)
  then have d: "d \<in> anchors (lent ?s)" using Suc(4) by (simp add: del(2) anchors_upd)
  have m: "mem (lent ?s) d = mem (lent s) d - {?a}" unfolding del(2) using drainsD(3) [OF assms(1) da] .
  have "n = card (mem (lent ?s) d)" using Suc(2) a finite_mem [OF assms(1)] by (simp add: m)
  from Suc(1) [OF this del(1) d, of "?a # w"] obtain s' as
    where IH: "tsd_drain sel d ?s (?a # w) = Some (s', as @ ?a # w)" "distinct as" "set as = mem (lent ?s) d"
      "tsd_inv H s'" "lent s' = lent ?s |` (- mem (lent ?s) d)" "ents s' = ents ?s" "dtor_log s' = dtor_log ?s"
    by blast
  have "tsd_drain sel d s w = Some (s', (as @ [?a]) @ w)"
    using IH(1) ne rings_empty_iff [OF r Suc(4)] lent_SomeD [OF e(1)]
    by (subst tsd_drain.simps) (simp add: Let_def)
  moreover have "distinct (as @ [?a])" "set (as @ [?a]) = mem (lent s) d" using IH(2,3) m a by auto
  moreover have "lent s' = lent s |` (- mem (lent s) d)"
    unfolding IH(5) m unfolding del(2) using a by (auto simp: restrict_map_def fun_eq_iff)
  ultimately show ?case using IH(4,6,7)
    by (intro exI [of _ s'] exI [of _ "as @ [?a]"]) simp
qed

text \<open>Drain a ring, then remove the anchor and free everything.\<close>

lemma drain_and_free:
  assumes dr: "drains sel mem" and i: "tsd_inv H s" and f: "lent s d = Some f" "is_anchor f"
    and k: "kmem (lent s) d \<subseteq> mem (lent s) d" "pmem (lent s) d \<subseteq> mem (lent s) d"
  shows "\<exists>s' as. Option.bind (tsd_drain sel d s []) (\<lambda>(s1, work). tsd_hash_dtor (d # work) (tsd_hash_del d s1)) = Some s' \<and>
     distinct as \<and> set as = mem (lent s) d \<and> tsd_inv H s' \<and>
     lent s' = lent s |` (- insert d (mem (lent s) d)) \<and> ents s' = ents s |` (- insert d (mem (lent s) d)) \<and>
     dtor_log s' = dtor_log s @ dtor_calls (ents s) (d # as)"
proof -
  let ?M = "mem (lent s) d"
  have da: "d \<in> anchors (lent s)" using f by (auto simp: anchors_def)
  obtain s1 as where D: "tsd_drain sel d s [] = Some (s1, as)" "distinct as" "set as = ?M" "tsd_inv H s1"
    "lent s1 = lent s |` (- ?M)" "ents s1 = ents s" "dtor_log s1 = dtor_log s"
    using tsd_drain_ok [OF dr i da, of "[]"] by auto
  have dM: "d \<notin> ?M" using rings_memD(1) [OF drainsD(1) [OF dr i] da da] .
  then have f1: "lent s1 d = Some f" using f D(5) by simp
  have "kmem (lent s1) d \<subseteq> kmem (lent s) d - ?M" "pmem (lent s1) d \<subseteq> pmem (lent s) d - ?M"
    unfolding D(5) by (auto simp: kmem_def pmem_def restrict_map_def split: if_splits)
  with k have "kmem (lent s1) d = {}" "pmem (lent s1) d = {}" by blast+
  note del = inv_del_anchor [OF D(4) f1 f(2) this]
  have live: "set (d # as) \<subseteq> dom (ents (tsd_hash_del d s1))"
  proof
    fix x assume "x \<in> set (d # as)"
    then consider "x = d" | "x \<in> ?M" using D(3) by auto
    then show "x \<in> dom (ents (tsd_hash_del d s1))"
    proof cases
      case 1
      with lent_SomeD [OF f(1)] D(6) show ?thesis by auto
    next
      case 2
      from drainsD(2) [OF dr this] lent_SomeD D(6) show ?thesis by fastforce
    qed
  qed
  have dis: "distinct (d # as)" "set (d # as) \<inter> dom (lent (tsd_hash_del d s1)) = {}"
    using D(2,3,5) dM by (auto simp: del(2) restrict_map_def split: if_splits)
  note fr = tsd_hash_dtor_eq [OF dis(1) live] and inv = inv_free [OF del(1) dis(2)]
  have L: "(lent s |` (- ?M))(d := None) = lent s |` (- insert d ?M)"
    by (auto simp: restrict_map_def fun_eq_iff)
  let ?s = "tsd_hash_del d s1\<lparr>dtor_log := dtor_log s @ dtor_calls (ents s) (d # as), ents := ents s |` (- set (d # as))\<rparr>"
  have "Option.bind (tsd_drain sel d s []) (\<lambda>(s1, work). tsd_hash_dtor (d # work) (tsd_hash_del d s1)) = Some ?s"
    using D(1,6,7) fr by simp
  moreover have "tsd_inv H ?s" "lent ?s = lent s |` (- insert d ?M)"
    using inv [of "dtor_log s @ dtor_calls (ents s) (d # as)"] D(6) L by (simp_all add: del(2) D(5))
  ultimately show ?thesis using D(2,3) by (intro exI [of _ ?s] exI [of _ as]) simp
qed

section \<open>Reading\<close>

lemma get_Some:
  assumes "hash_bound H" "tsd_inv H s" "lent s a = Some e" "he_key e = key" "he_pid e = pid"
    "key \<noteq> 0" "key \<le> TSD_KEYS_MAX"
  shows "tsd_get H pid key s = he_value e"
proof -
  have "tsd_hash_search H s key pid = Some a" using inv_search(1) [OF assms(1,2)] assms(3-5) by blast
  with assms(6,7) lent_SomeD [OF assms(3)] show ?thesis by (auto simp: tsd_get_def not_less)
qed

lemma get_None:
  assumes "hash_bound H" "tsd_inv H s" "\<And>a e. lent s a = Some e \<Longrightarrow> he_key e = key \<Longrightarrow> he_pid e \<noteq> pid"
  shows "tsd_get H pid key s = 0"
proof -
  have "tsd_hash_search H s key pid = None" using inv_search(2) [OF assms(1,2)] assms(3) by blast
  then show ?thesis by (simp add: tsd_get_def)
qed

lemma get_bad_key: "key = 0 \<or> key > TSD_KEYS_MAX \<Longrightarrow> tsd_get H pid key s = 0"
  by (auto simp: tsd_get_def)

lemma get_frame:
  assumes H: "hash_bound H" and i: "tsd_inv H s" "tsd_inv H s'"
    and eq: "\<And>a e. he_key e = key \<Longrightarrow> he_pid e = pid \<Longrightarrow> lent s' a = Some e \<longleftrightarrow> lent s a = Some e"
  shows "tsd_get H pid key s' = tsd_get H pid key s"
proof (cases "key \<noteq> 0 \<and> key \<le> TSD_KEYS_MAX \<and> (\<exists>a e. lent s a = Some e \<and> he_key e = key \<and> he_pid e = pid)")
  case True
  then obtain a e where e: "lent s a = Some e" "he_key e = key" "he_pid e = pid" by blast
  with eq have "lent s' a = Some e" by blast
  with e True get_Some [OF H i(1)] get_Some [OF H i(2)] show ?thesis by metis
next
  case False
  then consider "key = 0 \<or> key > TSD_KEYS_MAX" | "\<And>a e. lent s a = Some e \<Longrightarrow> he_key e = key \<Longrightarrow> he_pid e \<noteq> pid"
    by (auto simp: not_le)
  then show ?thesis
  proof cases
    case 1
    then show ?thesis by (simp add: get_bad_key)
  next
    case 2
    with eq have "\<And>a e. lent s' a = Some e \<Longrightarrow> he_key e = key \<Longrightarrow> he_pid e \<noteq> pid" by blast
    from get_None [OF H i(2) this] get_None [OF H i(1) 2] show ?thesis by simp
  qed
qed

definition issued :: "hashfn \<Rightarrow> u32 \<Rightarrow> tsd_state \<Rightarrow> bool" where
  "issued H key s \<longleftrightarrow> tsd_hash_search H s key DTOR_PID \<noteq> None"

lemma issued_iff:
  "hash_bound H \<Longrightarrow> tsd_inv H s \<Longrightarrow>
     issued H key s \<longleftrightarrow> (\<exists>a e. lent s a = Some e \<and> he_key e = key \<and> he_pid e = DTOR_PID)"
  by (auto simp: issued_def inv_search)

lemma key_lt_PID_KEY: "key \<le> TSD_KEYS_MAX \<Longrightarrow> key < PID_KEY"
  by (simp add: PID_KEY_def TSD_KEYS_MAX_def word_le_nat_alt word_less_nat_alt)

section \<open>Removing one entry\<close>

lemma pid_anchor:
  assumes i: "tsd_inv H s" and a: "lent s a = Some e" "\<not> is_anchor e"
  obtains p pf where "lent s p = Some pf" "he_key pf = PID_KEY" "he_pid pf = he_pid e" "he_pid pf \<noteq> DTOR_PID"
    "p \<noteq> a" "p \<in> anchors (lent s)" "a \<in> pmem (lent s) p"
    "\<And>q f. lent s q = Some f \<Longrightarrow> he_key f = PID_KEY \<Longrightarrow> he_pid f = he_pid e \<Longrightarrow> q = p"
proof -
  from tsd_invD(4) [OF i] a obtain d df p pf where
    p: "lent s p = Some pf" "he_key pf = PID_KEY" "he_pid pf = he_pid e" by (rule anchoredE)
  moreover have "he_pid pf \<noteq> DTOR_PID" using a(2) p(3) by (simp add: is_anchor_def)
  moreover have "p \<noteq> a" "p \<in> anchors (lent s)" using a p by (auto simp: anchors_def is_anchor_def)
  moreover have "a \<in> pmem (lent s) p" using a p calculation(4) by (auto simp: pmem_def)
  moreover have "q = p" if "lent s q = Some f" "he_key f = PID_KEY" "he_pid f = he_pid e" for q f
    using unique_idsD [OF tsd_invD(3) [OF i] that(1) p(1)] that p by simp
  ultimately show thesis by (rule that)
qed

text \<open>The successor of an entry on its pid ring is the pid entry or other data.\<close>

lemma pid_next:
  assumes i: "tsd_inv H s" and p: "lent s p = Some pf" "he_key pf = PID_KEY" "p \<in> anchors (lent s)"
    and a: "a \<in> pmem (lent s) p"
  obtains nf where "lent s (nxt (he_pid_list s) a) = Some nf"
    "he_key nf = PID_KEY \<longleftrightarrow> nxt (he_pid_list s) a = p"
    "pmem (lent s) p = {a} \<Longrightarrow> nxt (he_pid_list s) a = p"
proof -
  let ?m = "lent s" and ?n = "nxt (he_pid_list s) a"
  obtain xs where xs: "ring (he_pid_list s) p xs" "set xs = pmem ?m p"
    using tsd_invD(8) [OF i] p(3) by (rule ringsD)
  have nin: "?n \<in> insert p (pmem ?m p)" using ring_nxt_in [OF xs(1), of a] a xs(2) by auto
  obtain nf where nf: "?m ?n = Some nf" using nin p(1) mem_data(2) [of ?n ?m p] by auto
  moreover have "he_key nf = PID_KEY \<longleftrightarrow> ?n = p"
  proof
    assume "he_key nf = PID_KEY"
    then have "is_anchor nf" by (simp add: is_anchor_def)
    with nin nf mem_data(2) [of ?n ?m p] show "?n = p" by auto
  qed (use nf p in auto)
  moreover have "?n = p" if "pmem ?m p = {a}"
  proof -
    have "distinct xs" using xs(1) by auto
    then have "xs = [a]" by (rule distinct_singleton_set) (simp add: xs(2) that)
    with xs(1) show ?thesis by (simp add: ring_def)
  qed
  ultimately show thesis by (rule that)
qed

lemma remove_entry_ok:
  assumes i: "tsd_inv H s" and a: "lent s a = Some e" "\<not> is_anchor e"
  obtains s' D where "tsd_remove_entry H a s = Some s'" "tsd_inv H s'" "a \<in> D" "D \<subseteq> insert a (anchors (lent s))"
    "lent s' = lent s |` (- D)" "dtor_log s' = dtor_log s @ dtor_call e"
    "\<And>x f. x \<in> D \<Longrightarrow> lent s x = Some f \<Longrightarrow> x \<noteq> a \<Longrightarrow> he_key f = PID_KEY \<and> he_pid f \<noteq> DTOR_PID"
    "\<And>p f. lent s p = Some f \<Longrightarrow> he_key f = PID_KEY \<Longrightarrow> he_pid f = he_pid e \<Longrightarrow>
        p \<in> D \<longleftrightarrow> pmem (lent s) p = {a}"
proof -
  let ?m = "lent s" and ?n = "nxt (he_pid_list s) a" and ?s1 = "tsd_hash_del a s"
  obtain p pf where p: "?m p = Some pf" "he_key pf = PID_KEY" "he_pid pf = he_pid e" and pd: "he_pid pf \<noteq> DTOR_PID"
    and pne: "p \<noteq> a" and pa: "p \<in> anchors ?m" and am: "a \<in> pmem ?m p"
    and uq: "\<And>q f. ?m q = Some f \<Longrightarrow> he_key f = PID_KEY \<Longrightarrow> he_pid f = he_pid e \<Longrightarrow> q = p"
    using i a by (rule pid_anchor) blast
  obtain nf where nf: "?m ?n = Some nf" "he_key nf = PID_KEY \<longleftrightarrow> ?n = p" "pmem ?m p = {a} \<Longrightarrow> ?n = p"
    using i p(1,2) pa am by (rule pid_next) blast
  note del = inv_del_data [OF i a]
  have m1: "pmem (lent ?s1) p = pmem ?m p - {a}"
    unfolding del(2) using pne by (rule mem_del)
  have p1: "lent ?s1 p = Some pf" "p \<in> anchors (lent ?s1)" using pne p pa by (simp_all add: del(2) anchors_upd)
  note emp = rings_empty_iff [OF tsd_invD(8) [OF del(1)] p1(2)]
  show thesis
  proof (cases "pmem ?m p = {a}")
    case True
    then have np: "?n = p" by (rule nf(3))
    have "kmem (lent ?s1) p = {}" using p1(1) pd by (auto simp: kmem_def)
    moreover have "pmem (lent ?s1) p = {}" using m1 True by simp
    moreover have pfa: "is_anchor pf" using p(2) by (simp add: is_anchor_def)
    ultimately have del2: "tsd_inv H (tsd_hash_del p ?s1)"
      "lent (tsd_hash_del p ?s1) = (lent ?s1)(p := None)"
      using inv_del_anchor [OF del(1) p1(1)] by blast+
    have w: "distinct [p, a]" "set [p, a] \<subseteq> dom (ents (tsd_hash_del p ?s1))"
      "set [p, a] \<inter> dom (lent (tsd_hash_del p ?s1)) = {}"
      using pne lent_SomeD [OF a(1)] lent_SomeD [OF p(1)] by (auto simp: del2(2) del(2))
    have pc: "dtor_call pf = []"
      using tsd_invD(5) [OF i p(1)] p(2) pd by (simp add: sane_def dtor_call_def)
    let ?s' = "tsd_hash_del p ?s1\<lparr>dtor_log := dtor_log s @ dtor_call e, ents := ents s |` (- set [p, a])\<rparr>"
    have R: "tsd_remove_entry H a s = Some ?s'"
      using np p lent_SomeD [OF p(1)] lent_SomeD [OF a(1)] emp m1 True tsd_hash_dtor_eq [OF w(1,2)] pc
      by (simp add: tsd_remove_entry_def Let_def dtor_calls_def)
    have I: "tsd_inv H ?s'" "lent ?s' = ?m |` (- {a, p})"
      using inv_free [OF del2(1) w(3), of "dtor_log s @ dtor_call e"]
      by (auto simp: del2(2) del(2) restrict_map_def fun_eq_iff)
    have Q: "q \<in> {a, p} \<longleftrightarrow> pmem ?m q = {a}"
      if "?m q = Some f" "he_key f = PID_KEY" "he_pid f = he_pid e" for q f
      using uq [OF that] True by simp
    have K: "he_key f = PID_KEY \<and> he_pid f \<noteq> DTOR_PID"
      if "x \<in> {a, p}" "?m x = Some f" "x \<noteq> a" for x f
      using that p pd by auto
    show thesis
    proof (rule that [OF R I(1) _ _ I(2)])
      show "he_key f = PID_KEY \<and> he_pid f \<noteq> DTOR_PID"
        if "x \<in> {a, p}" "?m x = Some f" "x \<noteq> a" for x f using that by (rule K)
      show "q \<in> {a, p} \<longleftrightarrow> pmem ?m q = {a}"
        if "?m q = Some f" "he_key f = PID_KEY" "he_pid f = he_pid e" for q f using that by (rule Q)
    qed (use pa in simp_all)
  next
    case False
    with am have ne: "pmem (lent ?s1) p \<noteq> {}" by (auto simp: m1)
    have w: "distinct [a]" "set [a] \<subseteq> dom (ents ?s1)" "set [a] \<inter> dom (lent ?s1) = {}"
      using lent_SomeD [OF a(1)] by (auto simp: del(2))
    let ?s' = "?s1\<lparr>dtor_log := dtor_log s @ dtor_call e, ents := ents s |` (- set [a])\<rparr>"
    have R: "tsd_remove_entry H a s = Some ?s'"
      using lent_SomeD [OF nf(1)] nf(2) emp ne lent_SomeD [OF a(1)] tsd_hash_dtor_eq [OF w(1,2)]
      by (auto simp: tsd_remove_entry_def Let_def dtor_calls_def)
    have I: "tsd_inv H ?s'" "lent ?s' = ?m |` (- {a})"
      using inv_free [OF del(1) w(3), of "dtor_log s @ dtor_call e"]
      by (auto simp: del(2) restrict_map_def fun_eq_iff)
    have Q: "q \<in> {a} \<longleftrightarrow> pmem ?m q = {a}"
      if "?m q = Some f" "he_key f = PID_KEY" "he_pid f = he_pid e" for q f
      using uq [OF that] False pne by simp
    show thesis
    proof (rule that [OF R I(1) _ _ I(2)])
      show "q \<in> {a} \<longleftrightarrow> pmem ?m q = {a}"
        if "?m q = Some f" "he_key f = PID_KEY" "he_pid f = he_pid e" for q f using that by (rule Q)
    qed simp_all
  qed
qed

section \<open>What tsd\_set does\<close>

lemma inv_set_value:
  assumes i: "tsd_inv H s" and a: "lent s a = Some e"
  shows "tsd_inv H (set_value a v s)" "lent (set_value a v s) = (lent s)(a \<mapsto> e\<lparr>he_value := v\<rparr>)"
    "ents (set_value a v s) = (ents s)(a \<mapsto> e\<lparr>he_value := v\<rparr>)" "dtor_log (set_value a v s) = dtor_log s"
proof -
  have ea: "ents s a = Some e" using a by (rule lent_SomeD)
  then show en: "ents (set_value a v s) = (ents s)(a \<mapsto> e\<lparr>he_value := v\<rparr>)" by (simp add: set_value_def)
  have f: "ht_bins (set_value a v s) = ht_bins s" "ht_bits (set_value a v s) = ht_bits s" "ht_key (set_value a v s) = ht_key s"
    "he_key_list (set_value a v s) = he_key_list s" "he_pid_list (set_value a v s) = he_pid_list s"
    by (simp_all add: set_value_def)
  show "dtor_log (set_value a v s) = dtor_log s" by (simp add: set_value_def)
  show l: "lent (set_value a v s) = (lent s)(a \<mapsto> e\<lparr>he_value := v\<rparr>)"
    using a by (auto simp: lent_def en f restrict_map_def fun_eq_iff split: if_splits)
  have "table_ok H (set_value a v s)" unfolding table_ok_def f en
  proof (intro conjI allI impI ballI)
    show "length (ht_bins s) = 2 ^ ht_bits s" "distinct (concat (ht_bins s))"
      using tsd_invD(1) [OF i] by (simp_all add: table_ok_def)
    fix j x assume "j < length (ht_bins s)" and x: "x \<in> set (ht_bins s ! j)"
    then have "j < 2 ^ ht_bits s" using tsd_invD(1) [OF i] by (simp add: table_ok_def)
    from tsd_invD(1) [OF i] this x obtain g
      where "ents s x = Some g" "tsd_hash H (ht_bits s) (he_key g) (he_pid g) = j" by (rule table_okD)
    with ea show "\<exists>g. ((ents s)(a \<mapsto> e\<lparr>he_value := v\<rparr>)) x = Some g \<and>
        tsd_hash H (ht_bits s) (he_key g) (he_pid g) = j" by (cases "x = a") auto
  qed
  then show "tsd_inv H (set_value a v s)"
    using rings_ok_set_value [OF tsd_invD(2) [OF i] a] tsd_invD(6) [OF i] by (simp add: tsd_inv_def l f)
qed

text \<open>Two maps that differ at most in the entry of \<open>(key, pid)\<close> and in pid entries.\<close>

definition same_else :: "u32 \<Rightarrow> u32 \<Rightarrow> (addr \<rightharpoonup> tsd_hash_entry) \<Rightarrow> (addr \<rightharpoonup> tsd_hash_entry) \<Rightarrow> bool" where
  "same_else key pid m m' \<longleftrightarrow> (\<forall>a e. \<not> (he_key e = key \<and> he_pid e = pid) \<longrightarrow>
     \<not> (he_key e = PID_KEY \<and> he_pid e \<noteq> DTOR_PID) \<longrightarrow> (m' a = Some e \<longleftrightarrow> m a = Some e))"

lemma same_else_trans: "same_else k p m m' \<Longrightarrow> same_else k p m' m'' \<Longrightarrow> same_else k p m m''"
  by (simp add: same_else_def)

lemma same_else_frame:
  assumes H: "hash_bound H" and i: "tsd_inv H s" "tsd_inv H s'" and p: "pid \<noteq> DTOR_PID"
    and f: "same_else key pid (lent s) (lent s')"
  shows "(p', k) \<noteq> (pid, key) \<Longrightarrow> tsd_get H p' k s' = tsd_get H p' k s"
    and "issued H k s' = issued H k s"
proof -
  have "lent s' a = Some e \<longleftrightarrow> lent s a = Some e"
    if "he_key e = k" "he_pid e = DTOR_PID" for a e
    using f that p unfolding same_else_def by metis
  then show "issued H k s' = issued H k s" unfolding issued_iff [OF H i(1)] issued_iff [OF H i(2)] by blast
  assume ne: "(p', k) \<noteq> (pid, key)"
  show "tsd_get H p' k s' = tsd_get H p' k s"
  proof (cases "k \<le> TSD_KEYS_MAX")
    case True
    then have "k \<noteq> PID_KEY" using key_lt_PID_KEY [of k] by auto
    then show ?thesis using f ne by (intro get_frame [OF H i]) (auto simp: same_else_def)
  next
    case False
    then show ?thesis by (simp add: get_bad_key not_le)
  qed
qed

lemma tsd_set_update:
  assumes H: "hash_bound H" and i: "tsd_inv H s" and kp: "key \<noteq> 0" "key \<le> TSD_KEYS_MAX" "pid \<noteq> DTOR_PID"
    and a: "lent s a = Some e" "he_key e = key" "he_pid e = pid"
  shows "\<exists>s'. tsd_set H pm mm pid key v s = Some (None, s') \<and> tsd_inv H s' \<and> same_else key pid (lent s) (lent s') \<and>
     (v \<noteq> 0 \<longrightarrow> (\<exists>b f. lent s' b = Some f \<and> he_key f = key \<and> he_pid f = pid \<and> he_value f = v)) \<and>
     (v = 0 \<longrightarrow> (\<forall>b f. lent s' b = Some f \<longrightarrow> he_key f = key \<longrightarrow> he_pid f \<noteq> pid)) \<and>
     dtor_log s' = dtor_log s @ (if v = 0 then dtor_call (e\<lparr>he_value := 0\<rparr>) else [])"
proof -
  have se: "tsd_hash_search H s key pid = Some a" using inv_search(1) [OF H i] a by blast
  note sv = inv_set_value [OF i a(1), of v]
  let ?e = "e\<lparr>he_value := v\<rparr>" and ?s = "set_value a v s"
  have lk: "\<not> (key = 0 \<or> TSD_KEYS_MAX < key)" using kp by (simp add: not_less)
  have so: "same_else key pid (lent s) (lent ?s)"
    unfolding sv(2) using a by (auto simp: same_else_def)
  show ?thesis
  proof (cases "v = 0")
    case False
    with se lk have "tsd_set H pm mm pid key v s = Some (None, ?s)" by (simp add: tsd_set_def Let_def)
    moreover have "\<exists>b f. lent ?s b = Some f \<and> he_key f = key \<and> he_pid f = pid \<and> he_value f = v"
      using a by (intro exI [of _ a] exI [of _ ?e]) (simp add: sv(2))
    ultimately show ?thesis using False sv(1,4) so by (intro exI [of _ ?s]) simp
  next
    case True
    have e': "lent ?s a = Some ?e" "\<not> is_anchor ?e"
      using a kp key_lt_PID_KEY [OF kp(2)] by (auto simp: sv(2) is_anchor_def)
    from sv(1) e' obtain s' D where R: "tsd_remove_entry H a ?s = Some s'" "tsd_inv H s'" "a \<in> D"
      "D \<subseteq> insert a (anchors (lent ?s))" "lent s' = lent ?s |` (- D)" "dtor_log s' = dtor_log ?s @ dtor_call ?e"
      "\<And>x f. x \<in> D \<Longrightarrow> lent ?s x = Some f \<Longrightarrow> x \<noteq> a \<Longrightarrow> he_key f = PID_KEY \<and> he_pid f \<noteq> DTOR_PID"
      by (rule remove_entry_ok) blast
    have "tsd_set H pm mm pid key v s = Some (None, s')" using se lk True R(1) by (simp add: tsd_set_def Let_def)
    moreover have "same_else key pid (lent ?s) (lent s')" unfolding same_else_def
    proof (intro allI impI)
      fix x and f :: tsd_hash_entry assume n: "\<not> (he_key f = key \<and> he_pid f = pid)" "\<not> (he_key f = PID_KEY \<and> he_pid f \<noteq> DTOR_PID)"
      have "x \<notin> D" if "lent ?s x = Some f"
        using R(7) [OF _ that] n that e'(1) a by (cases "x = a") auto
      then show "lent s' x = Some f \<longleftrightarrow> lent ?s x = Some f" unfolding R(5) by (auto simp: restrict_map_def)
    qed
    then have "same_else key pid (lent s) (lent s')" by (rule same_else_trans [OF so])
    moreover have "he_pid f \<noteq> pid" if b: "lent s' b = Some f" "he_key f = key" for b f
    proof
      assume "he_pid f = pid"
      moreover have "lent ?s b = Some f" "b \<noteq> a"
        using b R(3) unfolding R(5) by (auto simp: restrict_map_def split: if_splits)
      ultimately show False
        using unique_idsD [OF tsd_invD(3) [OF sv(1)] _ e'(1)] b(2) a by auto
    qed
    ultimately show ?thesis using True R(2,6) sv(4) by (intro exI [of _ s']) auto
  qed
qed

lemma same_else_add:
  assumes "m a = None" "he_key e = key \<and> he_pid e = pid \<or> he_key e = PID_KEY \<and> he_pid e \<noteq> DTOR_PID"
  shows "same_else key pid m (m(a \<mapsto> e))"
  using assms by (auto simp: same_else_def)

lemma hash_add_pid_ok:
  assumes H: "hash_bound H" and i: "tsd_inv H s" and p: "pid \<noteq> DTOR_PID" and a: "ents s a = None"
    and n: "tsd_hash_search H s PID_KEY pid = None"
  obtains t where "tsd_hash_add_pid H (Some a) pid s = (None, t)" "tsd_inv H t"
    "\<And>key. same_else key pid (lent s) (lent t)" "tsd_hash_search H t PID_KEY pid = Some a"
    "\<And>key. key \<noteq> PID_KEY \<Longrightarrow> tsd_hash_search H s key pid = None \<Longrightarrow> tsd_hash_search H t key pid = None"
    "\<And>b. b \<noteq> a \<Longrightarrow> ents t b = ents s b" "dtor_log t = dtor_log s"
proof -
  let ?e = "\<lparr>he_key = PID_KEY, he_pid = pid, he_dtor = None, he_value = 0\<rparr>"
  define t where "t = hlist_add_head a (tsd_hash H (ht_bits s) PID_KEY pid) (tsd_new_entry a ?e s)"
  have e: "is_anchor ?e" "sane ?e" by (simp_all add: is_anchor_def sane_def PID_KEY_def TSD_KEYS_MAX_def)
  have "t = hlist_add_head a (tsd_hash H (ht_bits s) (he_key ?e) (he_pid ?e)) (tsd_new_entry a ?e (s\<lparr>ht_key := ht_key s\<rparr>))"
    by (simp add: t_def)
  from inv_add_anchor [OF H i a e _ tsd_invD(6) [OF i] this] n
  have t: "tsd_inv H t" "lent t = (lent s)(a \<mapsto> ?e)" "ents t = (ents s)(a \<mapsto> ?e)" "dtor_log t = dtor_log s"
    by simp_all
  show thesis
  proof (rule that)
    show "tsd_hash_add_pid H (Some a) pid s = (None, t)" by (simp add: tsd_hash_add_pid_def t_def)
    show "tsd_inv H t" "dtor_log t = dtor_log s" by fact+
    show "same_else key pid (lent s) (lent t)" for key
      unfolding t(2) by (rule same_else_add [of "lent s" a, OF lent_fresh [OF a]]) (use p in simp)
    show "tsd_hash_search H t PID_KEY pid = Some a" unfolding inv_search(1) [OF H t(1)] t(2) by simp
    show "tsd_hash_search H t key pid = None" if "key \<noteq> PID_KEY" "tsd_hash_search H s key pid = None" for key
      using that unfolding inv_search(2) [OF H i] inv_search(2) [OF H t(1)] t(2) by auto
    show "ents t b = ents s b" if "b \<noteq> a" for b using that by (simp add: t(3))
  qed
qed

lemma hash_add_ok:
  assumes H: "hash_bound H" and kp: "key \<noteq> 0" "key \<le> TSD_KEYS_MAX" "pid \<noteq> DTOR_PID"
    and t: "tsd_inv H t" "ents t b = None" "tsd_hash_search H t key pid = None" "issued H key t"
      "tsd_hash_search H t PID_KEY pid = Some p"
  shows "\<exists>s'. tsd_hash_add H (Some b) key pid v t = Some (None, s') \<and> tsd_inv H s' \<and>
      same_else key pid (lent t) (lent s') \<and> dtor_log s' = dtor_log t \<and>
      (\<exists>b f. lent s' b = Some f \<and> he_key f = key \<and> he_pid f = pid \<and> he_value f = v)"
proof -
  obtain dd where "tsd_hash_search H t key DTOR_PID = Some dd" using t(4) by (auto simp: issued_def)
  then obtain s' e where A: "tsd_hash_add H (Some b) key pid v t = Some (None, s')" "tsd_inv H s'"
    "lent s' = (lent t)(b \<mapsto> e)" "dtor_log s' = dtor_log t" "he_key e = key" "he_pid e = pid" "he_value e = v"
    using inv_hash_add [OF H t(1,2) kp t(3) _ t(5)] by metis
  from same_else_add [of "lent t" b, OF lent_fresh [OF t(2)]] A(5,6) have "same_else key pid (lent t) (lent s')"
    unfolding A(3) by blast
  with A show ?thesis by (intro exI [of _ s'] conjI exI [of _ b] exI [of _ e]) simp_all
qed

lemma tsd_set_insert:
  assumes H: "hash_bound H" and i: "tsd_inv H s" and kp: "key \<noteq> 0" "key \<le> TSD_KEYS_MAX" "pid \<noteq> DTOR_PID"
    and n: "tsd_hash_search H s key pid = None" and d: "issued H key s"
    and m: "ents s a = None" "ents s b = None" "a \<noteq> b" and v: "v \<noteq> 0"
  shows "\<exists>s'. tsd_set H (Some a) (Some b) pid key v s = Some (None, s') \<and> tsd_inv H s' \<and>
     same_else key pid (lent s) (lent s') \<and> dtor_log s' = dtor_log s \<and>
     (\<exists>b f. lent s' b = Some f \<and> he_key f = key \<and> he_pid f = pid \<and> he_value f = v)"
proof (cases "tsd_hash_search H s PID_KEY pid")
  case (Some p)
  have "\<not> (key = 0 \<or> TSD_KEYS_MAX < key)" using kp by (simp add: not_less)
  with hash_add_ok [OF H kp i m(2) n d Some, of v] n v Some show ?thesis by (simp add: tsd_set_def)
next
  case None
  have lk: "\<not> (key = 0 \<or> TSD_KEYS_MAX < key)" using kp by (simp add: not_less)
  obtain t where t: "tsd_hash_add_pid H (Some a) pid s = (None, t)" "tsd_inv H t"
    and so: "same_else key pid (lent s) (lent t)" and tp: "tsd_hash_search H t PID_KEY pid = Some a"
    and tn: "key \<noteq> PID_KEY \<Longrightarrow> tsd_hash_search H s key pid = None \<Longrightarrow> tsd_hash_search H t key pid = None"
    and te: "b \<noteq> a \<Longrightarrow> ents t b = ents s b" and tl: "dtor_log t = dtor_log s"
    using H i kp(3) m(1) None by (rule hash_add_pid_ok) blast
  have "key \<noteq> PID_KEY" using key_lt_PID_KEY [OF kp(2)] by simp
  then have t2: "tsd_hash_search H t key pid = None" using tn n by blast
  have t3: "issued H key t" using same_else_frame(2) [OF H i t(2) kp(3) so] d by simp
  have t4: "ents t b = None" using te m by simp
  have "tsd_set H (Some a) (Some b) pid key v s = tsd_hash_add H (Some b) key pid v t"
    using n lk v None t(1) by (simp add: tsd_set_def)
  with hash_add_ok [OF H kp t(2) t4 t2 t3 tp, of v] tl same_else_trans [OF so] show ?thesis by metis
qed

lemma tsd_set_nomem:
  assumes H: "hash_bound H" and i: "tsd_inv H s" and kp: "key \<noteq> 0" "key \<le> TSD_KEYS_MAX" "pid \<noteq> DTOR_PID"
    and n: "tsd_hash_search H s key pid = None" and v: "v \<noteq> 0"
    and m: "\<And>a. pm = Some a \<Longrightarrow> ents s a = None"
    and f: "mm = None \<or> pm = None \<and> tsd_hash_search H s PID_KEY pid = None"
  shows "\<exists>s'. tsd_set H pm mm pid key v s = Some (Some ENOMEM, s') \<and> tsd_inv H s' \<and>
     same_else key pid (lent s) (lent s') \<and> dtor_log s' = dtor_log s \<and> tsd_hash_search H s' key pid = None"
proof (cases "tsd_hash_search H s PID_KEY pid = None \<and> pm \<noteq> None")
  case False
  have "\<not> (key = 0 \<or> TSD_KEYS_MAX < key)" using kp by (simp add: not_less)
  with False f n v have "tsd_set H pm mm pid key v s = Some (Some ENOMEM, s)"
    by (auto simp: tsd_set_def tsd_hash_add_pid_def tsd_hash_add_def split: option.splits)
  with i n show ?thesis by (simp add: same_else_def)
next
  case True
  then obtain a where a: "pm = Some a" by auto
  have nn: "tsd_hash_search H s PID_KEY pid = None" using True by simp
  obtain t where t: "tsd_hash_add_pid H (Some a) pid s = (None, t)" "tsd_inv H t"
    and so: "same_else key pid (lent s) (lent t)"
    and tn: "key \<noteq> PID_KEY \<Longrightarrow> tsd_hash_search H s key pid = None \<Longrightarrow> tsd_hash_search H t key pid = None"
    and tl: "dtor_log t = dtor_log s"
    using H i kp(3) m [OF a] nn by (rule hash_add_pid_ok) blast
  have "key \<noteq> PID_KEY" using key_lt_PID_KEY [OF kp(2)] by simp
  then have t2: "tsd_hash_search H t key pid = None" using tn n by blast
  have lk: "\<not> (key = 0 \<or> TSD_KEYS_MAX < key)" using kp by (simp add: not_less)
  have "tsd_set H pm mm pid key v s = Some (Some ENOMEM, t)"
    using f a nn n v t(1) lk by (simp add: tsd_set_def tsd_hash_add_def)
  with t(2) so tl t2 show ?thesis by blast
qed

section \<open>Keys\<close>

lemma tsd_next_key_sound:
  "tsd_next_key H s k c = (k', ok) \<Longrightarrow> k' \<noteq> 0 \<and> k' \<le> PID_KEY \<and> (ok \<longrightarrow> \<not> issued H k' s)"
proof (induction H s k c rule: tsd_next_key.induct)
  case (1 H s k c)
  let ?k = "if k > TSD_KEYS_MAX then 1 else k + 1"
  have "?k \<noteq> 0 \<and> ?k \<le> PID_KEY"
  proof (cases "k > TSD_KEYS_MAX")
    case False
    then have "k \<le> 32768" by (simp add: TSD_KEYS_MAX_def not_less)
    then have "unat (k + 1) = unat k + 1" "unat k \<le> 32768"
      by (simp_all add: unat_word_ariths word_le_nat_alt)
    then show ?thesis using False by (auto simp: word_le_nat_alt PID_KEY_def TSD_KEYS_MAX_def unat_eq_0 [symmetric])
  qed (simp add: PID_KEY_def TSD_KEYS_MAX_def)
  then show ?case using 1 by (subst (asm) (2) tsd_next_key.simps)
      (auto simp: Let_def issued_def split: if_splits)
qed

end
