(* ===== verification/Tsd_Props.thy ===== *)
theory Tsd_Props
  imports Tsd
begin

text \<open>
  What the thread specific data table promises its callers: reads return the
  last write of the same thread and key, \<^verbatim>\<open>tsd_destroy\<close>, \<^verbatim>\<open>tsd_exit\<close> and the final
  teardown run the destructor of each entry exactly once, key allocation finds
  a free key whenever fewer than \<open>TSD_KEYS_MAX\<close> are in use, and a failed
  allocation changes nothing.  The locale \<open>thread_store\<close> is the contract other
  components rely on (task queues record their worker threads in it).
\<close>

section \<open>Emptying the table\<close>

lemma fini_bin_ok:
  assumes "ht_bins s ! i = bs" "i < length (ht_bins s)" "distinct (concat (ht_bins s))"
    and "\<And>a. a \<in> set (concat (ht_bins s)) \<Longrightarrow> ents s a \<noteq> None"
  shows "\<exists>s'. tsd_fini_bin i s w = Some (s', rev bs @ w) \<and> ht_bins s' = (ht_bins s)[i := []] \<and>
     ents s' = ents s \<and> dtor_log s' = dtor_log s"
  using assms
proof (induction bs arbitrary: s w)
  case Nil
  then show ?case by (intro exI [of _ s]) (subst tsd_fini_bin.simps, simp, metis list_update_id)
next
  case (Cons b bs)
  let ?B = "ht_bins s" and ?s = "tsd_hash_del b s"
  have B: "?B = take i ?B @ (b # bs) # drop (Suc i) ?B" using id_take_nth_drop [OF Cons.prems(2)] Cons.prems(1) by simp
  have "distinct (concat (take i ?B @ (b # bs) # drop (Suc i) ?B))" using Cons.prems(3) B by simp
  then have nb: "b \<notin> set bs" "\<And>c. c \<in> set (take i ?B) \<Longrightarrow> b \<notin> set c" "\<And>c. c \<in> set (drop (Suc i) ?B) \<Longrightarrow> b \<notin> set c"
    by auto
  have "map (removeAll b) ?B = take i ?B @ bs # drop (Suc i) ?B"
    by (subst B) (use nb in \<open>auto simp: map_idI removeAll_id\<close>)
  then have B': "ht_bins ?s = ?B[i := bs]"
    using Cons.prems(2) by (simp add: tsd_hash_del_def upd_conv_take_nth_drop)
  have "distinct (concat (ht_bins ?s))" "\<And>a. a \<in> set (concat (ht_bins ?s)) \<Longrightarrow> ents ?s a \<noteq> None"
    using Cons.prems(3,4) by (simp_all add: tsd_hash_del_def concat_removeAll distinct_removeAll)
  from Cons.IH [OF _ _ this, of "b # w"] B' Cons.prems(2) obtain s' where
    "tsd_fini_bin i ?s (b # w) = Some (s', rev bs @ b # w)" "ht_bins s' = ?B[i := []]" "ents s' = ents s"
    "dtor_log s' = dtor_log s" by auto
  moreover have "ents s b \<noteq> None" using Cons.prems(4) by (subst (asm) B) auto
  ultimately show ?case
    using Cons.prems(1) by (intro exI [of _ s'], subst tsd_fini_bin.simps) auto
qed

lemma fini_bins_ok:
  assumes "\<forall>j \<in> set js. j < length (ht_bins s)" "distinct js" "distinct (concat (ht_bins s))"
    and "\<And>a. a \<in> set (concat (ht_bins s)) \<Longrightarrow> ents s a \<noteq> None"
  shows "\<exists>s'. tsd_fini_bins js s w = Some (s', rev (concat (map (nth (ht_bins s)) js)) @ w) \<and>
     (\<forall>i < length (ht_bins s). ht_bins s' ! i = (if i \<in> set js then [] else ht_bins s ! i)) \<and>
     length (ht_bins s') = length (ht_bins s) \<and> ents s' = ents s \<and> dtor_log s' = dtor_log s"
  using assms
proof (induction js arbitrary: s w)
  case Nil
  then show ?case by simp
next
  case (Cons j js)
  from fini_bin_ok [OF refl _ Cons.prems(3,4), of j w] Cons.prems(1) obtain s1 where
    s1: "tsd_fini_bin j s w = Some (s1, rev (ht_bins s ! j) @ w)" "ht_bins s1 = (ht_bins s)[j := []]"
    "ents s1 = ents s" "dtor_log s1 = dtor_log s" by auto
  have j: "j < length (ht_bins s)" using Cons.prems(1) by simp
  have B: "ht_bins s = take j (ht_bins s) @ ht_bins s ! j # drop (Suc j) (ht_bins s)"
    using j by (rule id_take_nth_drop)
  have B1: "ht_bins s1 = take j (ht_bins s) @ [] # drop (Suc j) (ht_bins s)"
    using j s1(2) by (simp add: upd_conv_take_nth_drop)
  have "distinct (concat (take j (ht_bins s) @ ht_bins s ! j # drop (Suc j) (ht_bins s)))"
    using Cons.prems(3) B by simp
  then have "distinct (concat (ht_bins s1))" "set (concat (ht_bins s1)) \<subseteq> set (concat (ht_bins s))"
    unfolding B1 by (auto dest: in_set_takeD in_set_dropD)
  then have d: "distinct (concat (ht_bins s1))" "\<And>a. a \<in> set (concat (ht_bins s1)) \<Longrightarrow> ents s1 a \<noteq> None"
    using Cons.prems(4) s1(3) by auto
  have l: "length (ht_bins s1) = length (ht_bins s)" by (simp add: s1(2))
  obtain s' where s': "tsd_fini_bins js s1 (rev (ht_bins s ! j) @ w) =
      Some (s', rev (concat (map (nth (ht_bins s1)) js)) @ rev (ht_bins s ! j) @ w)"
    "\<forall>i < length (ht_bins s1). ht_bins s' ! i = (if i \<in> set js then [] else ht_bins s1 ! i)"
    "length (ht_bins s') = length (ht_bins s1)" "ents s' = ents s1" "dtor_log s' = dtor_log s1"
    using Cons.IH [OF _ _ d, of "rev (ht_bins s ! j) @ w"] Cons.prems(1,2) l by auto
  have "map (nth (ht_bins s1)) js = map (nth (ht_bins s)) js"
    using Cons.prems(2) by (auto simp: s1(2) intro!: nth_list_update_neq)
  with s'(1) have "tsd_fini_bins js s1 (rev (ht_bins s ! j) @ w) =
      Some (s', rev (concat (map (nth (ht_bins s)) (j # js))) @ w)" by simp
  with s'(2-5) s1 l show ?case by (intro exI [of _ s']) (simp add: nth_list_update)
qed

section \<open>Allocating keys\<close>

text \<open>The counter after \<open>i\<close> steps of the search, as a number.\<close>

lemma next_key_unat:
  "unat (if (k :: u32) > TSD_KEYS_MAX then 1 else k + 1) =
     (if unat k > 32768 then 1 else unat k + 1)"
proof (cases "unat k > 32768")
  case False
  then have "unat (k + 1) = unat k + 1" by (simp add: unat_word_ariths)
  with False show ?thesis by (simp add: TSD_KEYS_MAX_def word_less_nat_alt)
qed (simp add: TSD_KEYS_MAX_def word_less_nat_alt)

lemma tsd_next_key_exhausted:
  assumes "tsd_next_key H s k c = (k', False)" "unat k \<le> 32769" "i < 32768 - c"
  shows "\<exists>key. issued H key s \<and> unat key = (unat k + 32768 + Suc i) mod 32769 + 1"
  using assms
proof (induction H s k c arbitrary: i rule: tsd_next_key.induct)
  case (1 H s k c)
  let ?k = "if k > TSD_KEYS_MAX then 1 else k + 1"
  have K: "unat TSD_KEYS_MAX = 32768" by (simp add: TSD_KEYS_MAX_def)
  have u: "unat ?k = (unat k + 32768 + 1) mod 32769 + 1"
  proof (cases "unat k = 32769")
    case False
    then have "unat k \<le> 32768" using 1(3) by simp
    then show ?thesis by (simp only: next_key_unat) (simp add: mod_if)
  qed (simp only: next_key_unat, simp)
  have c: "c < 32768" using 1(4) by simp
  with 1(2) K have iss: "issued H ?k s" and nx: "tsd_next_key H s ?k (c + 1) = (k', False)"
    by (subst (asm) tsd_next_key.simps, simp add: Let_def issued_def del: tsd_next_key.simps split: if_splits)+
  show ?case
  proof (cases i)
    case 0
    with iss u show ?thesis by (intro exI [of _ ?k]) simp
  next
    case (Suc j)
    have "unat ?k \<le> 32769" using u mod_less_divisor [of 32769 "unat k + 32768 + 1"] by linarith
    moreover have "\<not> unat TSD_KEYS_MAX \<le> c" "tsd_hash_search H s ?k DTOR_PID \<noteq> None"
      using c K iss by (simp_all add: issued_def)
    moreover have "j < 32768 - (c + 1)" using 1(4) Suc by simp
    ultimately obtain key where "issued H key s" "unat key = (unat ?k + 32768 + Suc j) mod 32769 + 1"
      using 1(1) [OF refl _ _ nx] by blast
    moreover have "(unat ?k + 32768 + Suc j) mod 32769 = (unat k + 32768 + Suc i) mod 32769"
    proof -
      have "(unat ?k + 32768 + Suc j) mod 32769 = ((unat k + 32769) mod 32769 + (32769 + Suc j)) mod 32769"
        by (simp add: u ac_simps)
      also have "\<dots> = (unat k + 32769 + (32769 + Suc j)) mod 32769" by (rule mod_add_left_eq)
      also have "\<dots> = (unat k + 32768 + Suc i + 32769) mod 32769" using Suc by (simp add: ac_simps)
      finally show ?thesis by (simp only: mod_add_self2)
    qed
    ultimately show ?thesis by auto
  qed
qed

text \<open>When the search fails, \<open>TSD_KEYS_MAX\<close> different keys are in use.\<close>

lemma tsd_next_key_count:
  assumes f: "tsd_next_key H s k 0 = (k', False)" and k: "unat k \<le> 32769"
  shows "32768 \<le> card {key. issued H key s}"
proof -
  let ?g = "\<lambda>i. (unat k + 32768 + Suc i) mod 32769 + 1"
  have inj: "inj_on ?g {..<32768}"
  proof (rule inj_onI)
    fix i j assume "i \<in> {..<32768}" "j \<in> {..<32768}" "?g i = ?g j"
    then show "i = j" by (intro mod_add_inj [of "unat k" i 32769 j]) simp_all
  qed
  have "?g ` {..<32768} \<subseteq> unat ` {key. issued H key s}"
    using tsd_next_key_exhausted [OF f k] by (fastforce simp: image_iff)
  then have "card (?g ` {..<32768}) \<le> card (unat ` {key. issued H key s})"
    by (intro card_mono) simp_all
  also have "card (unat ` {key. issued H key s}) = card {key. issued H key s}"
    by (intro card_image inj_onI) (simp add: word_unat_eq_iff)
  finally show ?thesis using inj by (simp add: card_image)
qed

section \<open>The contract of a per-thread store\<close>

primrec run_puts :: "('p \<Rightarrow> 'k \<Rightarrow> 'v \<Rightarrow> 's \<Rightarrow> 's option) \<Rightarrow> ('p \<times> 'k \<times> 'v) list \<Rightarrow> 's \<Rightarrow> 's option" where
  "run_puts put [] s = Some s"
| "run_puts put (w # ws) s = (case w of (p, k, v) \<Rightarrow> Option.bind (put p k v s) (run_puts put ws))"

primrec last_put :: "'p \<Rightarrow> 'k \<Rightarrow> ('p \<times> 'k \<times> 'v) list \<Rightarrow> 'v \<Rightarrow> 'v" where
  "last_put p k [] v0 = v0"
| "last_put p k (w # ws) v0 =
     (case w of (p', k', v) \<Rightarrow> last_put p k ws (if p' = p \<and> k' = k then v else v0))"

locale thread_store =
  fixes ok :: "'s \<Rightarrow> bool" and thread :: "'p \<Rightarrow> bool" and usable :: "'k \<Rightarrow> 's \<Rightarrow> bool"
    and get :: "'p \<Rightarrow> 'k \<Rightarrow> 's \<Rightarrow> 'v" and put :: "'p \<Rightarrow> 'k \<Rightarrow> 'v \<Rightarrow> 's \<Rightarrow> 's option"
  assumes put: "ok s \<Longrightarrow> thread p \<Longrightarrow> usable k s \<Longrightarrow>
      \<exists>s'. put p k v s = Some s' \<and> ok s' \<and> get p k s' = v \<and>
        (\<forall>p' k'. (p', k') \<noteq> (p, k) \<longrightarrow> get p' k' s' = get p' k' s) \<and>
        (\<forall>k'. usable k' s' = usable k' s)"
begin

lemma run_puts_last:
  assumes "ok s" "\<forall>(p, k, v) \<in> set ws. thread p \<and> usable k s"
  shows "\<exists>s'. run_puts put ws s = Some s' \<and> ok s' \<and> (\<forall>p k. get p k s' = last_put p k ws (get p k s))"
  using assms
proof (induction ws arbitrary: s)
  case Nil
  then show ?case by simp
next
  case (Cons w ws)
  obtain p k v where w: "w = (p, k, v)" by (cases w)
  with Cons.prems put [of s p k v] obtain s1 where s1: "put p k v s = Some s1" "ok s1" "get p k s1 = v"
    "\<And>p' k'. (p', k') \<noteq> (p, k) \<Longrightarrow> get p' k' s1 = get p' k' s" "\<And>k'. usable k' s1 = usable k' s" by auto
  have "\<forall>(p, k, v) \<in> set ws. thread p \<and> usable k s1" using Cons.prems(2) s1(5) by auto
  from Cons.IH [OF s1(2) this] obtain s' where s': "run_puts put ws s1 = Some s'" "ok s'"
    "\<And>p k. get p k s' = last_put p k ws (get p k s1)" by blast
  moreover have "get p' k' s1 = (if p = p' \<and> k = k' then v else get p' k' s)" for p' k'
    using s1(3,4) by (cases "(p', k') = (p, k)") auto
  ultimately show ?case using s1(1) w by (intro exI [of _ s']) auto
qed

end

text \<open>
  The table keeps that contract for keys that \<^verbatim>\<open>tsd_create\<close> issued and that
  \<^verbatim>\<open>tsd_set\<close> accepts.  \<open>fresh\<close> hands out the memory of new entries.
\<close>

definition valid_key :: "hashfn \<Rightarrow> u32 \<Rightarrow> tsd_state \<Rightarrow> bool" where
  "valid_key H key s \<longleftrightarrow> key \<noteq> 0 \<and> key \<le> TSD_KEYS_MAX \<and> issued H key s"

definition fresh_pair :: "(tsd_state \<Rightarrow> addr \<times> addr) \<Rightarrow> bool" where
  "fresh_pair fresh \<longleftrightarrow> (\<forall>s. finite (dom (ents s)) \<longrightarrow>
     (case fresh s of (a, b) \<Rightarrow> ents s a = None \<and> ents s b = None \<and> a \<noteq> b))"

definition set_ok :: "hashfn \<Rightarrow> (tsd_state \<Rightarrow> addr \<times> addr) \<Rightarrow> u32 \<Rightarrow> u32 \<Rightarrow> u64 \<Rightarrow> tsd_state \<Rightarrow> tsd_state option" where
  "set_ok H fresh pid key v s = (case fresh s of (a, b) \<Rightarrow>
     (case tsd_set H (Some a) (Some b) pid key v s of Some (None, s') \<Rightarrow> Some s' | _ \<Rightarrow> None))"

definition store_inv :: "hashfn \<Rightarrow> tsd_state \<Rightarrow> bool" where
  "store_inv H s \<longleftrightarrow> tsd_inv H s \<and> finite (dom (ents s))"

lemma tsd_set_ok:
  assumes H: "hash_bound H" and i: "tsd_inv H s" and p: "pid \<noteq> DTOR_PID" and k: "valid_key H key s"
    and m: "ents s a = None" "ents s b = None" "a \<noteq> b"
  shows "\<exists>s'. tsd_set H (Some a) (Some b) pid key v s = Some (None, s') \<and> tsd_inv H s' \<and>
     tsd_get H pid key s' = v \<and> same_else key pid (lent s) (lent s')"
proof -
  from k have kp: "key \<noteq> 0" "key \<le> TSD_KEYS_MAX" "issued H key s" by (auto simp: valid_key_def)
  consider e c where "lent s c = Some e" "he_key e = key" "he_pid e = pid"
    | "tsd_hash_search H s key pid = None" "v = 0" | "tsd_hash_search H s key pid = None" "v \<noteq> 0"
    using inv_search [OF H i] by (metis option.exhaust)
  then show ?thesis
  proof cases
    case 1
    from tsd_set_update [OF H i kp(1,2) p 1] obtain s' where s': "tsd_set H (Some a) (Some b) pid key v s = Some (None, s')"
      "tsd_inv H s'" "same_else key pid (lent s) (lent s')"
      "v \<noteq> 0 \<Longrightarrow> \<exists>b f. lent s' b = Some f \<and> he_key f = key \<and> he_pid f = pid \<and> he_value f = v"
      "v = 0 \<Longrightarrow> \<forall>b f. lent s' b = Some f \<longrightarrow> he_key f = key \<longrightarrow> he_pid f \<noteq> pid" by metis
    have "tsd_get H pid key s' = v"
    proof (cases "v = 0")
      case True
      with s'(5) show ?thesis by (simp add: get_None [OF H s'(2)])
    next
      case False
      with s'(4) show ?thesis using get_Some [OF H s'(2)] kp by blast
    qed
    with s' show ?thesis by blast
  next
    case 2
    then have "tsd_get H pid key s = 0" "tsd_set H (Some a) (Some b) pid key v s = Some (None, s)"
      using kp by (auto simp: tsd_get_def tsd_set_def)
    with i 2 show ?thesis by (simp add: same_else_def)
  next
    case 3
    from tsd_set_insert [OF H i kp(1,2) p 3(1) kp(3) m 3(2)] get_Some [OF H _ _ _ _ kp(1,2)]
    show ?thesis by metis
  qed
qed

lemma dtor_shrinks: "tsd_hash_dtor work s = Some s' \<Longrightarrow> dom (ents s') \<subseteq> dom (ents s)"
proof (induction work arbitrary: s)
  case (Cons a work)
  then obtain e where "ents s a = Some e"
    "tsd_hash_dtor work (s\<lparr>dtor_log := dtor_log s @ dtor_call e, ents := (ents s)(a := None)\<rparr>) = Some s'"
    by (auto simp: tsd_dtor_one_def split: option.splits)
  from Cons.IH [OF this(2)] have "dom (ents s') \<subseteq> dom (ents s) - {a}" by (simp del: fun_upd_apply)
  then show ?case by auto
qed simp

lemma set_finite:
  assumes "tsd_set H pm mm pid key v s = Some (r, s')" "finite (dom (ents s))"
  shows "finite (dom (ents s'))"
proof -
  have rm: "finite (dom (ents t'))" if "tsd_remove_entry H a t = Some t'" "finite (dom (ents t))" for a t t'
    using that finite_subset [OF dtor_shrinks]
    by (simp add: tsd_remove_entry_def Let_def del: tsd_hash_dtor.simps split: option.splits if_splits)
  have ad: "finite (dom (ents t'))" if "tsd_hash_add H mm key pid v t = Some (r, t')" "finite (dom (ents t))" for t t'
    using that by (auto simp: tsd_hash_add_def hlist_add_head_def tsd_new_entry_def Let_def split: option.splits)
  have pa: "finite (dom (ents (snd (tsd_hash_add_pid H pm pid s))))"
    using assms(2) by (auto simp: tsd_hash_add_pid_def hlist_add_head_def tsd_new_entry_def split: option.splits)
  have sv: "finite (dom (ents (set_value a v s)))" for a
    using assms(2) by (cases "ents s a") (simp_all add: set_value_def)
  show ?thesis
    using assms pa by (auto simp: tsd_set_def Let_def split: if_splits option.splits prod.splits
        intro: rm [OF _ sv] ad sv)
qed

lemma tsd_thread_store:
  assumes "hash_bound H" "fresh_pair fresh"
  shows "thread_store (store_inv H) (\<lambda>pid. pid \<noteq> DTOR_PID) (valid_key H) (tsd_get H) (set_ok H fresh)"
proof
  fix s p k v
  assume i: "store_inv H s" and p: "p \<noteq> DTOR_PID" and k: "valid_key H k s"
  obtain a b where ab: "fresh s = (a, b)" by fastforce
  from i have inv: "tsd_inv H s" and fin: "finite (dom (ents s))" by (auto simp: store_inv_def)
  from assms(2) fin ab have m: "ents s a = None" "ents s b = None" "a \<noteq> b"
    by (auto simp: fresh_pair_def)
  from tsd_set_ok [OF assms(1) inv p k m] obtain s' where
    s': "tsd_set H (Some a) (Some b) p k v s = Some (None, s')" "tsd_inv H s'" "tsd_get H p k s' = v"
    "same_else k p (lent s) (lent s')" by blast
  note fr = same_else_frame [OF assms(1) inv s'(2) p s'(4)]
  have "set_ok H fresh p k v s = Some s'" using s'(1) ab by (simp add: set_ok_def)
  moreover have "store_inv H s'" using s'(2) set_finite [OF s'(1) fin] by (simp add: store_inv_def)
  moreover have "valid_key H k' s' = valid_key H k' s" for k' by (simp add: valid_key_def fr(2))
  ultimately show "\<exists>s'. set_ok H fresh p k v s = Some s' \<and> store_inv H s' \<and> tsd_get H p k s' = v \<and>
      (\<forall>p' k'. (p', k') \<noteq> (p, k) \<longrightarrow> tsd_get H p' k' s' = tsd_get H p' k' s) \<and>
      (\<forall>k'. valid_key H k' s' = valid_key H k' s)"
    using s'(3) fr(1) by (intro exI [of _ s']) simp
qed

text \<open>
  The kernel's multiplicative hash with the 64-bit golden ratio, and the two lowest
  free addresses as an allocator: an instance on which the table runs.
\<close>

definition golden_hash :: hashfn where
  "golden_hash v bits = unat (drop_bit (64 - bits) (v * 0x61C8864680B583EB)) mod 2 ^ bits"

definition lowest_free :: "tsd_state \<Rightarrow> addr \<times> addr" where
  "lowest_free s = (let a = (LEAST a. ents s a = None)
     in (a, LEAST b. ents s b = None \<and> b \<noteq> a))"

lemma golden_hash_bound: "hash_bound golden_hash"
  by (simp add: hash_bound_def golden_hash_def)

lemma lowest_free_fresh: "fresh_pair lowest_free"
  unfolding fresh_pair_def
proof (intro allI impI)
  fix s :: tsd_state assume f: "finite (dom (ents s))"
  let ?a = "LEAST a. ents s a = None"
  obtain x where "x \<notin> dom (ents s)" using f ex_new_if_finite [OF infinite_UNIV_nat] by blast
  then have "ents s x = None" by auto
  then have a: "ents s ?a = None" by (rule LeastI)
  obtain y where "y \<notin> insert ?a (dom (ents s))" using f ex_new_if_finite [OF infinite_UNIV_nat, of "insert ?a (dom (ents s))"] by auto
  then have "ents s y = None \<and> y \<noteq> ?a" by auto
  then have "ents s (LEAST b. ents s b = None \<and> b \<noteq> ?a) = None \<and> (LEAST b. ents s b = None \<and> b \<noteq> ?a) \<noteq> ?a"
    by (rule LeastI)
  with a show "case lowest_free s of (a, b) \<Rightarrow> ents s a = None \<and> ents s b = None \<and> a \<noteq> b"
    by (simp add: lowest_free_def Let_def)
qed

interpretation tsd: thread_store
  "store_inv golden_hash" "\<lambda>pid. pid \<noteq> DTOR_PID" "valid_key golden_hash"
  "tsd_get golden_hash" "set_ok golden_hash lowest_free"
  by (rule tsd_thread_store [OF golden_hash_bound lowest_free_fresh])

lemma tsd_inv_init:
  assumes "tsd_hash_table_init bits tm bm = Some s"
  shows "tsd_inv H s" "lent s = Map.empty" "ents s = Map.empty" "\<not> issued H key s" "ht_key s = 1"
proof -
  from assms have s: "s = \<lparr>ht_bits = bits, ht_key = 1, ht_bins = replicate (2 ^ bits) [],
             ents = (\<lambda>_. None), he_key_list = \<lparr>nxt = \<lambda>_. 0, prv = \<lambda>_. 0\<rparr>,
             he_pid_list = \<lparr>nxt = \<lambda>_. 0, prv = \<lambda>_. 0\<rparr>, dtor_log = []\<rparr>"
    by (auto simp: tsd_hash_table_init_def split: if_splits)
  show "ents s = Map.empty" "ht_key s = 1" by (simp_all add: s)
  show l: "lent s = Map.empty" by (simp add: s lent_def)
  have "1 \<le> PID_KEY" by (simp add: PID_KEY_def TSD_KEYS_MAX_def)
  moreover have "table_ok H s" by (simp add: table_ok_def s)
  moreover have "rings_ok Map.empty K P" for K P
    by (simp add: rings_ok_def ents_ok_def unique_ids_def anchored_def rings_def anchors_def)
  ultimately show "tsd_inv H s" unfolding tsd_inv_def l by (simp add: s)
  show "\<not> issued H key s"
    by (simp add: issued_def tsd_hash_search_def s find_None_iff split: option.splits)
qed

lemma inv_create:
  assumes H: "hash_bound H" and i: "tsd_inv H s" and a: "ents s a = None"
    and n: "tsd_next_key H s (ht_key s) 0 = (key, True)"
  shows "\<exists>s'. tsd_create H (Some a) 0 dtor s = (key, s') \<and> tsd_inv H s' \<and> issued H key s' \<and>
     (\<forall>pid k. tsd_get H pid k s' = tsd_get H pid k s) \<and> (\<forall>k. k \<noteq> key \<longrightarrow> issued H k s' = issued H k s)"
proof -
  let ?e = "\<lparr>he_key = key, he_pid = DTOR_PID, he_dtor = dtor, he_value = 0\<rparr>"
  have k: "key \<noteq> 0" "key \<le> PID_KEY" "\<not> issued H key s" using tsd_next_key_sound [OF n] by simp_all
  have e: "is_anchor ?e" "sane ?e" using k by (simp_all add: is_anchor_def sane_def)
  define s' where "s' = hlist_add_head a (tsd_hash H (ht_bits s) (he_key ?e) (he_pid ?e)) (tsd_new_entry a ?e (s\<lparr>ht_key := key\<rparr>))"
  have "tsd_hash_search H s (he_key ?e) (he_pid ?e) = None" using k(3) by (simp add: issued_def)
  from inv_add_anchor [OF H i a e this k(2) s'_def]
  have s': "tsd_inv H s'" "lent s' = (lent s)(a \<mapsto> ?e)" by blast+
  have "tsd_create H (Some a) 0 dtor s = (key, s')"
    using n by (simp add: tsd_create_def tsd_hash_add_key_def s'_def)
  moreover have keep: "lent s' b = Some f \<longleftrightarrow> lent s b = Some f" if "he_key f \<noteq> key \<or> he_pid f \<noteq> DTOR_PID" for b f
    unfolding s'(2) using that lent_fresh [OF a] by auto
  have "issued H key s'" unfolding issued_iff [OF H s'(1)] s'(2) by (intro exI [of _ a] exI [of _ ?e]) simp
  moreover have "issued H k s' = issued H k s" if "k \<noteq> key" for k
    unfolding issued_iff [OF H i] issued_iff [OF H s'(1)] using keep that by metis
  moreover have "tsd_get H pid k s' = tsd_get H pid k s" for pid k
  proof (cases "k = key \<and> pid = DTOR_PID")
    case True
    have "tsd_get H pid k s = 0" using k(3) True unfolding issued_iff [OF H i] by (intro get_None [OF H i]) blast
    moreover have "tsd_get H pid k s' = 0"
      using get_Some [OF H s'(1), of a ?e key DTOR_PID] s'(2) True k(1) get_bad_key [of key H DTOR_PID s']
      by (cases "key \<le> TSD_KEYS_MAX") (simp_all add: not_le)
    ultimately show ?thesis by simp
  next
    case False
    then show ?thesis using keep by (intro get_frame [OF H i s'(1)]) blast
  qed
  ultimately show ?thesis using s'(1) by (intro exI [of _ s']) blast
qed

section \<open>A table in use\<close>

text \<open>A fresh table; one key created with a destructor; one thread's value set under it.\<close>

definition demo_table :: tsd_state where "demo_table = the (spl_tsd_init True True)"
definition demo_keyed :: tsd_state where
  "demo_keyed = snd (tsd_create golden_hash (Some 100) 0 (Some 7) demo_table)"
definition demo_filled :: tsd_state where
  "demo_filled = snd (the (tsd_set golden_hash (Some 200) (Some 300) 42 2 99 demo_keyed))"

lemma demo_table: "tsd_inv golden_hash demo_table" "ents demo_table = Map.empty" "\<not> issued golden_hash key demo_table"
  "ht_key demo_table = 1"
proof -
  have "tsd_hash_table_init TSD_HASH_TABLE_BITS_DEFAULT True True = Some demo_table"
    by (simp add: demo_table_def spl_tsd_init_def tsd_hash_table_init_def)
  from tsd_inv_init [OF this] show "tsd_inv golden_hash demo_table" "ents demo_table = Map.empty"
    "\<not> issued golden_hash key demo_table" "ht_key demo_table = 1" by auto
qed

lemma demo_keyed:
  "tsd_create golden_hash (Some 100) 0 (Some 7) demo_table = (2, demo_keyed)"
  "tsd_inv golden_hash demo_keyed" "valid_key golden_hash 2 demo_keyed" "dom (ents demo_keyed) = {100}"
proof -
  have n: "tsd_next_key golden_hash demo_table (ht_key demo_table) 0 = (2, True)"
    using demo_table(3,4) by (subst tsd_next_key.simps) (simp add: Let_def issued_def TSD_KEYS_MAX_def)
  from inv_create [OF golden_hash_bound demo_table(1) _ n, of 100 "Some 7"] demo_table(2)
  show "tsd_create golden_hash (Some 100) 0 (Some 7) demo_table = (2, demo_keyed)"
    "tsd_inv golden_hash demo_keyed" "valid_key golden_hash 2 demo_keyed"
    by (auto simp: demo_keyed_def valid_key_def TSD_KEYS_MAX_def)
  show "dom (ents demo_keyed) = {100}"
    using n by (simp add: demo_keyed_def tsd_create_def tsd_hash_add_key_def hlist_add_head_def tsd_new_entry_def
        demo_table(2))
qed

lemma demo_filled:
  "tsd_inv golden_hash demo_filled" "valid_key golden_hash 2 demo_filled" "tsd_get golden_hash 42 2 demo_filled = 99"
proof -
  have p: "(42::u32) \<noteq> DTOR_PID" by (simp add: DTOR_PID_def)
  have "200 \<notin> dom (ents demo_keyed)" "300 \<notin> dom (ents demo_keyed)" by (simp_all add: demo_keyed(4))
  then have "ents demo_keyed 200 = None" "ents demo_keyed 300 = None" by (simp_all add: domIff)
  from tsd_set_ok [OF golden_hash_bound demo_keyed(2) p demo_keyed(3) this, of 99] obtain s' where
    s': "tsd_set golden_hash (Some 200) (Some 300) 42 2 99 demo_keyed = Some (None, s')" "tsd_inv golden_hash s'"
    "tsd_get golden_hash 42 2 s' = 99" "same_else 2 42 (lent demo_keyed) (lent s')" by auto
  then have eq: "demo_filled = s'" by (simp add: demo_filled_def)
  show "tsd_inv golden_hash demo_filled" "tsd_get golden_hash 42 2 demo_filled = 99" using s' eq by auto
  show "valid_key golden_hash 2 demo_filled"
    using same_else_frame(2) [OF golden_hash_bound demo_keyed(2) s'(2) p s'(4)] demo_keyed(3) eq
    by (simp add: valid_key_def)
qed

section \<open>Properties\<close>

text \<open>C2: for any interleaving of \<^verbatim>\<open>tsd_set\<close> calls by any threads on valid keys, every
  call succeeds, the table keeps its invariant, and afterwards \<^verbatim>\<open>tsd_get\<close> of each
  thread and key yields the value last set there (or what it was before, if the
  sequence never set it).\<close>

theorem tsd_get_last_set:
  assumes "hash_bound H" "fresh_pair fresh" "store_inv H s"
    and "\<forall>(pid, key, v) \<in> set ws. pid \<noteq> DTOR_PID \<and> valid_key H key s"
  shows "\<exists>s'. run_puts (set_ok H fresh) ws s = Some s' \<and> tsd_inv H s' \<and>
     (\<forall>pid key. tsd_get H pid key s' = last_put pid key ws (tsd_get H pid key s))"
  using thread_store.run_puts_last [OF tsd_thread_store [OF assms(1,2)] assms(3,4)]
  by (auto simp: store_inv_def)

theorem tsd_get_last_set_witness:
  "\<exists>s'. run_puts (set_ok golden_hash lowest_free) [(42, 2, 5), (43, 2, 6), (42, 2, 7), (43, 2, 0)] demo_keyed = Some s' \<and>
     tsd_get golden_hash 42 2 s' = 7 \<and> tsd_get golden_hash 43 2 s' = 0"
proof -
  have "store_inv golden_hash demo_keyed" using demo_keyed by (simp add: store_inv_def)
  then show ?thesis
    using tsd_get_last_set [OF golden_hash_bound lowest_free_fresh, of demo_keyed
        "[(42, 2, 5), (43, 2, 6), (42, 2, 7), (43, 2, 0)]"] demo_keyed(3)
    by (auto simp: DTOR_PID_def simp del: run_puts.simps)
qed

text \<open>C3: \<^verbatim>\<open>tsd_destroy\<close> on a key in use returns, resets the caller's key to \<open>0\<close> and
  keeps the table's invariant; it frees the entry of every thread for that key and
  runs the key's destructor on exactly those entries, once each, leaves no thread a
  value under the key, and does not change any other key.\<close>

theorem tsd_destroy_all_threads:
  assumes H: "hash_bound H" and i: "tsd_inv H s" and k: "valid_key H key s"
  shows "\<exists>s' as. tsd_destroy H key s = Some (0, s') \<and> tsd_inv H s' \<and> \<not> issued H key s' \<and>
     distinct as \<and> set as = {a. \<exists>pid. pid \<noteq> DTOR_PID \<and> tsd_hash_search H s key pid = Some a} \<and>
     dtor_log s' = dtor_log s @ dtor_calls (ents s) as \<and> (\<forall>a \<in> set as. ents s' a = None) \<and>
     (\<forall>pid. tsd_get H pid key s' = 0) \<and>
     (\<forall>pid k. k \<noteq> key \<longrightarrow> tsd_get H pid k s' = tsd_get H pid k s)"
proof -
  from k obtain d where d: "tsd_hash_search H s key DTOR_PID = Some d" and kp: "key \<noteq> 0" "key \<le> TSD_KEYS_MAX"
    by (auto simp: valid_key_def issued_def)
  from d [unfolded inv_search(1) [OF H i]] obtain f where f: "lent s d = Some f" "he_key f = key" "he_pid f = DTOR_PID"
    by blast
  have fa: "is_anchor f" using f by (simp add: is_anchor_def)
  have sub: "kmem (lent s) d \<subseteq> kmem (lent s) d" "pmem (lent s) d \<subseteq> kmem (lent s) d"
    using anchor_no_other(1) [OF f(1,3)] by simp_all
  have dr: "drains he_key_list kmem" by (simp add: drains_def)
  obtain s' as where D: "Option.bind (tsd_drain he_key_list d s []) (\<lambda>(s1, work). tsd_hash_dtor (d # work) (tsd_hash_del d s1)) = Some s'"
    "distinct as" "set as = kmem (lent s) d" "tsd_inv H s'" "lent s' = lent s |` (- insert d (kmem (lent s) d))"
    "ents s' = ents s |` (- insert d (kmem (lent s) d))" "dtor_log s' = dtor_log s @ dtor_calls (ents s) (d # as)"
    using drain_and_free [OF dr i f(1) fa sub] by blast
  have K: "x \<in> insert d (kmem (lent s) d) \<longleftrightarrow> (\<exists>e. lent s x = Some e \<and> he_key e = key)" for x
    using f key_lt_PID_KEY [OF kp(2)] unique_idsD [OF tsd_invD(3) [OF i] _ f(1), of x]
    by (auto simp: kmem_def is_anchor_def)
  have no: "\<not> (lent s' x = Some e \<and> he_key e = key)" for x e
    using K [of x] unfolding D(5) by (auto simp: restrict_map_def split: if_splits)
  have "tsd_destroy H key s = Some (0, s')" using d D(1) by (auto simp: tsd_destroy_def bind_eq_Some_conv split: prod.splits)
  moreover have "\<not> issued H key s'" "\<And>pid. tsd_get H pid key s' = 0"
    using no issued_iff [OF H D(4)] get_None [OF H D(4)] by blast+
  moreover have "set as = {a. \<exists>pid. pid \<noteq> DTOR_PID \<and> tsd_hash_search H s key pid = Some a}"
    unfolding inv_search(1) [OF H i] D(3) using f key_lt_PID_KEY [OF kp(2)] by (auto simp: kmem_def is_anchor_def)
  moreover have "dtor_calls (ents s) (d # as) = dtor_calls (ents s) as"
    using lent_SomeD [OF f(1)] f(3) by (simp add: dtor_calls_def dtor_call_def split: option.splits)
  moreover have "tsd_get H pid k s' = tsd_get H pid k s" if "k \<noteq> key" for pid k
  proof (rule get_frame [OF H i D(4)])
    fix a and e :: tsd_hash_entry assume "he_key e = k" "he_pid e = pid"
    then show "lent s' a = Some e \<longleftrightarrow> lent s a = Some e"
      using K [of a] that unfolding D(5) by (auto simp: restrict_map_def)
  qed
  moreover have "\<forall>a \<in> set as. ents s' a = None" by (simp add: D(3,6) restrict_map_def)
  ultimately show ?thesis using D(2,4,7) by (intro exI [of _ s'] exI [of _ as]) simp
qed

theorem tsd_destroy_all_threads_witness:
  "\<exists>s'. tsd_destroy golden_hash 2 demo_filled = Some (0, s') \<and> \<not> issued golden_hash 2 s' \<and>
     tsd_get golden_hash 42 2 s' = 0 \<and> tsd_get golden_hash 42 2 demo_filled = 99"
  using tsd_destroy_all_threads [OF golden_hash_bound demo_filled(1,2)] demo_filled(3) by blast

text \<open>\<^verbatim>\<open>tsd_exit\<close> returns and keeps the table's invariant; it frees every entry of the
  exiting thread, runs the destructor of exactly those entries, once each, leaves the
  thread no value under any key, and does not change any other thread's data or any key.\<close>

theorem tsd_exit_all_keys:
  assumes H: "hash_bound H" and i: "tsd_inv H s" and p: "pid \<noteq> DTOR_PID"
  shows "\<exists>s' as. tsd_exit H pid s = Some s' \<and> tsd_inv H s' \<and> distinct as \<and>
     set as = {a. \<exists>key. key \<noteq> PID_KEY \<and> tsd_hash_search H s key pid = Some a} \<and>
     dtor_log s' = dtor_log s @ dtor_calls (ents s) as \<and> (\<forall>a \<in> set as. ents s' a = None) \<and>
     (\<forall>key. tsd_get H pid key s' = 0) \<and>
     (\<forall>pid' key. pid' \<noteq> pid \<longrightarrow> tsd_get H pid' key s' = tsd_get H pid' key s) \<and>
     (\<forall>key. issued H key s' = issued H key s)"
proof (cases "tsd_hash_search H s PID_KEY pid")
  case None
  have n: "he_pid e \<noteq> pid" if "lent s a = Some e" for a e
  proof
    assume e: "he_pid e = pid"
    with None that have "he_key e \<noteq> PID_KEY" unfolding inv_search(2) [OF H i] by blast
    with e p have "\<not> is_anchor e" by (simp add: is_anchor_def)
    from anchoredE [OF tsd_invD(4) [OF i] that this] None e show False unfolding inv_search(2) [OF H i] by metis
  qed
  then have "tsd_hash_search H s key pid = None" for key unfolding inv_search(2) [OF H i] by blast
  moreover have "tsd_get H pid key s = 0" for key using n by (intro get_None [OF H i]) blast
  ultimately show ?thesis using None i
    by (intro exI [of _ s] exI [of _ "[]"]) (simp add: tsd_exit_def dtor_calls_def)
next
  case (Some d)
  from Some [unfolded inv_search(1) [OF H i]] obtain f where f: "lent s d = Some f" "he_key f = PID_KEY" "he_pid f = pid"
    by blast
  have fa: "is_anchor f" using f by (simp add: is_anchor_def)
  have fp: "he_pid f \<noteq> DTOR_PID" using f(3) p by simp
  have sub: "kmem (lent s) d \<subseteq> pmem (lent s) d" "pmem (lent s) d \<subseteq> pmem (lent s) d"
    using anchor_no_other(2) [OF f(1) fp] by simp_all
  have dr: "drains he_pid_list pmem" by (simp add: drains_def)
  obtain s' as where D: "Option.bind (tsd_drain he_pid_list d s []) (\<lambda>(s1, work). tsd_hash_dtor (d # work) (tsd_hash_del d s1)) = Some s'"
    "distinct as" "set as = pmem (lent s) d" "tsd_inv H s'" "lent s' = lent s |` (- insert d (pmem (lent s) d))"
    "ents s' = ents s |` (- insert d (pmem (lent s) d))" "dtor_log s' = dtor_log s @ dtor_calls (ents s) (d # as)"
    using drain_and_free [OF dr i f(1) fa sub] by blast
  have K: "x \<in> insert d (pmem (lent s) d) \<longleftrightarrow> (\<exists>e. lent s x = Some e \<and> he_pid e = pid)" for x
    using f p unique_idsD [OF tsd_invD(3) [OF i] _ f(1), of x]
    by (auto simp: pmem_def is_anchor_def)
  have no: "\<not> (lent s' x = Some e \<and> he_pid e = pid)" for x e
    using K [of x] unfolding D(5) by (auto simp: restrict_map_def split: if_splits)
  have keep: "lent s' a = Some e \<longleftrightarrow> lent s a = Some e" if "he_pid e \<noteq> pid" for a e
    using K [of a] that unfolding D(5) by (auto simp: restrict_map_def)
  have "tsd_exit H pid s = Some s'" using Some D(1) by (simp add: tsd_exit_def)
  moreover have "tsd_get H pid key s' = 0" for key using no by (intro get_None [OF H D(4)]) blast
  moreover have "set as = {a. \<exists>key. key \<noteq> PID_KEY \<and> tsd_hash_search H s key pid = Some a}"
    unfolding inv_search(1) [OF H i] D(3) using f p by (auto simp: pmem_def is_anchor_def)
  moreover have "dtor_call f = []" using tsd_invD(5) [OF i f(1)] f(2) fp by (simp add: sane_def dtor_call_def)
  then have "dtor_calls (ents s) (d # as) = dtor_calls (ents s) as"
    using lent_SomeD [OF f(1)] by (simp add: dtor_calls_def)
  moreover have "tsd_get H pid' key s' = tsd_get H pid' key s" if "pid' \<noteq> pid" for pid' key
    using keep that by (intro get_frame [OF H i D(4)]) blast
  moreover have "issued H key s' = issued H key s" for key
    unfolding issued_iff [OF H i] issued_iff [OF H D(4)] using keep p by metis
  moreover have "\<forall>a \<in> set as. ents s' a = None" by (simp add: D(3,6) restrict_map_def)
  ultimately show ?thesis using D(2,4,7) by (intro exI [of _ s'] exI [of _ as]) simp
qed

theorem tsd_exit_all_keys_witness:
  "\<exists>s'. tsd_exit golden_hash 42 demo_filled = Some s' \<and> tsd_get golden_hash 42 2 s' = 0 \<and>
     issued golden_hash 2 s' = issued golden_hash 2 demo_filled"
proof -
  have "(42::u32) \<noteq> DTOR_PID" by (simp add: DTOR_PID_def)
  from tsd_exit_all_keys [OF golden_hash_bound demo_filled(1) this] show ?thesis by blast
qed

text \<open>\<^verbatim>\<open>tsd_create\<close> with a zero key and memory available succeeds whenever fewer than
  \<open>TSD_KEYS_MAX\<close> keys are in use: it returns a nonzero key that was not in use, which is
  in use afterwards, keeps the invariant and changes no thread's data and no other key.\<close>

theorem tsd_create_key:
  assumes H: "hash_bound H" and i: "tsd_inv H s" and a: "ents s a = None"
    and c: "card {key. issued H key s} < unat TSD_KEYS_MAX"
  shows "\<exists>key s'. tsd_create H (Some a) 0 dtor s = (key, s') \<and> key \<noteq> 0 \<and> \<not> issued H key s \<and>
     tsd_inv H s' \<and> issued H key s' \<and> (\<forall>pid k. tsd_get H pid k s' = tsd_get H pid k s) \<and>
     (\<forall>k. k \<noteq> key \<longrightarrow> issued H k s' = issued H k s)"
proof -
  obtain key free where n: "tsd_next_key H s (ht_key s) 0 = (key, free)" by fastforce
  have "unat (ht_key s) \<le> 32769"
    using tsd_invD(6) [OF i] by (simp add: PID_KEY_def TSD_KEYS_MAX_def word_le_nat_alt)
  with tsd_next_key_count [of H s "ht_key s" key] n c have free by (cases free) (auto simp: TSD_KEYS_MAX_def)
  with n have n': "tsd_next_key H s (ht_key s) 0 = (key, True)" by simp
  from inv_create [OF H i a n', of dtor] tsd_next_key_sound [OF n'] show ?thesis by blast
qed

theorem tsd_create_key_witness:
  "\<exists>key s'. tsd_create golden_hash (Some 100) 0 (Some 7) demo_table = (key, s') \<and> key \<noteq> 0 \<and> issued golden_hash key s'"
proof -
  have "card {key. issued golden_hash key demo_table} < unat TSD_KEYS_MAX"
    using demo_table(3) by (simp add: TSD_KEYS_MAX_def)
  from tsd_create_key [OF golden_hash_bound demo_table(1) _ this, of 100 "Some 7"] demo_table(2)
  show ?thesis by auto
qed

lemma tsd_fini_ok:
  assumes i: "tsd_inv H s"
  shows "\<exists>s' as. spl_tsd_fini s = Some s' \<and> distinct as \<and> set as = dom (lent s) \<and>
     dtor_log s' = dtor_log s @ dtor_calls (ents s) as \<and> ents s' = ents s |` (- dom (lent s)) \<and>
     concat (ht_bins s') = []"
proof -
  note t = tsd_invD(1) [OF i]
  let ?B = "ht_bins s"
  have len: "length ?B = 2 ^ ht_bits s" and dis: "distinct (concat ?B)" using t by (simp_all add: table_ok_def)
  have live: "ents s a \<noteq> None" if "a \<in> set (concat ?B)" for a
  proof -
    from that obtain b where "b \<in> set ?B" "a \<in> set b" by auto
    then obtain j where "j < length ?B" "a \<in> set (?B ! j)" by (metis in_set_conv_nth)
    then have "j < 2 ^ ht_bits s" "a \<in> set (?B ! j)" using len by simp_all
    from t this obtain e where "ents s a = Some e" by (rule table_okD)
    then show ?thesis by simp
  qed
  have dm: "dom (lent s) = set (concat ?B)" using live by (auto simp: lent_def)
  have m: "map (nth ?B) [0..<2 ^ ht_bits s] = ?B" unfolding len [symmetric] by (rule map_nth)
  obtain s1 where s1: "tsd_fini_bins [0..<2 ^ ht_bits s] s [] = Some (s1, rev (concat ?B))"
    "\<forall>j < length ?B. ht_bins s1 ! j = []" "length (ht_bins s1) = length ?B" "ents s1 = ents s" "dtor_log s1 = dtor_log s"
    using fini_bins_ok [OF _ _ dis live, of "[0..<2 ^ ht_bits s]" "[]"] len m by auto
  have "distinct (rev (concat ?B))" "set (rev (concat ?B)) \<subseteq> dom (ents s1)"
    using dis live s1(4) by (auto simp: dom_def)
  note fr = tsd_hash_dtor_eq [OF this]
  have e: "concat (ht_bins s1) = []" using s1(2,3) by (auto simp: concat_eq_Nil_conv in_set_conv_nth)
  show ?thesis
    using s1(1,4,5) fr dis dm e by (intro exI [of _ "s1\<lparr>dtor_log := dtor_log s @ dtor_calls (ents s) (rev (concat ?B)),
        ents := ents s |` (- set (rev (concat ?B)))\<rparr>"] exI [of _ "rev (concat ?B)"])
      (simp add: spl_tsd_fini_def tsd_hash_table_fini_def)
qed

text \<open>the final teardown returns; every entry still in the table is freed, the
  destructor of each data entry has been called exactly once, and all bins are empty.\<close>

theorem tsd_fini_frees_all:
  assumes i: "tsd_inv H s"
  shows "\<exists>s' as. spl_tsd_fini s = Some s' \<and> distinct as \<and> set as = dom (lent s) \<and>
     dtor_log s' = dtor_log s @ dtor_calls (ents s) as \<and> ents s' = ents s |` (- dom (lent s)) \<and>
     concat (ht_bins s') = []"
  using i by (rule tsd_fini_ok)

theorem tsd_fini_frees_all_witness:
  "\<exists>s'. spl_tsd_fini demo_filled = Some s' \<and> concat (ht_bins s') = []"
  using tsd_fini_frees_all [OF demo_filled(1)] by blast

text \<open>the key counter is not limited to \<open>TSD_KEYS_MAX\<close>: when it stands at
  \<open>TSD_KEYS_MAX\<close>, \<^verbatim>\<open>tsd_create\<close> hands out \<open>TSD_KEYS_MAX + 1\<close>, which is \<open>PID_KEY\<close>; for
  this key every \<^verbatim>\<open>tsd_set\<close> fails with \<open>EINVAL\<close> and every \<^verbatim>\<open>tsd_get\<close> yields null.\<close>

theorem tsd_create_beyond_max:
  assumes "hash_bound H" "tsd_inv H s" "ents s a = None" "ht_key s = TSD_KEYS_MAX" "\<not> issued H PID_KEY s"
  shows "\<exists>s'. tsd_create H (Some a) 0 dtor s = (PID_KEY, s') \<and> issued H PID_KEY s' \<and>
     (\<forall>pid v m m'. tsd_set H m m' pid PID_KEY v s' = Some (Some EINVAL, s')) \<and>
     (\<forall>pid. tsd_get H pid PID_KEY s' = 0)"
proof -
  have k: "PID_KEY > TSD_KEYS_MAX" by (simp add: PID_KEY_def TSD_KEYS_MAX_def)
  have "TSD_KEYS_MAX + 1 = PID_KEY" "0 < unat TSD_KEYS_MAX" by (simp_all add: PID_KEY_def TSD_KEYS_MAX_def)
  then have "tsd_next_key H s (ht_key s) 0 = (PID_KEY, True)"
    using assms(4,5) by (subst tsd_next_key.simps) (simp add: issued_def Let_def)
  from inv_create [OF assms(1-3) this, of dtor] obtain s'
    where "tsd_create H (Some a) 0 dtor s = (PID_KEY, s')" "issued H PID_KEY s'" by blast
  with k show ?thesis by (intro exI [of _ s']) (simp add: tsd_set_def tsd_get_def)
qed

theorem tsd_create_beyond_max_witness:
  "\<exists>s'. tsd_create golden_hash (Some 100) 0 (Some 7) (demo_table\<lparr>ht_key := TSD_KEYS_MAX\<rparr>) = (PID_KEY, s') \<and>
     tsd_set golden_hash None None 42 PID_KEY 99 s' = Some (Some EINVAL, s')"
proof -
  let ?s = "demo_table\<lparr>ht_key := TSD_KEYS_MAX\<rparr>"
  have "lent ?s = lent demo_table" "table_ok golden_hash ?s = table_ok golden_hash demo_table"
    by (simp_all add: lent_def table_ok_def)
  moreover have "TSD_KEYS_MAX \<le> PID_KEY" by (simp add: PID_KEY_def TSD_KEYS_MAX_def)
  ultimately have "tsd_inv golden_hash ?s" using demo_table(1) by (simp add: tsd_inv_def)
  moreover have "\<not> issued golden_hash PID_KEY ?s"
    using demo_table(3) by (simp add: issued_def tsd_hash_search_def)
  ultimately show ?thesis
    using tsd_create_beyond_max [OF golden_hash_bound, of ?s 100 "Some 7"] demo_table(2) by auto
qed

section \<open>Reachable tables\<close>

text \<open>
  The tables that arise by any sequence of the module's operations, allocation
  failures included.  \<^verbatim>\<open>tsd_set\<close> is called by a thread (a pid other than the
  reserved one) with a key that is in use or that it rejects.
\<close>

definition fresh_mem :: "addr option \<Rightarrow> tsd_state \<Rightarrow> bool" where
  "fresh_mem m s \<longleftrightarrow> (case m of None \<Rightarrow> True | Some a \<Rightarrow> ents s a = None)"

inductive tsd_reach :: "hashfn \<Rightarrow> tsd_state \<Rightarrow> bool" for H where
  init: "tsd_hash_table_init bits tm bm = Some s \<Longrightarrow> tsd_reach H s"
| create: "tsd_reach H s \<Longrightarrow> fresh_mem m s \<Longrightarrow> tsd_create H m keyp dtor s = (keyp', s') \<Longrightarrow> tsd_reach H s'"
| set: "tsd_reach H s \<Longrightarrow> pid \<noteq> DTOR_PID \<Longrightarrow> issued H key s \<or> key = 0 \<or> key > TSD_KEYS_MAX \<Longrightarrow>
    fresh_mem pm s \<Longrightarrow> fresh_mem m s \<Longrightarrow> pm = None \<or> pm \<noteq> m \<Longrightarrow>
    tsd_set H pm m pid key v s = Some (r, s') \<Longrightarrow> tsd_reach H s'"
| destroy: "tsd_reach H s \<Longrightarrow> tsd_destroy H key s = Some (key', s') \<Longrightarrow> tsd_reach H s'"
| exit: "tsd_reach H s \<Longrightarrow> pid \<noteq> DTOR_PID \<Longrightarrow> tsd_exit H pid s = Some s' \<Longrightarrow> tsd_reach H s'"

lemma inv_tsd_set:
  assumes H: "hash_bound H" and i: "tsd_inv H s" and p: "pid \<noteq> DTOR_PID"
    and k: "issued H key s \<or> key = 0 \<or> key > TSD_KEYS_MAX"
    and m: "fresh_mem pm s" "fresh_mem mm s" "pm = None \<or> pm \<noteq> mm"
  shows "\<exists>r s'. tsd_set H pm mm pid key v s = Some (r, s') \<and> tsd_inv H s'"
proof (cases "key = 0 \<or> key > TSD_KEYS_MAX")
  case True
  with i show ?thesis by (simp add: tsd_set_def)
next
  case False
  with k have kp: "key \<noteq> 0" "key \<le> TSD_KEYS_MAX" "issued H key s" by auto
  have fr: "\<And>a. pm = Some a \<Longrightarrow> ents s a = None" "\<And>a. mm = Some a \<Longrightarrow> ents s a = None"
    using m by (simp_all add: fresh_mem_def)
  show ?thesis
  proof (cases "tsd_hash_search H s key pid")
    case (Some c)
    with tsd_set_update [OF H i kp(1,2) p] inv_search(1) [OF H i] show ?thesis by metis
  next
    case n: None
    consider "v = 0" | a b where "v \<noteq> 0" "pm = Some a" "mm = Some b"
      | "v \<noteq> 0" "mm = None \<or> pm = None \<and> tsd_hash_search H s PID_KEY pid = None"
      | b c where "v \<noteq> 0" "pm = None" "mm = Some b" "tsd_hash_search H s PID_KEY pid = Some c" by fastforce
    then show ?thesis
    proof cases
      case 1
      with n False i show ?thesis by (simp add: tsd_set_def)
    next
      case 2
      then have "ents s a = None" "ents s b = None" "a \<noteq> b" using fr m(3) by auto
      from tsd_set_insert [OF H i kp(1,2) p n kp(3) this 2(1)] 2 show ?thesis by blast
    next
      case 3
      from tsd_set_nomem [OF H i kp(1,2) p n 3(1) fr(1) 3(2)] show ?thesis by blast
    next
      case 4
      have "tsd_set H pm mm pid key v s = tsd_hash_add H (Some b) key pid v s"
        using n 4 False by (simp add: tsd_set_def)
      with hash_add_ok [OF H kp(1,2) p i fr(2) [OF 4(3)] n kp(3) 4(4), of v]
      show ?thesis by auto
    qed
  qed
qed

lemma inv_tsd_create:
  assumes H: "hash_bound H" and i: "tsd_inv H s" and m: "fresh_mem m s"
    and c: "tsd_create H m keyp dtor s = (keyp', s')"
  shows "tsd_inv H s'"
proof (cases "keyp = 0 \<and> m \<noteq> None")
  case False
  then have "s' = s" using c by (auto simp: tsd_create_def tsd_hash_add_key_def split: if_splits)
  with i show ?thesis by simp
next
  case True
  then obtain a where a: "m = Some a" "ents s a = None" using m by (auto simp: fresh_mem_def)
  obtain key free where n: "tsd_next_key H s (ht_key s) 0 = (key, free)" by fastforce
  show ?thesis
  proof (cases free)
    case f: True
    then obtain s2 where "tsd_create H (Some a) 0 dtor s = (key, s2)" "tsd_inv H s2"
      using inv_create [OF H i a(2), of key dtor] n by auto
    with c a True show ?thesis by auto
  next
    case False
    let ?e = "\<lparr>he_key = key, he_pid = DTOR_PID, he_dtor = dtor, he_value = 0\<rparr>"
    have s': "s' = s\<lparr>ht_key := key, ents := (ents s)(a \<mapsto> ?e)\<rparr>"
      using c n a True False by (auto simp: tsd_create_def tsd_hash_add_key_def)
    have ne: "x \<noteq> a" if "j < 2 ^ ht_bits s" "x \<in> set (ht_bins s ! j)" for j x
    proof -
      from tsd_invD(1) [OF i] that obtain e where "ents s x = Some e" by (rule table_okD)
      with a(2) show ?thesis by auto
    qed
    have "a \<notin> set (concat (ht_bins s))"
    proof
      assume "a \<in> set (concat (ht_bins s))"
      then obtain b where "b \<in> set (ht_bins s)" "a \<in> set b" by auto
      then obtain j where "j < length (ht_bins s)" "a \<in> set (ht_bins s ! j)" by (metis in_set_conv_nth)
      with ne tsd_invD(1) [OF i] show False by (auto simp: table_ok_def)
    qed
    then have l: "lent s' = lent s" by (auto simp: s' lent_def restrict_map_def fun_eq_iff)
    have "table_ok H s'" using tsd_invD(1) [OF i] ne by (auto simp: s' table_ok_def)
    then show ?thesis using i l tsd_next_key_sound [OF n] by (simp add: tsd_inv_def s')
  qed
qed

lemma inv_tsd_destroy:
  assumes H: "hash_bound H" and i: "tsd_inv H s"
  shows "\<exists>k' s'. tsd_destroy H key s = Some (k', s') \<and> tsd_inv H s'"
proof (cases "tsd_hash_search H s key DTOR_PID")
  case None
  with i show ?thesis by (simp add: tsd_destroy_def)
next
  case (Some d)
  from Some [unfolded inv_search(1) [OF H i]] obtain f where f: "lent s d = Some f" "he_key f = key" "he_pid f = DTOR_PID"
    by blast
  have "is_anchor f" "pmem (lent s) d \<subseteq> kmem (lent s) d" "drains he_key_list kmem"
    using f anchor_no_other(1) [OF f(1,3)] by (simp_all add: is_anchor_def drains_def)
  from drain_and_free [OF this(3) i f(1) this(1) subset_refl this(2)] Some show ?thesis
    by (fastforce simp: tsd_destroy_def bind_eq_Some_conv split: prod.splits)
qed

lemma inv_tsd_exit:
  assumes H: "hash_bound H" and i: "tsd_inv H s" and p: "pid \<noteq> DTOR_PID"
  shows "\<exists>s'. tsd_exit H pid s = Some s' \<and> tsd_inv H s'"
proof (cases "tsd_hash_search H s PID_KEY pid")
  case None
  with i show ?thesis by (simp add: tsd_exit_def)
next
  case (Some d)
  from Some [unfolded inv_search(1) [OF H i]] obtain f where f: "lent s d = Some f" "he_key f = PID_KEY" "he_pid f = pid"
    by blast
  then have "is_anchor f" "kmem (lent s) d \<subseteq> pmem (lent s) d" "drains he_pid_list pmem"
    using anchor_no_other(2) [OF f(1)] p by (simp_all add: is_anchor_def drains_def)
  from drain_and_free [OF this(3) i f(1) this(1,2) subset_refl] Some show ?thesis
    by (auto simp: tsd_exit_def)
qed

text \<open>C1: every table reachable by any sequence of \<^verbatim>\<open>tsd_create\<close>, \<^verbatim>\<open>tsd_set\<close>,
  \<^verbatim>\<open>tsd_destroy\<close> and \<^verbatim>\<open>tsd_exit\<close> calls, whether or not allocations succeed, satisfies
  the invariant: bins hold live entries in their right bin, (key, pid) pairs are unique,
  and each data entry is on exactly the ring of its destructor entry and of its pid
  entry.  In such a table no operation follows a null or freed pointer: each returns.\<close>

theorem tsd_reach_safe:
  assumes H: "hash_bound H" and r: "tsd_reach H s"
  shows "tsd_inv H s \<and> tsd_destroy H key s \<noteq> None \<and> spl_tsd_fini s \<noteq> None \<and>
     (pid \<noteq> DTOR_PID \<longrightarrow> tsd_exit H pid s \<noteq> None \<and>
       (issued H key s \<and> fresh_mem pm s \<and> fresh_mem m s \<and> (pm = None \<or> pm \<noteq> m) \<longrightarrow>
          tsd_set H pm m pid key v s \<noteq> None))"
proof -
  have i: "tsd_inv H s" using r
  proof (induction rule: tsd_reach.induct)
    case (init bits tm bm s)
    then show ?case by (rule tsd_inv_init(1))
  next
    case (create s m keyp dtor keyp' s')
    then show ?case using inv_tsd_create [OF H] by blast
  next
    case (set s pid key pm m v r s')
    with inv_tsd_set [OF H set(8) set(2-6), of v] show ?case by auto
  next
    case (destroy s key key' s')
    with inv_tsd_destroy [OF H destroy(3), of key] show ?case by auto
  next
    case (exit s pid s')
    with inv_tsd_exit [OF H exit(4,2)] show ?case by auto
  qed
  moreover have "tsd_destroy H key s \<noteq> None" using inv_tsd_destroy [OF H i, of key] by auto
  moreover have "spl_tsd_fini s \<noteq> None" using tsd_fini_ok [OF i] by auto
  moreover have "pid \<noteq> DTOR_PID \<Longrightarrow> tsd_exit H pid s \<noteq> None" using inv_tsd_exit [OF H i, of pid] by auto
  moreover have "pid \<noteq> DTOR_PID \<Longrightarrow> issued H key s \<Longrightarrow> fresh_mem pm s \<Longrightarrow> fresh_mem m s \<Longrightarrow>
      pm = None \<or> pm \<noteq> m \<Longrightarrow> tsd_set H pm m pid key v s \<noteq> None"
    using inv_tsd_set [OF H i, of pid key pm m v] by auto
  ultimately show ?thesis by blast
qed

theorem tsd_reach_safe_witness: "tsd_inv golden_hash demo_keyed \<and> tsd_destroy golden_hash 2 demo_keyed \<noteq> None"
proof -
  have "tsd_reach golden_hash demo_table"
    by (rule tsd_reach.init [of TSD_HASH_TABLE_BITS_DEFAULT True True])
      (simp add: demo_table_def spl_tsd_init_def tsd_hash_table_init_def)
  then have "tsd_reach golden_hash demo_keyed"
    by (rule tsd_reach.create [OF _ _ demo_keyed(1)]) (simp add: fresh_mem_def demo_table(2))
  from tsd_reach_safe [OF golden_hash_bound this, of 2] show ?thesis by blast
qed

end
