(* ===== verification/Xdr.thy ===== *)
theory Xdr
  imports Spl_Prelude
begin

text \<open>
  External data representation streams over memory, \<^verbatim>\<open>module/spl/spl-xdr.c\<close> and
  \<^verbatim>\<open>include/spl/rpc/xdr.h\<close>.  The stream pointers are 64-bit addresses with C's
  wrap-around, the memory behind them a map from addresses to bytes.  The
  objects that are encoded and decoded do not overlap the stream buffer (note 7
  of the source), so they are passed by value: an encoder takes the object, a
  decoder returns \<open>None\<close> for \<^verbatim>\<open>FALSE\<close> or \<open>Some\<close> object for \<^verbatim>\<open>TRUE\<close>.
\<close>

section \<open>State\<close>

datatype xdr_op = XDR_ENCODE | XDR_DECODE | XDR_OTHER

text \<open>\<open>x_ops\<close> is \<open>None\<close> for the null pointer, else the operation table that is installed.\<close>

record XDR =
  x_ops :: "xdr_op option"
  x_addr :: u64
  x_addr_end :: u64
  x_op :: xdr_op

record xdr_st = XDR +
  mem :: "u64 \<Rightarrow> u8"

record xdr_bytesrec =
  xc_is_last_record :: bool
  xc_num_avail :: u64

section \<open>Memory\<close>

primrec memcpy :: "u64 \<Rightarrow> u8 list \<Rightarrow> (u64 \<Rightarrow> u8) \<Rightarrow> u64 \<Rightarrow> u8" where
  "memcpy a [] m = m"
| "memcpy a (b # bs) m = memcpy (a + 1) bs (m(a := b))"

primrec peek :: "u64 \<Rightarrow> nat \<Rightarrow> (u64 \<Rightarrow> u8) \<Rightarrow> u8 list" where
  "peek a 0 m = []"
| "peek a (Suc n) m = m a # peek (a + 1) n m"

definition memset0 :: "u64 \<Rightarrow> nat \<Rightarrow> (u64 \<Rightarrow> u8) \<Rightarrow> u64 \<Rightarrow> u8" where
  "memset0 a n m = memcpy a (replicate n 0) m"

text \<open>A 32-bit store of \<^verbatim>\<open>cpu_to_be32 (val)\<close> leaves the bytes of \<open>val\<close> in big endian order.\<close>

definition be32 :: "u32 \<Rightarrow> u8 list" where
  "be32 v = [ucast (drop_bit 24 v), ucast (drop_bit 16 v), ucast (drop_bit 8 v), ucast v]"

definition of_be32 :: "u8 list \<Rightarrow> u32" where
  "of_be32 bs = push_bit 24 (ucast (bs ! 0)) OR push_bit 16 (ucast (bs ! 1)) OR
     push_bit 8 (ucast (bs ! 2)) OR ucast (bs ! 3)"

definition roundup4 :: "u32 \<Rightarrow> u32" where
  "roundup4 x = ((x + (4 - 1)) div 4) * 4"

section \<open>Operations\<close>

definition xdrmem_create :: "u64 \<Rightarrow> u32 \<Rightarrow> xdr_op \<Rightarrow> xdr_st \<Rightarrow> xdr_st" where
  "xdrmem_create addr sz op xs =
     (case op of
        XDR_OTHER \<Rightarrow> xs\<lparr>x_ops := None\<rparr>
      | _ \<Rightarrow>
        let xs1 = xs\<lparr>x_ops := Some op, x_op := op, x_addr := addr, x_addr_end := addr + ucast sz\<rparr>
        in if x_addr_end xs1 < x_addr xs1 then xs1\<lparr>x_ops := None\<rparr> else xs1)"

definition XDR_GET_BYTES_AVAIL :: int where "XDR_GET_BYTES_AVAIL = 1"

definition xdrmem_control :: "int \<Rightarrow> xdr_st \<Rightarrow> xdr_bytesrec option" where
  "xdrmem_control req xs =
     (if req \<noteq> XDR_GET_BYTES_AVAIL then None
      else Some \<lparr>xc_is_last_record = True, xc_num_avail = x_addr_end xs - x_addr xs\<rparr>)"

definition xdrmem_enc_bytes :: "u8 list \<Rightarrow> u32 \<Rightarrow> xdr_st \<Rightarrow> bool \<times> xdr_st" where
  "xdrmem_enc_bytes cp cnt xs =
     (let sz = roundup4 cnt in
      if sz < cnt then (False, xs)
      else if x_addr xs > x_addr_end xs then (False, xs)
      else if sint (x_addr_end xs - x_addr xs) < uint sz then (False, xs)
      else
        let xs1 = xs\<lparr>mem := memcpy (x_addr xs) (take (unat cnt) cp) (mem xs), x_addr := x_addr xs + ucast cnt\<rparr>;
            pad = sz - cnt
        in if pad > 0
           then (True, xs1\<lparr>mem := memset0 (x_addr xs1) (unat pad) (mem xs1), x_addr := x_addr xs1 + ucast pad\<rparr>)
           else (True, xs1))"

definition xdrmem_dec_bytes :: "u32 \<Rightarrow> xdr_st \<Rightarrow> u8 list option \<times> xdr_st" where
  "xdrmem_dec_bytes cnt xs =
     (let sz = roundup4 cnt in
      if sz < cnt then (None, xs)
      else if x_addr xs > x_addr_end xs then (None, xs)
      else if sint (x_addr_end xs - x_addr xs) < uint sz then (None, xs)
      else
        let cp = peek (x_addr xs) (unat cnt) (mem xs);
            xs1 = xs\<lparr>x_addr := x_addr xs + ucast cnt\<rparr>;
            pad = sz - cnt
        in if pad > 0
           then if peek (x_addr xs1) (unat pad) (mem xs1) \<noteq> replicate (unat pad) 0 then (None, xs1)
                else (Some cp, xs1\<lparr>x_addr := x_addr xs1 + ucast pad\<rparr>)
           else (Some cp, xs1))"

definition xdrmem_enc_uint32 :: "u32 \<Rightarrow> xdr_st \<Rightarrow> bool \<times> xdr_st" where
  "xdrmem_enc_uint32 val xs =
     (if x_addr xs + 4 > x_addr_end xs then (False, xs)
      else (True, xs\<lparr>mem := memcpy (x_addr xs) (be32 val) (mem xs), x_addr := x_addr xs + 4\<rparr>))"

definition xdrmem_dec_uint32 :: "xdr_st \<Rightarrow> u32 option \<times> xdr_st" where
  "xdrmem_dec_uint32 xs =
     (if x_addr xs + 4 > x_addr_end xs then (None, xs)
      else (Some (of_be32 (peek (x_addr xs) 4 (mem xs))), xs\<lparr>x_addr := x_addr xs + 4\<rparr>))"

definition xdrmem_enc_char :: "u8 \<Rightarrow> xdr_st \<Rightarrow> bool \<times> xdr_st" where
  "xdrmem_enc_char c xs = xdrmem_enc_uint32 (ucast c) xs"

definition xdrmem_dec_char :: "xdr_st \<Rightarrow> u8 option \<times> xdr_st" where
  "xdrmem_dec_char xs =
     (case xdrmem_dec_uint32 xs of
        (None, xs1) \<Rightarrow> (None, xs1)
      | (Some val, xs1) \<Rightarrow> if val > 0xff then (None, xs1) else (Some (ucast val), xs1))"

definition xdrmem_enc_ushort :: "u16 \<Rightarrow> xdr_st \<Rightarrow> bool \<times> xdr_st" where
  "xdrmem_enc_ushort us xs = xdrmem_enc_uint32 (ucast us) xs"

definition xdrmem_dec_ushort :: "xdr_st \<Rightarrow> u16 option \<times> xdr_st" where
  "xdrmem_dec_ushort xs =
     (case xdrmem_dec_uint32 xs of
        (None, xs1) \<Rightarrow> (None, xs1)
      | (Some val, xs1) \<Rightarrow> if val > 0xffff then (None, xs1) else (Some (ucast val), xs1))"

definition xdrmem_enc_uint :: "u32 \<Rightarrow> xdr_st \<Rightarrow> bool \<times> xdr_st" where
  "xdrmem_enc_uint u xs = xdrmem_enc_uint32 u xs"

definition xdrmem_dec_uint :: "xdr_st \<Rightarrow> u32 option \<times> xdr_st" where
  "xdrmem_dec_uint xs = xdrmem_dec_uint32 xs"

definition xdrmem_enc_ulonglong :: "u64 \<Rightarrow> xdr_st \<Rightarrow> bool \<times> xdr_st" where
  "xdrmem_enc_ulonglong ull xs =
     (case xdrmem_enc_uint32 (ucast (drop_bit 32 ull)) xs of
        (False, xs1) \<Rightarrow> (False, xs1)
      | (True, xs1) \<Rightarrow> xdrmem_enc_uint32 (ucast (ull AND 0xffffffff)) xs1)"

definition xdrmem_dec_ulonglong :: "xdr_st \<Rightarrow> u64 option \<times> xdr_st" where
  "xdrmem_dec_ulonglong xs =
     (case xdrmem_dec_uint32 xs of
        (None, xs1) \<Rightarrow> (None, xs1)
      | (Some high, xs1) \<Rightarrow>
          (case xdrmem_dec_uint32 xs1 of
             (None, xs2) \<Rightarrow> (None, xs2)
           | (Some low, xs2) \<Rightarrow> (Some (push_bit 32 (ucast high) OR ucast low), xs2)))"

text \<open>The loop of \<^verbatim>\<open>xdr_enc_array\<close> over the elements of the array.\<close>

primrec enc_elems :: "('e \<Rightarrow> xdr_st \<Rightarrow> bool \<times> xdr_st) \<Rightarrow> 'e list \<Rightarrow> xdr_st \<Rightarrow> bool \<times> xdr_st" where
  "enc_elems elproc [] xs = (True, xs)"
| "enc_elems elproc (e # es) xs =
     (case elproc e xs of (False, xs1) \<Rightarrow> (False, xs1) | (True, xs1) \<Rightarrow> enc_elems elproc es xs1)"

text \<open>\<open>arr\<close> are the \<open>*sizep\<close> elements of the caller's array, of \<open>elsize\<close> bytes each.\<close>

definition xdr_enc_array ::
  "('e \<Rightarrow> xdr_st \<Rightarrow> bool \<times> xdr_st) \<Rightarrow> 'e list \<Rightarrow> u32 \<Rightarrow> u32 \<Rightarrow> u32 \<Rightarrow> xdr_st \<Rightarrow> bool \<times> xdr_st" where
  "xdr_enc_array elproc arr sizep maxsize elsize xs =
     (if sizep > maxsize \<or> sizep > 0xffffffff div elsize then (False, xs)
      else case xdrmem_enc_uint sizep xs of
        (False, xs1) \<Rightarrow> (False, xs1)
      | (True, xs1) \<Rightarrow> enc_elems elproc (take (unat sizep) arr) xs1)"

primrec dec_elems :: "(xdr_st \<Rightarrow> 'e option \<times> xdr_st) \<Rightarrow> nat \<Rightarrow> xdr_st \<Rightarrow> 'e list option \<times> xdr_st" where
  "dec_elems elproc 0 xs = (Some [], xs)"
| "dec_elems elproc (Suc n) xs =
     (case elproc xs of
        (None, xs1) \<Rightarrow> (None, xs1)
      | (Some e, xs1) \<Rightarrow>
          (case dec_elems elproc n xs1 of
             (None, xs2) \<Rightarrow> (None, xs2) | (Some es, xs2) \<Rightarrow> (Some (e # es), xs2)))"

text \<open>
  What becomes of the buffer a decoder may allocate: the caller supplied one, no
  memory was allocated, it was allocated and freed again, or it is handed to the caller.
\<close>

datatype buffer = Supplied | Unallocated | Freed | Allocated

text \<open>
  \<open>given\<close> says that the caller passed a buffer (\<^verbatim>\<open>*arrp != NULL\<close>), \<open>mem_ok\<close> that
  \<^verbatim>\<open>kmem_alloc\<close> succeeds.
\<close>

definition xdr_dec_array ::
  "(xdr_st \<Rightarrow> 'e option \<times> xdr_st) \<Rightarrow> bool \<Rightarrow> bool \<Rightarrow> u32 \<Rightarrow> u32 \<Rightarrow> xdr_st \<Rightarrow>
     'e list option \<times> buffer \<times> xdr_st" where
  "xdr_dec_array elproc given mem_ok maxsize elsize xs =
     (let none = (if given then Supplied else Unallocated) in
      case xdrmem_dec_uint xs of
        (None, xs1) \<Rightarrow> (None, none, xs1)
      | (Some sz, xs1) \<Rightarrow>
          if sz > maxsize \<or> sz > 0xffffffff div elsize then (None, none, xs1)
          else if \<not> given \<and> \<not> mem_ok then (None, Unallocated, xs1)
          else
            (case dec_elems elproc (unat sz) xs1 of
               (None, xs2) \<Rightarrow> (None, if given then Supplied else Freed, xs2)
             | (Some es, xs2) \<Rightarrow> (Some es, if given then Supplied else Allocated, xs2)))"

text \<open>The characters of \<^verbatim>\<open>*sp\<close> up to its terminating zero are \<open>s\<close>.\<close>

definition xdr_enc_string :: "u8 list \<Rightarrow> u32 \<Rightarrow> xdr_st \<Rightarrow> bool \<times> xdr_st" where
  "xdr_enc_string s maxsize xs =
     (let slen = length s in
      if slen > unat maxsize then (False, xs)
      else let len = of_nat slen in
        case xdrmem_enc_uint len xs of
          (False, xs1) \<Rightarrow> (False, xs1)
        | (True, xs1) \<Rightarrow> xdrmem_enc_bytes s len xs1)"

definition xdr_dec_string :: "bool \<Rightarrow> bool \<Rightarrow> u32 \<Rightarrow> xdr_st \<Rightarrow> u8 list option \<times> buffer \<times> xdr_st" where
  "xdr_dec_string given mem_ok maxsize xs =
     (let none = (if given then Supplied else Unallocated);
          fail = (if given then Supplied else Freed) in
      case xdrmem_dec_uint xs of
        (None, xs1) \<Rightarrow> (None, none, xs1)
      | (Some sz, xs1) \<Rightarrow>
          if sz > maxsize \<or> sz > 0xffffffff - 1 then (None, none, xs1)
          else if \<not> given \<and> \<not> mem_ok then (None, Unallocated, xs1)
          else
            (case xdrmem_dec_bytes sz xs1 of
               (None, xs2) \<Rightarrow> (None, fail, xs2)
             | (Some s, xs2) \<Rightarrow>
                 if 0 \<in> set s then (None, fail, xs2)
                 else (Some s, if given then Supplied else Allocated, xs2)))"

section \<open>Bytes in memory\<close>

lemma unat_add_of_nat:
  fixes a :: u64
  assumes "unat a + n < 2 ^ 64"
  shows "unat (a + of_nat n) = unat a + n"
  using assms by (simp add: unat_word_ariths unat_of_nat take_bit_nat_eq_self)

lemma add_of_nat_neq: "0 < n \<Longrightarrow> n < 2 ^ 64 \<Longrightarrow> (a :: u64) + of_nat n \<noteq> a"
  by (simp add: word_of_nat_eq_0_iff) (metis dvd_imp_le not_le)

lemma memcpy_append: "memcpy a (bs @ cs) m = memcpy (a + of_nat (length bs)) cs (memcpy a bs m)"
  by (induction bs arbitrary: a m) (simp_all add: ac_simps)

lemma memcpy_outside:
  "(\<And>i. i < length bs \<Longrightarrow> a + of_nat i \<noteq> x) \<Longrightarrow> memcpy a bs m x = m x"
proof (induction bs arbitrary: a m)
  case (Cons b bs)
  have "memcpy (a + 1) bs (m(a := b)) x = (m(a := b)) x"
  proof (rule Cons.IH)
    fix i assume "i < length bs"
    with Cons.prems [of "Suc i"] show "a + 1 + of_nat i \<noteq> x" by (simp add: ac_simps)
  qed
  with Cons.prems [of 0] show ?case by simp
qed simp

lemma length_peek [simp]: "length (peek a n m) = n"
  by (induction n arbitrary: a) simp_all

lemma peek_append: "peek a (n + k) m = peek a n m @ peek (a + of_nat n) k m"
  by (induction n arbitrary: a) (simp_all add: ac_simps)

lemma peek_memcpy:
  "length bs < 2 ^ 64 \<Longrightarrow> peek a (length bs) (memcpy a bs m) = bs"
proof (induction bs arbitrary: a m)
  case (Cons b bs)
  have "memcpy (a + 1) bs (m(a := b)) a = (m(a := b)) a"
  proof (rule memcpy_outside)
    fix i assume "i < length bs"
    with Cons.prems add_of_nat_neq [of "Suc i" a] show "a + 1 + of_nat i \<noteq> a" by (simp add: ac_simps)
  qed
  with Cons show ?case by simp
qed simp

lemma of_be32_be32 [simp]: "of_be32 (be32 v) = v"
proof (rule bit_word_eqI)
  fix n assume n: "n < LENGTH(32)"
  consider "n < 8" | "8 \<le> n" "n < 16" | "16 \<le> n" "n < 24" | "24 \<le> n" "n < 32" using n by fastforce
  then show "bit (of_be32 (be32 v)) n = bit v n"
    by cases (simp_all add: of_be32_def be32_def bit_or_iff bit_push_bit_iff bit_ucast_iff bit_drop_bit_eq, auto)
qed

lemma length_be32 [simp]: "length (be32 v) = 4"
  by (simp add: be32_def)

lemma be32_of_be32:
  assumes "length bs = 4"
  shows "be32 (of_be32 bs) = bs"
proof -
  from assms obtain a b c d where bs: "bs = [a, b, c, d]"
    by (auto simp: numeral_eq_Suc length_Suc_conv)
  have "ucast (drop_bit 24 (of_be32 bs)) = a" "ucast (drop_bit 16 (of_be32 bs)) = b"
    "ucast (drop_bit 8 (of_be32 bs)) = c" "ucast (of_be32 bs) = d"
    by (rule bit_word_eqI, auto simp: bs of_be32_def bit_or_iff bit_push_bit_iff bit_ucast_iff bit_drop_bit_eq
        dest: bit_imp_le_length)+
  then show ?thesis by (simp add: be32_def bs)
qed

section \<open>The wire format\<close>

text \<open>
  A stream whose pointers are in order and do not reach the end of the address
  space, and room for \<open>n\<close> more bytes.  \<open>emit\<close> appends bytes, \<open>holds\<close> says that
  given bytes are next on the stream, \<open>advance\<close> moves past them.
\<close>

definition in_buf :: "xdr_st \<Rightarrow> bool" where
  "in_buf xs \<longleftrightarrow> unat (x_addr xs) \<le> unat (x_addr_end xs) \<and> unat (x_addr_end xs) + 8 < 2 ^ 64 \<and>
     unat (x_addr_end xs) - unat (x_addr xs) < 2 ^ 63"

definition room :: "nat \<Rightarrow> xdr_st \<Rightarrow> bool" where
  "room n xs \<longleftrightarrow> unat (x_addr xs) + n \<le> unat (x_addr_end xs)"

definition emit :: "u8 list \<Rightarrow> xdr_st \<Rightarrow> xdr_st" where
  "emit bs xs = xs\<lparr>mem := memcpy (x_addr xs) bs (mem xs), x_addr := x_addr xs + of_nat (length bs)\<rparr>"

definition advance :: "nat \<Rightarrow> xdr_st \<Rightarrow> xdr_st" where
  "advance n xs = xs\<lparr>x_addr := x_addr xs + of_nat n\<rparr>"

definition holds :: "u8 list \<Rightarrow> xdr_st \<Rightarrow> bool" where
  "holds bs xs \<longleftrightarrow> room (length bs) xs \<and> peek (x_addr xs) (length bs) (mem xs) = bs"

definition pad4 :: "u8 list \<Rightarrow> u8 list" where
  "pad4 bs = bs @ replicate ((4 - length bs mod 4) mod 4) 0"

lemma emit_Nil [simp]: "emit [] xs = xs"
  by (simp add: emit_def)

lemma advance_0 [simp]: "advance 0 xs = xs"
  by (simp add: advance_def)

lemma emit_emit: "emit cs (emit bs xs) = emit (bs @ cs) xs"
  by (simp add: emit_def memcpy_append ac_simps)

lemma advance_advance: "advance k (advance n xs) = advance (n + k) xs"
  by (simp add: advance_def ac_simps)

lemma unat_advance:
  assumes "in_buf xs" "room n xs"
  shows "unat (x_addr xs + of_nat n) = unat (x_addr xs) + n"
  by (rule unat_add_of_nat) (use assms in \<open>simp add: in_buf_def room_def\<close>)

lemma in_buf_emit:
  assumes "in_buf xs" "room (length bs) xs"
  shows "in_buf (emit bs xs)" "in_buf (advance (length bs) xs)"
    "room k (emit bs xs) \<longleftrightarrow> room (length bs + k) xs" "room k (advance (length bs) xs) \<longleftrightarrow> room (length bs + k) xs"
  using assms unat_advance [OF assms] by (auto simp: in_buf_def room_def emit_def advance_def)

lemma in_buf_advance:
  assumes "in_buf xs" "room n xs"
  shows "in_buf (advance n xs)" "room k (advance n xs) \<longleftrightarrow> room (n + k) xs"
  using assms unat_advance [OF assms] by (auto simp: in_buf_def room_def advance_def)

lemma holds_append:
  assumes "in_buf xs" "room (length bs) xs"
  shows "holds (bs @ cs) xs \<longleftrightarrow> holds bs xs \<and> holds cs (advance (length bs) xs)"
  using assms in_buf_advance [OF assms]
  by (auto simp: holds_def peek_append) (simp_all add: advance_def)

lemma room_mono: "room n xs \<Longrightarrow> k \<le> n \<Longrightarrow> room k xs"
  by (simp add: room_def)

lemma holds_emit:
  assumes "in_buf xs" "room (length bs) xs"
  shows "holds bs ((emit bs xs)\<lparr>x_addr := x_addr xs\<rparr>)"
proof -
  have "length bs < 2 ^ 64" using assms by (simp add: in_buf_def room_def)
  with assms(2) show ?thesis by (simp add: holds_def room_def emit_def peek_memcpy)
qed

lemma emit_outside:
  assumes "in_buf xs" "room (length bs) xs" "unat x < unat (x_addr xs) \<or> unat (x_addr_end xs) \<le> unat x"
  shows "mem (emit bs xs) x = mem xs x"
proof -
  have "memcpy (x_addr xs) bs (mem xs) x = mem xs x"
  proof (rule memcpy_outside)
    fix i assume i: "i < length bs"
    then have "room i xs" "unat (x_addr xs) + i < unat (x_addr_end xs)" using assms(2) by (simp_all add: room_def)
    with unat_advance [OF assms(1), of i] assms(3) show "x_addr xs + of_nat i \<noteq> x" by auto
  qed
  then show ?thesis by (simp add: emit_def)
qed

section \<open>The contract of a codec\<close>

text \<open>
  \<open>wire v\<close> is the representation of \<open>v\<close>.  An encoder appends it, or fails when
  the stream is full, having written at most a part of it inside the buffer; a
  decoder accepts exactly the representations of valid values.
\<close>

locale xdr_codec =
  fixes wire :: "'a \<Rightarrow> u8 list" and ok :: "'a \<Rightarrow> bool"
    and enc :: "'a \<Rightarrow> xdr_st \<Rightarrow> bool \<times> xdr_st" and dec :: "xdr_st \<Rightarrow> 'a option \<times> xdr_st"
  assumes enc_room: "in_buf xs \<Longrightarrow> ok v \<Longrightarrow> room (length (wire v)) xs \<Longrightarrow> enc v xs = (True, emit (wire v) xs)"
    and enc_full: "in_buf xs \<Longrightarrow> ok v \<Longrightarrow> \<not> room (length (wire v)) xs \<Longrightarrow>
      \<exists>bs. enc v xs = (False, emit bs xs) \<and> room (length bs) xs"
    and dec_iff: "in_buf xs \<Longrightarrow>
      dec xs = (Some v, xs') \<longleftrightarrow> ok v \<and> holds (wire v) xs \<and> xs' = advance (length (wire v)) xs"
    and dec_fail: "in_buf xs \<Longrightarrow> dec xs = (None, xs') \<Longrightarrow> \<exists>n. xs' = advance n xs \<and> room n xs"
begin

lemma elems_enc_room:
  assumes "in_buf xs" "list_all ok vs" "room (length (concat (map wire vs))) xs"
  shows "enc_elems enc vs xs = (True, emit (concat (map wire vs)) xs)"
  using assms
proof (induction vs arbitrary: xs)
  case (Cons v vs)
  then have r: "room (length (wire v)) xs" by (auto intro: room_mono)
  have "enc v xs = (True, emit (wire v) xs)" using Cons.prems r by (intro enc_room) auto
  with Cons in_buf_emit [OF Cons.prems(1) r] show ?case by (simp add: emit_emit)
qed simp

lemma elems_enc_full:
  assumes "in_buf xs" "list_all ok vs" "\<not> room (length (concat (map wire vs))) xs"
  shows "\<exists>bs. enc_elems enc vs xs = (False, emit bs xs) \<and> room (length bs) xs"
  using assms
proof (induction vs arbitrary: xs)
  case Nil
  then show ?case by (simp add: in_buf_def room_def)
next
  case (Cons v vs)
  show ?case
  proof (cases "room (length (wire v)) xs")
    case True
    note e = in_buf_emit [OF Cons.prems(1) True]
    have "enc v xs = (True, emit (wire v) xs)" using Cons.prems True by (intro enc_room) auto
    moreover obtain bs where "enc_elems enc vs (emit (wire v) xs) = (False, emit bs (emit (wire v) xs))"
      "room (length bs) (emit (wire v) xs)"
      using Cons.IH [of "emit (wire v) xs"] Cons.prems e by auto
    ultimately show ?thesis by (intro exI [of _ "wire v @ bs"]) (simp add: emit_emit e)
  next
    case False
    with Cons.prems enc_full [of xs v] show ?thesis by auto
  qed
qed

lemma elems_dec_iff:
  assumes "in_buf xs"
  shows "dec_elems dec n xs = (Some vs, xs') \<longleftrightarrow> length vs = n \<and> list_all ok vs \<and>
     holds (concat (map wire vs)) xs \<and> xs' = advance (length (concat (map wire vs))) xs"
  using assms
proof (induction n arbitrary: xs vs xs')
  case 0
  then show ?case by (auto simp: holds_def room_def in_buf_def)
next
  case (Suc n)
  show ?case
  proof
    assume "dec_elems dec (Suc n) xs = (Some vs, xs')"
    then obtain v xs1 ws where *: "dec xs = (Some v, xs1)" "dec_elems dec n xs1 = (Some ws, xs')" "vs = v # ws"
      by (auto split: prod.splits option.splits)
    from dec_iff [OF Suc.prems] *(1) have v: "ok v" "holds (wire v) xs" "xs1 = advance (length (wire v)) xs" by auto
    then have r: "room (length (wire v)) xs" by (simp add: holds_def)
    note b = in_buf_emit [OF Suc.prems r]
    from Suc.IH b(2) v(3) *(2) have "length ws = n" "list_all ok ws" "holds (concat (map wire ws)) xs1"
      "xs' = advance (length (concat (map wire ws))) xs1" by auto
    with v *(3) holds_append [OF Suc.prems r] show "length vs = Suc n \<and> list_all ok vs \<and>
        holds (concat (map wire vs)) xs \<and> xs' = advance (length (concat (map wire vs))) xs"
      by (simp add: advance_advance)
  next
    assume a: "length vs = Suc n \<and> list_all ok vs \<and>
        holds (concat (map wire vs)) xs \<and> xs' = advance (length (concat (map wire vs))) xs"
    then obtain v ws where vs: "vs = v # ws" by (cases vs) auto
    with a have r: "room (length (wire v)) xs" by (auto simp: holds_def intro: room_mono)
    note b = in_buf_emit [OF Suc.prems r] and h = holds_append [OF Suc.prems r, of "concat (map wire ws)"]
    have "dec xs = (Some v, advance (length (wire v)) xs)" using a vs h dec_iff [OF Suc.prems] by simp
    moreover have "dec_elems dec n (advance (length (wire v)) xs) = (Some ws, xs')"
      using Suc.IH [OF b(2)] a vs h by (simp add: advance_advance)
    ultimately show "dec_elems dec (Suc n) xs = (Some vs, xs')" by (simp add: vs)
  qed
qed

lemma elems_dec_fail:
  assumes "in_buf xs" "dec_elems dec n xs = (None, xs')"
  shows "\<exists>k. xs' = advance k xs \<and> room k xs"
  using assms
proof (induction n arbitrary: xs)
  case (Suc n)
  show ?case
  proof (cases "dec xs")
    case (Pair r xs1)
    show ?thesis
    proof (cases r)
      case None
      with Pair Suc.prems dec_fail [of xs] show ?thesis by auto
    next
      case (Some v)
      with Pair dec_iff [OF Suc.prems(1)] have v: "holds (wire v) xs" "xs1 = advance (length (wire v)) xs" by auto
      then have rm: "room (length (wire v)) xs" by (simp add: holds_def)
      note b = in_buf_advance [OF Suc.prems(1) rm]
      from Suc.prems(2) Some Pair have "dec_elems dec n xs1 = (None, xs')" by (auto split: prod.splits option.splits)
      from Suc.IH [OF _ this] b v obtain k where "xs' = advance k xs1" "room k xs1" by auto
      with b v show ?thesis by (intro exI [of _ "length (wire v) + k"]) (simp add: advance_advance)
    qed
  qed
qed simp

end

section \<open>The codecs of the stream\<close>

lemma room4_iff: "in_buf xs \<Longrightarrow> \<not> x_addr_end xs < x_addr xs + 4 \<longleftrightarrow> room 4 xs"
proof -
  assume b: "in_buf xs"
  then have "unat (x_addr xs) + 4 < 2 ^ 64" by (simp add: in_buf_def)
  from unat_add_of_nat [OF this] show ?thesis by (simp add: room_def word_less_nat_alt not_less)
qed

lemma enc_uint32_eq:
  "in_buf xs \<Longrightarrow> xdrmem_enc_uint32 v xs = (if room 4 xs then (True, emit (be32 v) xs) else (False, xs))"
  using room4_iff [of xs] by (auto simp: xdrmem_enc_uint32_def emit_def)

lemma dec_uint32_eq:
  "in_buf xs \<Longrightarrow> xdrmem_dec_uint32 xs =
     (if room 4 xs then (Some (of_be32 (peek (x_addr xs) 4 (mem xs))), advance 4 xs) else (None, xs))"
  using room4_iff [of xs] by (auto simp: xdrmem_dec_uint32_def advance_def)

lemma room_0: "in_buf xs \<Longrightarrow> room 0 xs"
  by (simp add: in_buf_def room_def)

lemma dec_uint32_iff:
  "in_buf xs \<Longrightarrow> xdrmem_dec_uint32 xs = (Some v, xs') \<longleftrightarrow> holds (be32 v) xs \<and> xs' = advance 4 xs"
  using be32_of_be32 [of "peek (x_addr xs) 4 (mem xs)"]
  by (auto simp: dec_uint32_eq holds_def)

lemma dec_uint32_fail:
  "in_buf xs \<Longrightarrow> xdrmem_dec_uint32 xs = (None, xs') \<Longrightarrow> xs' = xs"
  by (simp add: dec_uint32_eq split: if_splits)

interpretation xdr_uint: xdr_codec be32 "\<lambda>_. True" xdrmem_enc_uint xdrmem_dec_uint
proof (unfold_locales, goal_cases)
  case (1 xs v)
  then show ?case by (simp add: xdrmem_enc_uint_def enc_uint32_eq)
next
  case (2 xs v)
  then show ?case by (intro exI [of _ "[]"]) (simp add: xdrmem_enc_uint_def enc_uint32_eq room_0)
next
  case (3 xs v xs')
  then show ?case by (simp add: xdrmem_dec_uint_def dec_uint32_iff)
next
  case (4 xs xs')
  then show ?case using dec_uint32_fail [of xs xs'] by (intro exI [of _ 0]) (simp add: xdrmem_dec_uint_def room_0)
qed

text \<open>Values sent in a wider word: the decoder accepts exactly those that fit.\<close>

lemma ucast_fits:
  fixes v :: u32
  shows "v \<le> 0xff \<Longrightarrow> ucast (ucast v :: u8) = v" "v \<le> 0xffff \<Longrightarrow> ucast (ucast v :: u16) = v"
    and "ucast (ucast (c :: u8) :: u32) = c" "ucast (ucast (w :: u16) :: u32) = w"
    and "(ucast c :: u32) \<le> 0xff" "(ucast w :: u32) \<le> 0xffff"
proof -
  show "v \<le> 0xff \<Longrightarrow> ucast (ucast v :: u8) = v" "v \<le> 0xffff \<Longrightarrow> ucast (ucast v :: u16) = v"
    by (simp_all add: word_unat_eq_iff unsigned_ucast_eq word_le_nat_alt take_bit_eq_mod unat_mod_distrib)
  show "ucast (ucast (c :: u8) :: u32) = c" "ucast (ucast (w :: u16) :: u32) = w"
    by (rule bit_word_eqI, simp add: bit_ucast_iff)+
  have "unat c < 2 ^ 8" "unat w < 2 ^ 16" using unsigned_less [of c] unsigned_less [of w] by simp_all
  then show "(ucast c :: u32) \<le> 0xff" "(ucast w :: u32) \<le> 0xffff"
    by (simp_all add: word_le_nat_alt unsigned_ucast_eq take_bit_eq_mod)
qed

lemma dec_narrow:
  fixes lim :: u32 and down :: "u32 \<Rightarrow> 'a" and up :: "'a \<Rightarrow> u32"
  assumes "in_buf xs" "\<And>v. v \<le> lim \<Longrightarrow> up (down v) = v" "\<And>c. down (up c) = c" "\<And>c. up c \<le> lim"
    and d: "dec xs = (case xdrmem_dec_uint32 xs of (None, xs1) \<Rightarrow> (None, xs1)
        | (Some val, xs1) \<Rightarrow> if val > lim then (None, xs1) else (Some (down val), xs1))"
  shows "dec xs = (Some c, xs') \<longleftrightarrow> holds (be32 (up c)) xs \<and> xs' = advance (length (be32 (up c))) xs"
    and "dec xs = (None, xs') \<Longrightarrow> \<exists>n. xs' = advance n xs \<and> room n xs"
proof -
  show "dec xs = (Some c, xs') \<longleftrightarrow> holds (be32 (up c)) xs \<and> xs' = advance (length (be32 (up c))) xs"
  proof
    assume "dec xs = (Some c, xs')"
    then obtain v where "xdrmem_dec_uint32 xs = (Some v, xs')" "v \<le> lim" "c = down v"
      unfolding d by (auto split: prod.splits option.splits if_splits simp: not_less)
    moreover from this have "holds (be32 v) xs \<and> xs' = advance 4 xs" using dec_uint32_iff [OF assms(1), of v xs'] by blast
    ultimately show "holds (be32 (up c)) xs \<and> xs' = advance (length (be32 (up c))) xs"
      using assms(2) by simp
  next
    assume "holds (be32 (up c)) xs \<and> xs' = advance (length (be32 (up c))) xs"
    then have "xdrmem_dec_uint32 xs = (Some (up c), xs')" using dec_uint32_iff [OF assms(1)] by simp
    then show "dec xs = (Some c, xs')" unfolding d using assms(3,4) [of c] by (simp add: not_less [symmetric])
  qed
  assume "dec xs = (None, xs')"
  then consider "xdrmem_dec_uint32 xs = (None, xs')" | v where "xdrmem_dec_uint32 xs = (Some v, xs')"
    unfolding d by (auto split: prod.splits option.splits if_splits)
  then show "\<exists>n. xs' = advance n xs \<and> room n xs"
  proof cases
    case 1
    with dec_uint32_fail [OF assms(1)] room_0 [OF assms(1)] show ?thesis by (intro exI [of _ 0]) simp
  next
    case 2
    then have "holds (be32 v) xs \<and> xs' = advance 4 xs" using dec_uint32_iff [OF assms(1), of v xs'] by blast
    then show ?thesis by (intro exI [of _ 4]) (simp add: holds_def)
  qed
qed

interpretation xdr_char: xdr_codec "\<lambda>c. be32 (ucast c)" "\<lambda>_. True" xdrmem_enc_char xdrmem_dec_char
proof (unfold_locales, goal_cases)
  case (1 xs v)
  then show ?case by (simp add: xdrmem_enc_char_def enc_uint32_eq)
next
  case (2 xs v)
  then show ?case by (intro exI [of _ "[]"]) (simp add: xdrmem_enc_char_def enc_uint32_eq room_0)
next
  case (3 xs v xs')
  from dec_narrow(1) [where dec = xdrmem_dec_char and lim = "0xff" and up = ucast and down = ucast,
      OF 3 ucast_fits(1,3,5) xdrmem_dec_char_def] show ?case by simp
next
  case (4 xs xs')
  from dec_narrow(2) [where dec = xdrmem_dec_char and lim = "0xff" and up = ucast and down = ucast,
      OF 4(1) ucast_fits(1,3,5) xdrmem_dec_char_def 4(2)] show ?case .
qed

interpretation xdr_ushort: xdr_codec "\<lambda>c. be32 (ucast c)" "\<lambda>_. True" xdrmem_enc_ushort xdrmem_dec_ushort
proof (unfold_locales, goal_cases)
  case (1 xs v)
  then show ?case by (simp add: xdrmem_enc_ushort_def enc_uint32_eq)
next
  case (2 xs v)
  then show ?case by (intro exI [of _ "[]"]) (simp add: xdrmem_enc_ushort_def enc_uint32_eq room_0)
next
  case (3 xs v xs')
  from dec_narrow(1) [where dec = xdrmem_dec_ushort and lim = "0xffff" and up = ucast and down = ucast,
      OF 3 ucast_fits(2,4,6) xdrmem_dec_ushort_def] show ?case by simp
next
  case (4 xs xs')
  from dec_narrow(2) [where dec = xdrmem_dec_ushort and lim = "0xffff" and up = ucast and down = ucast,
      OF 4(1) ucast_fits(2,4,6) xdrmem_dec_ushort_def 4(2)] show ?case .
qed

definition wire_ulonglong :: "u64 \<Rightarrow> u8 list" where
  "wire_ulonglong v = be32 (ucast (drop_bit 32 v)) @ be32 (ucast (v AND 0xffffffff))"

lemma bit_low32: "bit (0xffffffff :: int) n \<longleftrightarrow> n < 32"
proof -
  have eq: "(0xffffffff :: int) = mask 32" by (simp add: mask_eq_exp_minus_1)
  show ?thesis by (subst eq) (auto simp: bit_mask_iff)
qed

lemma split_ulonglong: "push_bit 32 (ucast (ucast (drop_bit 32 v) :: u32)) OR ucast (ucast (v AND 0xffffffff) :: u32) = (v :: u64)"
proof (rule bit_word_eqI)
  fix n assume "n < LENGTH(64)"
  show "bit (push_bit 32 (ucast (ucast (drop_bit 32 v) :: u32)) OR ucast (ucast (v AND 0xffffffff) :: u32) :: u64) n = bit v n"
    using \<open>n < LENGTH(64)\<close>
    by (cases "n < 32") (auto simp: bit_or_iff bit_push_bit_iff bit_ucast_iff bit_drop_bit_eq bit_and_iff bit_low32)
qed

lemma join_ulonglong:
  fixes h l :: u32
  shows "ucast (drop_bit 32 (push_bit 32 (ucast h) OR ucast l :: u64)) = h"
    and "ucast ((push_bit 32 (ucast h) OR ucast l :: u64) AND 0xffffffff) = l"
proof -
  show "ucast (drop_bit 32 (push_bit 32 (ucast h) OR ucast l :: u64)) = h"
    by (rule bit_word_eqI) (auto simp: bit_or_iff bit_push_bit_iff bit_ucast_iff bit_drop_bit_eq dest: bit_imp_le_length)
  show "ucast ((push_bit 32 (ucast h) OR ucast l :: u64) AND 0xffffffff) = l"
    by (rule bit_word_eqI) (auto simp: bit_or_iff bit_push_bit_iff bit_ucast_iff bit_and_iff bit_low32)
qed

interpretation xdr_ulonglong: xdr_codec wire_ulonglong "\<lambda>_. True" xdrmem_enc_ulonglong xdrmem_dec_ulonglong
proof (unfold_locales, goal_cases)
  case (1 xs v)
  then have r: "room 4 xs" by (simp add: wire_ulonglong_def room_def)
  with 1 in_buf_emit [OF 1(1), of "be32 (ucast (drop_bit 32 v))"] show ?case
    by (simp add: xdrmem_enc_ulonglong_def enc_uint32_eq wire_ulonglong_def emit_emit)
next
  case (2 xs v)
  let ?h = "be32 (ucast (drop_bit 32 v))"
  show ?case
  proof (cases "room 4 xs")
    case True
    with 2 in_buf_emit [OF 2(1), of ?h] show ?thesis
      by (intro exI [of _ ?h]) (simp add: xdrmem_enc_ulonglong_def enc_uint32_eq wire_ulonglong_def)
  next
    case False
    with 2 room_0 show ?thesis by (intro exI [of _ "[]"]) (simp add: xdrmem_enc_ulonglong_def enc_uint32_eq)
  qed
next
  case (3 xs v xs')
  let ?h = "ucast (drop_bit 32 v) :: u32" and ?l = "ucast (v AND 0xffffffff) :: u32"
  show ?case
  proof
    assume "xdrmem_dec_ulonglong xs = (Some v, xs')"
    then obtain h l xs1 where d: "xdrmem_dec_uint32 xs = (Some h, xs1)" "xdrmem_dec_uint32 xs1 = (Some l, xs')"
      and v: "v = push_bit 32 (ucast h) OR ucast l"
      by (auto simp: xdrmem_dec_ulonglong_def split: prod.splits option.splits)
    have h: "holds (be32 h) xs" "xs1 = advance 4 xs" using d(1) dec_uint32_iff [OF 3, of h xs1] by blast+
    then have r: "room (length (be32 h)) xs" by (simp add: holds_def)
    have b1: "in_buf xs1" using in_buf_advance [OF 3 r] h by simp
    have l: "holds (be32 l) xs1" "xs' = advance 4 xs1" using d(2) dec_uint32_iff [OF b1, of l xs'] by blast+
    have "?h = h" "?l = l" unfolding v by (rule join_ulonglong)+
    with h l holds_append [OF 3 r, of "be32 l"] show "True \<and> holds (wire_ulonglong v) xs \<and> xs' = advance (length (wire_ulonglong v)) xs"
      by (simp add: wire_ulonglong_def advance_advance)
  next
    assume a: "True \<and> holds (wire_ulonglong v) xs \<and> xs' = advance (length (wire_ulonglong v)) xs"
    then have r: "room (length (be32 ?h)) xs" by (auto simp: holds_def wire_ulonglong_def intro: room_mono)
    from a holds_append [OF 3 r, of "be32 ?l"] have h: "holds (be32 ?h) xs" "holds (be32 ?l) (advance 4 xs)"
      by (simp_all add: wire_ulonglong_def)
    have b1: "in_buf (advance 4 xs)" using in_buf_advance [OF 3 r] by simp
    have "xdrmem_dec_uint32 xs = (Some ?h, advance 4 xs)" using h(1) dec_uint32_iff [OF 3] by blast
    moreover have "xdrmem_dec_uint32 (advance 4 xs) = (Some ?l, xs')"
      using h(2) a dec_uint32_iff [OF b1, of ?l xs'] by (simp add: wire_ulonglong_def advance_advance)
    ultimately show "xdrmem_dec_ulonglong xs = (Some v, xs')"
      by (simp add: xdrmem_dec_ulonglong_def split_ulonglong)
  qed
next
  case (4 xs xs')
  show ?case
  proof (cases "room 4 xs")
    case True
    note b = in_buf_advance [OF 4(1) True]
    with 4 True have "xs' = advance 4 xs"
      by (auto simp: xdrmem_dec_ulonglong_def dec_uint32_eq split: if_splits)
    with True show ?thesis by blast
  next
    case False
    with 4 room_0 show ?thesis by (intro exI [of _ 0]) (simp add: xdrmem_dec_ulonglong_def dec_uint32_eq)
  qed
qed

subsection \<open>Opaque data\<close>

definition pad_len :: "nat \<Rightarrow> nat" where
  "pad_len n = (4 - n mod 4) mod 4"

lemma pad_len_alt: "(n + 3) div 4 * 4 = n + pad_len n"
proof -
  obtain q r where n: "n = 4 * q + r" and "r < 4" using that [of "n div 4" "n mod 4"] by simp
  then have p: "pad_len n = (4 - r) mod 4" by (simp add: pad_len_def)
  from \<open>r < 4\<close> consider "r = 0" | "r = 1" | "r = 2" | "r = 3" by linarith
  then show ?thesis unfolding p by cases (simp_all add: n)
qed

lemma pad4_alt: "pad4 bs = bs @ replicate (pad_len (length bs)) 0"
  by (simp add: pad4_def pad_len_def)

lemma length_pad4: "length (pad4 bs) = length bs + pad_len (length bs)"
  by (simp add: pad4_alt)

lemma roundup4_ok:
  assumes "unat cnt \<le> 2 ^ 32 - 4"
  shows "unat (roundup4 cnt) = unat cnt + pad_len (unat cnt)" "\<not> roundup4 cnt < cnt"
    "unat (roundup4 cnt - cnt) = pad_len (unat cnt)"
proof -
  have "unat (cnt + 3) = unat cnt + 3" using assms by (simp add: unat_word_ariths)
  then have "unat ((cnt + 3) div 4) = (unat cnt + 3) div 4" by (simp add: unat_div_distrib)
  then show r: "unat (roundup4 cnt) = unat cnt + pad_len (unat cnt)"
    using assms pad_len_alt [of "unat cnt"] by (simp add: roundup4_def unat_word_ariths)
  then show l: "\<not> roundup4 cnt < cnt" by (simp add: word_less_nat_alt)
  then show "unat (roundup4 cnt - cnt) = pad_len (unat cnt)" using r by (simp add: unat_sub_if')
qed

lemma roundup4_overflow:
  assumes "unat cnt > 2 ^ 32 - 4"
  shows "roundup4 cnt < cnt"
proof -
  have "unat cnt < 2 ^ 32" using unsigned_less [of cnt] by simp
  with assms have "unat (cnt + 3) = unat cnt + 3 - 2 ^ 32" by (simp add: unat_word_ariths mod_if)
  then have "unat (cnt + 3) < 4" using \<open>unat cnt < 2 ^ 32\<close> by simp
  then have "unat ((cnt + 3) div 4) = 0" by (simp add: unat_div_distrib)
  then have "(cnt + 3) div 4 = 0" by (simp only: unat_eq_0)
  then have "roundup4 cnt = 0" by (simp add: roundup4_def)
  moreover have "cnt \<noteq> 0" using assms by auto
  ultimately show ?thesis by (simp add: word_neq_0_conv)
qed

lemma space_iff:
  assumes b: "in_buf xs"
  shows "sint (x_addr_end xs - x_addr xs) < uint (sz :: u32) \<longleftrightarrow> \<not> room (unat sz) xs"
proof -
  let ?d = "x_addr_end xs - x_addr xs"
  have le: "x_addr xs \<le> x_addr_end xs" using b by (simp add: in_buf_def word_le_nat_alt)
  then have d: "unat ?d = unat (x_addr_end xs) - unat (x_addr xs)" by (simp add: unat_sub)
  moreover have "unat ?d < 2 ^ 63" using b d by (simp add: in_buf_def)
  moreover have "sint ?d = int (unat ?d)" if "unat ?d < 2 ^ 63"
  proof -
    have "uint ?d = int (unat ?d)" by (rule uint_nat)
    moreover have "sint ?d = signed_take_bit 63 (uint ?d)" by (simp add: sint_uint)
    moreover have "signed_take_bit 63 (int (unat ?d)) = int (unat ?d)"
    proof (rule signed_take_bit_int_eq_self)
      have "int (unat ?d) < int (2 ^ 63)" using that by (simp only: of_nat_less_iff)
      then show "int (unat ?d) < 2 ^ 63" by (simp only: of_nat_power of_nat_numeral)
      have "0 \<le> int (unat ?d)" by (rule of_nat_0_le_iff)
      then show "- (2 ^ 63) \<le> int (unat ?d)" by (rule order_trans [rotated]) simp
    qed
    ultimately show ?thesis by simp
  qed
  ultimately have s: "sint ?d = int (unat (x_addr_end xs) - unat (x_addr xs))" by presburger
  have "unat (x_addr xs) \<le> unat (x_addr_end xs)" using b by (simp add: in_buf_def)
  then show ?thesis unfolding s uint_nat of_nat_less_iff room_def by linarith
qed

lemma peek_pad:
  "peek a (n + k) m = bs @ replicate k 0 \<longleftrightarrow>
     length bs = n \<and> peek a n m = bs \<and> peek (a + of_nat n) k m = replicate k 0"
  if "length bs = n"
  using that by (simp add: peek_append)

definition opaque_ok :: "u32 \<Rightarrow> u8 list \<Rightarrow> bool" where
  "opaque_ok cnt bs \<longleftrightarrow> length bs = unat cnt \<and> unat cnt \<le> 2 ^ 32 - 4"

lemma enc_bytes_eq:
  assumes b: "in_buf xs" and o: "opaque_ok cnt cp"
  shows "xdrmem_enc_bytes cp cnt xs = (if room (length (pad4 cp)) xs then (True, emit (pad4 cp) xs) else (False, xs))"
proof -
  from o have l: "length cp = unat cnt" and c: "unat cnt \<le> 2 ^ 32 - 4" by (auto simp: opaque_ok_def)
  note r = roundup4_ok [OF c]
  have sp: "length (pad4 cp) = unat (roundup4 cnt)" using r(1) l by (simp add: length_pad4)
  have na: "\<not> x_addr_end xs < x_addr xs" using b by (simp add: in_buf_def word_less_nat_alt)
  let ?pad = "roundup4 cnt - cnt"
  have cast: "(ucast ?pad :: u64) = of_nat (pad_len (unat cnt))" unfolding r(3) [symmetric] by simp
  show ?thesis
  proof (cases "room (unat (roundup4 cnt)) xs")
    case False
    with r na space_iff [OF b, of "roundup4 cnt"] sp show ?thesis by (simp add: xdrmem_enc_bytes_def Let_def)
  next
    case True
    have e: "pad4 cp = cp @ replicate (unat ?pad) 0" using r(3) l by (simp add: pad4_alt)
    show ?thesis
    proof (cases "?pad > 0")
      case p: True
      with True r na space_iff [OF b, of "roundup4 cnt"] sp l show ?thesis
        by (simp add: xdrmem_enc_bytes_def Let_def memset0_def e emit_def memcpy_append cast ac_simps)
    next
      case False
      then have "unat ?pad = 0" unfolding word_less_nat_alt by (metis not_gr_zero unat_0)
      with False True r na space_iff [OF b, of "roundup4 cnt"] sp l show ?thesis
        by (simp add: xdrmem_enc_bytes_def Let_def e emit_def)
    qed
  qed
qed

lemma dec_bytes_eq:
  assumes b: "in_buf xs" and c: "unat cnt \<le> 2 ^ 32 - 4"
  shows "xdrmem_dec_bytes cnt xs =
    (let cp = peek (x_addr xs) (unat cnt) (mem xs); k = pad_len (unat cnt) in
     if \<not> room (unat cnt + k) xs then (None, xs)
     else if peek (x_addr xs + of_nat (unat cnt)) k (mem xs) \<noteq> replicate k 0 then (None, advance (unat cnt) xs)
     else (Some cp, advance (unat cnt + k) xs))"
proof -
  note r = roundup4_ok [OF c]
  have na: "\<not> x_addr_end xs < x_addr xs" using b by (simp add: in_buf_def word_less_nat_alt)
  let ?pad = "roundup4 cnt - cnt"
  have cast: "(ucast ?pad :: u64) = of_nat (pad_len (unat cnt))" unfolding r(3) [symmetric] by simp
  show ?thesis
  proof (cases "?pad > 0")
    case True
    with r na space_iff [OF b, of "roundup4 cnt"] show ?thesis
      by (simp add: xdrmem_dec_bytes_def Let_def advance_def cast ac_simps)
  next
    case False
    then have "unat ?pad = 0" unfolding word_less_nat_alt by (metis not_gr_zero unat_0)
    with False r na space_iff [OF b, of "roundup4 cnt"] show ?thesis
      by (simp add: xdrmem_dec_bytes_def Let_def advance_def)
  qed
qed

interpretation xdr_opaque: xdr_codec pad4 "opaque_ok cnt" "\<lambda>cp. xdrmem_enc_bytes cp cnt" "xdrmem_dec_bytes cnt" for cnt
proof (unfold_locales, goal_cases)
  case (1 xs v)
  then show ?case by (simp add: enc_bytes_eq)
next
  case (2 xs v)
  then show ?case by (intro exI [of _ "[]"]) (simp add: enc_bytes_eq room_0)
next
  case (3 xs v xs')
  show ?case
  proof (cases "unat cnt \<le> 2 ^ 32 - 4")
    case True
    have "holds (pad4 v) xs \<longleftrightarrow> room (unat cnt + pad_len (unat cnt)) xs \<and> peek (x_addr xs) (unat cnt) (mem xs) = v \<and>
        peek (x_addr xs + of_nat (unat cnt)) (pad_len (unat cnt)) (mem xs) = replicate (pad_len (unat cnt)) 0"
      if "length v = unat cnt"
      using that peek_pad [OF that, of "x_addr xs" "pad_len (unat cnt)" "mem xs"]
      by (simp add: holds_def length_pad4) (simp add: pad4_alt)
    moreover have "length (peek (x_addr xs) (unat cnt) (mem xs)) = unat cnt" by simp
    ultimately show ?thesis using True
      by (auto simp: dec_bytes_eq [OF 3 True] opaque_ok_def Let_def length_pad4 simp del: length_peek)
  next
    case False
    then have "roundup4 cnt < cnt" by (intro roundup4_overflow) simp
    with False show ?thesis by (simp add: xdrmem_dec_bytes_def opaque_ok_def Let_def)
  qed
next
  case (4 xs xs')
  show ?case
  proof (cases "unat cnt \<le> 2 ^ 32 - 4")
    case True
    with 4 show ?thesis
      by (auto simp: dec_bytes_eq [OF 4(1) True] Let_def room_def split: if_splits
          intro: exI [of _ 0] exI [of _ "unat cnt"] simp: in_buf_def)
  next
    case False
    then have "roundup4 cnt < cnt" by (intro roundup4_overflow) simp
    with 4 room_0 show ?thesis by (intro exI [of _ 0]) (simp add: xdrmem_dec_bytes_def Let_def)
  qed
qed

subsection \<open>Strings\<close>

definition wire_string :: "u8 list \<Rightarrow> u8 list" where
  "wire_string s = be32 (of_nat (length s)) @ pad4 s"

definition string_ok :: "u32 \<Rightarrow> u8 list \<Rightarrow> bool" where
  "string_ok maxsize s \<longleftrightarrow> length s \<le> unat maxsize \<and> length s \<le> 2 ^ 32 - 4 \<and> 0 \<notin> set s"

definition no_buffer :: "'a option \<times> buffer \<times> xdr_st \<Rightarrow> 'a option \<times> xdr_st" where
  "no_buffer r = (case r of (v, _, xs) \<Rightarrow> (v, xs))"

text \<open>A length prefix followed by a body that depends on it.\<close>

lemma dec_prefix:
  assumes b: "in_buf xs"
  shows "xdrmem_dec_uint xs = (Some v, xs1) \<longleftrightarrow> holds (be32 v) xs \<and> xs1 = advance 4 xs"
    and "holds (be32 v) xs \<Longrightarrow> in_buf (advance 4 xs)"
    and "holds (be32 v @ bs) xs \<longleftrightarrow> holds (be32 v) xs \<and> holds bs (advance 4 xs)"
proof -
  show "xdrmem_dec_uint xs = (Some v, xs1) \<longleftrightarrow> holds (be32 v) xs \<and> xs1 = advance 4 xs"
    using xdr_uint.dec_iff [OF b, of v xs1] by simp
  show i: "in_buf (advance 4 xs)" if "holds (be32 v) xs"
    using that in_buf_advance(1) [OF b, of 4] by (simp add: holds_def)
  show "holds (be32 v @ bs) xs \<longleftrightarrow> holds (be32 v) xs \<and> holds bs (advance 4 xs)"
  proof (cases "room 4 xs")
    case True
    then show ?thesis using holds_append [OF b, of "be32 v" bs] by simp
  next
    case False
    then show ?thesis by (auto simp: holds_def room_def)
  qed
qed

lemma of_nat_u32: "n \<le> 2 ^ 32 - 4 \<Longrightarrow> unat (of_nat n :: u32) = n"
  by (simp add: unat_of_nat take_bit_nat_eq_self)

lemma dec_string_Some:
  "no_buffer (xdr_dec_string given mem_ok maxsize xs) = (Some s, xs') \<longleftrightarrow>
     (given \<or> mem_ok) \<and> (\<exists>sz xs1. xdrmem_dec_uint xs = (Some sz, xs1) \<and> sz \<le> maxsize \<and> sz \<le> 0xffffffff - 1 \<and>
        xdrmem_dec_bytes sz xs1 = (Some s, xs') \<and> 0 \<notin> set s)"
  by (auto simp: no_buffer_def xdr_dec_string_def Let_def not_less split: prod.splits option.splits if_splits)

lemma dec_string_fail:
  assumes b: "in_buf xs" and f: "no_buffer (xdr_dec_string given mem_ok maxsize xs) = (None, xs')"
  shows "\<exists>n. xs' = advance n xs \<and> room n xs"
proof -
  consider "xdrmem_dec_uint xs = (None, xs')"
    | sz where "xdrmem_dec_uint xs = (Some sz, xs')"
    | sz xs1 r where "xdrmem_dec_uint xs = (Some sz, xs1)" "xdrmem_dec_bytes sz xs1 = (r, xs')"
    using f by (auto simp: no_buffer_def xdr_dec_string_def Let_def split: prod.splits option.splits if_splits)
  then show ?thesis
  proof cases
    case 1
    with xdr_uint.dec_fail [OF b] show ?thesis by blast
  next
    case (2 sz)
    with dec_prefix(1) [OF b, of sz xs'] show ?thesis by (auto simp: holds_def)
  next
    case (3 sz xs1 r)
    then have h: "holds (be32 sz) xs" "xs1 = advance 4 xs" using dec_prefix(1) [OF b, of sz xs1] by auto
    then have r4: "room 4 xs" by (simp add: holds_def)
    have b1: "in_buf xs1" using dec_prefix(2) [OF b h(1)] h(2) by simp
    obtain n where n: "xs' = advance n xs1" "room n xs1"
    proof (cases r)
      case None
      with 3 xdr_opaque.dec_fail [OF b1, of sz xs'] that show ?thesis by auto
    next
      case (Some v)
      with 3 xdr_opaque.dec_iff [OF b1, of sz v xs'] that [of "length (pad4 v)"] show ?thesis by (auto simp: holds_def)
    qed
    with h(2) in_buf_advance(2) [OF b r4] show ?thesis
      by (intro exI [of _ "4 + n"]) (simp add: advance_advance)
  qed
qed

lemma string_dec_iff:
  assumes b: "in_buf xs" and m: "given \<or> mem_ok"
  shows "no_buffer (xdr_dec_string given mem_ok maxsize xs) = (Some s, xs') \<longleftrightarrow>
     string_ok maxsize s \<and> holds (wire_string s) xs \<and> xs' = advance (length (wire_string s)) xs"
proof
  assume "no_buffer (xdr_dec_string given mem_ok maxsize xs) = (Some s, xs')"
  then obtain sz xs1 where d: "xdrmem_dec_uint xs = (Some sz, xs1)" "sz \<le> maxsize"
    "xdrmem_dec_bytes sz xs1 = (Some s, xs')" "0 \<notin> set s" by (auto simp: dec_string_Some)
  then have h: "holds (be32 sz) xs" "xs1 = advance 4 xs" using dec_prefix(1) [OF b, of sz xs1] by auto
  have b1: "in_buf xs1" using dec_prefix(2) [OF b h(1)] h(2) by simp
  from d(3) have o: "opaque_ok sz s" "holds (pad4 s) xs1" "xs' = advance (length (pad4 s)) xs1"
    by (simp_all add: xdr_opaque.dec_iff [OF b1])
  have "sz = of_nat (length s)" using o(1) by (simp add: opaque_ok_def)
  with h o d dec_prefix(3) [OF b, of sz "pad4 s"]
  show "string_ok maxsize s \<and> holds (wire_string s) xs \<and> xs' = advance (length (wire_string s)) xs"
    by (auto simp: string_ok_def opaque_ok_def wire_string_def advance_advance word_le_nat_alt)
next
  assume a: "string_ok maxsize s \<and> holds (wire_string s) xs \<and> xs' = advance (length (wire_string s)) xs"
  let ?n = "of_nat (length s) :: u32"
  from a have u: "unat ?n = length s" "opaque_ok ?n s" by (auto simp: string_ok_def of_nat_u32 opaque_ok_def)
  from a have h: "holds (be32 ?n) xs" "holds (pad4 s) (advance 4 xs)"
    using dec_prefix(3) [OF b, of ?n "pad4 s"] by (simp_all add: wire_string_def)
  note b1 = dec_prefix(2) [OF b h(1)]
  have "xdrmem_dec_uint xs = (Some ?n, advance 4 xs)" using dec_prefix(1) [OF b] h(1) by simp
  moreover have "xdrmem_dec_bytes ?n (advance 4 xs) = (Some s, xs')"
    using h(2) u a by (simp add: xdr_opaque.dec_iff [OF b1] wire_string_def advance_advance)
  moreover have "?n \<le> maxsize" "?n \<le> 0xffffffff - 1" using a u(1) by (auto simp: string_ok_def word_le_nat_alt)
  ultimately show "no_buffer (xdr_dec_string given mem_ok maxsize xs) = (Some s, xs')"
    using a m by (auto simp: dec_string_Some string_ok_def)
qed

lemma enc_string_eq:
  assumes b: "in_buf xs" and o: "string_ok maxsize s"
  shows "xdr_enc_string s maxsize xs =
    (if room (length (wire_string s)) xs then (True, emit (wire_string s) xs)
     else (False, if room 4 xs then emit (be32 (of_nat (length s))) xs else xs))"
proof -
  let ?n = "of_nat (length s) :: u32"
  have u: "unat ?n = length s" "opaque_ok ?n s" using o by (auto simp: string_ok_def of_nat_u32 opaque_ok_def)
  have l: "\<not> length s > unat maxsize" using o by (simp add: string_ok_def)
  show ?thesis
  proof (cases "room 4 xs")
    case True
    then have e: "in_buf (emit (be32 ?n) xs)" "room k (emit (be32 ?n) xs) \<longleftrightarrow> room (4 + k) xs" for k
      using in_buf_emit [OF b, of "be32 ?n"] by simp_all
    show ?thesis using True l e enc_bytes_eq [OF e(1) u(2)] enc_uint32_eq [OF b, of ?n]
      by (simp add: xdr_enc_string_def Let_def xdrmem_enc_uint_def wire_string_def emit_emit)
  next
    case False
    then have "\<not> room (length (wire_string s)) xs" by (auto simp: wire_string_def room_def)
    with False l enc_uint32_eq [OF b, of ?n] show ?thesis
      by (simp add: xdr_enc_string_def Let_def xdrmem_enc_uint_def)
  qed
qed

interpretation xdr_string: xdr_codec wire_string "string_ok maxsize" "\<lambda>s. xdr_enc_string s maxsize"
  "\<lambda>xs. no_buffer (xdr_dec_string True mem_ok maxsize xs)" for maxsize mem_ok
proof (unfold_locales, goal_cases)
  case (1 xs v)
  then show ?case by (simp add: enc_string_eq)
next
  case (2 xs v)
  then show ?case
    by (intro exI [of _ "if room 4 xs then be32 (of_nat (length v)) else []"]) (simp add: enc_string_eq room_0)
next
  case (3 xs v xs')
  then show ?case by (simp add: string_dec_iff)
next
  case (4 xs xs')
  then show ?case by (rule dec_string_fail)
qed

subsection \<open>Arrays\<close>

definition array_ok :: "('e \<Rightarrow> bool) \<Rightarrow> u32 \<Rightarrow> u32 \<Rightarrow> 'e list \<Rightarrow> bool" where
  "array_ok eok maxsize elsize es \<longleftrightarrow> list_all eok es \<and> length es \<le> unat maxsize \<and>
     length es \<le> unat (0xffffffff div elsize :: u32)"

definition wire_array :: "('e \<Rightarrow> u8 list) \<Rightarrow> 'e list \<Rightarrow> u8 list" where
  "wire_array ewire es = be32 (of_nat (length es)) @ concat (map ewire es)"

lemma dec_array_Some:
  "no_buffer (xdr_dec_array elproc given mem_ok maxsize elsize xs) = (Some es, xs') \<longleftrightarrow>
     (given \<or> mem_ok) \<and> (\<exists>sz xs1. xdrmem_dec_uint xs = (Some sz, xs1) \<and> sz \<le> maxsize \<and> sz \<le> 0xffffffff div elsize \<and>
        dec_elems elproc (unat sz) xs1 = (Some es, xs'))"
  by (auto simp: no_buffer_def xdr_dec_array_def Let_def not_less split: prod.splits option.splits if_splits)

context xdr_codec
begin

lemma enc_array_eq:
  assumes b: "in_buf xs" and o: "array_ok ok maxsize elsize es"
  shows "room (length (wire_array wire es)) xs \<Longrightarrow>
      xdr_enc_array enc es (of_nat (length es)) maxsize elsize xs = (True, emit (wire_array wire es) xs)"
    and "\<not> room (length (wire_array wire es)) xs \<Longrightarrow>
      \<exists>bs. xdr_enc_array enc es (of_nat (length es)) maxsize elsize xs = (False, emit bs xs) \<and> room (length bs) xs"
proof -
  let ?n = "of_nat (length es) :: u32"
  have le: "list_all ok es" "length es \<le> unat maxsize" "length es \<le> unat (0xffffffff div elsize :: u32)"
    using o by (auto simp: array_ok_def)
  have "length es < 2 ^ 32" using le(2) unat_u32_less [of maxsize] by linarith
  then have u: "unat ?n = length es" by (simp add: unat_of_nat take_bit_nat_eq_self)
  have g: "\<not> (?n > maxsize \<or> ?n > 0xffffffff div elsize)" using le u by (simp add: word_less_nat_alt not_less)
  have e: "xdr_enc_array enc es ?n maxsize elsize xs =
      (if room 4 xs then enc_elems enc es (emit (be32 ?n) xs) else (False, xs))"
    using g enc_uint32_eq [OF b, of ?n] u by (simp add: xdr_enc_array_def xdrmem_enc_uint_def)
  have em: "in_buf (emit (be32 ?n) xs)" "room k (emit (be32 ?n) xs) \<longleftrightarrow> room (4 + k) xs" if "room 4 xs" for k
    using in_buf_emit [OF b, of "be32 ?n"] that by simp_all
  show "xdr_enc_array enc es ?n maxsize elsize xs = (True, emit (wire_array wire es) xs)"
    if r: "room (length (wire_array wire es)) xs"
  proof -
    have r4: "room 4 xs" using r by (auto simp: wire_array_def intro: room_mono)
    with e elems_enc_room [OF em(1) [OF r4] le(1)] em(2) [OF r4] r show ?thesis
      by (simp add: wire_array_def emit_emit)
  qed
  show "\<exists>bs. xdr_enc_array enc es ?n maxsize elsize xs = (False, emit bs xs) \<and> room (length bs) xs"
    if r: "\<not> room (length (wire_array wire es)) xs"
  proof (cases "room 4 xs")
    case True
    with e elems_enc_full [OF em(1) [OF True] le(1)] em(2) [OF True] r obtain bs where
      "enc_elems enc es (emit (be32 ?n) xs) = (False, emit bs (emit (be32 ?n) xs))" "room (4 + length bs) xs"
      by (auto simp: wire_array_def)
    with e True show ?thesis by (intro exI [of _ "be32 ?n @ bs"]) (simp add: emit_emit)
  next
    case False
    with e b room_0 show ?thesis by (intro exI [of _ "[]"]) simp
  qed
qed

lemma dec_array_iff:
  assumes b: "in_buf xs" and m: "given \<or> mem_ok"
  shows "no_buffer (xdr_dec_array dec given mem_ok maxsize elsize xs) = (Some es, xs') \<longleftrightarrow>
     array_ok ok maxsize elsize es \<and> holds (wire_array wire es) xs \<and> xs' = advance (length (wire_array wire es)) xs"
proof
  assume "no_buffer (xdr_dec_array dec given mem_ok maxsize elsize xs) = (Some es, xs')"
  then obtain sz xs1 where d: "xdrmem_dec_uint xs = (Some sz, xs1)" "sz \<le> maxsize" "sz \<le> 0xffffffff div elsize"
    "dec_elems dec (unat sz) xs1 = (Some es, xs')" by (auto simp: dec_array_Some)
  then have h: "holds (be32 sz) xs" "xs1 = advance 4 xs" using dec_prefix(1) [OF b, of sz xs1] by auto
  have b1: "in_buf xs1" using dec_prefix(2) [OF b h(1)] h(2) by simp
  from d(4) have o: "length es = unat sz" "list_all ok es" "holds (concat (map wire es)) xs1"
    "xs' = advance (length (concat (map wire es))) xs1" by (simp_all add: elems_dec_iff [OF b1])
  have "array_ok ok maxsize elsize es" using o(1,2) d(2,3) by (simp add: array_ok_def word_le_nat_alt)
  moreover have "wire_array wire es = be32 sz @ concat (map wire es)" by (simp add: wire_array_def o(1))
  ultimately show "array_ok ok maxsize elsize es \<and> holds (wire_array wire es) xs \<and>
      xs' = advance (length (wire_array wire es)) xs"
    using h o(3,4) dec_prefix(3) [OF b, of sz "concat (map wire es)"] by (simp add: advance_advance)
next
  assume a: "array_ok ok maxsize elsize es \<and> holds (wire_array wire es) xs \<and> xs' = advance (length (wire_array wire es)) xs"
  let ?n = "of_nat (length es) :: u32"
  have "length es < 2 ^ 32" using a unat_u32_less [of maxsize] unfolding array_ok_def by linarith
  then have u: "unat ?n = length es" by (simp add: unat_of_nat take_bit_nat_eq_self)
  from a have h: "holds (be32 ?n) xs" "holds (concat (map wire es)) (advance 4 xs)"
    using dec_prefix(3) [OF b, of ?n "concat (map wire es)"] by (simp_all add: wire_array_def)
  note b1 = dec_prefix(2) [OF b h(1)]
  have "xdrmem_dec_uint xs = (Some ?n, advance 4 xs)" using dec_prefix(1) [OF b] h(1) by simp
  moreover have "dec_elems dec (unat ?n) (advance 4 xs) = (Some es, xs')"
    using h(2) u a by (simp add: elems_dec_iff [OF b1] wire_array_def advance_advance array_ok_def)
  moreover have "?n \<le> maxsize" "?n \<le> 0xffffffff div elsize" using a u by (auto simp: array_ok_def word_le_nat_alt)
  ultimately show "no_buffer (xdr_dec_array dec given mem_ok maxsize elsize xs) = (Some es, xs')"
    using m unfolding dec_array_Some by blast
qed

lemma dec_array_fail:
  assumes b: "in_buf xs" and f: "no_buffer (xdr_dec_array dec given mem_ok maxsize elsize xs) = (None, xs')"
  shows "\<exists>n. xs' = advance n xs \<and> room n xs"
proof -
  consider "xdrmem_dec_uint xs = (None, xs')"
    | sz where "xdrmem_dec_uint xs = (Some sz, xs')"
    | sz xs1 where "xdrmem_dec_uint xs = (Some sz, xs1)" "dec_elems dec (unat sz) xs1 = (None, xs')"
    using f by (auto simp: no_buffer_def xdr_dec_array_def Let_def split: prod.splits option.splits if_splits)
  then show ?thesis
  proof cases
    case 1
    with xdr_uint.dec_fail [OF b] show ?thesis by blast
  next
    case (2 sz)
    with dec_prefix(1) [OF b, of sz xs'] show ?thesis by (auto simp: holds_def)
  next
    case (3 sz xs1)
    then have h: "holds (be32 sz) xs" "xs1 = advance 4 xs" using dec_prefix(1) [OF b, of sz xs1] by auto
    then have r4: "room 4 xs" by (simp add: holds_def)
    have b1: "in_buf xs1" using dec_prefix(2) [OF b h(1)] h(2) by simp
    from elems_dec_fail [OF b1 3(2)] obtain n where n: "xs' = advance n xs1" "room n xs1" by blast
    with h(2) in_buf_advance(2) [OF b r4] show ?thesis
      by (intro exI [of _ "4 + n"]) (simp add: advance_advance)
  qed
qed

lemma array_codec:
  "xdr_codec (wire_array wire) (array_ok ok maxsize elsize)
     (\<lambda>es. xdr_enc_array enc es (of_nat (length es)) maxsize elsize)
     (\<lambda>xs. no_buffer (xdr_dec_array dec True mem_ok maxsize elsize xs))"
  using enc_array_eq dec_array_iff dec_array_fail by unfold_locales auto

end

text \<open>Arrays of words and of hyper integers, as \<^verbatim>\<open>xdr_array\<close> is used with these element procedures.\<close>

interpretation xdr_uint_array: xdr_codec "wire_array be32" "array_ok (\<lambda>_. True) maxsize elsize"
  "\<lambda>es. xdr_enc_array xdrmem_enc_uint es (of_nat (length es)) maxsize elsize"
  "\<lambda>xs. no_buffer (xdr_dec_array xdrmem_dec_uint True mem_ok maxsize elsize xs)" for maxsize elsize mem_ok
  by (rule xdr_uint.array_codec)

interpretation xdr_ulonglong_array: xdr_codec "wire_array wire_ulonglong" "array_ok (\<lambda>_. True) maxsize elsize"
  "\<lambda>es. xdr_enc_array xdrmem_enc_ulonglong es (of_nat (length es)) maxsize elsize"
  "\<lambda>xs. no_buffer (xdr_dec_array xdrmem_dec_ulonglong True mem_ok maxsize elsize xs)" for maxsize elsize mem_ok
  by (rule xdr_ulonglong.array_codec)

section \<open>Messages\<close>

text \<open>
  A call of one of the wrappers of \<^verbatim>\<open>xdr.h\<close>: which one and with what limit, and the
  object passed.  The element procedure of \<^verbatim>\<open>xdr_array\<close> is \<^verbatim>\<open>xdr_u_int\<close> here, with elements of 4 bytes.
  \<open>xdr_encode\<close> and \<open>xdr_decode\<close> are the two operation tables.
\<close>

datatype xdr_call =
    Call_char | Call_u_short | Call_u_int | Call_u_longlong
  | Call_opaque u32 | Call_string u32 | Call_array u32

datatype xdr_val =
    Val_char u8 | Val_u_short u16 | Val_u_int u32 | Val_u_longlong u64 | Val_bytes "u8 list" | Val_words "u32 list"

definition map_dec :: "('a \<Rightarrow> 'b) \<Rightarrow> 'a option \<times> xdr_st \<Rightarrow> 'b option \<times> xdr_st" where
  "map_dec f r = (map_option f (fst r), snd r)"

fun xdr_encode :: "xdr_call \<Rightarrow> xdr_val \<Rightarrow> xdr_st \<Rightarrow> bool \<times> xdr_st" where
  "xdr_encode Call_char (Val_char c) xs = xdrmem_enc_char c xs"
| "xdr_encode Call_u_short (Val_u_short w) xs = xdrmem_enc_ushort w xs"
| "xdr_encode Call_u_int (Val_u_int w) xs = xdrmem_enc_uint w xs"
| "xdr_encode Call_u_longlong (Val_u_longlong w) xs = xdrmem_enc_ulonglong w xs"
| "xdr_encode (Call_opaque cnt) (Val_bytes bs) xs = xdrmem_enc_bytes bs cnt xs"
| "xdr_encode (Call_string maxsize) (Val_bytes bs) xs = xdr_enc_string bs maxsize xs"
| "xdr_encode (Call_array maxsize) (Val_words ws) xs =
     xdr_enc_array xdrmem_enc_uint ws (of_nat (length ws)) maxsize 4 xs"
| "xdr_encode _ _ xs = (False, xs)"

fun xdr_decode :: "xdr_call \<Rightarrow> xdr_st \<Rightarrow> xdr_val option \<times> xdr_st" where
  "xdr_decode Call_char xs = map_dec Val_char (xdrmem_dec_char xs)"
| "xdr_decode Call_u_short xs = map_dec Val_u_short (xdrmem_dec_ushort xs)"
| "xdr_decode Call_u_int xs = map_dec Val_u_int (xdrmem_dec_uint xs)"
| "xdr_decode Call_u_longlong xs = map_dec Val_u_longlong (xdrmem_dec_ulonglong xs)"
| "xdr_decode (Call_opaque cnt) xs = map_dec Val_bytes (xdrmem_dec_bytes cnt xs)"
| "xdr_decode (Call_string maxsize) xs = map_dec Val_bytes (no_buffer (xdr_dec_string True True maxsize xs))"
| "xdr_decode (Call_array maxsize) xs =
     map_dec Val_words (no_buffer (xdr_dec_array xdrmem_dec_uint True True maxsize 4 xs))"

fun wire_val :: "xdr_call \<Rightarrow> xdr_val \<Rightarrow> u8 list" where
  "wire_val _ (Val_char c) = be32 (ucast c)"
| "wire_val _ (Val_u_short w) = be32 (ucast w)"
| "wire_val _ (Val_u_int w) = be32 w"
| "wire_val _ (Val_u_longlong w) = wire_ulonglong w"
| "wire_val (Call_opaque _) (Val_bytes bs) = pad4 bs"
| "wire_val _ (Val_bytes bs) = wire_string bs"
| "wire_val _ (Val_words ws) = wire_array be32 ws"

fun val_ok :: "xdr_call \<Rightarrow> xdr_val \<Rightarrow> bool" where
  "val_ok Call_char (Val_char _) = True"
| "val_ok Call_u_short (Val_u_short _) = True"
| "val_ok Call_u_int (Val_u_int _) = True"
| "val_ok Call_u_longlong (Val_u_longlong _) = True"
| "val_ok (Call_opaque cnt) (Val_bytes bs) = opaque_ok cnt bs"
| "val_ok (Call_string maxsize) (Val_bytes bs) = string_ok maxsize bs"
| "val_ok (Call_array maxsize) (Val_words ws) = array_ok (\<lambda>_. True) maxsize 4 ws"
| "val_ok _ _ = False"

lemma map_dec_Some: "map_dec f r = (Some v, xs') \<longleftrightarrow> (\<exists>a. r = (Some a, xs') \<and> v = f a)"
  by (cases r) (auto simp: map_dec_def)

lemma map_dec_None: "map_dec f r = (None, xs') \<longleftrightarrow> r = (None, xs')"
  by (cases r) (auto simp: map_dec_def)

interpretation xdr_item: xdr_codec "wire_val c" "val_ok c" "xdr_encode c" "xdr_decode c" for c
proof (unfold_locales, goal_cases)
  case (1 xs v)
  then show ?case
    by (cases "(c, v)" rule: val_ok.cases) (simp_all add: xdr_char.enc_room xdr_ushort.enc_room xdr_uint.enc_room
        xdr_ulonglong.enc_room xdr_opaque.enc_room xdr_string.enc_room xdr_uint_array.enc_room)
next
  case (2 xs v)
  then show ?case
    by (cases "(c, v)" rule: val_ok.cases) (simp_all add: xdr_char.enc_full xdr_ushort.enc_full xdr_uint.enc_full
        xdr_ulonglong.enc_full xdr_opaque.enc_full xdr_string.enc_full xdr_uint_array.enc_full)
next
  case (3 xs v xs')
  then show ?case
    by (cases c; cases v) (simp_all add: map_dec_Some xdr_char.dec_iff xdr_ushort.dec_iff xdr_uint.dec_iff
        xdr_ulonglong.dec_iff xdr_opaque.dec_iff xdr_string.dec_iff xdr_uint_array.dec_iff)
next
  case (4 xs xs')
  then show ?case
    by (cases c) (simp_all add: map_dec_None xdr_char.dec_fail xdr_ushort.dec_fail xdr_uint.dec_fail
        xdr_ulonglong.dec_fail xdr_opaque.dec_fail xdr_string.dec_fail xdr_uint_array.dec_fail)
qed

text \<open>
  The wrappers call through the operation table that is installed in the stream.  \<open>None\<close>: there is none, and the call follows a null pointer,
  or it is the table of the other direction.
\<close>

definition xdr_call_encode :: "xdr_call \<Rightarrow> xdr_val \<Rightarrow> xdr_st \<Rightarrow> (bool \<times> xdr_st) option" where
  "xdr_call_encode c v xs = (if x_ops xs = Some XDR_ENCODE then Some (xdr_encode c v xs) else None)"

definition xdr_call_decode :: "xdr_call \<Rightarrow> xdr_st \<Rightarrow> (xdr_val option \<times> xdr_st) option" where
  "xdr_call_decode c xs = (if x_ops xs = Some XDR_DECODE then Some (xdr_decode c xs) else None)"

text \<open>A caller encodes or decodes a sequence of objects and stops at the first failure.\<close>

fun encode_all :: "(xdr_call \<times> xdr_val) list \<Rightarrow> xdr_st \<Rightarrow> (bool \<times> xdr_st) option" where
  "encode_all [] xs = Some (True, xs)"
| "encode_all ((c, v) # msg) xs =
     (case xdr_call_encode c v xs of
        None \<Rightarrow> None
      | Some (False, xs1) \<Rightarrow> Some (False, xs1)
      | Some (True, xs1) \<Rightarrow> encode_all msg xs1)"

fun decode_all :: "xdr_call list \<Rightarrow> xdr_st \<Rightarrow> (xdr_val list option \<times> xdr_st) option" where
  "decode_all [] xs = Some (Some [], xs)"
| "decode_all (c # cs) xs =
     (case xdr_call_decode c xs of
        None \<Rightarrow> None
      | Some (None, xs1) \<Rightarrow> Some (None, xs1)
      | Some (Some v, xs1) \<Rightarrow>
          (case decode_all cs xs1 of
             None \<Rightarrow> None
           | Some (None, xs2) \<Rightarrow> Some (None, xs2)
           | Some (Some vs, xs2) \<Rightarrow> Some (Some (v # vs), xs2)))"

lemma x_ops_moves [simp]: "x_ops (emit bs xs) = x_ops xs" "x_ops (advance n xs) = x_ops xs"
  by (simp_all add: emit_def advance_def)

definition wire_msg :: "(xdr_call \<times> xdr_val) list \<Rightarrow> u8 list" where
  "wire_msg msg = concat (map (\<lambda>(c, v). wire_val c v) msg)"

definition msg_ok :: "(xdr_call \<times> xdr_val) list \<Rightarrow> bool" where
  "msg_ok msg \<longleftrightarrow> list_all (\<lambda>(c, v). val_ok c v) msg"

text \<open>
  What a caller may pass: an object of the type of the call, for opaque data one of the size it names, for a string its bytes up to the
  terminating zero, for an array one whose length the type of its size holds.  It need not be within the limits of the call.
\<close>

fun passed :: "xdr_call \<Rightarrow> xdr_val \<Rightarrow> bool" where
  "passed Call_char (Val_char _) = True"
| "passed Call_u_short (Val_u_short _) = True"
| "passed Call_u_int (Val_u_int _) = True"
| "passed Call_u_longlong (Val_u_longlong _) = True"
| "passed (Call_opaque cnt) (Val_bytes bs) = (length bs = unat cnt)"
| "passed (Call_string _) (Val_bytes bs) = (0 \<notin> set bs)"
| "passed (Call_array _) (Val_words ws) = (length ws < 2 ^ 32)"
| "passed _ _ = False"

lemma val_ok_passed: "val_ok c v \<Longrightarrow> passed c v"
  by (cases "(c, v)" rule: val_ok.cases)
    (use unat_u32_less in \<open>auto simp: opaque_ok_def string_ok_def array_ok_def intro: le_less_trans\<close>)

lemma enc_opaque_refused:
  assumes "length bs = unat cnt" "\<not> opaque_ok cnt bs"
  shows "xdrmem_enc_bytes bs cnt xs = (False, xs)"
proof -
  have "roundup4 cnt < cnt" by (rule roundup4_overflow) (use assms in \<open>simp add: opaque_ok_def\<close>)
  then show ?thesis by (simp add: xdrmem_enc_bytes_def Let_def)
qed

lemma enc_string_refused:
  assumes "in_buf xs" "0 \<notin> set bs" "\<not> string_ok maxsize bs"
  shows "\<exists>cs. xdr_enc_string bs maxsize xs = (False, emit cs xs) \<and> room (length cs) xs"
proof (cases "length bs \<le> unat maxsize")
  case False
  then show ?thesis using room_0 [OF assms(1)] by (intro exI [of _ "[]"]) (simp add: xdr_enc_string_def Let_def)
next
  case True
  let ?n = "of_nat (length bs) :: u32"
  have "length bs < 2 ^ 32" using True unat_u32_less [of maxsize] by linarith
  then have u: "unat ?n = length bs" by (simp add: unat_of_nat take_bit_nat_eq_self)
  then have "\<not> opaque_ok ?n bs" using True assms(2,3) by (simp add: string_ok_def opaque_ok_def)
  then have e: "xdrmem_enc_bytes bs ?n ys = (False, ys)" for ys using enc_opaque_refused u by simp
  show ?thesis
    by (intro exI [of _ "if room 4 xs then be32 ?n else []"])
      (use True e enc_uint32_eq [OF assms(1), of ?n] room_0 [OF assms(1)] in \<open>simp add: xdr_enc_string_def Let_def xdrmem_enc_uint_def\<close>)
qed

lemma enc_array_refused:
  assumes "length ws < 2 ^ 32" "\<not> array_ok (\<lambda>_. True) maxsize elsize ws"
  shows "xdr_enc_array elproc ws (of_nat (length ws)) maxsize elsize xs = (False, xs)"
proof -
  have "unat (of_nat (length ws) :: u32) = length ws" using assms(1) by (simp add: unat_of_nat take_bit_nat_eq_self)
  then have "of_nat (length ws) > maxsize \<or> of_nat (length ws) > 0xffffffff div elsize"
    using assms(2) by (auto simp: array_ok_def word_less_nat_alt list_all_iff)
  then show ?thesis by (simp add: xdr_enc_array_def)
qed

lemma msg_ok_passed: "msg_ok msg \<Longrightarrow> list_all (\<lambda>(c, v). passed c v) msg"
  by (auto simp: msg_ok_def list_all_iff intro: val_ok_passed)

text \<open>An object outside of the limits is refused, and what has been written by then is inside the buffer.\<close>

lemma enc_refused:
  assumes "in_buf xs" "passed c v" "\<not> val_ok c v"
  shows "\<exists>bs. xdr_encode c v xs = (False, emit bs xs) \<and> room (length bs) xs"
  using assms room_0 [OF assms(1)] enc_string_refused [OF assms(1)]
  by (cases "(c, v)" rule: val_ok.cases) (auto simp: enc_opaque_refused enc_array_refused intro: exI [of _ "[]"])

lemma encode_all_bytes:
  assumes "in_buf xs" "x_ops xs = Some XDR_ENCODE" "list_all (\<lambda>(c, v). passed c v) msg"
  shows "\<exists>bs. encode_all msg xs = Some (msg_ok msg \<and> room (length (wire_msg msg)) xs, emit bs xs) \<and> room (length bs) xs \<and>
    (msg_ok msg \<and> room (length (wire_msg msg)) xs \<longrightarrow> bs = wire_msg msg)"
  using assms
proof (induction msg arbitrary: xs)
  case Nil
  then show ?case by (intro exI [of _ "[]"]) (simp add: wire_msg_def msg_ok_def room_0)
next
  case (Cons cv msg)
  obtain c v where cv: "cv = (c, v)" by (cases cv)
  have p: "passed c v" "list_all (\<lambda>(c, v). passed c v) msg" using Cons.prems(3) cv by simp_all
  have w: "wire_msg (cv # msg) = wire_val c v @ wire_msg msg" "msg_ok (cv # msg) \<longleftrightarrow> val_ok c v \<and> msg_ok msg"
    by (simp_all add: cv wire_msg_def msg_ok_def)
  show ?case
  proof (cases "val_ok c v \<and> room (length (wire_val c v)) xs")
    case True
    then have r: "room (length (wire_val c v)) xs" by simp
    note e = in_buf_emit [OF Cons.prems(1) r]
    have "xdr_encode c v xs = (True, emit (wire_val c v) xs)" using Cons.prems(1) True by (intro xdr_item.enc_room) simp_all
    moreover obtain bs where "encode_all msg (emit (wire_val c v) xs) = Some (msg_ok msg \<and> room (length (wire_msg msg)) (emit (wire_val c v) xs),
        emit bs (emit (wire_val c v) xs))" "room (length bs) (emit (wire_val c v) xs)"
      "msg_ok msg \<and> room (length (wire_msg msg)) (emit (wire_val c v) xs) \<longrightarrow> bs = wire_msg msg"
      using Cons.IH [of "emit (wire_val c v) xs"] Cons.prems(2) e(1) p(2) by auto
    ultimately show ?thesis using True Cons.prems(2) unfolding w
      by (intro exI [of _ "wire_val c v @ bs"]) (simp add: cv xdr_call_encode_def emit_emit e)
  next
    case False
    then obtain bs where "xdr_encode c v xs = (False, emit bs xs)" "room (length bs) xs"
      using enc_refused [OF Cons.prems(1) p(1)] xdr_item.enc_full [OF Cons.prems(1)] by blast
    moreover have "\<not> (val_ok c v \<and> msg_ok msg \<and> room (length (wire_val c v @ wire_msg msg)) xs)"
      using False room_mono by fastforce
    ultimately show ?thesis using Cons.prems(2) unfolding w by (intro exI [of _ bs]) (auto simp: cv xdr_call_encode_def)
  qed
qed

lemma decode_all_iff:
  assumes "in_buf xs" "x_ops xs = Some XDR_DECODE"
  shows "decode_all cs xs = Some (Some vs, xs') \<longleftrightarrow> length vs = length cs \<and> msg_ok (zip cs vs) \<and>
     holds (wire_msg (zip cs vs)) xs \<and> xs' = advance (length (wire_msg (zip cs vs))) xs"
  using assms
proof (induction cs arbitrary: xs vs xs')
  case Nil
  then show ?case by (auto simp: wire_msg_def msg_ok_def holds_def room_0)
next
  case (Cons c cs)
  show ?case
  proof
    assume "decode_all (c # cs) xs = Some (Some vs, xs')"
    then obtain v xs1 ws where *: "xdr_decode c xs = (Some v, xs1)" "decode_all cs xs1 = Some (Some ws, xs')" "vs = v # ws"
      using Cons.prems(2) by (auto simp: xdr_call_decode_def split: prod.splits option.splits)
    from *(1) have v: "val_ok c v" "holds (wire_val c v) xs" "xs1 = advance (length (wire_val c v)) xs"
      by (simp_all add: xdr_item.dec_iff [OF Cons.prems(1)])
    then have r: "room (length (wire_val c v)) xs" by (simp add: holds_def)
    note b = in_buf_emit [OF Cons.prems(1) r]
    from Cons.IH [of xs1 ws xs'] Cons.prems(2) b(2) v(3) *(2) have "length ws = length cs" "msg_ok (zip cs ws)" "holds (wire_msg (zip cs ws)) xs1"
      "xs' = advance (length (wire_msg (zip cs ws))) xs1" by auto
    with v *(3) holds_append [OF Cons.prems(1) r] show "length vs = length (c # cs) \<and> msg_ok (zip (c # cs) vs) \<and>
        holds (wire_msg (zip (c # cs) vs)) xs \<and> xs' = advance (length (wire_msg (zip (c # cs) vs))) xs"
      by (simp add: advance_advance msg_ok_def wire_msg_def)
  next
    assume a: "length vs = length (c # cs) \<and> msg_ok (zip (c # cs) vs) \<and>
        holds (wire_msg (zip (c # cs) vs)) xs \<and> xs' = advance (length (wire_msg (zip (c # cs) vs))) xs"
    then obtain v ws where vs: "vs = v # ws" by (cases vs) auto
    with a have r: "room (length (wire_val c v)) xs" by (auto simp: holds_def wire_msg_def intro: room_mono)
    note b = in_buf_emit [OF Cons.prems(1) r] and h = holds_append [OF Cons.prems(1) r, of "wire_msg (zip cs ws)"]
    have "xdr_decode c xs = (Some v, advance (length (wire_val c v)) xs)"
      using a vs h by (simp add: xdr_item.dec_iff [OF Cons.prems(1)] msg_ok_def wire_msg_def)
    moreover have "decode_all cs (advance (length (wire_val c v)) xs) = Some (Some ws, xs')"
      using a vs h Cons.prems(2) by (simp add: Cons.IH [OF b(2)] advance_advance msg_ok_def wire_msg_def)
    ultimately show "decode_all (c # cs) xs = Some (Some vs, xs')" using Cons.prems(2) by (simp add: vs xdr_call_decode_def)
  qed
qed

lemma create_in_buf:
  assumes "unat addr + unat sz + 8 < 2 ^ 64" "op \<noteq> XDR_OTHER" "xs = xdrmem_create addr sz op xs0"
  shows "in_buf xs" "x_ops xs = Some op" "x_addr xs = addr" "room n xs \<longleftrightarrow> n \<le> unat sz" "mem xs = mem xs0"
    "unat (x_addr_end xs) = unat addr + unat sz"
proof -
  have c: "(ucast sz :: u64) = of_nat (unat sz)" by simp
  have e: "unat (addr + ucast sz) = unat addr + unat sz"
    unfolding c by (rule unat_add_of_nat) (use assms(1) in simp)
  have "\<not> addr + ucast sz < addr" using e by (simp add: word_less_nat_alt)
  then have x: "xs = xs0\<lparr>x_ops := Some op, x_op := op, x_addr := addr, x_addr_end := addr + ucast sz\<rparr>"
    using assms(2,3) by (cases op) (simp_all add: xdrmem_create_def Let_def)
  show "in_buf xs" "room n xs \<longleftrightarrow> n \<le> unat sz" "unat (x_addr_end xs) = unat addr + unat sz"
    using e assms(1) unat_u32_less [of sz] by (simp_all add: x in_buf_def room_def)
  show "x_ops xs = Some op" "x_addr xs = addr" "mem xs = mem xs0" by (simp_all add: x)
qed

section \<open>Properties\<close>

text \<open>C4: a message of valid objects that fits a memory stream encodes completely, and a
  decoding stream created over the same buffer, with the same sequence of calls,
  returns exactly the objects that were encoded, having consumed as many bytes as
  were written.\<close>

theorem xdr_message_roundtrip:
  assumes "unat addr + unat sz + 8 < 2 ^ 64" "msg_ok msg" "length (wire_msg msg) \<le> unat sz"
  shows "\<exists>xs1 ys1. encode_all msg (xdrmem_create addr sz XDR_ENCODE xs0) = Some (True, xs1) \<and>
     decode_all (map fst msg) (xdrmem_create addr sz XDR_DECODE xs1) = Some (Some (map snd msg), ys1) \<and>
     x_addr ys1 = x_addr xs1"
proof -
  define xs where "xs = xdrmem_create addr sz XDR_ENCODE xs0"
  define xs1 where "xs1 = emit (wire_msg msg) xs"
  define ys where "ys = xdrmem_create addr sz XDR_DECODE xs1"
  have c: "in_buf xs" "x_addr xs = addr" "room (length (wire_msg msg)) xs" "x_ops xs = Some XDR_ENCODE"
    using create_in_buf [OF assms(1) _ xs_def] assms(3) by auto
  have d: "in_buf ys" "x_addr ys = addr" "room (length (wire_msg msg)) ys" "mem ys = mem xs1" "x_ops ys = Some XDR_DECODE"
    using create_in_buf [OF assms(1) _ ys_def] assms(3) by auto
  have z: "zip (map fst msg) (map snd msg) = msg" by (rule zip_map_fst_snd)
  have "holds (wire_msg msg) ys"
    using holds_emit [OF c(1,3)] c(2) d(2-4) by (simp add: holds_def xs1_def)
  then have "decode_all (map fst msg) ys = Some (Some (map snd msg), advance (length (wire_msg msg)) ys)"
    using assms(2) by (simp add: decode_all_iff [OF d(1,5)] z)
  moreover have "encode_all msg xs = Some (True, xs1)" using encode_all_bytes [OF c(1,4) msg_ok_passed [OF assms(2)]] assms(2) c(3) by (auto simp: xs1_def)
  moreover have "x_addr (advance (length (wire_msg msg)) ys) = x_addr xs1"
    using c(2) d(2) by (simp add: advance_def xs1_def emit_def)
  ultimately show ?thesis unfolding xs_def ys_def by blast
qed

definition demo_xdr :: xdr_st where
  "demo_xdr = \<lparr>x_ops = None, x_addr = 0, x_addr_end = 0, x_op = XDR_OTHER, mem = \<lambda>_. 0\<rparr>"

definition demo_msg :: "(xdr_call \<times> xdr_val) list" where
  "demo_msg = [(Call_char, Val_char 65), (Call_u_longlong, Val_u_longlong 0x123456789A),
     (Call_string 10, Val_bytes [104, 105]), (Call_array 4, Val_words [7, 8])]"

lemma demo_msg_ok: "msg_ok demo_msg" "length (wire_msg demo_msg) = 32"
  by (simp_all add: demo_msg_def msg_ok_def wire_msg_def string_ok_def array_ok_def wire_ulonglong_def
      wire_string_def wire_array_def pad4_def)

theorem xdr_message_roundtrip_witness:
  "\<exists>xs1 ys1. encode_all demo_msg (xdrmem_create 4096 64 XDR_ENCODE demo_xdr) = Some (True, xs1) \<and>
     decode_all (map fst demo_msg) (xdrmem_create 4096 64 XDR_DECODE xs1) =
       Some (Some [Val_char 65, Val_u_longlong 0x123456789A, Val_bytes [104, 105], Val_words [7, 8]], ys1)"
proof -
  have s: "map snd demo_msg = [Val_char 65, Val_u_longlong 0x123456789A, Val_bytes [104, 105], Val_words [7, 8]]"
    by (simp add: demo_msg_def)
  show ?thesis
    using xdr_message_roundtrip [of 4096 64 demo_msg demo_xdr] demo_msg_ok unfolding s by auto
qed

text \<open>C5: encoding never writes outside the buffer the stream was created over, whatever objects of the right type a caller passes, and whether or
  not they are within the limits of the calls and fit the buffer: opaque data and strings whose padded size overflows 32 bits, strings and arrays
  above the limit of the call, and messages that are too long are refused, with the write position inside the buffer.  Encoding
  succeeds exactly when all objects are within the limits and the message fits.\<close>

theorem xdr_encode_in_bounds:
  assumes "unat addr + unat sz + 8 < 2 ^ 64" "list_all (\<lambda>(c, v). passed c v) msg"
  shows "\<exists>r xs1. encode_all msg (xdrmem_create addr sz XDR_ENCODE xs0) = Some (r, xs1) \<and>
     (r \<longleftrightarrow> msg_ok msg \<and> length (wire_msg msg) \<le> unat sz) \<and>
     unat addr \<le> unat (x_addr xs1) \<and> unat (x_addr xs1) \<le> unat addr + unat sz \<and>
     (\<forall>x. unat x < unat addr \<or> unat addr + unat sz \<le> unat x \<longrightarrow> mem xs1 x = mem xs0 x)"
proof -
  define xs where "xs = xdrmem_create addr sz XDR_ENCODE xs0"
  note c = create_in_buf [OF assms(1) _ xs_def, simplified]
  obtain bs where bs: "encode_all msg xs = Some (msg_ok msg \<and> room (length (wire_msg msg)) xs, emit bs xs)" "room (length bs) xs"
    using encode_all_bytes [OF c(1,2) assms(2)] by blast
  have "unat (x_addr (emit bs xs)) = unat addr + length bs"
    using unat_advance [OF c(1) bs(2)] c(3) by (simp add: emit_def)
  moreover have "mem (emit bs xs) x = mem xs0 x" if "unat x < unat addr \<or> unat addr + unat sz \<le> unat x" for x
    using emit_outside [OF c(1) bs(2), of x] that c(3,5,6) by simp
  ultimately show ?thesis using bs c(4) unfolding xs_def [symmetric] by auto
qed

text \<open>A buffer of 64 bytes, and a string of two bytes where the call allows one.\<close>

theorem xdr_encode_in_bounds_witness:
  "\<exists>xs1. encode_all (demo_msg @ [(Call_string 1, Val_bytes [104, 105])]) (xdrmem_create 4096 64 XDR_ENCODE demo_xdr) = Some (False, xs1) \<and> mem xs1 4160 = 0"
proof -
  let ?m = "demo_msg @ [(Call_string 1, Val_bytes [104, 105])]"
  have a: "unat (4096 :: u64) + unat (64 :: u32) + 8 < 2 ^ 64" by simp
  have p: "list_all (\<lambda>(c, v). passed c v) ?m" by (simp add: demo_msg_def)
  have "\<not> msg_ok ?m" by (simp add: msg_ok_def string_ok_def)
  with xdr_encode_in_bounds [OF a p, of demo_xdr] show ?thesis by (auto simp: demo_xdr_def)
qed

text \<open>C6: decoding is strict: from whatever bytes the buffer holds, a sequence of calls
  succeeds with given objects exactly when the buffer starts with their encoding;
  nonzero padding, zero bytes inside strings, sizes above the caller's limits and
  out of range chars and shorts are all rejected.\<close>

theorem xdr_decode_strict:
  assumes "unat addr + unat sz + 8 < 2 ^ 64"
  shows "(\<exists>ys1. decode_all cs (xdrmem_create addr sz XDR_DECODE xs0) = Some (Some vs, ys1)) \<longleftrightarrow>
     length vs = length cs \<and> msg_ok (zip cs vs) \<and> length (wire_msg (zip cs vs)) \<le> unat sz \<and>
     peek addr (length (wire_msg (zip cs vs))) (mem xs0) = wire_msg (zip cs vs)"
proof -
  define ys where "ys = xdrmem_create addr sz XDR_DECODE xs0"
  note c = create_in_buf [OF assms _ ys_def, simplified]
  show ?thesis unfolding ys_def [symmetric] using c
    by (auto simp: decode_all_iff [OF c(1,2)] holds_def)
qed

lemma peek4: "peek a 4 m = [m a, m (a + 1), m (a + 2), m (a + 3)]"
proof -
  have "peek a 4 m = peek a (Suc (Suc (Suc (Suc 0)))) m" by (simp only: numeral_eq_Suc pred_numeral_simps BitM.simps)
  then show ?thesis by (simp add: ac_simps)
qed

theorem xdr_decode_strict_witness:
  "\<not> (\<exists>ys1. decode_all [Call_char] (xdrmem_create 4096 64 XDR_DECODE (demo_xdr\<lparr>mem := \<lambda>_. 1\<rparr>)) = Some (Some [Val_char 1], ys1))"
  using xdr_decode_strict [of 4096 64 "[Call_char]" "demo_xdr\<lparr>mem := \<lambda>_. 1\<rparr>" "[Val_char 1]"]
  by (simp add: wire_msg_def peek4) (simp add: be32_def)

text \<open>A decoder that allocates the caller's buffer hands it over exactly when it
  succeeds: every failure after the allocation frees it, and a caller's own buffer
  is never freed.\<close>

lemma xdr_dec_alloc_balance:
  "xdr_dec_array elproc given mem_ok maxsize elsize xs = (r, b, xs') \<Longrightarrow>
     (b = Allocated \<longleftrightarrow> \<not> given \<and> r \<noteq> None) \<and> (given \<longleftrightarrow> b = Supplied)"
  "xdr_dec_string given mem_ok maxsize xs = (r', b', xs'') \<Longrightarrow>
     (b' = Allocated \<longleftrightarrow> \<not> given \<and> r' \<noteq> None) \<and> (given \<longleftrightarrow> b' = Supplied)"
  by (auto simp: xdr_dec_array_def xdr_dec_string_def Let_def split: prod.splits option.splits if_splits)

end
