(* ===== verification/Kmem.thy ===== *)
theory Kmem
  imports Spl_Prelude
begin

text \<open>
  Memory allocation, \<^verbatim>\<open>module/spl/spl-kmem.c\<close>, \<^verbatim>\<open>module/spl/spl-vmem.c\<close> and \<^verbatim>\<open>include/spl/sys/kmem.h\<close>: the
  conversion of allocation flags, the file system transaction marks, the allocation loop, the
  accounting of bytes and the table of live allocations of the debug builds.  The kernel's
  allocators are parameters; the GFP bits are a record of words.
\<close>

section \<open>Flags\<close>

type_synonym km_flag = u32

definition KM_SLEEP :: km_flag where "KM_SLEEP = 0x0000"
definition KM_NOSLEEP :: km_flag where "KM_NOSLEEP = 0x0001"
definition KM_PUSHPAGE :: km_flag where "KM_PUSHPAGE = 0x0004"
definition KM_ZERO :: km_flag where "KM_ZERO = 0x1000"
definition KM_VMEM :: km_flag where "KM_VMEM = 0x2000"

record gfp_bits =
  GFP_NOWARN :: u32
  GFP_COMP :: u32
  GFP_ATOMIC :: u32
  GFP_NORETRY :: u32
  GFP_KERNEL :: u32
  GFP_IO :: u32
  GFP_FS :: u32
  GFP_HIGH :: u32
  GFP_ZERO :: u32

definition has :: "'a::len word \<Rightarrow> 'a word \<Rightarrow> bool" where
  "has flags f \<longleftrightarrow> flags AND f \<noteq> 0"

text \<open>The flags of the current task; \<open>SPL\<close> is the mask \<^verbatim>\<open>SPL_FSTRANS\<close> of the kernel's configuration.\<close>

definition spl_fstrans_check :: "u32 \<Rightarrow> u32 \<Rightarrow> bool" where
  "spl_fstrans_check SPL task_flags \<longleftrightarrow> has task_flags SPL"

definition spl_fstrans_mark :: "u32 \<Rightarrow> u32 \<Rightarrow> u32 \<times> u32" where
  "spl_fstrans_mark SPL task_flags = (task_flags AND SPL, task_flags OR SPL)"

definition spl_fstrans_unmark :: "u32 \<Rightarrow> u32 \<Rightarrow> u32 \<Rightarrow> u32" where
  "spl_fstrans_unmark SPL cookie task_flags = (task_flags AND NOT SPL) OR cookie"

definition kmem_flags_convert :: "gfp_bits \<Rightarrow> bool \<Rightarrow> km_flag \<Rightarrow> u32" where
  "kmem_flags_convert g fstrans flags =
     (let l0 = GFP_NOWARN g OR GFP_COMP g;
          l1 = (if has flags KM_NOSLEEP then l0 OR (GFP_ATOMIC g OR GFP_NORETRY g)
                else let l = l0 OR GFP_KERNEL g in if fstrans then l AND NOT (GFP_IO g OR GFP_FS g) else l);
          l2 = (if has flags KM_PUSHPAGE then l1 OR GFP_HIGH g else l1)
      in if has flags KM_ZERO then l2 OR GFP_ZERO g else l2)"

section \<open>The allocation loop\<close>

text \<open>
  \<open>km n\<close> and \<open>vm n\<close> are the results of \<^verbatim>\<open>kmalloc_node\<close> and \<^verbatim>\<open>__vmalloc\<close> in pass \<open>n\<close> of the loop.  The value
  \<open>None\<close> is a loop that does not end, \<open>Some None\<close> a null pointer.
\<close>

partial_function (option) kmem_alloc_loop ::
  "(nat \<Rightarrow> addr option) \<Rightarrow> (nat \<Rightarrow> addr option) \<Rightarrow> u64 \<Rightarrow> u64 \<Rightarrow> km_flag \<Rightarrow> bool \<Rightarrow> nat \<Rightarrow> addr option option" where
  "kmem_alloc_loop km vm spl_kmem_alloc_max sz flags use_vmem n =
     (if (sz > spl_kmem_alloc_max \<or> use_vmem) \<and> \<not> has flags KM_VMEM then Some None
      else let ptr = (if sz > spl_kmem_alloc_max \<or> use_vmem then vm n else km n) in
           if ptr \<noteq> None \<or> has flags KM_NOSLEEP then Some ptr
           else kmem_alloc_loop km vm spl_kmem_alloc_max sz flags (use_vmem \<or> has flags KM_VMEM) (n + 1))"

definition spl_kmem_alloc_impl ::
  "(nat \<Rightarrow> addr option) \<Rightarrow> (nat \<Rightarrow> addr option) \<Rightarrow> u64 \<Rightarrow> u64 \<Rightarrow> km_flag \<Rightarrow> addr option option" where
  "spl_kmem_alloc_impl km vm spl_kmem_alloc_max sz flags = kmem_alloc_loop km vm spl_kmem_alloc_max sz flags False 0"

definition spl_kmem_zalloc_flags :: "km_flag \<Rightarrow> km_flag" where
  "spl_kmem_zalloc_flags flags = flags OR KM_ZERO"

definition spl_vmem_alloc_flags :: "km_flag \<Rightarrow> km_flag" where
  "spl_vmem_alloc_flags flags = flags OR KM_VMEM"

definition spl_vmem_zalloc_flags :: "km_flag \<Rightarrow> km_flag" where
  "spl_vmem_zalloc_flags flags = flags OR (KM_VMEM OR KM_ZERO)"

text \<open>\<^verbatim>\<open>strdup\<close> makes one attempt only: its result is null if \<^verbatim>\<open>kmalloc\<close> fails.\<close>

definition strdup :: "addr option \<Rightarrow> u8 list \<Rightarrow> (addr \<times> u8 list) option" where
  "strdup km str = (case km of Some p \<Rightarrow> Some (p, str @ [0]) | None \<Rightarrow> None)"

section \<open>Accounting\<close>

record kmem_debug =
  kd_node :: addr
  kd_addr :: addr
  kd_size :: u64
  kd_func :: string
  kd_line :: int

record kmem_state =
  kmem_table :: "nat \<Rightarrow> kmem_debug list"
  kmem_list :: "kmem_debug list"
  kmem_alloc_used :: u64
  kmem_alloc_max :: u64

definition spl_kmem_init_tracking :: kmem_state where
  "spl_kmem_init_tracking = \<lparr>kmem_table = (\<lambda>_. []), kmem_list = [], kmem_alloc_used = 0, kmem_alloc_max = 0\<rparr>"

definition spl_kmem_alloc_debug :: "addr option \<Rightarrow> u64 \<Rightarrow> kmem_state \<Rightarrow> addr option \<times> kmem_state" where
  "spl_kmem_alloc_debug ptr sz st =
     (case ptr of
        None \<Rightarrow> (None, st)
      | Some p \<Rightarrow>
          let st1 = st\<lparr>kmem_alloc_used := kmem_alloc_used st + sz\<rparr>
          in (Some p, if kmem_alloc_used st1 > kmem_alloc_max st1
                      then st1\<lparr>kmem_alloc_max := kmem_alloc_used st1\<rparr> else st1))"

definition spl_kmem_free_debug :: "u64 \<Rightarrow> kmem_state \<Rightarrow> kmem_state" where
  "spl_kmem_free_debug sz st = st\<lparr>kmem_alloc_used := kmem_alloc_used st - sz\<rparr>"

text \<open>\<open>h\<close> is the kernel's \<^verbatim>\<open>hash_ptr\<close>; a node is taken off its bin and off the list of all allocations.\<close>

definition kmem_del_init :: "(addr \<Rightarrow> nat) \<Rightarrow> addr \<Rightarrow> kmem_state \<Rightarrow> kmem_debug option \<times> kmem_state" where
  "kmem_del_init h a st =
     (case find (\<lambda>p. kd_addr p = a) (kmem_table st (h a)) of
        None \<Rightarrow> (None, st)
      | Some p \<Rightarrow>
          let rm = filter (\<lambda>q. kd_node q \<noteq> kd_node p)
          in (Some p, st\<lparr>kmem_table := (kmem_table st)(h a := rm (kmem_table st (h a))), kmem_list := rm (kmem_list st)\<rparr>))"

text \<open>\<open>dptr\<close> and \<open>dup\<close> say whether the node and the copy of the name could be allocated.\<close>

definition spl_kmem_alloc_track ::
  "(addr \<Rightarrow> nat) \<Rightarrow> addr option \<Rightarrow> bool \<Rightarrow> addr option \<Rightarrow> u64 \<Rightarrow> string \<Rightarrow> int \<Rightarrow> kmem_state \<Rightarrow> addr option \<times> kmem_state" where
  "spl_kmem_alloc_track h dptr dup ptr sz func line st =
     (case dptr of
        None \<Rightarrow> (None, st)
      | Some d \<Rightarrow>
          if \<not> dup then (None, st)
          else case spl_kmem_alloc_debug ptr sz st of
                 (None, st1) \<Rightarrow> (None, st1)
               | (Some p, st1) \<Rightarrow>
                   let kd = \<lparr>kd_node = d, kd_addr = p, kd_size = sz, kd_func = func, kd_line = line\<rparr>
                   in (Some p, st1\<lparr>kmem_table := (kmem_table st1)(h p := kd # kmem_table st1 (h p)),
                                   kmem_list := kmem_list st1 @ [kd]\<rparr>))"

text \<open>\<open>None\<close> is the failed assertion on a pointer that is not in the table.\<close>

definition spl_kmem_free_track :: "(addr \<Rightarrow> nat) \<Rightarrow> addr \<Rightarrow> u64 \<Rightarrow> kmem_state \<Rightarrow> kmem_state option" where
  "spl_kmem_free_track h ptr sz st =
     (if ptr = 0 then Some st
      else case kmem_del_init h ptr st of
             (None, _) \<Rightarrow> None
           | (Some kd, st1) \<Rightarrow> if kd_size kd = sz then Some (spl_kmem_free_debug sz st1) else None)"

text \<open>\<open>isp\<close> is the kernel's \<^verbatim>\<open>isprint\<close>, \<open>mem\<close> the memory from the address on, \<open>dsize\<close> its size.  The scan gives the characters put in the buffer, the
  flag, and the offsets it reads.\<close>

fun sprintf_scan :: "(u8 \<Rightarrow> bool) \<Rightarrow> (nat \<Rightarrow> u8) \<Rightarrow> nat \<Rightarrow> nat \<Rightarrow> nat \<Rightarrow> u8 list \<times> bool \<times> nat list" where
  "sprintf_scan isp mem mn i 0 = ([], True, [])"
| "sprintf_scan isp mem mn i (Suc n) =
     (if isp (mem i)
      then case sprintf_scan isp mem mn (i + 1) n of (str, flag, rd) \<Rightarrow> (mem i # str, flag, i # rd)
      else ([mem i], i > mn, [i]))"

definition hex_digit :: "u8 \<Rightarrow> u8" where
  "hex_digit d = (if d < 10 then 0x30 + d else 0x57 + d)"

definition hex_byte :: "u8 \<Rightarrow> u8 list" where
  "hex_byte b = [hex_digit (drop_bit 4 b), hex_digit (b AND 0xf)]"

text \<open>The whole buffer afterwards, and the offsets read.\<close>

definition spl_sprintf_addr :: "(u8 \<Rightarrow> bool) \<Rightarrow> (nat \<Rightarrow> u8) \<Rightarrow> nat \<Rightarrow> nat \<Rightarrow> nat \<Rightarrow> u8 list \<times> nat list" where
  "spl_sprintf_addr isp mem dsize len mn =
     (let sz = (if len - 1 < dsize then len - 1 else dsize)
      in case sprintf_scan isp mem mn 0 sz of (str, flag, rd) \<Rightarrow>
           let buf = str @ replicate (len - length str) 0
           in if flag then (buf, rd)
              else let offs = [0, 2, 4, 6, 8, 10, 12, 14]; hex = concat (map (\<lambda>i. hex_byte (mem i)) offs) @ [0]
                   in (hex @ drop (length hex) buf, rd @ offs))"

text \<open>
  What the module prints when it is unloaded: the leaked bytes and every live allocation.  A row has
  what is passed to \<^verbatim>\<open>printk\<close>: the address, the size converted to \<^verbatim>\<open>int\<close>, the string of \<open>spl_sprintf_addr\<close>, which ends
  at its first zero byte, and the function and line; \<open>m\<close> is the memory.  A header line comes first unless nothing is live.
\<close>

type_synonym leak_row = "addr \<times> int \<times> u8 list \<times> string \<times> int"

definition leak_data :: "(u8 \<Rightarrow> bool) \<Rightarrow> (addr \<Rightarrow> u8) \<Rightarrow> kmem_debug \<Rightarrow> u8 list" where
  "leak_data isp m kd =
     takeWhile (\<lambda>c. c \<noteq> 0) (fst (spl_sprintf_addr isp (\<lambda>i. m (kd_addr kd + i)) (unat (kd_size kd)) 17 8))"

definition spl_kmem_fini_tracking :: "(u8 \<Rightarrow> bool) \<Rightarrow> (addr \<Rightarrow> u8) \<Rightarrow> kmem_state \<Rightarrow> bool \<times> leak_row list" where
  "spl_kmem_fini_tracking isp m st =
     (kmem_list st \<noteq> [],
      map (\<lambda>kd. (kd_addr kd, sint (ucast (kd_size kd) :: u32), leak_data isp m kd, kd_func kd, kd_line kd)) (kmem_list st))"

definition spl_kmem_fini :: "(u8 \<Rightarrow> bool) \<Rightarrow> (addr \<Rightarrow> u8) \<Rightarrow> kmem_state \<Rightarrow> (u64 \<times> u64) option \<times> bool \<times> leak_row list" where
  "spl_kmem_fini isp m st =
     (if kmem_alloc_used st \<noteq> 0 then Some (kmem_alloc_used st, kmem_alloc_max st) else None, spl_kmem_fini_tracking isp m st)"

section \<open>Virtual memory size\<close>

definition VMEM_FLOOR_SIZE :: u64 where "VMEM_FLOOR_SIZE = 4 * 1024 * 1024"

text \<open>
  \<open>caches\<close> are, for every cache, whether it is backed by virtual memory, its slab size and its number of
  slabs; all arithmetic is on unsigned 64-bit numbers.
\<close>

definition vmem_size :: "u64 \<Rightarrow> bool \<Rightarrow> bool \<Rightarrow> (bool \<times> u32 \<times> u64) list \<Rightarrow> u64" where
  "vmem_size VMALLOC_TOTAL alloc_bit free_bit caches =
     (if alloc_bit \<and> free_bit then VMALLOC_TOTAL
      else let alloc = fold (\<lambda>(vm, sz, n) a. if vm then a + ucast sz * n else a) caches VMEM_FLOOR_SIZE in
           if alloc_bit then min alloc VMALLOC_TOTAL
           else if free_bit then max (VMALLOC_TOTAL - alloc) 0
           else 0)"

section \<open>The loop returns\<close>

text \<open>The result of the allocator that pass \<open>n\<close> uses.\<close>

definition attempt :: "(nat \<Rightarrow> addr option) \<Rightarrow> (nat \<Rightarrow> addr option) \<Rightarrow> u64 \<Rightarrow> u64 \<Rightarrow> km_flag \<Rightarrow> nat \<Rightarrow> addr option" where
  "attempt km vm mx sz flags n = (if sz > mx \<or> (0 < n \<and> has flags KM_VMEM) then vm n else km n)"

lemma alloc_loop_first:
  assumes "\<not> has flags KM_NOSLEEP" "sz \<le> mx \<or> has flags KM_VMEM" "n \<le> k" "\<And>j. n \<le> j \<Longrightarrow> j < k \<Longrightarrow> attempt km vm mx sz flags j = None"
    "attempt km vm mx sz flags k = Some p"
  shows "kmem_alloc_loop km vm mx sz flags (0 < n \<and> has flags KM_VMEM) n = Some (Some p)"
  using assms
proof (induction "k - n" arbitrary: n)
  case 0
  then have n: "attempt km vm mx sz flags n = Some p" by simp
  show ?case using 0 n by (subst kmem_alloc_loop.simps) (auto simp: attempt_def not_le Let_def split: if_splits)
next
  case (Suc d)
  then have "n < k" by simp
  have "attempt km vm mx sz flags n = None" using Suc.prems(4) [of n] \<open>n < k\<close> by simp
  moreover have "kmem_alloc_loop km vm mx sz flags (0 < Suc n \<and> has flags KM_VMEM) (Suc n) = Some (Some p)"
    using Suc.hyps(1) [of "Suc n"] Suc.hyps(2) Suc.prems \<open>n < k\<close> by simp
  ultimately show ?case using Suc.prems(1,2)
    by (subst kmem_alloc_loop.simps) (auto simp: attempt_def not_le Let_def split: if_splits)
qed

section \<open>The table of live allocations\<close>

text \<open>
  The specification: the live allocations in the order they were made.  An allocation uses a node
  and an address that are not in use; a free names a live allocation with its size.
\<close>

datatype kmem_event = KAlloc kmem_debug | KFree addr u64

fun live_step :: "kmem_event \<Rightarrow> kmem_debug list \<Rightarrow> kmem_debug list option" where
  "live_step (KAlloc kd) live =
     (if kd_addr kd = 0 \<or> kd_addr kd \<in> kd_addr ` set live \<or> kd_node kd \<in> kd_node ` set live then None else Some (live @ [kd]))"
| "live_step (KFree a sz) live =
     (if \<exists>kd \<in> set live. kd_addr kd = a \<and> kd_size kd = sz then Some (filter (\<lambda>kd. kd_addr kd \<noteq> a) live) else None)"

fun kmem_step :: "(addr \<Rightarrow> nat) \<Rightarrow> kmem_event \<Rightarrow> kmem_state \<Rightarrow> kmem_state option" where
  "kmem_step h (KAlloc kd) st =
     Some (snd (spl_kmem_alloc_track h (Some (kd_node kd)) True (Some (kd_addr kd)) (kd_size kd) (kd_func kd) (kd_line kd) st))"
| "kmem_step h (KFree a sz) st = spl_kmem_free_track h a sz st"

fun run_steps :: "('e \<Rightarrow> 's \<Rightarrow> 's option) \<Rightarrow> 'e list \<Rightarrow> 's \<Rightarrow> 's option" where
  "run_steps f [] s = Some s"
| "run_steps f (e # es) s = (case f e s of None \<Rightarrow> None | Some s' \<Rightarrow> run_steps f es s')"

definition track_rel :: "(addr \<Rightarrow> nat) \<Rightarrow> kmem_debug list \<Rightarrow> kmem_state \<Rightarrow> bool" where
  "track_rel h live st \<longleftrightarrow> kmem_list st = live \<and> distinct (map kd_addr live) \<and> distinct (map kd_node live) \<and>
     0 \<notin> kd_addr ` set live \<and> (\<forall>i. set (kmem_table st i) = {kd \<in> set live. h (kd_addr kd) = i}) \<and>
     kmem_alloc_used st = (\<Sum>kd \<leftarrow> live. kd_size kd)"

lemma sum_list_filter_key:
  fixes g :: "'a \<Rightarrow> u64"
  shows "distinct (map f xs) \<Longrightarrow> x \<in> set xs \<Longrightarrow> (\<Sum>y \<leftarrow> filter (\<lambda>y. f y \<noteq> f x) xs. g y) = (\<Sum>y \<leftarrow> xs. g y) - g x"
proof (induction xs)
  case (Cons a xs)
  show ?case
  proof (cases "a = x")
    case True
    then have "f x \<notin> f ` set xs" using Cons.prems by simp
    then have "\<forall>y \<in> set xs. f y \<noteq> f x" by (metis imageI)
    with True show ?thesis by simp
  next
    case False
    then have "x \<in> set xs" using Cons.prems by simp
    moreover have "f a \<notin> f ` set xs" using Cons.prems(1) by simp
    then have "f a \<noteq> f x" using \<open>x \<in> set xs\<close> by (metis imageI)
    ultimately show ?thesis using Cons by simp
  qed
qed simp

lemma same_key_filter:
  assumes "distinct (map f xs)" "distinct (map g xs)" "x \<in> set xs" "set ys \<subseteq> set xs"
  shows "filter (\<lambda>y. f y \<noteq> f x) ys = filter (\<lambda>y. g y \<noteq> g x) ys"
proof (rule filter_cong [OF HOL.refl])
  fix y
  assume "y \<in> set ys"
  then have "y \<in> set xs" using assms(4) by blast
  moreover have "inj_on f (set xs)" "inj_on g (set xs)" using assms(1,2) by (simp_all add: distinct_map)
  ultimately show "f y \<noteq> f x \<longleftrightarrow> g y \<noteq> g x" using assms(3) by (simp add: inj_on_eq_iff)
qed

lemma track_alloc:
  assumes r: "track_rel h live st" and s: "live_step (KAlloc kd) live = Some live'" and k: "kmem_step h (KAlloc kd) st = Some st'"
  shows "track_rel h live' st'"
proof -
  have f: "kd_addr kd \<noteq> 0" "kd_addr kd \<notin> kd_addr ` set live" "kd_node kd \<notin> kd_node ` set live" "live' = live @ [kd]"
    using s by (auto split: if_splits)
  have "kmem_list st' = live @ [kd]" "kmem_table st' = (kmem_table st)(h (kd_addr kd) := kd # kmem_table st (h (kd_addr kd)))"
    "kmem_alloc_used st' = kmem_alloc_used st + kd_size kd"
    using k r by (auto simp: spl_kmem_alloc_track_def spl_kmem_alloc_debug_def Let_def track_rel_def)
  with r f show ?thesis by (auto simp: track_rel_def)
qed

lemma track_free:
  assumes r: "track_rel h live st" and s: "live_step (KFree a sz) live = Some live'"
  shows "\<exists>st'. kmem_step h (KFree a sz) st = Some st' \<and> track_rel h live' st'"
proof -
  obtain kd where kd: "kd \<in> set live" "kd_addr kd = a" "kd_size kd = sz" and l: "live' = filter (\<lambda>kd. kd_addr kd \<noteq> a) live"
    using s by (auto split: if_splits)
  note R = r [unfolded track_rel_def]
  have a0: "a \<noteq> 0" using R kd by auto
  have t: "kd \<in> set (kmem_table st (h a))" using R kd by auto
  obtain p where p: "find (\<lambda>p. kd_addr p = a) (kmem_table st (h a)) = Some p"
    using t kd(2) by (cases "find (\<lambda>p. kd_addr p = a) (kmem_table st (h a))") (auto simp: find_None_iff)
  then have "p \<in> set (kmem_table st (h a))" "kd_addr p = a" by (auto simp: find_Some_iff)
  then have "p \<in> set live" using R by auto
  moreover have "inj_on kd_addr (set live)" using R by (simp add: distinct_map)
  ultimately have pk: "p = kd" using kd(1,2) \<open>kd_addr p = a\<close> by (auto dest: inj_onD)
  have eq: "filter (\<lambda>q. kd_node q \<noteq> kd_node kd) ys = filter (\<lambda>q. kd_addr q \<noteq> a) ys" if "set ys \<subseteq> set live" for ys
    using same_key_filter [of kd_node live kd_addr kd ys] R kd that by simp
  let ?st = "spl_kmem_free_debug sz (st\<lparr>kmem_table := (kmem_table st)(h a := filter (\<lambda>q. kd_addr q \<noteq> a) (kmem_table st (h a))),
      kmem_list := filter (\<lambda>q. kd_addr q \<noteq> a) live\<rparr>)"
  have "set (kmem_table st (h a)) \<subseteq> set live" "kmem_list st = live" using R by auto
  then have "kmem_step h (KFree a sz) st = Some ?st"
    using a0 kd(3) by (simp add: spl_kmem_free_track_def kmem_del_init_def Let_def p pk eq)
  moreover have "track_rel h live' ?st"
    using R l kd sum_list_filter_key [of kd_addr live kd kd_size]
    by (auto simp: track_rel_def spl_kmem_free_debug_def distinct_map_filter)
  ultimately show ?thesis by blast
qed

lemma track_run:
  assumes "track_rel h live st" "run_steps live_step es live = Some live'"
  shows "\<exists>st'. run_steps (kmem_step h) es st = Some st' \<and> track_rel h live' st'"
  using assms
proof (induction es arbitrary: live st)
  case (Cons e es)
  obtain l1 where l1: "live_step e live = Some l1" "run_steps live_step es l1 = Some live'"
    using Cons.prems(2) by (auto split: option.splits)
  have "\<exists>st1. kmem_step h e st = Some st1 \<and> track_rel h l1 st1"
  proof (cases e)
    case (KAlloc kd)
    then show ?thesis using track_alloc [OF Cons.prems(1)] l1(1) by auto
  next
    case (KFree a sz)
    then show ?thesis using track_free [OF Cons.prems(1)] l1(1) by auto
  qed
  then obtain st1 where "kmem_step h e st = Some st1" "track_rel h l1 st1" by blast
  with Cons.IH [OF this(2) l1(2)] show ?case by auto
qed auto

section \<open>Properties\<close>

text \<open>C17: What the allocation loop returns.  Without \<open>KM_NOSLEEP\<close>, if the size is within
  \<open>spl_kmem_alloc_max\<close> or the caller is a \<open>vmem\<close> wrapper, it returns the pointer of the first pass
  whose allocator succeeds, \<open>vmem\<close> callers using \<open>__vmalloc\<close> from the second pass on; it never returns
  null.  With \<open>KM_NOSLEEP\<close> it returns after the first pass.  A \<open>kmem\<close> request above the
  maximum fails at once, \<open>KM_SLEEP\<close> included, although that flag is documented as guaranteeing
  success.\<close>

theorem kmem_alloc_returns:
  "(\<not> has flags KM_NOSLEEP \<and> (sz \<le> mx \<or> has flags KM_VMEM) \<and> attempt km vm mx sz flags k = Some p \<and>
     (\<forall>j < k. attempt km vm mx sz flags j = None) \<longrightarrow> spl_kmem_alloc_impl km vm mx sz flags = Some (Some p)) \<and>
   (has flags KM_NOSLEEP \<and> (sz \<le> mx \<or> has flags KM_VMEM) \<longrightarrow>
     spl_kmem_alloc_impl km vm mx sz flags = Some (attempt km vm mx sz flags 0)) \<and>
   (sz > mx \<and> \<not> has flags KM_VMEM \<longrightarrow> spl_kmem_alloc_impl km vm mx sz flags = Some None)"
proof (intro conjI impI; elim conjE)
  assume "\<not> has flags KM_NOSLEEP" "sz \<le> mx \<or> has flags KM_VMEM" "attempt km vm mx sz flags k = Some p"
    "\<forall>j < k. attempt km vm mx sz flags j = None"
  then show "spl_kmem_alloc_impl km vm mx sz flags = Some (Some p)"
    using alloc_loop_first [of flags sz mx 0 k km vm p] by (simp add: spl_kmem_alloc_impl_def)
next
  assume "has flags KM_NOSLEEP" "sz \<le> mx \<or> has flags KM_VMEM"
  then show "spl_kmem_alloc_impl km vm mx sz flags = Some (attempt km vm mx sz flags 0)"
    unfolding spl_kmem_alloc_impl_def by (subst kmem_alloc_loop.simps) (auto simp: attempt_def not_le Let_def)
next
  assume "mx < sz" "\<not> has flags KM_VMEM"
  then show "spl_kmem_alloc_impl km vm mx sz flags = Some None"
    unfolding spl_kmem_alloc_impl_def by (subst kmem_alloc_loop.simps) simp
qed

theorem kmem_alloc_returns_witness:
  "spl_kmem_alloc_impl (\<lambda>n. if n < 3 then None else Some 7) (\<lambda>_. None) 1024 64 KM_SLEEP = Some (Some 7) \<and>
   spl_kmem_alloc_impl (\<lambda>_. Some 7) (\<lambda>_. None) 1024 4096 KM_SLEEP = Some None"
proof -
  have s: "\<not> has KM_SLEEP KM_NOSLEEP" "\<not> has KM_SLEEP KM_VMEM" by (simp_all add: has_def KM_SLEEP_def)
  then show ?thesis
    using kmem_alloc_returns [of KM_SLEEP 64 1024 "\<lambda>n. if n < 3 then None else Some 7" "\<lambda>_. None" 3 7]
      kmem_alloc_returns [of KM_SLEEP 4096 1024 "\<lambda>_. Some 7" "\<lambda>_. None"]
    by (simp add: attempt_def)
qed

text \<open>Transaction marks.  Between \<open>spl_fstrans_mark\<close> and the matching \<open>spl_fstrans_unmark\<close>, which may
  nest, \<open>spl_fstrans_check\<close> holds and no sleeping allocation may start I/O or enter a file system;
  the last unmark restores the task's flags exactly.\<close>

theorem kmem_fstrans_sound:
  assumes "SPL \<noteq> 0" and "(GFP_NOWARN g OR GFP_COMP g OR GFP_HIGH g OR GFP_ZERO g) AND (GFP_IO g OR GFP_FS g) = 0"
    and "spl_fstrans_mark SPL fl = (cookie, fl')" and "\<not> has km KM_NOSLEEP"
  shows "spl_fstrans_check SPL fl' \<and> kmem_flags_convert g (spl_fstrans_check SPL fl') km AND (GFP_IO g OR GFP_FS g) = 0 \<and>
    spl_fstrans_unmark SPL cookie fl' = fl \<and>
    (case spl_fstrans_mark SPL fl' of (c2, fl2) \<Rightarrow> spl_fstrans_unmark SPL c2 fl2 = fl')"
proof (intro conjI)
  have f: "cookie = fl AND SPL" "fl' = fl OR SPL" using assms(3) by (simp_all add: spl_fstrans_mark_def)
  have "(fl OR SPL) AND SPL = SPL" by (rule bit_word_eqI) (auto simp: bit_simps)
  then show c: "spl_fstrans_check SPL fl'" using assms(1) by (simp add: spl_fstrans_check_def has_def f)
  show "spl_fstrans_unmark SPL cookie fl' = fl"
    unfolding spl_fstrans_unmark_def f by (rule bit_word_eqI) (auto simp: bit_simps)
  show "case spl_fstrans_mark SPL fl' of (c2, fl2) \<Rightarrow> spl_fstrans_unmark SPL c2 fl2 = fl'"
    unfolding spl_fstrans_mark_def spl_fstrans_unmark_def f prod.case by (rule bit_word_eqI) (auto simp: bit_simps)
  have "\<not> bit (kmem_flags_convert g True km AND (GFP_IO g OR GFP_FS g)) i" for i
  proof -
    have "\<not> bit ((GFP_NOWARN g OR GFP_COMP g OR GFP_HIGH g OR GFP_ZERO g) AND (GFP_IO g OR GFP_FS g)) i"
      using assms(2) by simp
    then show ?thesis using assms(4) by (auto simp: kmem_flags_convert_def Let_def bit_simps)
  qed
  then show "kmem_flags_convert g (spl_fstrans_check SPL fl') km AND (GFP_IO g OR GFP_FS g) = 0"
    using c by (intro bit_word_eqI) simp
qed

theorem kmem_fstrans_sound_witness:
  "spl_fstrans_unmark 0x80000 0 (0x80000 OR 5) = 5 \<and> spl_fstrans_check 0x80000 (5 OR 0x80000)"
  using kmem_fstrans_sound [of "0x80000" "\<lparr>GFP_NOWARN = 0x200, GFP_COMP = 0x4000, GFP_ATOMIC = 0x20, GFP_NORETRY = 0x1000,
      GFP_KERNEL = 0xd0, GFP_IO = 0x40, GFP_FS = 0x80, GFP_HIGH = 0x20, GFP_ZERO = 0x8000\<rparr>" 5 0 "5 OR 0x80000" KM_SLEEP]
  by (simp add: spl_fstrans_mark_def KM_SLEEP_def has_def)

lemma sint_ucast_small: "unat (x :: u64) < 2 ^ 31 \<Longrightarrow> sint (ucast x :: u32) = int (unat x)"
proof -
  assume "unat x < 2 ^ 31"
  then have "int (unat x) < int (2 ^ 31)" by (simp only: of_nat_less_iff)
  then have u: "int (unat x) < 2 ^ 31" by (simp only: of_nat_power of_nat_numeral)
  have "sint (ucast x :: u32) = signed_take_bit (LENGTH(32) - 1) (uint x)"
    by (simp only: signed_ucast_eq One_nat_def)
  also have "\<dots> = signed_take_bit (LENGTH(32) - 1) (int (unat x))" by (simp only: uint_nat)
  also have "\<dots> = int (unat x)" 
  proof (rule signed_take_bit_int_eq_self)
    have "- (2 ^ (LENGTH(32) - 1)) \<le> (0 :: int)" by simp
    then show "- (2 ^ (LENGTH(32) - 1)) \<le> int (unat x)" by (rule order_trans) (rule of_nat_0_le_iff)
    show "int (unat x) < 2 ^ (LENGTH(32) - 1)" using u by simp
  qed
  finally show ?thesis .
qed

text \<open>The characters that are printed for an allocation that begins with printable ones, as many as fit.\<close>

lemma scan_printable:
  "(\<And>k. k < n \<Longrightarrow> isp (mem (i + k))) \<Longrightarrow> \<exists>rd. sprintf_scan isp mem mn i n = (map (\<lambda>k. mem (i + k)) [0..<n], True, rd)"
proof (induction n arbitrary: i)
  case (Suc n)
  have "isp (mem i)" using Suc.prems [of 0] by simp
  moreover have "\<exists>rd. sprintf_scan isp mem mn (i + 1) n = (map (\<lambda>k. mem (i + 1 + k)) [0..<n], True, rd)"
  proof (rule Suc.IH)
    show "isp (mem (i + 1 + k))" if "k < n" for k using Suc.prems [of "Suc k"] that by simp
  qed
  moreover have "map (\<lambda>k. mem (i + k)) [0..<Suc n] = mem i # map (\<lambda>k. mem (i + 1 + k)) [0..<n]"
    by (simp add: map_upt_Suc del: upt_Suc)
  ultimately show ?case by (auto simp del: upt_Suc)
qed simp

lemma leak_data_printable:
  assumes "\<not> isp 0" "\<And>k. k < min 16 (unat (kd_size kd)) \<Longrightarrow> isp (m (kd_addr kd + k))"
  shows "leak_data isp m kd = map (\<lambda>k. m (kd_addr kd + k)) [0..<min 16 (unat (kd_size kd))]"
proof -
  let ?n = "min 16 (unat (kd_size kd))" and ?s = "map (\<lambda>k. m (kd_addr kd + k)) [0..<min 16 (unat (kd_size kd))]"
  have n: "(if 17 - 1 < unat (kd_size kd) then 17 - 1 else unat (kd_size kd)) = ?n" by auto
  obtain rd where "sprintf_scan isp (\<lambda>i. m (kd_addr kd + i)) 8 0 ?n = (?s, True, rd)"
    using scan_printable [of ?n isp "\<lambda>i. m (kd_addr kd + i)" 0 8] assms(2) by auto
  then have "fst (spl_sprintf_addr isp (\<lambda>i. m (kd_addr kd + i)) (unat (kd_size kd)) 17 8) = ?s @ replicate (17 - length ?s) 0"
    unfolding spl_sprintf_addr_def n by (simp add: Let_def)
  moreover have "\<forall>c \<in> set ?s. c \<noteq> 0" using assms by (force simp del: upt_Suc)
  then have "takeWhile (\<lambda>c. c \<noteq> 0) (?s @ replicate (17 - length ?s) 0) = ?s"
    by (subst takeWhile_append2) (auto simp del: upt_Suc simp: takeWhile_replicate)
  ultimately show ?thesis by (simp add: leak_data_def)
qed

text \<open>C18: The leak report is exact.  For every sequence of allocations and frees that uses memory
  properly, the tracking code never fails an assertion, and what it prints at unload has a header unless nothing is live and then
  one row for every allocation not yet freed, in the order they were made, with its address, its size as a signed
  32-bit number (which is the size below 2 GiB), its data (the first 16 bytes if they, or all of a shorter allocation, are printable), and the
  place that made it; the byte count is the sum of the sizes (modulo \<open>2^64\<close>), whatever
  the hash function.\<close>

theorem kmem_tracking_exact:
  assumes "run_steps live_step es [] = Some live" and "\<not> isp 0"
  shows "\<exists>st rows. run_steps (kmem_step h) es spl_kmem_init_tracking = Some st \<and> kmem_alloc_used st = (\<Sum>kd \<leftarrow> live. kd_size kd) \<and>
    snd (spl_kmem_fini isp m st) = (live \<noteq> [], rows) \<and>
    map (\<lambda>(a, sz, dat, f, l). (a, f, l)) rows = map (\<lambda>kd. (kd_addr kd, kd_func kd, kd_line kd)) live \<and>
    (\<forall>i < length live. case rows ! i of (a, sz, dat, f, l) \<Rightarrow>
       let n = unat (kd_size (live ! i)); k = min 16 n in
       sz = sint (ucast (kd_size (live ! i)) :: u32) \<and> (n < 2 ^ 31 \<longrightarrow> sz = int n) \<and>
       ((\<forall>j < k. isp (m (a + j))) \<longrightarrow> dat = map (\<lambda>j. m (a + j)) [0..<k]))"
proof -
  have "track_rel h [] spl_kmem_init_tracking" by (simp add: track_rel_def spl_kmem_init_tracking_def)
  from track_run [OF this assms(1)] obtain st where st: "run_steps (kmem_step h) es spl_kmem_init_tracking = Some st"
    "track_rel h live st" by blast
  let ?rows = "map (\<lambda>kd. (kd_addr kd, sint (ucast (kd_size kd) :: u32), leak_data isp m kd, kd_func kd, kd_line kd)) live"
  have "snd (spl_kmem_fini isp m st) = (live \<noteq> [], ?rows)" "kmem_alloc_used st = (\<Sum>kd \<leftarrow> live. kd_size kd)"
    using st(2) by (auto simp: track_rel_def spl_kmem_fini_def spl_kmem_fini_tracking_def)
  moreover have "leak_data isp m kd = map (\<lambda>k. m (kd_addr kd + k)) [0..<min 16 (unat (kd_size kd))]"
    if "\<forall>j < min 16 (unat (kd_size kd)). isp (m (kd_addr kd + j))" for kd
    by (rule leak_data_printable [where isp = isp]) (use assms(2) that in auto)
  ultimately show ?thesis using st(1)
    by (intro exI [of _ st] exI [of _ ?rows]) (simp add: Let_def comp_def sint_ucast_small del: upt_Suc)
qed

definition demo_kd :: "addr \<Rightarrow> addr \<Rightarrow> kmem_debug" where
  "demo_kd d p = \<lparr>kd_node = d, kd_addr = p, kd_size = 2, kd_func = ''f'', kd_line = 1\<rparr>"

theorem kmem_tracking_exact_witness:
  "\<exists>st. run_steps (kmem_step (\<lambda>a. a mod 2)) [KAlloc (demo_kd 1 10), KAlloc (demo_kd 2 12), KFree 10 2] spl_kmem_init_tracking = Some st \<and>
     snd (spl_kmem_fini (\<lambda>c. 32 \<le> c) (\<lambda>a. 65) st) = (True, [(12, 2, [65, 65], ''f'', 1)])"
proof -
  let ?es = "[KAlloc (demo_kd 1 10), KAlloc (demo_kd 2 12), KFree 10 2]" and ?isp = "\<lambda>c :: u8. 32 \<le> c"
  have l: "run_steps live_step ?es [] = Some [demo_kd 2 12]" by (simp add: demo_kd_def)
  have i: "\<not> ?isp 0" "?isp 65" by simp_all
  have d: "demo_kd 2 12 = \<lparr>kd_node = 2, kd_addr = 12, kd_size = 2, kd_func = ''f'', kd_line = 1\<rparr>" "unat (2 :: u64) = 2"
    "sint (ucast (2 :: u64) :: u32) = 2" by (simp_all add: demo_kd_def)
  note K = kmem_tracking_exact [OF l, where isp = ?isp, OF i(1), of "\<lambda>a. a mod 2" "\<lambda>a. 65"]
  then obtain st rows where st: "run_steps (kmem_step (\<lambda>a. a mod 2)) ?es spl_kmem_init_tracking = Some st"
    "snd (spl_kmem_fini ?isp (\<lambda>a. 65) st) = ([demo_kd 2 12] \<noteq> [], rows)"
    and r: "map (\<lambda>(a, sz, dat, f, l). (a, f, l)) rows = map (\<lambda>kd. (kd_addr kd, kd_func kd, kd_line kd)) [demo_kd 2 12]"
    and z: "case rows ! 0 of (a, sz, dat, f, l) \<Rightarrow> sz = 2 \<and> dat = map (\<lambda>j. 65) [0..<min 16 2]"
    unfolding d(1) using i(2) by (auto simp: d(2,3) Let_def simp del: kmem_step.simps run_steps.simps upt_Suc)
  obtain a sz dat f ln where rr: "rows = [(a, sz, dat, f, ln)]" using r by (auto simp: map_eq_Cons_conv)
  have "map (\<lambda>j. 65 :: u8) [0..<min 16 2] = [65, 65]" by (simp add: numeral_2_eq_2)
  then have "rows = [(12, 2, [65, 65], ''f'', 1)]" using r z by (simp add: rr d(1))
  then show ?thesis using st by (intro exI [of _ st]) simp
qed

text \<open>
  A defect: the amount of free virtual memory is computed in unsigned arithmetic, so the clamp at
  zero has no effect and a cache that has outgrown the total makes the amount huge.
\<close>

lemma vmem_free_wraps:
  "vmem_size 0x1000000 False True [(True, 0x1000000, 1)] = - 0x400000"
  by (simp add: vmem_size_def VMEM_FLOOR_SIZE_def)

end
