(* ===== verification/Taskq.thy ===== *)
theory Taskq
  imports Tsd_Props Kmem
begin

text \<open>
  Task queues, \<^verbatim>\<open>module/spl/spl-taskq.c\<close> and \<^verbatim>\<open>include/spl/sys/taskq.h\<close>.  Every section
  of the code under \<open>tq_lock\<close> is one function on the queue; a worker thread is the
  sequence of its sections (start, take a task, finish it, exit).  Where the code
  drops the lock in the middle of an operation, the parameter \<open>env\<close> is what the
  other threads do to the queue meanwhile.  The kernel's lists are lists of
  entries, each with its address \<open>tqent_addr\<close>; an entry that is on no list is in the
  hands of the caller that unlinked it.  Two fields are not in the code:
  \<open>tq_cancelling\<close> holds the entries that \<^verbatim>\<open>taskq_cancel_id\<close> has unlinked and not yet
  released, and \<open>spawn_calls\<close> counts the requests to the \<^verbatim>\<open>dynamic_taskq\<close> to create a
  thread; neither is read by any operation.
\<close>

section \<open>State\<close>

definition TASKQ_PREPOPULATE :: u32 where "TASKQ_PREPOPULATE = 0x00000001"
definition TASKQ_DYNAMIC :: u32 where "TASKQ_DYNAMIC = 0x00000004"
definition TASKQ_THREADS_CPU_PCT :: u32 where "TASKQ_THREADS_CPU_PCT = 0x00000008"
definition TASKQ_ACTIVE :: u32 where "TASKQ_ACTIVE = 0x80000000"

definition TQ_NOSLEEP :: u32 where "TQ_NOSLEEP = 0x00000001"
definition TQ_PUSHPAGE :: u32 where "TQ_PUSHPAGE = 0x00000002"
definition TQ_NOQUEUE :: u32 where "TQ_NOQUEUE = 0x01000000"
definition TQ_NOALLOC :: u32 where "TQ_NOALLOC = 0x02000000"
definition TQ_NEW :: u32 where "TQ_NEW = 0x04000000"
definition TQ_FRONT :: u32 where "TQ_FRONT = 0x08000000"

definition TASKQID_INVALID :: u64 where "TASKQID_INVALID = 0"
definition TASKQID_INITIAL :: u64 where "TASKQID_INITIAL = 1"

definition TQENT_FLAG_PREALLOC :: u64 where "TQENT_FLAG_PREALLOC = 0x1"
definition TQENT_FLAG_CANCEL :: u64 where "TQENT_FLAG_CANCEL = 0x2"

record taskq_ent =
  tqent_addr :: addr
  tqent_id :: u64
  tqent_func :: "nat option"
  tqent_arg :: u64
  tqent_flags :: u64
  tqent_birth :: u64

record taskq_thread =
  tqt_thread :: nat
  tqt_id :: u64
  tqt_flags :: u64
  tqt_task :: taskq_ent

record taskq =
  tq_name :: string
  tq_instance :: int
  tq_thread_list :: "nat list"
  tq_active_list :: "taskq_thread list"
  tq_nactive :: int
  tq_nthreads :: int
  tq_nspawn :: int
  tq_maxthreads :: int
  tq_minalloc :: int
  tq_maxalloc :: int
  tq_nalloc :: int
  tq_flags :: u32
  tq_next_id :: u64
  tq_lowest_id :: u64
  tq_free_list :: "taskq_ent list"
  tq_pend_list :: "taskq_ent list"
  tq_prio_list :: "taskq_ent list"
  tq_delay_list :: "taskq_ent list"
  tq_cancelling :: "taskq_ent list"
  spawn_calls :: nat

section \<open>Entries\<close>

definition task_km_flags :: "u32 \<Rightarrow> km_flag" where
  "task_km_flags flags =
     (if has flags TQ_NOSLEEP then KM_NOSLEEP else if has flags TQ_PUSHPAGE then KM_PUSHPAGE else KM_SLEEP)"

text \<open>The last queue of that name on the list of all queues.\<close>

fun taskq_find_by_name :: "string \<Rightarrow> taskq list \<Rightarrow> int" where
  "taskq_find_by_name name tqs =
     (case find (\<lambda>tq. tq_name tq = name) (rev tqs) of Some tq \<Rightarrow> tq_instance tq | None \<Rightarrow> -1)"

definition taskq_init_ent :: "addr \<Rightarrow> taskq_ent" where
  "taskq_init_ent a = \<lparr>tqent_addr = a, tqent_id = 0, tqent_func = None, tqent_arg = 0, tqent_flags = 0, tqent_birth = 0\<rparr>"

text \<open>\<open>mem\<close> is the result of \<^verbatim>\<open>kmem_alloc\<close> for the flags; \<open>env 101\<close> acts while it runs unlocked.\<close>

definition task_alloc_new ::
  "(nat \<Rightarrow> taskq \<Rightarrow> taskq) \<Rightarrow> (km_flag \<Rightarrow> addr option) \<Rightarrow> u32 \<Rightarrow> taskq \<Rightarrow> taskq_ent option \<times> taskq" where
  "task_alloc_new env mem flags tq =
     (let tq1 = env 101 tq in
      case mem (task_km_flags flags) of
        Some a \<Rightarrow> (Some (taskq_init_ent a), tq1\<lparr>tq_nalloc := tq_nalloc tq1 + 1\<rparr>)
      | None \<Rightarrow> (None, tq1))"

function task_alloc_loop ::
  "(nat \<Rightarrow> taskq \<Rightarrow> taskq) \<Rightarrow> (km_flag \<Rightarrow> addr option) \<Rightarrow> u32 \<Rightarrow> nat \<Rightarrow> taskq \<Rightarrow> taskq_ent option \<times> taskq" where
  "task_alloc_loop env mem flags count tq =
     (if tq_free_list tq \<noteq> [] \<and> \<not> has flags TQ_NEW
      then (Some (hd (tq_free_list tq)), tq\<lparr>tq_free_list := tl (tq_free_list tq)\<rparr>)
      else if has flags TQ_NOALLOC then (None, tq)
      else if tq_nalloc tq \<ge> tq_maxalloc tq then
        if has flags TQ_NOSLEEP then (None, tq)
        else let tq1 = env count tq in
             if count < 100 then task_alloc_loop env mem flags (count + 1) tq1
             else task_alloc_new env mem flags tq1
      else task_alloc_new env mem flags tq)"
  by auto
termination
  by (relation "measure (\<lambda>(env, mem, flags, count, tq). 100 - count)") auto

declare task_alloc_loop.simps [simp del]

definition task_alloc ::
  "(nat \<Rightarrow> taskq \<Rightarrow> taskq) \<Rightarrow> (km_flag \<Rightarrow> addr option) \<Rightarrow> u32 \<Rightarrow> taskq \<Rightarrow> taskq_ent option \<times> taskq" where
  "task_alloc env mem flags tq = task_alloc_loop env mem flags 0 tq"

definition task_free :: "taskq \<Rightarrow> taskq" where
  "task_free tq = tq\<lparr>tq_nalloc := tq_nalloc tq - 1\<rparr>"

text \<open>The entry is not on a list any more when this is called.\<close>

definition task_done :: "taskq_ent \<Rightarrow> taskq \<Rightarrow> taskq" where
  "task_done t tq =
     (if tq_nalloc tq \<le> tq_minalloc tq
      then tq\<lparr>tq_free_list := tq_free_list tq @
             [t\<lparr>tqent_id := TASKQID_INVALID, tqent_func := None, tqent_arg := 0, tqent_flags := 0\<rparr>]\<rparr>
      else task_free tq)"

section \<open>Ordered lists\<close>

text \<open>
  Walking the list backwards for the first element with a smaller id and
  inserting behind it, else at the front.
\<close>

fun insert_back :: "('a \<Rightarrow> u64) \<Rightarrow> 'a \<Rightarrow> 'a list \<Rightarrow> 'a list" where
  "insert_back k t [] = [t]"
| "insert_back k t (w # ws) = (if k w < k t then t # w # ws else w # insert_back k t ws)"

definition insert_in_order :: "('a \<Rightarrow> u64) \<Rightarrow> 'a \<Rightarrow> 'a list \<Rightarrow> 'a list" where
  "insert_in_order k t xs = rev (insert_back k t (rev xs))"

text \<open>\<^verbatim>\<open>list_del\<close> takes an entry off whichever list it is on.\<close>

definition unlink_ent :: "taskq_ent \<Rightarrow> taskq \<Rightarrow> taskq" where
  "unlink_ent t tq =
     (let rm = filter (\<lambda>u. tqent_addr u \<noteq> tqent_addr t) in
      tq\<lparr>tq_free_list := rm (tq_free_list tq), tq_pend_list := rm (tq_pend_list tq),
         tq_prio_list := rm (tq_prio_list tq), tq_delay_list := rm (tq_delay_list tq)\<rparr>)"

text \<open>
  The timer callback; \<open>t\<close> is the entry as it is when the callback gets the lock,
  \<open>now\<close> the kernel's \<^verbatim>\<open>jiffies\<close>.
\<close>

definition task_expire_impl :: "u64 \<Rightarrow> taskq_ent \<Rightarrow> taskq \<Rightarrow> taskq" where
  "task_expire_impl now t tq =
     (if has (tqent_flags t) TQENT_FLAG_CANCEL then tq
      else let tq1 = unlink_ent t tq
           in tq1\<lparr>tq_prio_list := insert_in_order tqent_id (t\<lparr>tqent_birth := now\<rparr>) (tq_prio_list tq1)\<rparr>)"

definition taskq_lowest_id :: "taskq \<Rightarrow> u64" where
  "taskq_lowest_id tq =
     (let l0 = tq_next_id tq;
          l1 = (if tq_pend_list tq \<noteq> [] then min l0 (tqent_id (hd (tq_pend_list tq))) else l0);
          l2 = (if tq_prio_list tq \<noteq> [] then min l1 (tqent_id (hd (tq_prio_list tq))) else l1);
          l3 = (if tq_delay_list tq \<noteq> [] then min l2 (tqent_id (hd (tq_delay_list tq))) else l2)
      in if tq_active_list tq \<noteq> [] then min l3 (tqt_id (hd (tq_active_list tq))) else l3)"

definition taskq_insert_in_order :: "taskq_thread \<Rightarrow> taskq \<Rightarrow> taskq" where
  "taskq_insert_in_order tqt tq = tq\<lparr>tq_active_list := insert_in_order tqt_id tqt (tq_active_list tq)\<rparr>"

fun taskq_find_list :: "taskq_ent list \<Rightarrow> u64 \<Rightarrow> taskq_ent option" where
  "taskq_find_list [] i = None"
| "taskq_find_list (t # ts) i =
     (if tqent_id t = i then Some t else if tqent_id t > i then None else taskq_find_list ts i)"

datatype found = Found taskq_ent | Found_busy | Found_none

definition taskq_find :: "u64 \<Rightarrow> taskq \<Rightarrow> found" where
  "taskq_find i tq =
     (case taskq_find_list (tq_delay_list tq) i of Some t \<Rightarrow> Found t
      | None \<Rightarrow>
     (case taskq_find_list (tq_prio_list tq) i of Some t \<Rightarrow> Found t
      | None \<Rightarrow>
     (case taskq_find_list (tq_pend_list tq) i of Some t \<Rightarrow> Found t
      | None \<Rightarrow> if \<exists>tqt \<in> set (tq_active_list tq). tqt_id tqt = i then Found_busy else Found_none)))"

section \<open>Waiting\<close>

definition taskq_wait_id_check :: "u64 \<Rightarrow> taskq \<Rightarrow> bool" where
  "taskq_wait_id_check i tq \<longleftrightarrow> taskq_find i tq = Found_none"

definition taskq_wait_outstanding_check :: "u64 \<Rightarrow> taskq \<Rightarrow> bool" where
  "taskq_wait_outstanding_check i tq \<longleftrightarrow> i < tq_lowest_id tq"

text \<open>The id \<^verbatim>\<open>taskq_wait_outstanding\<close> waits for, given its argument.\<close>

definition taskq_wait_outstanding_id :: "u64 \<Rightarrow> taskq \<Rightarrow> u64" where
  "taskq_wait_outstanding_id i tq = (if i \<noteq> 0 then i else tq_next_id tq - 1)"

definition taskq_wait_check :: "taskq \<Rightarrow> bool" where
  "taskq_wait_check tq \<longleftrightarrow> tq_lowest_id tq = tq_next_id tq"

text \<open>
  \<^verbatim>\<open>wait_event\<close> of the kernel: the condition is tested, and again after whatever other threads do
  meanwhile (an element of the list for every time the waiter is woken); \<open>None\<close>: still waiting when the
  list is used up.
\<close>

fun wait_event :: "('s \<Rightarrow> bool) \<Rightarrow> ('s \<Rightarrow> 's) list \<Rightarrow> 's \<Rightarrow> 's option" where
  "wait_event P [] s = (if P s then Some s else None)"
| "wait_event P (e # es) s = (if P s then Some s else wait_event P es (e s))"

definition taskq_wait_id :: "(taskq \<Rightarrow> taskq) list \<Rightarrow> u64 \<Rightarrow> taskq \<Rightarrow> taskq option" where
  "taskq_wait_id es i tq = wait_event (taskq_wait_id_check i) es tq"

definition taskq_wait_outstanding :: "(taskq \<Rightarrow> taskq) list \<Rightarrow> u64 \<Rightarrow> taskq \<Rightarrow> taskq option" where
  "taskq_wait_outstanding es i tq = wait_event (taskq_wait_outstanding_check (taskq_wait_outstanding_id i tq)) es tq"

definition taskq_wait :: "(taskq \<Rightarrow> taskq) list \<Rightarrow> taskq \<Rightarrow> taskq option" where
  "taskq_wait es tq = wait_event taskq_wait_check es tq"

text \<open>A thread is a member of the queue at address \<open>tq\<close> if its thread specific data says so.\<close>

definition taskq_member :: "hashfn \<Rightarrow> u32 \<Rightarrow> u64 \<Rightarrow> u32 \<Rightarrow> tsd_state \<Rightarrow> bool" where
  "taskq_member H taskq_tsd tq t s \<longleftrightarrow> tq = tsd_get_by_thread H taskq_tsd t s"

section \<open>Cancelling\<close>

datatype cancel_result = Cancelled taskq_ent | Cancel_busy | Cancel_enoent

text \<open>
  The first section: find the task and unlink it.  The lock may then be dropped
  to stop the timer; the second section returns the entry to the pool.
\<close>

definition taskq_cancel_unlink :: "u64 \<Rightarrow> taskq \<Rightarrow> cancel_result \<times> taskq" where
  "taskq_cancel_unlink i tq =
     (case taskq_find i tq of
        Found_none \<Rightarrow> (Cancel_enoent, tq)
      | Found_busy \<Rightarrow> (Cancel_busy, tq)
      | Found t \<Rightarrow>
          let tq1 = unlink_ent t tq;
              t1 = t\<lparr>tqent_flags := tqent_flags t OR TQENT_FLAG_CANCEL\<rparr>;
              tq2 = (if tq_lowest_id tq1 = tqent_id t then tq1\<lparr>tq_lowest_id := taskq_lowest_id tq1\<rparr> else tq1)
          in (Cancelled t1, tq2\<lparr>tq_cancelling := t1 # tq_cancelling tq2\<rparr>))"

definition taskq_cancel_release :: "taskq_ent \<Rightarrow> taskq \<Rightarrow> taskq" where
  "taskq_cancel_release t tq =
     (let tq1 = tq\<lparr>tq_cancelling := filter (\<lambda>u. tqent_addr u \<noteq> tqent_addr t) (tq_cancelling tq)\<rparr> in
      if \<not> has (tqent_flags t) TQENT_FLAG_PREALLOC then task_done t tq1 else tq1)"

text \<open>
  The whole function; inner \<open>None\<close> is success.  If the timer of the entry is pending, the lock is
  dropped while it is stopped and \<open>env\<close> acts.  If a thread is running the task, the function waits until
  the task is complete while the elements of \<open>waits\<close> act; outer \<open>None\<close>: it is still waiting.
\<close>

definition taskq_cancel_id ::
  "(taskq \<Rightarrow> taskq) \<Rightarrow> (taskq \<Rightarrow> taskq) list \<Rightarrow> bool \<Rightarrow> u64 \<Rightarrow> taskq \<Rightarrow> (errno option \<times> taskq) option" where
  "taskq_cancel_id env waits timer_pending i tq =
     (case taskq_cancel_unlink i tq of
        (Cancel_enoent, tq1) \<Rightarrow> Some (Some ENOENT, tq1)
      | (Cancel_busy, tq1) \<Rightarrow> map_option (\<lambda>tq2. (Some EBUSY, tq2)) (taskq_wait_id waits i tq1)
      | (Cancelled t, tq1) \<Rightarrow>
          Some (None, taskq_cancel_release t (if timer_pending then env tq1 else tq1)))"

section \<open>Dispatching\<close>

definition taskq_thread_spawn :: "taskq \<Rightarrow> int \<times> taskq" where
  "taskq_thread_spawn tq =
     (if \<not> has (tq_flags tq) TASKQ_DYNAMIC then (0, tq)
      else if tq_nthreads tq + tq_nspawn tq < tq_maxthreads tq \<and> has (tq_flags tq) TASKQ_ACTIVE
      then (tq_nspawn tq + 1, tq\<lparr>tq_nspawn := tq_nspawn tq + 1, spawn_calls := spawn_calls tq + 1\<rparr>)
      else (0, tq))"

definition spawn_if :: "bool \<Rightarrow> taskq \<Rightarrow> taskq" where
  "spawn_if b tq = (if b \<and> tq_nactive tq = tq_nthreads tq then snd (taskq_thread_spawn tq) else tq)"

text \<open>With \<open>TQ_NOQUEUE\<close> and no idle thread, a task is only accepted if a thread can be spawned.\<close>

definition noqueue_admit :: "u32 \<Rightarrow> taskq \<Rightarrow> bool \<times> taskq" where
  "noqueue_admit flags tq =
     (if has flags TQ_NOQUEUE \<and> tq_nactive tq = tq_nthreads tq
      then if \<not> has (tq_flags tq) TASKQ_DYNAMIC then (False, tq)
           else (let (n, tq1) = taskq_thread_spawn tq in (n \<noteq> 0, tq1))
      else (True, tq))"

definition fill_ent :: "u64 \<Rightarrow> nat \<Rightarrow> u64 \<Rightarrow> taskq \<Rightarrow> taskq_ent \<Rightarrow> taskq_ent" where
  "fill_ent now func arg tq t =
     t\<lparr>tqent_id := tq_next_id tq, tqent_func := Some func, tqent_arg := arg, tqent_birth := now\<rparr>"

definition taskq_dispatch ::
  "(nat \<Rightarrow> taskq \<Rightarrow> taskq) \<Rightarrow> (km_flag \<Rightarrow> addr option) \<Rightarrow> u64 \<Rightarrow> nat \<Rightarrow> u64 \<Rightarrow> u32 \<Rightarrow> taskq \<Rightarrow> u64 \<times> taskq" where
  "taskq_dispatch env mem now func arg flags tq =
     (let out = spawn_if (\<not> has flags TQ_NOQUEUE) in
      if \<not> has (tq_flags tq) TASKQ_ACTIVE then (TASKQID_INVALID, out tq)
      else case noqueue_admit flags tq of
        (False, tq1) \<Rightarrow> (TASKQID_INVALID, out tq1)
      | (True, tq1) \<Rightarrow>
          (case task_alloc env mem flags tq1 of
             (None, tq2) \<Rightarrow> (TASKQID_INVALID, out tq2)
           | (Some t, tq2) \<Rightarrow>
               let t1 = fill_ent now func arg tq2 t;
                   tq3 = (if has flags TQ_NOQUEUE then tq2\<lparr>tq_prio_list := t1 # tq_prio_list tq2\<rparr>
                          else if has flags TQ_FRONT then tq2\<lparr>tq_prio_list := tq_prio_list tq2 @ [t1]\<rparr>
                          else tq2\<lparr>tq_pend_list := tq_pend_list tq2 @ [t1]\<rparr>);
                   tq4 = tq3\<lparr>tq_next_id := tq_next_id tq3 + 1\<rparr>
               in (tqent_id t1, out tq4)))"

text \<open>The timer of the new entry is armed; it fires as \<^const>\<open>task_expire_impl\<close>.\<close>

definition taskq_dispatch_delay ::
  "(nat \<Rightarrow> taskq \<Rightarrow> taskq) \<Rightarrow> (km_flag \<Rightarrow> addr option) \<Rightarrow> nat \<Rightarrow> u64 \<Rightarrow> u32 \<Rightarrow> taskq \<Rightarrow> u64 \<times> taskq" where
  "taskq_dispatch_delay env mem func arg flags tq =
     (if \<not> has (tq_flags tq) TASKQ_ACTIVE then (TASKQID_INVALID, spawn_if True tq)
      else case task_alloc env mem flags tq of
        (None, tq1) \<Rightarrow> (TASKQID_INVALID, spawn_if True tq1)
      | (Some t, tq1) \<Rightarrow>
          let t1 = fill_ent (tqent_birth t) func arg tq1 t;
              tq2 = tq1\<lparr>tq_delay_list := tq_delay_list tq1 @ [t1], tq_next_id := tq_next_id tq1 + 1\<rparr>
          in (tqent_id t1, spawn_if True tq2))"

text \<open>The caller's entry \<open>t\<close> is queued; the result is that entry as the caller sees it.\<close>

definition taskq_dispatch_ent ::
  "u64 \<Rightarrow> nat \<Rightarrow> u64 \<Rightarrow> u32 \<Rightarrow> taskq_ent \<Rightarrow> taskq \<Rightarrow> taskq_ent \<times> taskq" where
  "taskq_dispatch_ent now func arg flags t tq =
     (if \<not> has (tq_flags tq) TASKQ_ACTIVE then (t\<lparr>tqent_id := TASKQID_INVALID\<rparr>, spawn_if True tq)
      else case noqueue_admit flags tq of
        (False, tq1) \<Rightarrow> (t, tq1)
      | (True, tq1) \<Rightarrow>
          let front = has flags TQ_FRONT \<or> (has flags TQ_NOQUEUE \<and> tq_nactive tq = tq_nthreads tq);
              t1 = fill_ent now func arg tq1 (t\<lparr>tqent_flags := tqent_flags t OR TQENT_FLAG_PREALLOC\<rparr>);
              tq2 = (if front then tq1\<lparr>tq_prio_list := tq_prio_list tq1 @ [t1]\<rparr>
                     else tq1\<lparr>tq_pend_list := tq_pend_list tq1 @ [t1]\<rparr>);
              tq3 = tq2\<lparr>tq_next_id := tq_next_id tq2 + 1\<rparr>
          in (t1, spawn_if True tq3))"

section \<open>Worker threads\<close>

definition taskq_next_ent :: "taskq \<Rightarrow> taskq_ent option" where
  "taskq_next_ent tq =
     (if tq_prio_list tq \<noteq> [] then Some (hd (tq_prio_list tq))
      else if tq_pend_list tq \<noteq> [] then Some (hd (tq_pend_list tq))
      else None)"

text \<open>The task run by \<^verbatim>\<open>dynamic_taskq\<close>; \<open>created\<close> says whether \<^verbatim>\<open>taskq_thread_create\<close> succeeded.\<close>

definition taskq_thread_spawn_task :: "bool \<Rightarrow> taskq \<Rightarrow> taskq" where
  "taskq_thread_spawn_task created tq = (if \<not> created then tq\<lparr>tq_nspawn := tq_nspawn tq - 1\<rparr> else tq)"

definition taskq_thread_should_stop :: "bool \<Rightarrow> nat \<Rightarrow> taskq \<Rightarrow> bool" where
  "taskq_thread_should_stop spl_taskq_thread_dynamic tqt tq \<longleftrightarrow>
     has (tq_flags tq) TASKQ_DYNAMIC \<and> hd (tq_thread_list tq) \<noteq> tqt \<and>
     tq_nspawn tq = 0 \<and> tq_nactive tq = 0 \<and> tq_nthreads tq > 1 \<and> taskq_next_ent tq = None \<and>
     spl_taskq_thread_dynamic"

text \<open>The entry of \<^verbatim>\<open>taskq_thread\<close>; the result says whether the thread stays.\<close>

definition taskq_thread_start :: "nat \<Rightarrow> taskq \<Rightarrow> bool \<times> taskq" where
  "taskq_thread_start tqt tq =
     (let tq1 = (if has (tq_flags tq) TASKQ_DYNAMIC then tq\<lparr>tq_nspawn := tq_nspawn tq - 1\<rparr> else tq) in
      if tq_nthreads tq1 \<ge> tq_maxthreads tq1 then (False, tq1)
      else (True, tq1\<lparr>tq_nthreads := tq_nthreads tq1 + 1, tq_thread_list := tq_thread_list tq1 @ [tqt]\<rparr>))"

text \<open>The thread's copy of a preallocated entry (which may be reused or freed while it runs), on its stack.\<close>

definition dup_task :: "taskq_ent \<Rightarrow> taskq_ent" where
  "dup_task t = (taskq_init_ent 0)\<lparr>tqent_func := tqent_func t, tqent_arg := tqent_arg t\<rparr>"

text \<open>One pass of the loop up to the call of the task function.\<close>

definition taskq_thread_take :: "nat \<Rightarrow> taskq \<Rightarrow> taskq_thread option \<times> taskq" where
  "taskq_thread_take pid tq =
     (case taskq_next_ent tq of None \<Rightarrow> (None, tq)
      | Some t \<Rightarrow>
          let tq1 = unlink_ent t tq;
              task = (if has (tqent_flags t) TQENT_FLAG_PREALLOC then dup_task t else t);
              tqt = \<lparr>tqt_thread = pid, tqt_id = tqent_id t, tqt_flags = tqent_flags t, tqt_task = task\<rparr>;
              tq2 = taskq_insert_in_order tqt tq1
          in (Some tqt, tq2\<lparr>tq_nactive := tq_nactive tq2 + 1\<rparr>))"

text \<open>After the task function has returned; \<open>seq_tasks\<close> counts tasks run without sleeping.\<close>

definition taskq_thread_finish :: "int \<Rightarrow> taskq_thread \<Rightarrow> int \<Rightarrow> taskq \<Rightarrow> int \<times> taskq" where
  "taskq_thread_finish spl_taskq_thread_sequential tqt seq_tasks tq =
     (let tq1 = tq\<lparr>tq_nactive := tq_nactive tq - 1,
                   tq_active_list := filter (\<lambda>w. tqt_thread w \<noteq> tqt_thread tqt) (tq_active_list tq)\<rparr>;
          tq2 = (if \<not> has (tqt_flags tqt) TQENT_FLAG_PREALLOC then task_done (tqt_task tqt) tq1 else tq1);
          tq3 = (if tq_lowest_id tq2 = tqt_id tqt then tq2\<lparr>tq_lowest_id := taskq_lowest_id tq2\<rparr> else tq2);
          seq = seq_tasks + 1
      in if seq > spl_taskq_thread_sequential
         then (let (n, tq4) = taskq_thread_spawn tq3 in (if n \<noteq> 0 then 0 else seq, tq4))
         else (seq, tq3))"

definition taskq_thread_exit :: "nat \<Rightarrow> taskq \<Rightarrow> taskq" where
  "taskq_thread_exit tqt tq =
     tq\<lparr>tq_nthreads := tq_nthreads tq - 1, tq_thread_list := filter (\<lambda>w. w \<noteq> tqt) (tq_thread_list tq)\<rparr>"

section \<open>Creating and destroying queues\<close>

text \<open>The number of threads asked for, as a percentage of the online CPUs if so flagged.\<close>

definition taskq_nthreads :: "nat \<Rightarrow> u32 \<Rightarrow> int \<Rightarrow> int" where
  "taskq_nthreads ncpus flags n =
     (if has flags TASKQ_THREADS_CPU_PCT
      then (let n1 = min n 100; n2 = max n1 0 in max ((int ncpus * n2) div 100) 1) else n)"

definition taskq_init :: "string \<Rightarrow> int \<Rightarrow> int \<Rightarrow> int \<Rightarrow> u32 \<Rightarrow> taskq" where
  "taskq_init name nthreads minalloc maxalloc flags =
     \<lparr>tq_name = name, tq_instance = 0, tq_thread_list = [], tq_active_list = [], tq_nactive = 0,
      tq_nthreads = 0, tq_nspawn = 0, tq_maxthreads = nthreads, tq_minalloc = minalloc,
      tq_maxalloc = maxalloc, tq_nalloc = 0, tq_flags = flags OR TASKQ_ACTIVE,
      tq_next_id = TASKQID_INITIAL, tq_lowest_id = TASKQID_INITIAL,
      tq_free_list = [], tq_pend_list = [], tq_prio_list = [], tq_delay_list = [], tq_cancelling = [], spawn_calls = 0\<rparr>"

text \<open>\<^verbatim>\<open>TASKQ_PREPOPULATE\<close>: entries (at the given addresses) are allocated and released to the pool.\<close>

primrec taskq_prepopulate :: "addr list \<Rightarrow> taskq \<Rightarrow> taskq" where
  "taskq_prepopulate [] tq = tq"
| "taskq_prepopulate (a # as) tq =
     (case task_alloc (\<lambda>_ q. q) (\<lambda>_. Some a) (TQ_PUSHPAGE OR TQ_NEW) tq of
        (Some t, tq1) \<Rightarrow> taskq_prepopulate as (task_done t tq1)
      | (None, tq1) \<Rightarrow> taskq_prepopulate as tq1)"

text \<open>The loop of \<^verbatim>\<open>taskq_destroy\<close> that frees the pool.\<close>

fun free_pool :: "taskq_ent list \<Rightarrow> taskq \<Rightarrow> taskq" where
  "free_pool [] tq = tq"
| "free_pool (t # ts) tq = free_pool ts (task_free (tq\<lparr>tq_free_list := ts\<rparr>))"

definition taskq_destroy_begin :: "taskq \<Rightarrow> taskq" where
  "taskq_destroy_begin tq = tq\<lparr>tq_flags := tq_flags tq AND NOT TASKQ_ACTIVE\<rparr>"

text \<open>Every thread is told to stop and takes itself off the list.\<close>

definition taskq_stop_threads :: "taskq \<Rightarrow> taskq" where
  "taskq_stop_threads tq = fold taskq_thread_exit (tq_thread_list tq) tq"

text \<open>
  The whole function; \<open>drain\<close> is what the workers do while it waits, and \<open>None\<close> means that
  it waits on: a task is outstanding or a thread is being spawned.
\<close>

definition taskq_destroy :: "(taskq \<Rightarrow> taskq) \<Rightarrow> taskq \<Rightarrow> taskq option" where
  "taskq_destroy drain tq =
     (let tq1 = drain (taskq_destroy_begin tq) in
      if \<not> taskq_wait_check tq1 \<or> tq_nspawn tq1 \<noteq> 0 then None
      else (let tq2 = taskq_stop_threads tq1 in Some (free_pool (tq_free_list tq2) tq2)))"

text \<open>
  \<^verbatim>\<open>taskq_create\<close>: the addresses \<open>as i\<close> are those of the pool, \<open>pid i\<close> is the result of creating the
  \<open>i\<close>th thread; the queue is added to the list of all queues, unless a thread could not be created.
\<close>

definition start_thread :: "nat option \<Rightarrow> taskq \<Rightarrow> taskq" where
  "start_thread p tq = (case p of Some i \<Rightarrow> snd (taskq_thread_start i tq) | None \<Rightarrow> tq)"

definition taskq_create ::
  "nat \<Rightarrow> bool \<Rightarrow> (nat \<Rightarrow> addr) \<Rightarrow> (nat \<Rightarrow> nat option) \<Rightarrow> string \<Rightarrow> int \<Rightarrow> int \<Rightarrow> int \<Rightarrow> u32 \<Rightarrow>
   taskq list \<Rightarrow> taskq option \<times> taskq list" where
  "taskq_create ncpus spl_taskq_thread_dynamic as pid name nthreads minalloc maxalloc flags tqs =
     (let n = taskq_nthreads ncpus flags nthreads;
          tq0 = taskq_init name n minalloc maxalloc flags;
          tq1 = (if has flags TASKQ_PREPOPULATE then taskq_prepopulate (map as [0..<nat minalloc]) tq0 else tq0);
          n1 = (if has flags TASKQ_DYNAMIC \<and> spl_taskq_thread_dynamic then 1 else n);
          ps = map pid [0..<nat n1];
          tq2 = (fold start_thread ps tq1)\<lparr>tq_nspawn := 0\<rparr>
      in if None \<in> set ps then (None, tqs)
         else (let tq3 = tq2\<lparr>tq_instance := taskq_find_by_name name tqs + 1\<rparr> in (Some tq3, tqs @ [tq3])))"

text \<open>Writing the module parameter \<^verbatim>\<open>spl_taskq_kick\<close>: queues whose first task waits for more than 5 s.\<close>

definition time_after :: "u64 \<Rightarrow> u64 \<Rightarrow> bool" where
  "time_after a b \<longleftrightarrow> sint (b - a) < 0"

definition taskq_kick :: "u64 \<Rightarrow> u64 \<Rightarrow> taskq \<Rightarrow> taskq" where
  "taskq_kick HZ jiffies tq =
     (case taskq_next_ent tq of
        Some t \<Rightarrow> if time_after jiffies (tqent_birth t + 5 * HZ) then snd (taskq_thread_spawn tq) else tq
      | None \<Rightarrow> tq)"

definition param_set_taskq_kick :: "u64 \<Rightarrow> u64 \<Rightarrow> bool \<Rightarrow> u32 \<Rightarrow> taskq list \<Rightarrow> u32 \<times> taskq list" where
  "param_set_taskq_kick HZ jiffies param_ok val tqs =
     (if \<not> param_ok \<or> val = 0 then (val, tqs) else (0, map (taskq_kick HZ jiffies) tqs))"

end
