(* ===== verification/Taskq_Props.thy ===== *)
theory Taskq_Props
  imports Taskq "HOL-Library.Multiset"
begin

text \<open>
  The order invariant of task queues (``the lists are kept sorted by lowest to
  highest task id'' in the comment of \<^verbatim>\<open>spl-taskq.c\<close>), that every operation
  without \<open>TQ_NOQUEUE\<close> keeps it, and what follows for the waiting, finding and
  cancelling functions.  The two ways in which the code breaks it are in \<open>Taskq_Safety\<close>.
\<close>

section \<open>Sorted lists\<close>

definition sorted_by :: "('a \<Rightarrow> u64) \<Rightarrow> 'a list \<Rightarrow> bool" where
  "sorted_by k xs \<longleftrightarrow> sorted_wrt (\<lambda>a b. k a < k b) xs"

lemma sorted_by_simps [simp]:
  "sorted_by k []" "sorted_by k [x]"
  "sorted_by k (x # xs) \<longleftrightarrow> (\<forall>y \<in> set xs. k x < k y) \<and> sorted_by k xs"
  "sorted_by k (xs @ ys) \<longleftrightarrow> sorted_by k xs \<and> sorted_by k ys \<and> (\<forall>x \<in> set xs. \<forall>y \<in> set ys. k x < k y)"
  by (auto simp: sorted_by_def sorted_wrt_append)

lemma sorted_by_filter: "sorted_by k xs \<Longrightarrow> sorted_by k (filter P xs)"
  by (simp add: sorted_by_def sorted_wrt_filter)

lemma less_hd: "sorted_by k xs \<Longrightarrow> xs \<noteq> [] \<Longrightarrow> i < k (hd xs) \<longleftrightarrow> (\<forall>x \<in> set xs. i < k x)"
  by (cases xs) auto

lemma mset_insert_back [simp]: "mset (insert_back k t xs) = add_mset t (mset xs)"
  by (induction xs) auto

lemma set_insert_back [simp]: "set (insert_back k t xs) = insert t (set xs)"
  by (induction xs) auto

lemma mset_insert_in_order [simp]: "mset (insert_in_order k t xs) = add_mset t (mset xs)"
  by (simp add: insert_in_order_def)

lemma set_insert_in_order [simp]: "set (insert_in_order k t xs) = insert t (set xs)"
  by (simp add: insert_in_order_def)

lemma insert_back_sorted:
  "sorted_by k (rev xs) \<Longrightarrow> k t \<notin> k ` set xs \<Longrightarrow> sorted_by k (rev (insert_back k t xs))"
proof (induction xs)
  case (Cons w ws)
  show ?case
  proof (cases "k w < k t")
    case True
    with Cons.prems show ?thesis by (auto intro: less_trans)
  next
    case False
    with Cons.prems(2) have "k t < k w" by auto
    with False Cons show ?thesis by auto
  qed
qed simp

lemma insert_in_order_sorted:
  "sorted_by k xs \<Longrightarrow> k t \<notin> k ` set xs \<Longrightarrow> sorted_by k (insert_in_order k t xs)"
  unfolding insert_in_order_def by (rule insert_back_sorted) auto

lemma find_list_iff:
  "sorted_by tqent_id xs \<Longrightarrow> taskq_find_list xs i = Some t \<longleftrightarrow> t \<in> set xs \<and> tqent_id t = i"
proof (induction xs)
  case (Cons x xs)
  have "tqent_id x < tqent_id y" if "y \<in> set xs" for y using Cons.prems that by simp
  then have n: "y \<in> set xs \<Longrightarrow> tqent_id y \<noteq> i" if "i \<le> tqent_id x" for y using that by fastforce
  consider "tqent_id x = i" | "i < tqent_id x" | "tqent_id x < i" by fastforce
  then show ?case
  proof cases
    case 1
    with n show ?thesis by auto
  next
    case 2
    with n [OF less_imp_le [OF 2]] show ?thesis by auto
  next
    case 3
    with Cons show ?thesis by auto
  qed
qed simp

lemma find_list_None:
  "sorted_by tqent_id xs \<Longrightarrow> taskq_find_list xs i = None \<longleftrightarrow> i \<notin> tqent_id ` set xs"
proof -
  assume s: "sorted_by tqent_id xs"
  show ?thesis
  proof (cases "taskq_find_list xs i")
    case None
    with find_list_iff [OF s, of i] show ?thesis by force
  next
    case (Some t)
    with find_list_iff [OF s, of i t] show ?thesis by auto
  qed
qed

section \<open>Invariant\<close>

definition queued :: "taskq \<Rightarrow> taskq_ent list" where
  "queued tq = tq_pend_list tq @ tq_prio_list tq @ tq_delay_list tq"

definition out_ids :: "taskq \<Rightarrow> u64 list" where
  "out_ids tq = map tqent_id (queued tq) @ map tqt_id (tq_active_list tq)"

text \<open>The ids of the tasks that are not complete, and the least of them (or the next id).\<close>

definition outstanding :: "taskq \<Rightarrow> u64 set" where
  "outstanding tq = set (out_ids tq)"

definition ids_ok :: "taskq \<Rightarrow> bool" where
  "ids_ok tq \<longleftrightarrow> distinct (out_ids tq) \<and> (\<forall>i \<in> outstanding tq. 0 < i \<and> i < tq_next_id tq) \<and>
     tq_lowest_id tq = Min (insert (tq_next_id tq) (outstanding tq)) \<and> 0 < tq_next_id tq"

definition lists_sorted :: "taskq \<Rightarrow> bool" where
  "lists_sorted tq \<longleftrightarrow> sorted_by tqent_id (tq_pend_list tq) \<and> sorted_by tqent_id (tq_prio_list tq) \<and>
     sorted_by tqent_id (tq_delay_list tq) \<and> sorted_by tqt_id (tq_active_list tq)"

text \<open>The entries that are on a list or being run by a thread that will release them.\<close>

definition running :: "taskq \<Rightarrow> taskq_ent list" where
  "running tq = map tqt_task (filter (\<lambda>w. \<not> has (tqt_flags w) TQENT_FLAG_PREALLOC) (tq_active_list tq))"

definition addrs :: "taskq \<Rightarrow> addr list" where
  "addrs tq = map tqent_addr (tq_free_list tq @ queued tq @ running tq @ tq_cancelling tq)"

text \<open>
  The entries the queue has allocated: pooled, queued or running ones that are not the
  caller's own; \<open>debt\<close> is how many more entries \<open>tq_nalloc\<close> counts.
\<close>

definition owned :: "taskq_ent list \<Rightarrow> taskq_ent list" where
  "owned = filter (\<lambda>t. \<not> has (tqent_flags t) TQENT_FLAG_PREALLOC)"

definition debt :: "taskq \<Rightarrow> int" where
  "debt tq = tq_nalloc tq - int (length (tq_free_list tq) + length (owned (queued tq)) + length (running tq) +
     length (owned (tq_cancelling tq)))"

definition ents_distinct :: "taskq \<Rightarrow> bool" where
  "ents_distinct tq \<longleftrightarrow> distinct (addrs tq) \<and> (\<forall>t \<in> set (tq_free_list tq). tqent_flags t = 0) \<and>
     (\<forall>t \<in> set (tq_delay_list tq). tqent_flags t = 0)"

definition threads_ok :: "taskq \<Rightarrow> bool" where
  "threads_ok tq \<longleftrightarrow> distinct (map tqt_thread (tq_active_list tq)) \<and>
     tq_nactive tq = int (length (tq_active_list tq)) \<and> distinct (tq_thread_list tq) \<and>
     tq_nthreads tq = int (length (tq_thread_list tq)) \<and>
     tqt_thread ` set (tq_active_list tq) \<subseteq> set (tq_thread_list tq)"

definition taskq_inv :: "taskq \<Rightarrow> bool" where
  "taskq_inv tq \<longleftrightarrow> ids_ok tq \<and> lists_sorted tq \<and> ents_distinct tq \<and> threads_ok tq"

lemma outstanding_alt:
  "outstanding tq = tqent_id ` set (tq_pend_list tq) \<union> tqent_id ` set (tq_prio_list tq) \<union>
     tqent_id ` set (tq_delay_list tq) \<union> tqt_id ` set (tq_active_list tq)"
  by (auto simp: outstanding_def out_ids_def queued_def)

lemma finite_outstanding [simp]: "finite (outstanding tq)"
  by (simp add: outstanding_def)

lemma less_lowest:
  assumes "lists_sorted tq"
  shows "i < taskq_lowest_id tq \<longleftrightarrow> i < tq_next_id tq \<and> (\<forall>j \<in> outstanding tq. i < j)"
proof -
  note l = assms [unfolded lists_sorted_def]
  have a: "i < (if xs \<noteq> [] then min b (k (hd xs)) else b) \<longleftrightarrow> i < b \<and> (\<forall>x \<in> set xs. i < k x)"
    if "sorted_by k xs" for xs and k :: "'x \<Rightarrow> u64" and b
    using less_hd [OF that, of i] by auto
  have b: "i < (if xs \<noteq> [] then min b (k (hd xs)) else b) \<longleftrightarrow> i < b \<and> (\<forall>x \<in> set xs. i < k x)"
    if "sorted_by k xs" for xs and k :: "taskq_thread \<Rightarrow> u64" and b
    using less_hd [OF that, of i] by auto
  show ?thesis
    using l unfolding taskq_lowest_id_def Let_def outstanding_alt by (simp only: a b) blast
qed

lemma lowest_Min:
  assumes "lists_sorted tq"
  shows "taskq_lowest_id tq = Min (insert (tq_next_id tq) (outstanding tq))"
proof (rule antisym)
  have m: "Min (insert (tq_next_id tq) (outstanding tq)) \<in> insert (tq_next_id tq) (outstanding tq)"
    by (rule Min_in) simp_all
  show "taskq_lowest_id tq \<le> Min (insert (tq_next_id tq) (outstanding tq))"
  proof (rule ccontr)
    let ?m = "Min (insert (tq_next_id tq) (outstanding tq))"
    assume "\<not> ?thesis"
    then have "?m < taskq_lowest_id tq" by (simp only: not_le)
    then have "?m < tq_next_id tq" "\<forall>j \<in> outstanding tq. ?m < j" unfolding less_lowest [OF assms] by auto
    with m show False by auto
  qed
  show "Min (insert (tq_next_id tq) (outstanding tq)) \<le> taskq_lowest_id tq"
  proof (rule ccontr)
    assume "\<not> ?thesis"
    then have "taskq_lowest_id tq < Min (insert (tq_next_id tq) (outstanding tq))" by (simp only: not_le)
    then have "\<forall>j \<in> insert (tq_next_id tq) (outstanding tq). taskq_lowest_id tq < j" by (subst (asm) Min_gr_iff) simp_all
    then have "taskq_lowest_id tq < taskq_lowest_id tq" using less_lowest [OF assms] by blast
    then show False by simp
  qed
qed

section \<open>The parts of the invariant under elementary updates\<close>

lemma ids_ok_same:
  assumes "ids_ok tq" "mset (out_ids tq') = mset (out_ids tq)" "tq_next_id tq' = tq_next_id tq"
    "tq_lowest_id tq' = tq_lowest_id tq"
  shows "ids_ok tq'"
proof -
  have "outstanding tq' = outstanding tq" unfolding outstanding_def using assms(2) by (metis set_mset_mset)
  moreover have "distinct (out_ids tq') = distinct (out_ids tq)" using assms(2) by (rule mset_eq_imp_distinct_iff)
  ultimately show ?thesis using assms by (simp add: ids_ok_def)
qed

lemma ids_ok_add:
  assumes i: "ids_ok tq" and m: "mset (out_ids tq') = add_mset (tq_next_id tq) (mset (out_ids tq))"
    and n: "tq_next_id tq' = tq_next_id tq + 1" "tq_next_id tq' \<noteq> 0" and l: "tq_lowest_id tq' = tq_lowest_id tq"
  shows "ids_ok tq'"
proof -
  let ?n = "tq_next_id tq"
  have O: "outstanding tq' = insert ?n (outstanding tq)"
    unfolding outstanding_def using m by (metis set_mset_add_mset_insert set_mset_mset)
  have "mset (out_ids tq') = mset (?n # out_ids tq)" using m by simp
  then have "distinct (out_ids tq') \<longleftrightarrow> distinct (?n # out_ids tq)" by (rule mset_eq_imp_distinct_iff)
  moreover have nin: "?n \<notin> outstanding tq" using i by (auto simp: ids_ok_def)
  moreover have less: "?n < ?n + 1" using n by (intro word_less_plus_one) auto
  moreover have "Min (insert (?n + 1) (insert ?n (outstanding tq))) = Min (insert ?n (outstanding tq))"
  proof -
    let ?m = "Min (insert ?n (outstanding tq))"
    have "?m \<le> ?n" by simp
    then have "?m \<le> ?n + 1" using less by (rule order_trans [OF _ less_imp_le])
    then have "min (?n + 1) ?m = ?m" by (rule min_absorb2)
    then show ?thesis by (subst Min_insert) simp_all
  qed
  ultimately show ?thesis using i O n l unfolding ids_ok_def outstanding_def
    by (auto intro: less_trans simp del: Min_insert)
qed

lemma ids_ok_remove:
  assumes i: "ids_ok tq" and m: "mset (out_ids tq) = add_mset r (mset (out_ids tq'))"
    and n: "tq_next_id tq' = tq_next_id tq"
    and l: "tq_lowest_id tq' = (if tq_lowest_id tq = r then Min (insert (tq_next_id tq) (outstanding tq')) else tq_lowest_id tq)"
  shows "ids_ok tq'"
proof -
  let ?n = "tq_next_id tq"
  have O: "outstanding tq = insert r (outstanding tq')"
    unfolding outstanding_def using m by (metis set_mset_add_mset_insert set_mset_mset)
  have "mset (out_ids tq) = mset (r # out_ids tq')" using m by simp
  then have "distinct (out_ids tq) \<longleftrightarrow> distinct (r # out_ids tq')" by (rule mset_eq_imp_distinct_iff)
  then have d: "distinct (out_ids tq')" "r \<notin> outstanding tq'" using i by (auto simp: ids_ok_def outstanding_def)
  have rn: "r < ?n" "tq_lowest_id tq = Min (insert ?n (outstanding tq))" using i O by (auto simp: ids_ok_def)
  have "tq_lowest_id tq' = Min (insert ?n (outstanding tq'))"
  proof (cases "tq_lowest_id tq = r")
    case False
    let ?m = "Min (insert ?n (outstanding tq'))"
    have "tq_lowest_id tq = min r ?m"
      unfolding rn(2) O by (subst insert_commute, subst Min_insert) simp_all
    with False have "tq_lowest_id tq = ?m" by (auto simp: min_def split: if_splits)
    with l False show ?thesis by simp
  qed (simp add: l)
  with i O n d show ?thesis by (auto simp: ids_ok_def)
qed

lemma mset_eq_length_add: "mset xs = add_mset a (mset ys) \<Longrightarrow> length xs = length ys + 1"
  by (metis Suc_eq_plus1 size_add_mset size_mset)

lemma ents_distinct_mset:
  assumes "distinct (addrs tq)" "mset (addrs tq') = mset (addrs tq)"
  shows "distinct (addrs tq')"
  using assms mset_eq_imp_distinct_iff by blast

lemma filter_addr:
  assumes "distinct (map f xs)" "t \<in> set xs"
  shows "filter (\<lambda>u. f u \<noteq> f t) xs = remove1 t xs"
  using assms
proof (induction xs)
  case (Cons x xs)
  show ?case
  proof (cases "t = x")
    case True
    have "f x \<notin> f ` set xs" using Cons.prems(1) by simp
    then have "\<forall>u \<in> set xs. f u \<noteq> f t" using True by (metis imageI)
    with True show ?thesis by simp
  next
    case False
    with Cons.prems have tx: "t \<in> set xs" by simp
    have "f x \<notin> f ` set xs" using Cons.prems(1) by simp
    with tx have "f x \<noteq> f t" by (metis imageI)
    with tx Cons False show ?thesis by simp
  qed
qed simp

lemma unlink_queued:
  assumes d: "ents_distinct tq" and t: "t \<in> set (queued tq)"
  shows "mset (queued tq) = add_mset t (mset (queued (unlink_ent t tq)))"
    and "tq_free_list (unlink_ent t tq) = tq_free_list tq"
    and "lists_sorted tq \<Longrightarrow> lists_sorted (unlink_ent t tq)"
    and "set (queued (unlink_ent t tq)) \<subseteq> set (queued tq)"
proof -
  from d have dq: "distinct (map tqent_addr (queued tq))" and
    df: "tqent_addr t \<notin> tqent_addr ` set (tq_free_list tq)"
    using t by (auto simp: ents_distinct_def addrs_def)
  have q: "queued (unlink_ent t tq) = filter (\<lambda>u. tqent_addr u \<noteq> tqent_addr t) (queued tq)"
    by (simp add: queued_def unlink_ent_def Let_def)
  show "mset (queued tq) = add_mset t (mset (queued (unlink_ent t tq)))"
    unfolding q filter_addr [OF dq t] using t by simp
  show "tq_free_list (unlink_ent t tq) = tq_free_list tq"
  proof -
    have "\<forall>u \<in> set (tq_free_list tq). tqent_addr u \<noteq> tqent_addr t" using df by (metis imageI)
    then show ?thesis by (simp add: unlink_ent_def Let_def)
  qed
  show "lists_sorted tq \<Longrightarrow> lists_sorted (unlink_ent t tq)"
    by (simp add: lists_sorted_def unlink_ent_def Let_def sorted_by_filter)
  show "set (queued (unlink_ent t tq)) \<subseteq> set (queued tq)" unfolding q by auto
qed

lemma unlink_fields [simp]:
  "tq_active_list (unlink_ent t tq) = tq_active_list tq" "tq_next_id (unlink_ent t tq) = tq_next_id tq"
  "tq_lowest_id (unlink_ent t tq) = tq_lowest_id tq" "tq_nactive (unlink_ent t tq) = tq_nactive tq"
  "tq_nthreads (unlink_ent t tq) = tq_nthreads tq" "tq_thread_list (unlink_ent t tq) = tq_thread_list tq"
  "tq_nalloc (unlink_ent t tq) = tq_nalloc tq" "tq_cancelling (unlink_ent t tq) = tq_cancelling tq" "tq_minalloc (unlink_ent t tq) = tq_minalloc tq"
  by (simp_all add: unlink_ent_def Let_def)

lemma inv_spawn [simp]: "taskq_inv (snd (taskq_thread_spawn tq)) = taskq_inv tq"
  by (simp add: taskq_thread_spawn_def taskq_inv_def ids_ok_def lists_sorted_def ents_distinct_def threads_ok_def
      outstanding_def out_ids_def queued_def addrs_def running_def)

lemma inv_spawn_if [simp]: "taskq_inv (spawn_if b tq) = taskq_inv tq"
  by (simp add: spawn_if_def)

section \<open>Operations keep the invariant\<close>

lemma mset_addrs: "mset (addrs tq) = image_mset tqent_addr (mset (tq_free_list tq) + mset (queued tq) + mset (running tq) +
    mset (tq_cancelling tq))"
  by (simp add: addrs_def)

lemma mset_out_ids: "mset (out_ids tq) = image_mset tqent_id (mset (queued tq)) + image_mset tqt_id (mset (tq_active_list tq))"
  by (simp add: out_ids_def)

lemma distinct_add:
  assumes "mset xs = add_mset a (mset ys)"
  shows "distinct xs \<longleftrightarrow> a \<notin> set ys \<and> distinct ys"
proof -
  have "mset xs = mset (a # ys)" using assms by simp
  from mset_eq_imp_distinct_iff [OF this] show ?thesis by simp
qed

lemma inv_enqueue:
  assumes i: "taskq_inv tq" and t: "tqent_addr t \<notin> set (addrs tq)" "tqent_id t = tq_next_id tq" and n: "tq_next_id tq + 1 \<noteq> 0"
    and q: "mset (queued tq') = add_mset t (mset (queued tq))" and s: "lists_sorted tq'"
    and z: "\<forall>u \<in> set (tq_delay_list tq'). tqent_flags u = 0"
    and f: "tq_free_list tq' = tq_free_list tq" "tq_active_list tq' = tq_active_list tq" "tq_next_id tq' = tq_next_id tq + 1"
      "tq_lowest_id tq' = tq_lowest_id tq" "tq_nactive tq' = tq_nactive tq" "tq_nthreads tq' = tq_nthreads tq"
      "tq_thread_list tq' = tq_thread_list tq" "tq_cancelling tq' = tq_cancelling tq"
  shows "taskq_inv tq'"
proof -
  have r: "running tq' = running tq" by (simp add: running_def f)
  have "ids_ok tq'"
    by (rule ids_ok_add [of tq]) (use i n in \<open>simp_all add: taskq_inv_def mset_out_ids q t f\<close>)
  moreover have "mset (addrs tq') = add_mset (tqent_addr t) (mset (addrs tq))" by (simp add: mset_addrs q f r)
  from distinct_add [OF this] have "distinct (addrs tq')" using i t(1) by (simp add: taskq_inv_def ents_distinct_def)
  ultimately show ?thesis using i s z by (auto simp: taskq_inv_def ents_distinct_def threads_ok_def f)
qed

lemma ids_below_next: "taskq_inv tq \<Longrightarrow> t \<in> set (queued tq) \<Longrightarrow> tqent_id t < tq_next_id tq"
  by (auto simp: taskq_inv_def ids_ok_def outstanding_def out_ids_def)

lemma inv_enqueue_tail:
  assumes i: "taskq_inv tq" and t: "tqent_addr t \<notin> set (addrs tq)" "tqent_id t = tq_next_id tq" and n: "tq_next_id tq + 1 \<noteq> 0"
  shows "taskq_inv (tq\<lparr>tq_pend_list := tq_pend_list tq @ [t], tq_next_id := tq_next_id tq + 1\<rparr>)"
    and "taskq_inv (tq\<lparr>tq_prio_list := tq_prio_list tq @ [t], tq_next_id := tq_next_id tq + 1\<rparr>)"
    and "tqent_flags t = 0 \<Longrightarrow> taskq_inv (tq\<lparr>tq_delay_list := tq_delay_list tq @ [t], tq_next_id := tq_next_id tq + 1\<rparr>)"
proof -
  have z: "\<forall>u \<in> set (tq_delay_list tq). tqent_flags u = 0" using i by (simp add: taskq_inv_def ents_distinct_def)
  have s: "lists_sorted tq" using i by (simp add: taskq_inv_def)
  have l: "tqent_id x < tqent_id t" if "x \<in> set (queued tq)" for x using ids_below_next [OF i that] t(2) by simp
  show "taskq_inv (tq\<lparr>tq_pend_list := tq_pend_list tq @ [t], tq_next_id := tq_next_id tq + 1\<rparr>)"
    by (rule inv_enqueue [OF i t n]) (use s l z in \<open>auto simp: queued_def lists_sorted_def\<close>)
  show "taskq_inv (tq\<lparr>tq_prio_list := tq_prio_list tq @ [t], tq_next_id := tq_next_id tq + 1\<rparr>)"
    by (rule inv_enqueue [OF i t n]) (use s l z in \<open>auto simp: queued_def lists_sorted_def\<close>)
  show "taskq_inv (tq\<lparr>tq_delay_list := tq_delay_list tq @ [t], tq_next_id := tq_next_id tq + 1\<rparr>)"
    if "tqent_flags t = 0"
    by (rule inv_enqueue [OF i t n]) (use s l z that in \<open>auto simp: queued_def lists_sorted_def\<close>)
qed

text \<open>
  What the other threads may do while an operation has dropped the lock: keep the
  invariant, and not use the memory the allocator is about to return.
\<close>

definition avoids :: "(km_flag \<Rightarrow> addr option) \<Rightarrow> taskq \<Rightarrow> bool" where
  "avoids mem tq \<longleftrightarrow> (\<forall>f a. mem f = Some a \<longrightarrow> a \<notin> set (addrs tq))"

definition rely :: "(nat \<Rightarrow> taskq \<Rightarrow> taskq) \<Rightarrow> (km_flag \<Rightarrow> addr option) \<Rightarrow> bool" where
  "rely env mem \<longleftrightarrow> (\<forall>n tq. taskq_inv tq \<longrightarrow> avoids mem tq \<longrightarrow> taskq_inv (env n tq) \<and> avoids mem (env n tq) \<and>
     debt (env n tq) = debt tq)"

lemma inv_nalloc [simp]: "taskq_inv (tq\<lparr>tq_nalloc := n\<rparr>) = taskq_inv tq" "addrs (tq\<lparr>tq_nalloc := n\<rparr>) = addrs tq"
  "debt (tq\<lparr>tq_nalloc := n\<rparr>) = debt tq - tq_nalloc tq + n"
  by (simp_all add: taskq_inv_def ids_ok_def lists_sorted_def ents_distinct_def threads_ok_def
      outstanding_def out_ids_def queued_def addrs_def running_def debt_def)

lemma task_alloc_loop_inv:
  assumes "taskq_inv tq" "avoids mem tq" "rely env mem" "task_alloc_loop env mem flags c tq = (r, tq')"
  shows "taskq_inv tq' \<and> (\<forall>t. r = Some t \<longrightarrow> tqent_addr t \<notin> set (addrs tq') \<and> tqent_flags t = 0) \<and>
    debt tq' = debt tq + (if r = None then 0 else 1)"
  using assms
proof (induction env mem flags c tq rule: task_alloc_loop.induct)
  case (1 env mem flags c tq)
  have new: "taskq_inv tq' \<and> (\<forall>t. r = Some t \<longrightarrow> tqent_addr t \<notin> set (addrs tq') \<and> tqent_flags t = 0) \<and>
    debt tq' = debt q + (if r = None then 0 else 1)"
    if "task_alloc_new env mem flags q = (r, tq')" "taskq_inv q" "avoids mem q" for q
  proof -
    have "taskq_inv (env 101 q)" "avoids mem (env 101 q)" "debt (env 101 q) = debt q"
      using 1(4) that by (auto simp: rely_def)
    with that(1) show ?thesis
      by (auto simp: task_alloc_new_def Let_def taskq_init_ent_def avoids_def split: option.splits)
  qed
  show ?case
  proof (cases "tq_free_list tq \<noteq> [] \<and> \<not> has flags TQ_NEW")
    case True
    then obtain u us where u: "tq_free_list tq = u # us" by (cases "tq_free_list tq") auto
    have r: "r = Some u" "tq' = tq\<lparr>tq_free_list := us\<rparr>"
      using 1(5) True u by (auto simp: task_alloc_loop.simps [of env mem flags c tq])
    have "distinct (addrs tq)" "tqent_flags u = 0" using 1(2) u by (auto simp: taskq_inv_def ents_distinct_def)
    moreover have "addrs tq = tqent_addr u # addrs tq'" by (simp add: addrs_def r u queued_def running_def)
    ultimately have "tqent_addr u \<notin> set (addrs tq')" "distinct (addrs tq')" by simp_all
    moreover have "taskq_inv tq'"
      using 1(2) u calculation(2) unfolding r(2)
      by (simp add: taskq_inv_def ids_ok_def lists_sorted_def ents_distinct_def
          threads_ok_def outstanding_def out_ids_def queued_def)
    moreover have "debt tq' = debt tq + 1" unfolding r(2) by (simp add: debt_def queued_def running_def u)
    ultimately show ?thesis using r(1) \<open>tqent_flags u = 0\<close> by simp
  next
    case False
    have env: "taskq_inv (env c tq)" "avoids mem (env c tq)" and D: "debt (env c tq) = debt tq" using 1(2-4) by (auto simp: rely_def)
    have E: "(if has flags TQ_NOALLOC then (None, tq)
      else if tq_nalloc tq \<ge> tq_maxalloc tq then
        if has flags TQ_NOSLEEP then (None, tq)
        else if c < 100 then task_alloc_loop env mem flags (c + 1) (env c tq)
             else task_alloc_new env mem flags (env c tq)
      else task_alloc_new env mem flags tq) = (r, tq')"
      using 1(5) unfolding task_alloc_loop.simps [of env mem flags c tq] Let_def if_not_P [OF False] .
    show ?thesis
    proof (cases "has flags TQ_NOALLOC")
      case True
      with E 1(2) show ?thesis by auto
    next
      case na: False
      show ?thesis
      proof (cases "tq_nalloc tq \<ge> tq_maxalloc tq")
        case f: False
        with E na have "task_alloc_new env mem flags tq = (r, tq')" by simp
        from new [OF this 1(2,3)] show ?thesis .
      next
        case max: True
        show ?thesis
        proof (cases "has flags TQ_NOSLEEP")
          case True
          with E na max 1(2) show ?thesis by auto
        next
          case ns: False
          show ?thesis
          proof (cases "c < 100")
            case True
            with E na max ns have "task_alloc_loop env mem flags (c + 1) (env c tq) = (r, tq')" by simp
            from 1(1) [OF False na max ns refl True env 1(4) this] D show ?thesis by simp
          next
            case f: False
            with E na max ns have "task_alloc_new env mem flags (env c tq) = (r, tq')" by simp
            from new [OF this env] D show ?thesis by simp
          qed
        qed
      qed
    qed
  qed
qed

lemma addrs_spawn [simp]: "addrs (snd (taskq_thread_spawn tq)) = addrs tq" "addrs (spawn_if b tq) = addrs tq"
  by (simp_all add: taskq_thread_spawn_def spawn_if_def addrs_def queued_def running_def)

lemma debt_spawn [simp]: "debt (snd (taskq_thread_spawn tq)) = debt tq" "debt (spawn_if b tq) = debt tq"
  by (simp_all add: taskq_thread_spawn_def spawn_if_def debt_def queued_def running_def)

lemma admit_cases:
  "snd (noqueue_admit flags tq) = tq \<or> snd (noqueue_admit flags tq) = snd (taskq_thread_spawn tq)"
  by (auto simp: noqueue_admit_def split: prod.splits)

lemma inv_admit: "noqueue_admit flags tq = (b, tq') \<Longrightarrow> taskq_inv tq \<Longrightarrow> taskq_inv tq'"
  by (metis admit_cases inv_spawn snd_conv)

lemma addrs_admit: "noqueue_admit flags tq = (b, tq') \<Longrightarrow> addrs tq' = addrs tq"
  by (metis admit_cases addrs_spawn(1) snd_conv)

lemma debt_admit: "noqueue_admit flags tq = (b, tq') \<Longrightarrow> debt tq' = debt tq"
  by (metis admit_cases debt_spawn(1) snd_conv)

lemma debt_enqueue:
  "debt (tq\<lparr>tq_pend_list := tq_pend_list tq @ [t], tq_next_id := n\<rparr>) = debt tq - (if has (tqent_flags t) TQENT_FLAG_PREALLOC then 0 else 1)"
  "debt (tq\<lparr>tq_prio_list := tq_prio_list tq @ [t], tq_next_id := n\<rparr>) = debt tq - (if has (tqent_flags t) TQENT_FLAG_PREALLOC then 0 else 1)"
  "debt (tq\<lparr>tq_delay_list := tq_delay_list tq @ [t], tq_next_id := n\<rparr>) = debt tq - (if has (tqent_flags t) TQENT_FLAG_PREALLOC then 0 else 1)"
  by (simp_all add: debt_def queued_def running_def owned_def)

lemma fill_fields [simp]:
  "tqent_addr (fill_ent now func arg tq t) = tqent_addr t" "tqent_id (fill_ent now func arg tq t) = tq_next_id tq"
  "tqent_flags (fill_ent now func arg tq t) = tqent_flags t"
  by (simp_all add: fill_ent_def)

lemma no_cancel_0 [simp]: "\<not> has (0 :: u64) f"
  by (simp add: has_def)

lemma spawn_next [simp]: "tq_next_id (spawn_if b tq) = tq_next_id tq"
  by (simp add: spawn_if_def taskq_thread_spawn_def)

lemma inv_dispatch:
  assumes i: "taskq_inv tq" and e: "rely env mem" "avoids mem tq" and q: "\<not> has flags TQ_NOQUEUE"
    and d: "taskq_dispatch env mem now func arg flags tq = (r, tq')" and n: "tq_next_id tq' \<noteq> 0"
  shows "taskq_inv tq' \<and> debt tq' = debt tq"
proof -
  have a: "noqueue_admit flags tq = (True, tq)" using q by (simp add: noqueue_admit_def)
  obtain al tq2 where al: "task_alloc env mem flags tq = (al, tq2)" by fastforce
  from task_alloc_loop_inv [OF i e(2,1)] al have inv2: "taskq_inv tq2" and
    D: "debt tq2 = debt tq + (if al = None then 0 else 1)" and t: "\<And>t. al = Some t \<Longrightarrow> tqent_addr t \<notin> set (addrs tq2) \<and> tqent_flags t = 0" by (auto simp: task_alloc_def)
  show ?thesis
  proof (cases "has (tq_flags tq) TASKQ_ACTIVE \<and> al \<noteq> None")
    case False
    with d a al q i inv2 D show ?thesis by (auto simp: taskq_dispatch_def Let_def split: if_splits)
  next
    case True
    then obtain u where u: "al = Some u" by auto
    let ?t = "fill_ent now func arg tq2 u"
    have ok: "tqent_addr ?t \<notin> set (addrs tq2)" "tqent_id ?t = tq_next_id tq2"
      using t [OF u] by simp_all
    have tq': "tq' = spawn_if True ((if has flags TQ_FRONT then tq2\<lparr>tq_prio_list := tq_prio_list tq2 @ [?t]\<rparr>
        else tq2\<lparr>tq_pend_list := tq_pend_list tq2 @ [?t]\<rparr>)\<lparr>tq_next_id := tq_next_id tq2 + 1\<rparr>)"
      using d True a al q u by (auto simp: taskq_dispatch_def Let_def)
    then have nz: "tq_next_id tq2 + 1 \<noteq> 0" using n by simp
    show ?thesis unfolding tq' using inv_enqueue_tail [OF inv2 ok nz] t [OF u] D u by (simp add: debt_enqueue)
  qed
qed

lemma inv_dispatch_delay:
  assumes i: "taskq_inv tq" and e: "rely env mem" "avoids mem tq"
    and d: "taskq_dispatch_delay env mem func arg flags tq = (r, tq')" and n: "tq_next_id tq' \<noteq> 0"
  shows "taskq_inv tq' \<and> debt tq' = debt tq"
proof -
  obtain al tq2 where al: "task_alloc env mem flags tq = (al, tq2)" by fastforce
  from task_alloc_loop_inv [OF i e(2,1)] al have inv2: "taskq_inv tq2" and
    D: "debt tq2 = debt tq + (if al = None then 0 else 1)" and t: "\<And>t. al = Some t \<Longrightarrow> tqent_addr t \<notin> set (addrs tq2) \<and> tqent_flags t = 0" by (auto simp: task_alloc_def)
  show ?thesis
  proof (cases "has (tq_flags tq) TASKQ_ACTIVE \<and> al \<noteq> None")
    case False
    with d al i inv2 D show ?thesis by (auto simp: taskq_dispatch_delay_def split: if_splits)
  next
    case True
    then obtain u where u: "al = Some u" by auto
    let ?t = "fill_ent (tqent_birth u) func arg tq2 u"
    have ok: "tqent_addr ?t \<notin> set (addrs tq2)" "tqent_id ?t = tq_next_id tq2" "tqent_flags ?t = 0"
      using t [OF u] by simp_all
    have tq': "tq' = spawn_if True (tq2\<lparr>tq_delay_list := tq_delay_list tq2 @ [?t], tq_next_id := tq_next_id tq2 + 1\<rparr>)"
      using d True al u by (auto simp: taskq_dispatch_delay_def Let_def)
    then have nz: "tq_next_id tq2 + 1 \<noteq> 0" using n by simp
    show ?thesis unfolding tq' using inv_enqueue_tail(3) [OF inv2 ok(1,2) nz ok(3)] t [OF u] D u by (simp add: debt_enqueue)
  qed
qed

lemma has_prealloc [simp]: "has (f OR TQENT_FLAG_PREALLOC) TQENT_FLAG_PREALLOC"
proof -
  have "bit ((f OR TQENT_FLAG_PREALLOC) AND TQENT_FLAG_PREALLOC) 0"
    by (simp add: TQENT_FLAG_PREALLOC_def bit_simps)
  then show ?thesis unfolding has_def by (metis bit_0_eq bot_apply bot_bool_def)
qed

lemma inv_dispatch_ent:
  assumes i: "taskq_inv tq" and t: "tqent_addr t \<notin> set (addrs tq)"
    and d: "taskq_dispatch_ent now func arg flags t tq = (r, tq')" and n: "tq_next_id tq' \<noteq> 0"
  shows "taskq_inv tq' \<and> debt tq' = debt tq"
proof (cases "has (tq_flags tq) TASKQ_ACTIVE")
  case False
  with d i show ?thesis by (auto simp: taskq_dispatch_ent_def)
next
  case True
  obtain ok tq1 where a: "noqueue_admit flags tq = (ok, tq1)" by fastforce
  have i1: "taskq_inv tq1" and ad: "addrs tq1 = addrs tq" and D: "debt tq1 = debt tq"
    using inv_admit [OF a i] addrs_admit [OF a] debt_admit [OF a] .
  show ?thesis
  proof (cases ok)
    case False
    with d a True i1 D show ?thesis by (auto simp: taskq_dispatch_ent_def)
  next
    case okT: True
    let ?t = "fill_ent now func arg tq1 (t\<lparr>tqent_flags := tqent_flags t OR TQENT_FLAG_PREALLOC\<rparr>)"
    let ?f = "has flags TQ_FRONT \<or> (has flags TQ_NOQUEUE \<and> tq_nactive tq = tq_nthreads tq)"
    have o: "tqent_addr ?t \<notin> set (addrs tq1)" "tqent_id ?t = tq_next_id tq1"
      using t ad by simp_all
    have tq': "tq' = spawn_if True ((if ?f then tq1\<lparr>tq_prio_list := tq_prio_list tq1 @ [?t]\<rparr>
        else tq1\<lparr>tq_pend_list := tq_pend_list tq1 @ [?t]\<rparr>)\<lparr>tq_next_id := tq_next_id tq1 + 1\<rparr>)"
      using d True a okT by (auto simp: taskq_dispatch_ent_def Let_def)
    then have nz: "tq_next_id tq1 + 1 \<noteq> 0" using n by (simp split: if_splits)
    show ?thesis unfolding tq' using inv_enqueue_tail [OF i1 o nz] D by (simp add: debt_enqueue has_prealloc)
  qed
qed

lemma inv_expire:
  assumes i: "taskq_inv tq" and t: "t \<in> set (tq_delay_list tq)"
  shows "taskq_inv (task_expire_impl now t tq) \<and> debt (task_expire_impl now t tq) = debt tq"
proof -
  let ?t = "t\<lparr>tqent_birth := now\<rparr>" and ?u = "unlink_ent t tq"
  let ?q = "?u\<lparr>tq_prio_list := insert_in_order tqent_id ?t (tq_prio_list ?u)\<rparr>"
  have e: "ents_distinct tq" and f: "tqent_flags t = 0" using i t by (auto simp: taskq_inv_def ents_distinct_def)
  have tq: "t \<in> set (queued tq)" using t by (simp add: queued_def)
  have q: "task_expire_impl now t tq = ?q" using f by (simp add: task_expire_impl_def Let_def)
  note u = unlink_queued [OF e tq]
  have m: "mset (queued ?q) = add_mset ?t (mset (queued ?u))" by (simp add: queued_def)
  have r: "running ?q = running tq" by (simp add: running_def)
  have "ids_ok ?q"
    by (rule ids_ok_same [of tq]) (use i in \<open>simp_all add: taskq_inv_def mset_out_ids m u(1)\<close>)
  moreover have "mset (addrs ?q) = mset (addrs tq)" by (simp add: mset_addrs m u(1,2) r)
  with e have "distinct (addrs ?q)" unfolding ents_distinct_def by (blast intro: ents_distinct_mset)
  moreover have "tqent_id t \<notin> tqent_id ` set (tq_prio_list ?u)"
  proof -
    have "distinct (tqent_id t # map tqent_id (queued ?u))"
      using i mset_eq_imp_distinct_iff [of "map tqent_id (queued tq)" "map tqent_id (t # queued ?u)"] u(1)
      by (simp add: taskq_inv_def ids_ok_def out_ids_def)
    then show ?thesis by (auto simp: queued_def)
  qed
  then have "lists_sorted ?q"
    using u(3) i insert_in_order_sorted [of tqent_id "tq_prio_list ?u" ?t] by (simp add: taskq_inv_def lists_sorted_def)
  moreover have "\<forall>w \<in> set (tq_delay_list ?q). tqent_flags w = 0" "\<forall>w \<in> set (tq_free_list ?q). tqent_flags w = 0"
    using e u(2) by (auto simp: ents_distinct_def unlink_ent_def Let_def)
  moreover have "debt ?q = debt tq"
  proof -
    have "mset (owned (queued tq)) = add_mset t (mset (owned (queued ?u)))"
      "mset (owned (queued ?q)) = add_mset ?t (mset (owned (queued ?u)))"
      by (simp_all add: owned_def u(1) m f)
    from this [THEN mset_eq_length_add] show ?thesis by (simp add: debt_def r u(2))
  qed
  ultimately show ?thesis unfolding q using i by (simp add: taskq_inv_def ents_distinct_def threads_ok_def)
qed

lemma task_done_fields [simp]:
  "queued (task_done t tq) = queued tq" "tq_active_list (task_done t tq) = tq_active_list tq"
  "tq_next_id (task_done t tq) = tq_next_id tq" "tq_lowest_id (task_done t tq) = tq_lowest_id tq"
  "tq_cancelling (task_done t tq) = tq_cancelling tq" "tq_nspawn (task_done t tq) = tq_nspawn tq"
  by (simp_all add: task_done_def task_free_def queued_def)

lemma inv_task_done:
  assumes i: "taskq_inv tq" and t: "tqent_addr t \<notin> set (addrs tq)"
  shows "taskq_inv (task_done t tq) \<and> debt (task_done t tq) = debt tq - 1"
proof (cases "tq_nalloc tq \<le> tq_minalloc tq")
  case False
  then show ?thesis using i by (simp add: task_done_def task_free_def)
next
  case True
  let ?q = "task_done t tq"
  have q: "tq_free_list ?q = tq_free_list tq @ [t\<lparr>tqent_id := TASKQID_INVALID, tqent_func := None, tqent_arg := 0, tqent_flags := 0\<rparr>]"
    "running ?q = running tq" "tq_nalloc ?q = tq_nalloc tq"
    using True by (simp_all add: task_done_def running_def)
  have "mset (addrs ?q) = add_mset (tqent_addr t) (mset (addrs tq))" by (simp add: mset_addrs q)
  from distinct_add [OF this] have "ents_distinct ?q" using i t True by (auto simp: taskq_inv_def ents_distinct_def task_done_def)
  moreover have "ids_ok ?q" by (rule ids_ok_same [of tq]) (use i in \<open>simp_all add: taskq_inv_def mset_out_ids\<close>)
  moreover have "lists_sorted ?q" "threads_ok ?q"
    using i True by (simp_all add: task_done_def taskq_inv_def lists_sorted_def threads_ok_def)
  ultimately show ?thesis by (simp add: taskq_inv_def debt_def q)
qed

text \<open>Recomputing the lowest id after a task with the lowest id has left the queue.\<close>

definition relowest :: "u64 \<Rightarrow> taskq \<Rightarrow> taskq" where
  "relowest i tq = (if tq_lowest_id tq = i then tq\<lparr>tq_lowest_id := taskq_lowest_id tq\<rparr> else tq)"

lemma relowest_fields [simp]:
  "queued (relowest i tq) = queued tq" "tq_active_list (relowest i tq) = tq_active_list tq"
  "tq_next_id (relowest i tq) = tq_next_id tq" "tq_cancelling (relowest i tq) = tq_cancelling tq"
  "tq_free_list (relowest i tq) = tq_free_list tq" "running (relowest i tq) = running tq"
  "tq_nalloc (relowest i tq) = tq_nalloc tq" "out_ids (relowest i tq) = out_ids tq" "addrs (relowest i tq) = addrs tq"
  "debt (relowest i tq) = debt tq" "outstanding (relowest i tq) = outstanding tq"
  "lists_sorted (relowest i tq) = lists_sorted tq" "ents_distinct (relowest i tq) = ents_distinct tq"
  "threads_ok (relowest i tq) = threads_ok tq"
  by (simp_all add: relowest_def queued_def running_def out_ids_def addrs_def debt_def outstanding_def
      lists_sorted_def ents_distinct_def threads_ok_def)

lemma inv_relowest:
  assumes i: "ids_ok tq" and m: "mset (out_ids tq) = add_mset r (mset (out_ids tq'))"
    and n: "tq_next_id tq' = tq_next_id tq" "tq_lowest_id tq' = tq_lowest_id tq"
    and s: "lists_sorted tq'" "ents_distinct tq'" "threads_ok tq'"
  shows "taskq_inv (relowest r tq')"
proof -
  have "ids_ok (relowest r tq')"
    by (rule ids_ok_remove [OF i, of r]) (simp_all add: m n, simp add: relowest_def n lowest_Min [OF s(1)])
  with s show ?thesis by (simp add: taskq_inv_def)
qed

lemma ids_unique:
  assumes "taskq_inv tq" "t \<in> set (queued tq)"
  shows "u \<in> set (queued tq) \<Longrightarrow> tqent_id u = tqent_id t \<Longrightarrow> u = t"
    and "w \<in> set (tq_active_list tq) \<Longrightarrow> tqt_id w \<noteq> tqent_id t"
proof -
  have d: "distinct (map tqent_id (queued tq))" "set (map tqent_id (queued tq)) \<inter> set (map tqt_id (tq_active_list tq)) = {}"
    using assms by (auto simp: taskq_inv_def ids_ok_def out_ids_def)
  show "u \<in> set (queued tq) \<Longrightarrow> tqent_id u = tqent_id t \<Longrightarrow> u = t"
    using d(1) assms(2) by (metis distinct_map inj_onD)
  show "w \<in> set (tq_active_list tq) \<Longrightarrow> tqt_id w \<noteq> tqent_id t"
    using d(2) assms(2) by (metis disjoint_iff imageI list.set_map)
qed

lemma find_Found:
  assumes "taskq_inv tq"
  shows "taskq_find i tq = Found t \<longleftrightarrow> t \<in> set (queued tq) \<and> tqent_id t = i"
proof -
  have s: "sorted_by tqent_id (tq_pend_list tq)" "sorted_by tqent_id (tq_prio_list tq)" "sorted_by tqent_id (tq_delay_list tq)"
    using assms by (auto simp: taskq_inv_def lists_sorted_def)
  note f = find_list_iff [OF s(1), of i] find_list_iff [OF s(2), of i] find_list_iff [OF s(3), of i]
    find_list_None [OF s(1), of i] find_list_None [OF s(2), of i] find_list_None [OF s(3), of i]
  note uq = ids_unique(1) [OF assms]
  show ?thesis
  proof
    assume "taskq_find i tq = Found t"
    then show "t \<in> set (queued tq) \<and> tqent_id t = i"
      by (auto simp: taskq_find_def f queued_def split: option.splits if_splits)
  next
    assume t: "t \<in> set (queued tq) \<and> tqent_id t = i"
    have "(\<exists>u. taskq_find i tq = Found u) \<longleftrightarrow> taskq_find_list (tq_delay_list tq) i \<noteq> None \<or>
        taskq_find_list (tq_prio_list tq) i \<noteq> None \<or> taskq_find_list (tq_pend_list tq) i \<noteq> None"
      by (auto simp: taskq_find_def split: option.splits)
    then obtain u where u: "taskq_find i tq = Found u" using t by (auto simp: f(4-6) queued_def)
    then have "u \<in> set (queued tq) \<and> tqent_id u = i"
      by (auto simp: taskq_find_def f queued_def split: option.splits if_splits)
    with t uq [of t u] u show "taskq_find i tq = Found t" by simp
  qed
qed

lemma find_none:
  assumes "taskq_inv tq"
  shows "taskq_find i tq = Found_none \<longleftrightarrow> i \<notin> outstanding tq"
    and "taskq_find i tq = Found_busy \<longleftrightarrow> i \<in> tqt_id ` set (tq_active_list tq)"
proof -
  have F: "(\<exists>t. taskq_find i tq = Found t) \<longleftrightarrow> i \<in> tqent_id ` set (queued tq)"
    by (auto simp: find_Found [OF assms])
  have B: "taskq_find i tq = Found_busy \<Longrightarrow> i \<in> tqt_id ` set (tq_active_list tq)"
    "taskq_find i tq = Found_none \<Longrightarrow> i \<notin> tqt_id ` set (tq_active_list tq)"
    by (auto simp: taskq_find_def split: option.splits if_splits)
  have D: "i \<in> tqent_id ` set (queued tq) \<Longrightarrow> i \<notin> tqt_id ` set (tq_active_list tq)"
    using ids_unique(2) [OF assms] by force
  have O: "i \<in> outstanding tq \<longleftrightarrow> i \<in> tqent_id ` set (queued tq) \<or> i \<in> tqt_id ` set (tq_active_list tq)"
    by (simp add: outstanding_def out_ids_def)
  show "taskq_find i tq = Found_none \<longleftrightarrow> i \<notin> outstanding tq"
    "taskq_find i tq = Found_busy \<longleftrightarrow> i \<in> tqt_id ` set (tq_active_list tq)"
    using F B D O by (cases "taskq_find i tq"; simp)+
qed

lemma lowest_cancelling [simp]: "taskq_lowest_id (tq\<lparr>tq_cancelling := c\<rparr>) = taskq_lowest_id tq"
  by (simp add: taskq_lowest_id_def cong: if_cong)

lemma inv_cancel_unlink:
  assumes i: "taskq_inv tq" and c: "taskq_cancel_unlink k tq = (r, tq')"
  shows "taskq_inv tq' \<and> debt tq' = debt tq"
proof (cases "\<exists>t. taskq_find k tq = Found t")
  case False
  then show ?thesis using c i by (auto simp: taskq_cancel_unlink_def split: found.splits)
next
  case True
  then obtain t where f: "taskq_find k tq = Found t" by blast
  then have t: "t \<in> set (queued tq)" by (simp add: find_Found [OF i])
  have e: "ents_distinct tq" using i by (simp add: taskq_inv_def)
  let ?t = "t\<lparr>tqent_flags := tqent_flags t OR TQENT_FLAG_CANCEL\<rparr>"
  let ?u = "unlink_ent t tq\<lparr>tq_cancelling := ?t # tq_cancelling tq\<rparr>"
  have q: "tq' = relowest (tqent_id t) ?u"
    using c f by (auto simp add: taskq_cancel_unlink_def relowest_def Let_def simp del: Min_insert split: if_splits)
  note u = unlink_queued [OF e t]
  have qu: "queued ?u = queued (unlink_ent t tq)" "running ?u = running tq" by (simp_all add: queued_def running_def)
  have "mset (addrs ?u) = mset (addrs tq)" by (simp add: mset_addrs u(1,2) qu)
  with e have "distinct (addrs ?u)" unfolding ents_distinct_def by (blast intro: ents_distinct_mset)
  then have "ents_distinct ?u" using e u(2) by (auto simp: ents_distinct_def unlink_ent_def Let_def)
  moreover have "threads_ok ?u" using i by (simp add: taskq_inv_def threads_ok_def)
  moreover have "lists_sorted ?u" using u(3) i by (simp add: taskq_inv_def lists_sorted_def)
  moreover have "debt ?u = debt tq"
  proof -
    have "has (tqent_flags t OR TQENT_FLAG_CANCEL) TQENT_FLAG_PREALLOC = has (tqent_flags t) TQENT_FLAG_PREALLOC"
      by (simp add: has_def TQENT_FLAG_CANCEL_def TQENT_FLAG_PREALLOC_def bit.conj_disj_distrib2)
    moreover have "mset (owned (queued tq)) = (if has (tqent_flags t) TQENT_FLAG_PREALLOC then {#} else {#t#}) + mset (owned (queued ?u))"
      by (simp add: owned_def u(1) qu)
    from arg_cong [OF this, of size]
    have "length (owned (queued tq)) = (if has (tqent_flags t) TQENT_FLAG_PREALLOC then 0 else 1) + length (owned (queued ?u))"
      by (simp split: if_splits)
    ultimately show ?thesis by (simp add: debt_def qu u(2)) (simp add: owned_def)
  qed
  ultimately show ?thesis unfolding q
    using i inv_relowest [of tq "tqent_id t" ?u] by (simp add: taskq_inv_def mset_out_ids u(1) qu)
qed

lemma inv_cancel_release:
  assumes i: "taskq_inv tq" and t: "t \<in> set (tq_cancelling tq)"
  shows "taskq_inv (taskq_cancel_release t tq) \<and> debt (taskq_cancel_release t tq) = debt tq"
proof -
  have d: "distinct (map tqent_addr (tq_cancelling tq))" using i by (auto simp: taskq_inv_def ents_distinct_def addrs_def)
  obtain cs where c: "filter (\<lambda>u. tqent_addr u \<noteq> tqent_addr t) (tq_cancelling tq) = cs" by blast
  then have m: "mset (tq_cancelling tq) = add_mset t (mset cs)" using t filter_addr [OF d t] by auto
  let ?q = "tq\<lparr>tq_cancelling := cs\<rparr>"
  have qr: "queued ?q = queued tq" "running ?q = running tq" by (simp_all add: queued_def running_def)
  have "mset (addrs tq) = add_mset (tqent_addr t) (mset (addrs ?q))" by (simp add: mset_addrs m qr)
  from distinct_add [OF this] have a: "tqent_addr t \<notin> set (addrs ?q)" "distinct (addrs ?q)"
    using i by (simp_all add: taskq_inv_def ents_distinct_def)
  have I: "taskq_inv ?q" using i a(2)
    by (simp add: taskq_inv_def ents_distinct_def ids_ok_def lists_sorted_def threads_ok_def outstanding_def out_ids_def queued_def)
  have "mset (owned (tq_cancelling tq)) = (if has (tqent_flags t) TQENT_FLAG_PREALLOC then {#} else {#t#}) + mset (owned (tq_cancelling ?q))"
    by (simp add: owned_def m)
  from arg_cong [OF this, of size]
  have "length (owned (tq_cancelling tq)) = (if has (tqent_flags t) TQENT_FLAG_PREALLOC then 0 else 1) + length (owned (tq_cancelling ?q))"
    by (simp split: if_splits)
  then have "debt ?q = debt tq + (if has (tqent_flags t) TQENT_FLAG_PREALLOC then 0 else 1)" by (simp add: debt_def qr)
  with I inv_task_done [OF I a(1)] show ?thesis by (simp add: taskq_cancel_release_def Let_def c)
qed

end
