(* ===== verification/Taskq_Safety.thy ===== *)
theory Taskq_Safety
  imports Taskq_Props
begin

text \<open>
  The worker threads keep the invariant of the queue; the states a queue can reach, and what
  holds in all of them: the properties of finding, waiting for, cancelling and running tasks,
  of the number of allocated entries and of destroying the queue.
\<close>

section \<open>Worker threads keep the invariant\<close>

lemma next_ent_mem: "taskq_next_ent tq = Some t \<Longrightarrow> t \<in> set (queued tq)"
  by (auto simp: taskq_next_ent_def queued_def split: if_splits)

lemma inv_take:
  assumes i: "taskq_inv tq" and p: "pid \<in> set (tq_thread_list tq)" "pid \<notin> tqt_thread ` set (tq_active_list tq)"
  shows "taskq_inv (snd (taskq_thread_take pid tq)) \<and> debt (snd (taskq_thread_take pid tq)) = debt tq"
proof (cases "taskq_next_ent tq")
  case None
  then show ?thesis using i by (simp add: taskq_thread_take_def)
next
  case (Some t)
  then have t: "t \<in> set (queued tq)" by (rule next_ent_mem)
  have e: "ents_distinct tq" using i by (simp add: taskq_inv_def)
  note u = unlink_queued [OF e t]
  let ?task = "if has (tqent_flags t) TQENT_FLAG_PREALLOC then dup_task t else t"
  let ?w = "\<lparr>tqt_thread = pid, tqt_id = tqent_id t, tqt_flags = tqent_flags t, tqt_task = ?task\<rparr>"
  let ?u = "unlink_ent t tq" and ?q = "snd (taskq_thread_take pid tq)"
  have q: "?q = ?u\<lparr>tq_active_list := insert_in_order tqt_id ?w (tq_active_list tq), tq_nactive := tq_nactive tq + 1\<rparr>"
    by (simp add: taskq_thread_take_def Some Let_def taskq_insert_in_order_def)
  have qq: "queued ?q = queued ?u" by (simp add: q queued_def)
  have act: "mset (tq_active_list ?q) = add_mset ?w (mset (tq_active_list tq))" by (simp add: q)
  let ?P = "has (tqent_flags t) TQENT_FLAG_PREALLOC"
  have run: "mset (running ?q) = (if ?P then {#} else {#t#}) + mset (running tq)"
    unfolding running_def using act by simp
  have "ids_ok ?q"
    by (rule ids_ok_same [of tq]) (use i in \<open>simp_all add: taskq_inv_def mset_out_ids qq u(1) act\<close>, simp_all add: q)
  moreover have "tqent_id t \<notin> tqt_id ` set (tq_active_list tq)" using ids_unique(2) [OF i t] by force
  then have "lists_sorted ?q"
    using u(3) i insert_in_order_sorted [of tqt_id "tq_active_list tq" ?w] by (simp add: q taskq_inv_def lists_sorted_def)
  moreover have "ents_distinct ?q"
  proof -
    have "mset (addrs tq) = (if ?P then {#tqent_addr t#} else {#}) + mset (addrs ?q)"
      by (simp add: mset_addrs qq u(1) run) (simp add: q u(2))
    then have "distinct (addrs ?q)" using e distinct_add [of "addrs tq" "tqent_addr t" "addrs ?q"]
        mset_eq_imp_distinct_iff [of "addrs tq" "addrs ?q"] by (cases ?P) (simp_all add: ents_distinct_def)
    then show ?thesis using e u(2) by (auto simp: ents_distinct_def q unlink_ent_def Let_def)
  qed
  moreover have "threads_ok ?q"
  proof -
    have "mset (map tqt_thread (tq_active_list ?q)) = add_mset pid (mset (map tqt_thread (tq_active_list tq)))" by (simp add: act)
    from distinct_add [OF this] mset_eq_length_add [OF act] show ?thesis
      using i p by (simp add: taskq_inv_def threads_ok_def q)
  qed
  moreover have "debt ?q = debt tq"
  proof -
    have "mset (owned (queued tq)) = (if ?P then {#} else {#t#}) + mset (owned (queued ?q))"
      by (simp add: owned_def u(1) qq)
    from arg_cong [OF this, of size] arg_cong [OF run, of size] show ?thesis
      by (simp add: debt_def qq split: if_splits) (simp_all add: q u(2))
  qed
  ultimately show ?thesis by (simp add: taskq_inv_def)
qed

lemma lowest_cong:
  assumes "tq_next_id a = tq_next_id b" "tq_pend_list a = tq_pend_list b" "tq_prio_list a = tq_prio_list b"
    "tq_delay_list a = tq_delay_list b" "tq_active_list a = tq_active_list b"
  shows "taskq_lowest_id a = taskq_lowest_id b"
  unfolding taskq_lowest_id_def assms by (rule HOL.refl)

lemma lowest_done: "taskq_lowest_id (task_done t tq) = taskq_lowest_id tq"
  by (rule lowest_cong) (simp_all add: task_done_def task_free_def)

lemma relowest_done: "relowest i (task_done t tq) = task_done t (relowest i tq)"
  unfolding relowest_def lowest_done by (simp add: task_done_def task_free_def)

lemma inv_finish:
  assumes i: "taskq_inv tq" and w: "w \<in> set (tq_active_list tq)"
  shows "taskq_inv (snd (taskq_thread_finish m w n tq)) \<and> debt (snd (taskq_thread_finish m w n tq)) = debt tq"
proof -
  have d: "distinct (map tqt_thread (tq_active_list tq))" using i by (simp add: taskq_inv_def threads_ok_def)
  obtain as where as: "filter (\<lambda>v. tqt_thread v \<noteq> tqt_thread w) (tq_active_list tq) = as" by blast
  then have m: "mset (tq_active_list tq) = add_mset w (mset as)" using w filter_addr [OF d w] by auto
  let ?P = "has (tqt_flags w) TQENT_FLAG_PREALLOC"
  let ?q = "tq\<lparr>tq_nactive := tq_nactive tq - 1, tq_active_list := as\<rparr>"
  let ?r = "if \<not> ?P then task_done (tqt_task w) ?q else ?q"
  have f: "snd (taskq_thread_finish m w n tq) = relowest (tqt_id w) ?r \<or>
      snd (taskq_thread_finish m w n tq) = snd (taskq_thread_spawn (relowest (tqt_id w) ?r))"
    unfolding taskq_thread_finish_def Let_def as relowest_def [symmetric] case_prod_beta by simp
  have qr: "queued ?q = queued tq" "tq_free_list ?q = tq_free_list tq" "tq_cancelling ?q = tq_cancelling tq"
    by (simp_all add: queued_def)
  have run: "mset (running tq) = (if ?P then {#} else {#tqt_task w#}) + mset (running ?q)"
    by (simp add: running_def m)
  have a: "mset (addrs tq) = (if ?P then {#} else {#tqent_addr (tqt_task w)#}) + mset (addrs ?q)"
    unfolding mset_addrs qr run by simp
  have ad: "distinct (addrs ?q)" "\<not> ?P \<Longrightarrow> tqent_addr (tqt_task w) \<notin> set (addrs ?q)"
    using i a distinct_add [of "addrs tq" "tqent_addr (tqt_task w)" "addrs ?q"]
      mset_eq_imp_distinct_iff [of "addrs tq" "addrs ?q"]
    by (cases ?P; simp add: taskq_inv_def ents_distinct_def)+
  have s: "lists_sorted ?q" "ents_distinct ?q"
    using i ad(1) sorted_by_filter as by (auto simp: taskq_inv_def lists_sorted_def ents_distinct_def)
  have t: "threads_ok ?q"
    using i mset_eq_length_add [OF m] as by (auto simp: taskq_inv_def threads_ok_def distinct_map_filter)
  have I: "taskq_inv (relowest (tqt_id w) ?q)"
    by (rule inv_relowest [of tq, OF _ _ _ _ s t]) (use i in \<open>simp_all add: taskq_inv_def mset_out_ids qr m\<close>)
  have D: "debt ?q = debt tq + (if ?P then 0 else 1)"
    using arg_cong [OF run, of size] unfolding debt_def qr by (simp split: if_splits)
  have "taskq_inv (relowest (tqt_id w) ?r) \<and> debt (relowest (tqt_id w) ?r) = debt tq"
  proof (cases ?P)
    case True
    then show ?thesis using I D by simp
  next
    case False
    then show ?thesis using inv_task_done [OF I, of "tqt_task w"] ad(2) D by (simp add: relowest_done)
  qed
  with f show ?thesis by auto
qed

lemma inv_start:
  assumes "taskq_inv tq" "pid \<notin> set (tq_thread_list tq)"
  shows "taskq_inv (snd (taskq_thread_start pid tq)) \<and> debt (snd (taskq_thread_start pid tq)) = debt tq"
  using assms
  by (auto simp: taskq_thread_start_def Let_def taskq_inv_def ids_ok_def lists_sorted_def ents_distinct_def threads_ok_def
      outstanding_def out_ids_def queued_def addrs_def running_def debt_def)

lemma inv_exit:
  assumes "taskq_inv tq" "pid \<in> set (tq_thread_list tq)" "pid \<notin> tqt_thread ` set (tq_active_list tq)"
  shows "taskq_inv (taskq_thread_exit pid tq) \<and> debt (taskq_thread_exit pid tq) = debt tq"
proof -
  have d: "distinct (tq_thread_list tq)" using assms(1) by (simp add: taskq_inv_def threads_ok_def)
  let ?ts = "filter (\<lambda>w. w \<noteq> pid) (tq_thread_list tq)"
  have ts: "mset (tq_thread_list tq) = add_mset pid (mset ?ts)"
    using filter_addr [of "\<lambda>w. w" "tq_thread_list tq" pid] d assms(2) by simp
  have "length (tq_thread_list tq) = length ?ts + 1" by (rule mset_eq_length_add [OF ts])
  moreover have "distinct ?ts" using d by simp
  ultimately have "threads_ok (taskq_thread_exit pid tq)"
    using assms by (auto simp: taskq_thread_exit_def taskq_inv_def threads_ok_def)
  then show ?thesis using assms(1)
    by (simp add: taskq_thread_exit_def taskq_inv_def ids_ok_def lists_sorted_def ents_distinct_def
      outstanding_def out_ids_def queued_def addrs_def running_def debt_def)
qed

lemma inv_misc [simp]:
  "taskq_inv (tq\<lparr>tq_nspawn := n\<rparr>) = taskq_inv tq" "debt (tq\<lparr>tq_nspawn := n\<rparr>) = debt tq"
  "taskq_inv (tq\<lparr>tq_flags := f\<rparr>) = taskq_inv tq" "debt (tq\<lparr>tq_flags := f\<rparr>) = debt tq"
  by (simp_all add: taskq_inv_def ids_ok_def lists_sorted_def ents_distinct_def threads_ok_def
      outstanding_def out_ids_def queued_def addrs_def running_def debt_def)

section \<open>Reachable queues\<close>

text \<open>
  The states a queue can reach from another one, one section of the code under the lock at a
  time, without \<open>TQ_NOQUEUE\<close> and before the ids wrap around.  While a dispatch sleeps for
  memory, the other threads take any such steps.  Each thread runs the code of its own
  entries.  The callback of a timer gets the lock while its entry is on the delay list, or
  while \<open>taskq_cancel_id\<close> waits for it and has not yet released the entry.  So two things the code
  allows are not steps: \<open>TQ_NOQUEUE\<close> with \<open>taskq_dispatch\<close>, and releasing the entry of a cancelled task whose
  timer is no longer pending while its callback still waits for the lock; both break the
  invariant, as \<open>taskq_noqueue_breaks_order\<close> and \<open>taskq_cancel_timer_race\<close> show at the end of the theory.
\<close>

inductive taskq_steps :: "taskq \<Rightarrow> taskq \<Rightarrow> bool" where
  refl: "taskq_steps q0 q0"
| dispatch: "taskq_steps q0 q \<Longrightarrow> \<not> has flags TQ_NOQUEUE \<Longrightarrow> avoids mem q \<Longrightarrow>
    \<forall>n p. avoids mem p \<longrightarrow> taskq_steps p (env n p) \<and> avoids mem (env n p) \<Longrightarrow>
    taskq_dispatch env mem now func arg flags q = (r, q') \<Longrightarrow> tq_next_id q' \<noteq> 0 \<Longrightarrow> taskq_steps q0 q'"
| dispatch_delay: "taskq_steps q0 q \<Longrightarrow> avoids mem q \<Longrightarrow>
    \<forall>n p. avoids mem p \<longrightarrow> taskq_steps p (env n p) \<and> avoids mem (env n p) \<Longrightarrow>
    taskq_dispatch_delay env mem func arg flags q = (r, q') \<Longrightarrow> tq_next_id q' \<noteq> 0 \<Longrightarrow> taskq_steps q0 q'"
| dispatch_ent: "taskq_steps q0 q \<Longrightarrow> tqent_addr t \<notin> set (addrs q) \<Longrightarrow>
    taskq_dispatch_ent now func arg flags t q = (t', q') \<Longrightarrow> tq_next_id q' \<noteq> 0 \<Longrightarrow> taskq_steps q0 q'"
| expire: "taskq_steps q0 q \<Longrightarrow> t \<in> set (tq_delay_list q) \<Longrightarrow> taskq_steps q0 (task_expire_impl now t q)"
| expire_cancelled: "taskq_steps q0 q \<Longrightarrow> t \<in> set (tq_cancelling q) \<Longrightarrow> has (tqent_flags t) TQENT_FLAG_CANCEL \<Longrightarrow>
    taskq_steps q0 (task_expire_impl now t q)"
| cancel_unlink: "taskq_steps q0 q \<Longrightarrow> taskq_cancel_unlink i q = (r, q') \<Longrightarrow> taskq_steps q0 q'"
| cancel_release: "taskq_steps q0 q \<Longrightarrow> t \<in> set (tq_cancelling q) \<Longrightarrow> taskq_steps q0 (taskq_cancel_release t q)"
| start: "taskq_steps q0 q \<Longrightarrow> pid \<notin> set (tq_thread_list q) \<Longrightarrow> taskq_steps q0 (snd (taskq_thread_start pid q))"
| spawn_failed: "taskq_steps q0 q \<Longrightarrow> taskq_steps q0 (taskq_thread_spawn_task created q)"
| take: "taskq_steps q0 q \<Longrightarrow> pid \<in> set (tq_thread_list q) \<Longrightarrow> pid \<notin> tqt_thread ` set (tq_active_list q) \<Longrightarrow>
    taskq_steps q0 (snd (taskq_thread_take pid q))"
| finish: "taskq_steps q0 q \<Longrightarrow> w \<in> set (tq_active_list q) \<Longrightarrow>
    taskq_steps q0 (snd (taskq_thread_finish m w n q))"
| exit: "taskq_steps q0 q \<Longrightarrow> pid \<in> set (tq_thread_list q) \<Longrightarrow> pid \<notin> tqt_thread ` set (tq_active_list q) \<Longrightarrow>
    taskq_steps q0 (taskq_thread_exit pid q)"
| kick: "taskq_steps q0 q \<Longrightarrow> taskq_steps q0 (taskq_kick HZ jiffies q)"
| destroy: "taskq_steps q0 q \<Longrightarrow> taskq_steps q0 (taskq_destroy_begin q)"

lemma inv_kick: "taskq_inv (taskq_kick HZ j q) = taskq_inv q" "debt (taskq_kick HZ j q) = debt q"
  by (simp_all add: taskq_kick_def split: option.splits)

lemma steps_inv: "taskq_steps q q' \<Longrightarrow> taskq_inv q \<Longrightarrow> taskq_inv q' \<and> debt q' = debt q"
proof (induction rule: taskq_steps.induct)
  case (dispatch q0 q flags mem env now func arg r q')
  then have "rely env mem" unfolding rely_def by blast
  then show ?case using inv_dispatch dispatch by metis
next
  case (dispatch_delay q0 q mem env func arg flags r q')
  then have "rely env mem" unfolding rely_def by blast
  then show ?case using inv_dispatch_delay dispatch_delay by metis
next
  case (dispatch_ent q0 q t now func arg flags t' q')
  then show ?case using inv_dispatch_ent by metis
next
  case (cancel_unlink q0 q i r q')
  then show ?case using inv_cancel_unlink by metis
next
  case (expire_cancelled q0 q t now)
  then show ?case by (simp add: task_expire_impl_def)
qed (simp_all add: inv_expire inv_cancel_release inv_start inv_take inv_finish inv_exit inv_kick
    taskq_thread_spawn_task_def taskq_destroy_begin_def)

section \<open>Queues in use\<close>

lemma inv_init: "taskq_inv (taskq_init name n mn mx flags) \<and> debt (taskq_init name n mn mx flags) = 0"
  by (simp add: taskq_init_def taskq_inv_def ids_ok_def lists_sorted_def ents_distinct_def threads_ok_def
      outstanding_def out_ids_def queued_def addrs_def running_def debt_def owned_def TASKQID_INITIAL_def)

lemma addrs_task_done: "set (addrs (task_done t tq)) \<subseteq> insert (tqent_addr t) (set (addrs tq))"
  by (auto simp: task_done_def task_free_def addrs_def queued_def running_def)

lemma alloc_prepopulate:
  "task_alloc_loop (\<lambda>_ q. q) (\<lambda>_. Some a) (TQ_PUSHPAGE OR TQ_NEW) c tq = (Some (taskq_init_ent a), tq\<lparr>tq_nalloc := tq_nalloc tq + 1\<rparr>)"
proof (induction "100 - c" arbitrary: c)
  case 0
  then show ?case
    by (simp add: task_alloc_loop.simps [of _ _ _ c] task_alloc_new_def has_def TQ_PUSHPAGE_def TQ_NEW_def TQ_NOALLOC_def TQ_NOSLEEP_def)
next
  case (Suc n)
  then have "task_alloc_loop (\<lambda>_ q. q) (\<lambda>_. Some a) (TQ_PUSHPAGE OR TQ_NEW) (c + 1) tq =
      (Some (taskq_init_ent a), tq\<lparr>tq_nalloc := tq_nalloc tq + 1\<rparr>)" by simp
  then show ?case
    by (simp add: task_alloc_loop.simps [of _ _ _ c] task_alloc_new_def has_def TQ_PUSHPAGE_def TQ_NEW_def TQ_NOALLOC_def TQ_NOSLEEP_def)
qed

lemma inv_prepopulate:
  assumes "taskq_inv tq" "distinct as" "set as \<inter> set (addrs tq) = {}"
  shows "taskq_inv (taskq_prepopulate as tq) \<and> debt (taskq_prepopulate as tq) = debt tq \<and>
    tq_thread_list (taskq_prepopulate as tq) = tq_thread_list tq"
  using assms
proof (induction as arbitrary: tq)
  case (Cons a as)
  let ?q = "tq\<lparr>tq_nalloc := tq_nalloc tq + 1\<rparr>"
  have i: "taskq_inv ?q" "tqent_addr (taskq_init_ent a) \<notin> set (addrs ?q)"
    using Cons.prems by (auto simp: taskq_init_ent_def)
  have d: "debt (task_done (taskq_init_ent a) ?q) = debt tq" "taskq_inv (task_done (taskq_init_ent a) ?q)"
    using inv_task_done [OF i] by simp_all
  have "set as \<inter> set (addrs (task_done (taskq_init_ent a) ?q)) = {}"
    using Cons.prems addrs_task_done [of "taskq_init_ent a" ?q] by (auto simp: taskq_init_ent_def)
  moreover have "tq_thread_list (task_done (taskq_init_ent a) ?q) = tq_thread_list tq"
    by (simp add: task_done_def task_free_def)
  ultimately show ?case using Cons.IH [OF d(2)] Cons.prems(2) d(1)
    by (simp add: task_alloc_def alloc_prepopulate)
qed simp

lemma threads_start: "set (tq_thread_list (start_thread p tq)) \<subseteq> set_option p \<union> set (tq_thread_list tq)"
  by (auto simp: start_thread_def taskq_thread_start_def Let_def split: option.splits)

lemma inv_start_threads:
  assumes "taskq_inv tq" "distinct ps" "Some ` set (tq_thread_list tq) \<inter> set ps = {}" "None \<notin> set ps"
  shows "taskq_inv (fold start_thread ps tq) \<and> debt (fold start_thread ps tq) = debt tq"
  using assms
proof (induction ps arbitrary: tq)
  case (Cons p ps)
  then obtain i where p: "p = Some i" by (cases p) auto
  then have "i \<notin> set (tq_thread_list tq)" using Cons.prems(3) by auto
  from inv_start [OF Cons.prems(1) this] have "taskq_inv (start_thread p tq)" "debt (start_thread p tq) = debt tq"
    by (simp_all add: p start_thread_def)
  moreover have "Some ` set (tq_thread_list (start_thread p tq)) \<inter> set ps = {}"
    using Cons.prems(2,3) threads_start [of p tq] p by auto
  ultimately show ?case using Cons.IH [of "start_thread p tq"] Cons.prems(2,4) by simp
qed simp

lemma inv_taskq_create:
  assumes c: "taskq_create ncpus dyn as pid name n mn mx flags tqs = (Some q, tqs')" and d: "inj as" "inj pid"
  shows "taskq_inv q \<and> debt q = 0"
proof -
  let ?n = "taskq_nthreads ncpus flags n"
  let ?i = "taskq_init name ?n mn mx flags"
  let ?p = "if has flags TASKQ_PREPOPULATE then taskq_prepopulate (map as [0..<nat mn]) ?i else ?i"
  let ?ps = "map pid [0..<nat (if has flags TASKQ_DYNAMIC \<and> dyn then 1 else ?n)]"
  have "set (addrs ?i) = {}" "tq_thread_list ?i = []" by (simp_all add: taskq_init_def addrs_def queued_def running_def)
  moreover have "distinct (map as [0..<nat mn])" using d(1) by (auto simp: distinct_map intro: inj_on_subset)
  ultimately have p: "taskq_inv ?p \<and> debt ?p = 0 \<and> tq_thread_list ?p = []"
    using inv_init [of name ?n mn mx flags] inv_prepopulate [of ?i "map as [0..<nat mn]"] by simp
  have ps: "None \<notin> set ?ps" and q: "q = (fold start_thread ?ps ?p)\<lparr>tq_nspawn := 0, tq_instance := taskq_find_by_name name tqs + 1\<rparr>"
    using c by (auto simp: taskq_create_def Let_def split: if_splits)
  have "distinct ?ps" using d(2) by (auto simp: distinct_map intro: inj_on_subset)
  from inv_start_threads [of ?p, OF _ this _ ps] p have "taskq_inv (fold start_thread ?ps ?p) \<and> debt (fold start_thread ?ps ?p) = 0"
    by simp
  then show ?thesis unfolding q
    by (simp add: taskq_inv_def ids_ok_def lists_sorted_def ents_distinct_def threads_ok_def
      outstanding_def out_ids_def queued_def addrs_def running_def debt_def)
qed

text \<open>
  A queue in use: it was created, with distinct addresses for the entries of its pool and
  distinct threads, and then reached by steps of the code.
\<close>

definition taskq_in_use :: "taskq \<Rightarrow> bool" where
  "taskq_in_use q \<longleftrightarrow> (\<exists>ncpus dyn as pid name n mn mx flags tqs tqs' q0.
     taskq_create ncpus dyn as pid name n mn mx flags tqs = (Some q0, tqs') \<and> inj as \<and> inj pid \<and> taskq_steps q0 q)"

lemma in_use_inv: "taskq_in_use q \<Longrightarrow> taskq_inv q \<and> debt q = 0"
  unfolding taskq_in_use_def using inv_taskq_create steps_inv by metis

lemmas taskq_flag_defs = TASKQ_PREPOPULATE_def TASKQ_DYNAMIC_def TASKQ_THREADS_CPU_PCT_def TASKQ_ACTIVE_def
  TQ_NOSLEEP_def TQ_PUSHPAGE_def TQ_NOQUEUE_def TQ_NOALLOC_def TQ_NEW_def TQ_FRONT_def TASKQID_INVALID_def
  TASKQID_INITIAL_def TQENT_FLAG_PREALLOC_def TQENT_FLAG_CANCEL_def has_def

lemmas taskq_eval = taskq_dispatch_def taskq_dispatch_delay_def noqueue_admit_def spawn_if_def task_alloc_def
  task_alloc_loop.simps task_alloc_new_def fill_ent_def taskq_init_ent_def Let_def taskq_flag_defs

text \<open>A queue with two threads and a pool of one entry, and the same queue with three tasks.\<close>

definition demo_q0 :: taskq where
  "demo_q0 = \<lparr>tq_name = ''demo'', tq_instance = 0, tq_thread_list = [0, 1], tq_active_list = [], tq_nactive = 0,
     tq_nthreads = 2, tq_nspawn = 0, tq_maxthreads = 2, tq_minalloc = 1, tq_maxalloc = 4, tq_nalloc = 1,
     tq_flags = TASKQ_PREPOPULATE OR TASKQ_ACTIVE, tq_next_id = 1, tq_lowest_id = 1,
     tq_free_list = [taskq_init_ent 0], tq_pend_list = [], tq_prio_list = [], tq_delay_list = [],
     tq_cancelling = [], spawn_calls = 0\<rparr>"

definition demo_ent :: "addr \<Rightarrow> u64 \<Rightarrow> nat \<Rightarrow> taskq_ent" where
  "demo_ent a i f = \<lparr>tqent_addr = a, tqent_id = i, tqent_func = Some f, tqent_arg = 0, tqent_flags = 0, tqent_birth = 0\<rparr>"

definition demo_q :: taskq where
  "demo_q = demo_q0\<lparr>tq_nalloc := 3, tq_next_id := 4, tq_free_list := [], tq_pend_list := [demo_ent 0 1 5],
     tq_prio_list := [demo_ent 11 2 6], tq_delay_list := [demo_ent 12 3 7]\<rparr>"

lemma demo_create: "taskq_create 1 False id Some ''demo'' 2 1 4 TASKQ_PREPOPULATE [] = (Some demo_q0, [demo_q0])"
  by (simp add: taskq_create_def taskq_nthreads_def taskq_init_def start_thread_def taskq_thread_start_def
      demo_q0_def taskq_eval task_done_def numeral_2_eq_2 taskq_find_by_name.simps)

lemma demo_dispatch:
  "taskq_dispatch (\<lambda>_ q. q) (\<lambda>_. Some 10) 0 5 0 0 demo_q0 =
     (1, demo_q0\<lparr>tq_next_id := 2, tq_free_list := [], tq_pend_list := [demo_ent 0 1 5]\<rparr>)"
  "taskq_dispatch (\<lambda>_ q. q) (\<lambda>_. Some 11) 0 6 0 TQ_FRONT
     (demo_q0\<lparr>tq_next_id := 2, tq_free_list := [], tq_pend_list := [demo_ent 0 1 5]\<rparr>) =
     (2, demo_q0\<lparr>tq_nalloc := 2, tq_next_id := 3, tq_free_list := [], tq_pend_list := [demo_ent 0 1 5],
       tq_prio_list := [demo_ent 11 2 6]\<rparr>)"
  "taskq_dispatch_delay (\<lambda>_ q. q) (\<lambda>_. Some 12) 7 0 0
     (demo_q0\<lparr>tq_nalloc := 2, tq_next_id := 3, tq_free_list := [], tq_pend_list := [demo_ent 0 1 5],
       tq_prio_list := [demo_ent 11 2 6]\<rparr>) = (3, demo_q)"
  by (simp_all add: taskq_eval demo_q0_def demo_ent_def demo_q_def)

lemma demo_in_use: "taskq_in_use demo_q"
proof -
  have "taskq_steps demo_q0 demo_q0" by (rule refl)
  then have "taskq_steps demo_q0 (demo_q0\<lparr>tq_next_id := 2, tq_free_list := [], tq_pend_list := [demo_ent 0 1 5]\<rparr>)"
    by (rule dispatch [OF _ _ _ _ demo_dispatch(1)])
      (simp_all add: avoids_def addrs_def queued_def running_def demo_q0_def taskq_init_ent_def taskq_flag_defs taskq_steps.refl)
  then have "taskq_steps demo_q0 (demo_q0\<lparr>tq_nalloc := 2, tq_next_id := 3, tq_free_list := [],
      tq_pend_list := [demo_ent 0 1 5], tq_prio_list := [demo_ent 11 2 6]\<rparr>)"
    by (rule dispatch [OF _ _ _ _ demo_dispatch(2)])
      (simp_all add: avoids_def addrs_def queued_def running_def demo_q0_def demo_ent_def taskq_flag_defs taskq_steps.refl)
  then have "taskq_steps demo_q0 demo_q"
    by (rule dispatch_delay [OF _ _ _ demo_dispatch(3)])
      (simp_all add: avoids_def addrs_def queued_def running_def demo_q0_def demo_q_def demo_ent_def taskq_steps.refl)
  moreover have "inj (id :: addr \<Rightarrow> addr)" "inj (Some :: nat \<Rightarrow> nat option)" by simp_all
  ultimately show ?thesis unfolding taskq_in_use_def using demo_create by metis
qed

section \<open>Properties\<close>

text \<open>C7: In every state that a queue can reach from its creation by any interleaving of dispatches without
  \<open>TQ_NOQUEUE\<close>, timer callbacks, cancellations (of tasks whose timer, if any, is pending or whose callback
  is waited for) and worker threads, before the 64-bit ids wrap around, every list is strictly
  sorted by task id, the ids of incomplete tasks are distinct and below \<open>tq_next_id\<close>,
  \<open>tq_lowest_id\<close> is the least of them, no entry is on two lists or pooled while in use, the thread
  counters equal the lengths of the thread lists, and \<open>tq_nalloc\<close> is exactly the number of
  entries pooled, queued, running or being cancelled.\<close>

theorem taskq_reachable_inv:
  assumes "taskq_in_use q" and "taskq_steps q q'"
  shows "taskq_inv q' \<and> tq_nalloc q' = int (length (tq_free_list q') + length (owned (queued q')) +
    length (running q') + length (owned (tq_cancelling q')))"
  using in_use_inv [OF assms(1)] steps_inv [OF assms(2)] by (simp add: debt_def)

theorem taskq_reachable_inv_witness:
  "taskq_in_use demo_q \<and> taskq_steps demo_q (task_expire_impl 9 (demo_ent 12 3 7) demo_q) \<and>
   taskq_inv (task_expire_impl 9 (demo_ent 12 3 7) demo_q)"
proof -
  have s: "taskq_steps demo_q (task_expire_impl 9 (demo_ent 12 3 7) demo_q)"
    by (rule expire [OF taskq_steps.refl]) (simp add: demo_q_def)
  with demo_in_use taskq_reachable_inv [OF demo_in_use s] show ?thesis by blast
qed

text \<open>C8: Waiting is exact in a queue reached by the steps of \<open>taskq_steps\<close>, that is if no task was dispatched with
  \<open>TQ_NOQUEUE\<close> by \<open>taskq_dispatch\<close>, no task cancelled between the firing of its timer and the callback, and the
  ids have not wrapped around: \<open>taskq_wait_id\<close> stops waiting exactly when the
  task is not queued, delayed or running; \<open>taskq_wait_outstanding\<close> (for an id that has been handed
  out) exactly when no task up to and including that id is incomplete; \<open>taskq_wait\<close> exactly when the
  queue has no incomplete task at all.\<close>

theorem taskq_wait_exact:
  assumes "taskq_in_use q"
  shows "(taskq_wait_id_check i q \<longleftrightarrow> (\<forall>t \<in> set (tq_pend_list q @ tq_prio_list q @ tq_delay_list q). tqent_id t \<noteq> i) \<and>
      (\<forall>w \<in> set (tq_active_list q). tqt_id w \<noteq> i)) \<and>
    (i < tq_next_id q \<longrightarrow> taskq_wait_outstanding_check i q = (\<forall>j \<in> outstanding q. i < j)) \<and>
    taskq_wait_check q = (tq_pend_list q = [] \<and> tq_prio_list q = [] \<and> tq_delay_list q = [] \<and> tq_active_list q = [])"
proof (intro conjI impI)
  have inv: "taskq_inv q" using in_use_inv [OF assms] by simp
  then have low: "tq_lowest_id q = Min (insert (tq_next_id q) (outstanding q))" by (simp add: taskq_inv_def ids_ok_def)
  show "taskq_wait_id_check i q \<longleftrightarrow> (\<forall>t \<in> set (tq_pend_list q @ tq_prio_list q @ tq_delay_list q). tqent_id t \<noteq> i) \<and>
      (\<forall>w \<in> set (tq_active_list q). tqt_id w \<noteq> i)"
    unfolding taskq_wait_id_check_def find_none(1) [OF inv] outstanding_alt by auto
  show "taskq_wait_outstanding_check i q = (\<forall>j \<in> outstanding q. i < j)" if "i < tq_next_id q"
    unfolding taskq_wait_outstanding_check_def low using that by (subst Min_gr_iff) auto
  have "taskq_wait_check q \<longleftrightarrow> outstanding q = {}"
  proof
    assume "outstanding q = {}"
    then show "taskq_wait_check q" by (simp add: taskq_wait_check_def low)
  next
    assume w: "taskq_wait_check q"
    have "j \<notin> outstanding q" for j
    proof
      assume j: "j \<in> outstanding q"
      then have "Min (insert (tq_next_id q) (outstanding q)) \<le> j" by simp
      moreover have "j < tq_next_id q" using inv j by (simp add: taskq_inv_def ids_ok_def)
      ultimately show False using w by (simp add: taskq_wait_check_def low del: Min_insert)
    qed
    then show "outstanding q = {}" by blast
  qed
  then show "taskq_wait_check q = (tq_pend_list q = [] \<and> tq_prio_list q = [] \<and> tq_delay_list q = [] \<and> tq_active_list q = [])"
    by (auto simp: outstanding_alt)
qed

theorem taskq_wait_exact_witness:
  "taskq_in_use demo_q \<and> \<not> taskq_wait_id_check 2 demo_q \<and> taskq_wait_outstanding_check 0 demo_q \<and> \<not> taskq_wait_check demo_q"
  using demo_in_use taskq_wait_exact [OF demo_in_use, of 2] taskq_wait_exact [OF demo_in_use, of 0]
  by (simp add: demo_q_def demo_ent_def demo_q0_def outstanding_alt)

text \<open>What a worker thread takes from a queue in use: nothing exactly when no task is queued;
  otherwise the task with the least id on the priority list, or if that list is empty the one with
  the least id on the pending list.  The task leaves the queue, its id stays outstanding, and
  all other queued tasks stay queued.\<close>

theorem taskq_take_order:
  assumes "taskq_in_use q"
  shows "case taskq_thread_take pid q of
      (None, q') \<Rightarrow> q' = q \<and> tq_prio_list q = [] \<and> tq_pend_list q = []
    | (Some w, q') \<Rightarrow> outstanding q' = outstanding q \<and> w \<in> set (tq_active_list q') \<and>
        (\<exists>t \<in> set (if tq_prio_list q \<noteq> [] then tq_prio_list q else tq_pend_list q).
          tqt_id w = tqent_id t \<and> tqent_func (tqt_task w) = tqent_func t \<and> tqent_arg (tqt_task w) = tqent_arg t \<and>
          (\<forall>u \<in> set (if tq_prio_list q \<noteq> [] then tq_prio_list q else tq_pend_list q). tqent_id t \<le> tqent_id u) \<and>
          mset (queued q) = add_mset t (mset (queued q')))"
proof (cases "taskq_next_ent q")
  case None
  then show ?thesis by (simp add: taskq_thread_take_def taskq_next_ent_def split: if_splits)
next
  case (Some t)
  have inv: "taskq_inv q" using in_use_inv [OF assms] by simp
  have t: "t \<in> set (queued q)" using Some by (rule next_ent_mem)
  let ?l = "if tq_prio_list q \<noteq> [] then tq_prio_list q else tq_pend_list q"
  let ?w = "\<lparr>tqt_thread = pid, tqt_id = tqent_id t, tqt_flags = tqent_flags t,
      tqt_task = if has (tqent_flags t) TQENT_FLAG_PREALLOC then dup_task t else t\<rparr>"
  let ?q = "(taskq_insert_in_order ?w (unlink_ent t q))\<lparr>tq_nactive := tq_nactive q + 1\<rparr>"
  have take: "taskq_thread_take pid q = (Some ?w, ?q)"
    by (simp add: taskq_thread_take_def Some Let_def taskq_insert_in_order_def)
  have ne: "?l \<noteq> []" "t = hd ?l" using Some by (auto simp: taskq_next_ent_def split: if_splits)
  have s: "sorted_by tqent_id ?l" using inv by (simp add: taskq_inv_def lists_sorted_def)
  have hd: "t \<in> set ?l" "\<forall>u \<in> set ?l. tqent_id t \<le> tqent_id u"
    using ne s by (cases ?l; auto simp: less_imp_le)+
  have e: "ents_distinct q" using inv by (simp add: taskq_inv_def)
  have m: "mset (queued q) = add_mset t (mset (queued ?q))"
    using unlink_queued(1) [OF e t] by (simp add: queued_def taskq_insert_in_order_def)
  have "outstanding ?q = outstanding q"
    unfolding outstanding_def set_mset_mset [symmetric] mset_out_ids m
    by (simp add: taskq_insert_in_order_def)
  moreover have "tqent_func (tqt_task ?w) = tqent_func t" "tqent_arg (tqt_task ?w) = tqent_arg t" "tqt_id ?w = tqent_id t"
    by (simp_all add: dup_task_def)
  moreover have "?w \<in> set (tq_active_list ?q)" by (simp add: taskq_insert_in_order_def)
  ultimately show ?thesis unfolding take prod.case option.case using hd m by blast
qed

theorem taskq_take_order_witness:
  "taskq_in_use demo_q \<and> (\<exists>w q'. taskq_thread_take 1 demo_q = (Some w, q') \<and> tqt_id w = 2 \<and> outstanding q' = {1, 2, 3})"
proof -
  have p: "tq_prio_list demo_q = [demo_ent 11 2 6]" by (simp add: demo_q_def)
  have "outstanding demo_q = {1, 2, 3}" by (auto simp: outstanding_alt demo_q_def demo_ent_def demo_q0_def)
  then show ?thesis using demo_in_use taskq_take_order [OF demo_in_use, of 1]
    by (auto simp: p demo_ent_def split: prod.splits option.splits)
qed

lemma wait_event_Some:
  "wait_event P es s = Some s' \<Longrightarrow> P s' \<and> (\<exists>k \<le> length es. s' = fold (\<lambda>e. e) (take k es) s)"
proof (induction es arbitrary: s)
  case (Cons e es)
  show ?case
  proof (cases "P s")
    case True
    then show ?thesis using Cons.prems by (auto intro: exI [of _ 0])
  next
    case False
    then obtain k where "P s'" "k \<le> length es" "s' = fold (\<lambda>e. e) (take k es) (e s)"
      using Cons.IH [of "e s"] Cons.prems by auto
    then show ?thesis by (intro conjI exI [of _ "Suc k"]) simp_all
  qed
qed (auto split: if_splits)

lemma wait_event_None:
  "wait_event P es s = None \<Longrightarrow> k \<le> length es \<Longrightarrow> \<not> P (fold (\<lambda>e. e) (take k es) s)"
proof (induction es arbitrary: s k)
  case (Cons e es)
  then show ?case by (cases k) (auto split: if_splits)
qed (simp split: if_splits)

lemma fold_steps_inv:
  assumes "\<forall>e \<in> set es. \<forall>p. taskq_steps p (e p)" "taskq_inv q"
  shows "taskq_inv (fold (\<lambda>e. e) es q)"
  using assms by (induction es arbitrary: q) (auto dest: steps_inv)

lemma take_steps_inv:
  assumes "\<forall>e \<in> set es. \<forall>p. taskq_steps p (e p)" "taskq_inv q"
  shows "taskq_inv (fold (\<lambda>e. e) (take k es) q)"
  by (rule fold_steps_inv) (use assms in \<open>auto dest: in_set_takeD\<close>)

text \<open>The part of \<open>taskq_cancel_id\<close> up to the place where the lock may be dropped, for a task that is queued.\<close>

lemma cancel_unlink_found:
  assumes inv: "taskq_inv q" and f: "taskq_find i q = Found t"
  obtains t1 q1 where "taskq_cancel_unlink i q = (Cancelled t1, q1)" "t1 = t\<lparr>tqent_flags := tqent_flags t OR TQENT_FLAG_CANCEL\<rparr>"
    "t1 \<in> set (tq_cancelling q1)" "taskq_inv q1" "mset (queued q) = add_mset t (mset (queued q1))"
    "tq_active_list q1 = tq_active_list q" "outstanding q = insert i (outstanding q1)" "i \<notin> outstanding q1"
    "tq_nalloc q1 = tq_nalloc q" "tq_minalloc q1 = tq_minalloc q"
proof -
  have t: "t \<in> set (queued q)" "tqent_id t = i" using f find_Found [OF inv] by auto
  obtain t1 q1 where u: "taskq_cancel_unlink i q = (Cancelled t1, q1)"
    by (auto simp: taskq_cancel_unlink_def f Let_def)
  have q1: "queued q1 = queued (unlink_ent t q)" "tq_active_list q1 = tq_active_list q" "t1 \<in> set (tq_cancelling q1)"
    "tq_nalloc q1 = tq_nalloc q" "tq_minalloc q1 = tq_minalloc q" "t1 = t\<lparr>tqent_flags := tqent_flags t OR TQENT_FLAG_CANCEL\<rparr>"
    using u by (auto simp: taskq_cancel_unlink_def f Let_def queued_def)
  have m: "mset (queued q) = add_mset t (mset (queued q1))"
    using unlink_queued(1) [OF _ t(1)] inv by (simp add: q1 taskq_inv_def)
  have o: "mset (out_ids q) = add_mset i (mset (out_ids q1))" by (simp add: mset_out_ids m q1 t(2))
  have "outstanding q = insert i (outstanding q1)" unfolding outstanding_def using arg_cong [OF o, of set_mset] by simp
  moreover have "i \<notin> outstanding q1" unfolding outstanding_def
    using distinct_add [OF o] inv by (simp add: taskq_inv_def ids_ok_def)
  ultimately show ?thesis using that [OF u q1(6,3)] inv_cancel_unlink [OF inv u] m q1 by blast
qed

lemma release_fields [simp]:
  "outstanding (taskq_cancel_release t q) = outstanding q"
  "queued (taskq_cancel_release t q) = queued q" "tq_active_list (taskq_cancel_release t q) = tq_active_list q"
  by (simp_all add: taskq_cancel_release_def Let_def queued_def task_done_def task_free_def outstanding_alt)

text \<open>C10: Cancelling a task of a queue reached by the steps of \<open>taskq_steps\<close> (no \<open>TQ_NOQUEUE\<close> with \<open>taskq_dispatch\<close>, no cancelling
  between the firing of a timer and its callback, ids not wrapped around), while other threads take such steps wherever the call drops the lock.
  \<open>ENOENT\<close>, with nothing changed, exactly when the task is complete or was never dispatched; \<open>EBUSY\<close> exactly when a thread was running it, and
  then the call returns in the first of the states it is woken in, counting the one it starts in, in which the task is complete (or waits on, if there is none);
  otherwise the call succeeds: in one section under the lock exactly that task leaves the queue and the others stay, and releasing its entry
  afterwards changes no task.\<close>

theorem taskq_cancel_exact:
  assumes "taskq_in_use q" and "\<forall>e \<in> set waits. \<forall>p. taskq_steps p (e p)"
    and "\<forall>p. taskq_steps p (env p) \<and> set (tq_cancelling p) \<subseteq> set (tq_cancelling (env p))"
  shows "case taskq_cancel_id env waits timer_pending i q of
      None \<Rightarrow> i \<in> tqt_id ` set (tq_active_list q) \<and> (\<forall>k \<le> length waits. i \<in> outstanding (fold (\<lambda>e. e) (take k waits) q))
    | Some (Some e, q') \<Rightarrow> taskq_inv q' \<and> i \<notin> outstanding q' \<and>
        (if i \<in> tqt_id ` set (tq_active_list q) then e = EBUSY \<and> (\<exists>k \<le> length waits. q' = fold (\<lambda>e. e) (take k waits) q)
         else e = ENOENT \<and> q' = q)
    | Some (None, q') \<Rightarrow> taskq_inv q' \<and> (\<exists>t q1. tqent_id t = i \<and> mset (queued q) = add_mset t (mset (queued q1)) \<and>
        tq_active_list q1 = tq_active_list q \<and> outstanding q = insert i (outstanding q1) \<and> i \<notin> outstanding q1 \<and>
        (let q2 = if timer_pending then env q1 else q1 in
          queued q' = queued q2 \<and> tq_active_list q' = tq_active_list q2 \<and> outstanding q' = outstanding q2))"
proof (cases "taskq_find i q")
  case Found_none
  have inv: "taskq_inv q" using in_use_inv [OF assms(1)] by simp
  moreover from this Found_none have "i \<notin> outstanding q" using find_none(1) by blast
  moreover from this have "i \<notin> tqt_id ` set (tq_active_list q)" by (auto simp: outstanding_alt)
  ultimately show ?thesis using Found_none by (simp add: taskq_cancel_id_def taskq_cancel_unlink_def)
next
  case Found_busy
  have inv: "taskq_inv q" using in_use_inv [OF assms(1)] by simp
  have b: "i \<in> tqt_id ` set (tq_active_list q)" using Found_busy find_none(2) [OF inv] by blast
  have w: "taskq_wait_id_check i (fold (\<lambda>e. e) (take k waits) q) \<longleftrightarrow> i \<notin> outstanding (fold (\<lambda>e. e) (take k waits) q)" for k
    unfolding taskq_wait_id_check_def by (rule find_none(1) [OF take_steps_inv [OF assms(2) inv]])
  have c: "taskq_cancel_id env waits timer_pending i q = map_option (\<lambda>q2. (Some EBUSY, q2)) (taskq_wait_id waits i q)"
    by (simp add: taskq_cancel_id_def taskq_cancel_unlink_def Found_busy)
  show ?thesis
  proof (cases "taskq_wait_id waits i q")
    case None
    then have "i \<in> outstanding (fold (\<lambda>e. e) (take k waits) q)" if "k \<le> length waits" for k
      using wait_event_None [of "taskq_wait_id_check i" waits q k] w that by (simp add: taskq_wait_id_def)
    then show ?thesis using None b by (simp add: c)
  next
    case (Some q')
    then obtain k where k: "taskq_wait_id_check i q'" "k \<le> length waits" "q' = fold (\<lambda>e. e) (take k waits) q"
      using wait_event_Some [of "taskq_wait_id_check i" waits q q'] by (auto simp: taskq_wait_id_def)
    then have "taskq_inv q'" "i \<notin> outstanding q'" using w take_steps_inv [OF assms(2) inv] by auto
    then show ?thesis using Some b k by (auto simp: c)
  qed
next
  case (Found t)
  have inv: "taskq_inv q" using in_use_inv [OF assms(1)] by simp
  have t: "tqent_id t = i" using Found find_Found [OF inv] by auto
  from cancel_unlink_found [OF inv Found] obtain t1 q1 where u: "taskq_cancel_unlink i q = (Cancelled t1, q1)"
    and q1: "t1 \<in> set (tq_cancelling q1)" "taskq_inv q1" "mset (queued q) = add_mset t (mset (queued q1))"
      "tq_active_list q1 = tq_active_list q" "outstanding q = insert i (outstanding q1)" "i \<notin> outstanding q1" by metis
  let ?q2 = "if timer_pending then env q1 else q1"
  have "taskq_inv ?q2" "t1 \<in> set (tq_cancelling ?q2)" using q1(1,2) assms(3) steps_inv [of q1 "env q1"] by auto
  then have i2: "taskq_inv (taskq_cancel_release t1 ?q2)" using inv_cancel_release by blast
  have c: "taskq_cancel_id env waits timer_pending i q = Some (None, taskq_cancel_release t1 ?q2)"
    by (simp add: taskq_cancel_id_def u)
  show ?thesis unfolding c option.case prod.case Let_def
    by (intro conjI exI [of _ t] exI [of _ q1]) (use q1 t i2 in simp_all)
qed

theorem taskq_cancel_exact_witness:
  "taskq_in_use demo_q \<and> (\<exists>q'. taskq_cancel_id (\<lambda>q. q) [\<lambda>q. q] False 1 demo_q = Some (None, q') \<and> 1 \<notin> outstanding q' \<and> 2 \<in> outstanding q')"
proof -
  have o: "outstanding demo_q = {1, 2, 3}" "tq_active_list demo_q = []"
    by (auto simp: outstanding_alt demo_q_def demo_ent_def demo_q0_def)
  have h: "\<forall>e \<in> set [\<lambda>q. q]. \<forall>p. taskq_steps p (e p)" "\<forall>p. taskq_steps p ((\<lambda>q. q) p) \<and> set (tq_cancelling p) \<subseteq> set (tq_cancelling ((\<lambda>q. q) p))"
    by (simp_all add: taskq_steps.refl)
  let ?c = "taskq_cancel_id (\<lambda>q. q) [\<lambda>q. q] False 1 demo_q"
  note X = taskq_cancel_exact [OF demo_in_use h, where timer_pending = False and i = 1]
  have "?c \<noteq> None" using X o(2) by (cases ?c) simp_all
  then obtain r q' where c: "?c = Some (r, q')" by auto
  have "1 \<in> outstanding demo_q" by (simp add: o)
  then have r: "r = None" using X by (cases r) (auto simp: c o(2))
  obtain q1 where "outstanding demo_q = insert 1 (outstanding q1)" "1 \<notin> outstanding q1" "outstanding q' = outstanding q1"
    using X by (auto simp: c r Let_def)
  then have "1 \<notin> outstanding q'" "insert 1 (outstanding q') = {1, 2, 3}" using o(1) by simp_all
  moreover from this(2) have "2 \<in> insert 1 (outstanding q')" by blast
  then have "2 \<in> outstanding q'" by simp
  ultimately show ?thesis using demo_in_use c r by blast
qed

lemma alloc_sleep:
  assumes "\<not> has flags TQ_NOSLEEP" "\<not> has flags TQ_NOALLOC" "mem (task_km_flags flags) \<noteq> None"
  shows "fst (task_alloc_loop env mem flags c q) \<noteq> None"
  using assms
proof (induction env mem flags c q rule: task_alloc_loop.induct)
  case (1 env mem flags c q)
  then show ?case
    by (subst task_alloc_loop.simps) (auto simp: Let_def task_alloc_new_def split: option.splits)
qed

text \<open>Only what other threads do at the first 101 polls (and during the allocation, number 101) matters.\<close>

lemma alloc_env_cong:
  "(\<And>n. n \<le> 101 \<Longrightarrow> env' n = env n) \<Longrightarrow> c \<le> 100 \<Longrightarrow> task_alloc_loop env' mem flags c q = task_alloc_loop env mem flags c q"
proof (induction "100 - c" arbitrary: c q)
  case 0
  then have c: "\<not> c < 100" and e: "env' c = env c" "env' 101 = env 101" by simp_all
  then show ?case unfolding task_alloc_loop.simps [of _ mem flags c q] task_alloc_new_def e by (simp only: if_False)
next
  case (Suc m)
  then have c: "task_alloc_loop env' mem flags (c + 1) p = task_alloc_loop env mem flags (c + 1) p" for p by simp
  have e: "env' c = env c" "env' 101 = env 101" using Suc.prems by simp_all
  show ?case unfolding task_alloc_loop.simps [of _ mem flags c q] task_alloc_new_def e c ..
qed



lemma free_pool_spec: "free_pool ts q = q\<lparr>tq_free_list := if ts = [] then tq_free_list q else [], tq_nalloc := tq_nalloc q - int (length ts)\<rparr>"
  by (induction ts arbitrary: q) (auto simp: task_free_def)

lemma stop_threads_spec:
  "fold taskq_thread_exit ts q = q\<lparr>tq_nthreads := tq_nthreads q - int (length ts),
     tq_thread_list := filter (\<lambda>w. w \<notin> set ts) (tq_thread_list q)\<rparr>"
  by (induction ts arbitrary: q) (auto simp: taskq_thread_exit_def intro!: filter_cong)

text \<open>C12: Destroying a queue: whatever steps the workers take while \<open>taskq_destroy\<close> waits, if no
  cancellation is still in progress when the waits are over then the function's own assertions
  hold at its end: no thread, no entry allocated, no thread being spawned, and all six lists
  empty.\<close>

theorem taskq_destroy_asserts:
  assumes "taskq_in_use q" and "taskq_steps (taskq_destroy_begin q) (drain (taskq_destroy_begin q))"
    and "tq_cancelling (drain (taskq_destroy_begin q)) = []" and "taskq_destroy drain q = Some q'"
  shows "tq_nthreads q' = 0 \<and> tq_nalloc q' = 0 \<and> tq_nspawn q' = 0 \<and> tq_thread_list q' = [] \<and> tq_active_list q' = [] \<and>
    tq_free_list q' = [] \<and> tq_pend_list q' = [] \<and> tq_prio_list q' = [] \<and> tq_delay_list q' = []"
proof -
  let ?d = "drain (taskq_destroy_begin q)"
  have i: "taskq_inv ?d" "debt ?d = 0"
    using in_use_inv [OF assms(1)] steps_inv [OF assms(2)] by (simp_all add: taskq_destroy_begin_def)
  have w: "taskq_wait_check ?d" "tq_nspawn ?d = 0" and q': "q' = free_pool (tq_free_list (taskq_stop_threads ?d)) (taskq_stop_threads ?d)"
    using assms(4) by (auto simp: taskq_destroy_def Let_def split: if_splits)
  have "outstanding ?d = {}"
  proof (rule ccontr)
    assume "outstanding ?d \<noteq> {}"
    then obtain j where j: "j \<in> outstanding ?d" by blast
    then have "Min (insert (tq_next_id ?d) (outstanding ?d)) \<le> j" by simp
    moreover have "j < tq_next_id ?d" "tq_lowest_id ?d = Min (insert (tq_next_id ?d) (outstanding ?d))"
      using i(1) j by (simp_all add: taskq_inv_def ids_ok_def del: Min_insert)
    ultimately show False using w(1) by (simp add: taskq_wait_check_def del: Min_insert)
  qed
  then have l: "tq_pend_list ?d = []" "tq_prio_list ?d = []" "tq_delay_list ?d = []" "tq_active_list ?d = []"
    by (auto simp: outstanding_alt)
  then have n: "tq_nalloc ?d = int (length (tq_free_list ?d))"
    using i(2) assms(3) by (simp add: debt_def queued_def running_def owned_def)
  have t: "tq_nthreads ?d = int (length (tq_thread_list ?d))" using i(1) by (simp add: taskq_inv_def threads_ok_def)
  show ?thesis unfolding q' free_pool_spec taskq_stop_threads_def stop_threads_spec using l n t w(2) by simp
qed

text \<open>The workers of \<open>demo_q0\<close> have nothing to do while it is destroyed.\<close>

theorem taskq_destroy_asserts_witness:
  "taskq_in_use demo_q0 \<and> (\<exists>q'. taskq_destroy (\<lambda>q. q) demo_q0 = Some q' \<and> tq_nalloc q' = 0)"
proof -
  have u: "taskq_in_use demo_q0" unfolding taskq_in_use_def
    using demo_create taskq_steps.refl inj_on_id inj_Some by metis
  have c: "tq_cancelling ((\<lambda>q. q) (taskq_destroy_begin demo_q0)) = []" by (simp add: taskq_destroy_begin_def demo_q0_def)
  obtain q' where q': "taskq_destroy (\<lambda>q. q) demo_q0 = Some q'"
    by (simp add: taskq_destroy_def taskq_wait_check_def taskq_destroy_begin_def demo_q0_def Let_def)
  from taskq_destroy_asserts [OF u _ c q'] taskq_steps.refl u q' show ?thesis by auto
qed

section \<open>What breaks the order\<close>

text \<open>C13: The order of the priority list, on which waiting and cancelling rely, is not kept by
  \<open>TQ_NOQUEUE\<close>: \<open>taskq_dispatch\<close> puts such a task at the head of the list.  In any queue reached by \<open>taskq_steps\<close>, after a successful
  dispatch with \<open>TQ_NOQUEUE\<close> (whatever other threads do while it allocates), no other task on the priority list can be found any
  more: it is queued, but waiting for its id returns at once and cancelling it fails with \<open>ENOENT\<close>;
  and if it has the least id of all incomplete tasks, the recomputed lowest id is greater, so that
  \<open>taskq_wait_outstanding\<close> no longer waits for it.\<close>

theorem taskq_noqueue_breaks_order:
  assumes "taskq_in_use q" and "avoids mem q" and "rely env mem" and "has flags TQ_NOQUEUE"
    and "taskq_dispatch env mem now func arg flags q = (r, q')" and "r \<noteq> TASKQID_INVALID"
    and "tq_next_id q' \<noteq> 0" and "u \<in> set (tq_prio_list q')" and "tqent_id u \<noteq> r"
  shows "tqent_id u \<in> outstanding q' \<and> taskq_wait_id_check (tqent_id u) q' \<and>
    taskq_cancel_id env' waits timer_pending (tqent_id u) q' = Some (Some ENOENT, q') \<and>
    ((\<forall>j \<in> outstanding q'. tqent_id u \<le> j) \<longrightarrow> tqent_id u < taskq_lowest_id q')"
proof -
  have inv: "taskq_inv q" using in_use_inv [OF assms(1)] by simp
  obtain q1 where a: "noqueue_admit flags q = (True, q1)" and act: "has (tq_flags q) TASKQ_ACTIVE"
    using assms(5,6) by (auto simp: taskq_dispatch_def Let_def split: if_splits prod.splits bool.splits)
  have i1: "taskq_inv q1" "avoids mem q1" using inv_admit [OF a inv] addrs_admit [OF a] assms(2) by (simp_all add: avoids_def)
  obtain t q2 where al: "task_alloc env mem flags q1 = (Some t, q2)"
    using assms(5,6) a act by (auto simp: taskq_dispatch_def Let_def split: prod.splits option.splits)
  have i2: "taskq_inv q2" using task_alloc_loop_inv [OF i1 assms(3)] al unfolding task_alloc_def by blast
  let ?t = "fill_ent now func arg q2 t"
  have q': "q' = q2\<lparr>tq_prio_list := ?t # tq_prio_list q2, tq_next_id := tq_next_id q2 + 1\<rparr>" "r = tq_next_id q2"
    using assms(4,5) a act al by (auto simp: taskq_dispatch_def Let_def spawn_if_def)
  have u: "u \<in> set (tq_prio_list q2)" using assms(8,9) by (auto simp: q')
  then have uq: "u \<in> set (queued q2)" by (simp add: queued_def)
  have lt: "tqent_id u < tq_next_id q2" by (rule ids_below_next [OF i2 uq])
  have nodup: "distinct (map tqent_id (queued q2))" using i2 by (simp add: taskq_inv_def ids_ok_def out_ids_def)
  have no: "tqent_id u \<notin> tqent_id ` set (tq_pend_list q2)" "tqent_id u \<notin> tqent_id ` set (tq_delay_list q2)"
    using nodup u by (auto simp: queued_def)
  have na: "tqent_id u \<notin> tqt_id ` set (tq_active_list q2)" using ids_unique(2) [OF i2 uq] by force
  have s: "sorted_by tqent_id (tq_pend_list q2)" "sorted_by tqent_id (tq_delay_list q2)"
    using i2 by (simp_all add: taskq_inv_def lists_sorted_def)
  have f: "taskq_find (tqent_id u) q' = Found_none"
  proof -
    have "taskq_find_list (tq_pend_list q2) (tqent_id u) = None" "taskq_find_list (tq_delay_list q2) (tqent_id u) = None"
      using no find_list_None [OF s(1)] find_list_None [OF s(2)] by simp_all
    moreover have "taskq_find_list (?t # tq_prio_list q2) (tqent_id u) = None" using lt by simp
    moreover have "\<not> (\<exists>w \<in> set (tq_active_list q2). tqt_id w = tqent_id u)" using na by force
    ultimately show ?thesis unfolding taskq_find_def q' by simp
  qed
  have low: "tqent_id u < taskq_lowest_id q'" if m: "\<forall>j \<in> outstanding q'. tqent_id u \<le> j"
  proof -
    have l: "tqent_id u < tqent_id v" if "v \<in> set (tq_pend_list q2) \<union> set (tq_delay_list q2)" for v
      using m that no by (fastforce simp: outstanding_alt q' order_less_le)
    have la: "tqent_id u < tqt_id v" if "v \<in> set (tq_active_list q2)" for v
      using m that na by (fastforce simp: outstanding_alt q' order_less_le)
    have "tq_next_id q2 < tq_next_id q2 + 1" using assms(7) by (intro word_less_plus_one) (auto simp: q')
    with lt have nw: "tqent_id u < tq_next_id q2 + 1" by (rule less_trans)
    have hd: "xs \<noteq> [] \<Longrightarrow> hd xs \<in> set xs" for xs :: "taskq_ent list" by simp
    have ha: "xs \<noteq> [] \<Longrightarrow> hd xs \<in> set xs" for xs :: "taskq_thread list" by simp
    have "tq_pend_list q2 \<noteq> [] \<Longrightarrow> tqent_id u < tqent_id (hd (tq_pend_list q2))"
      "tq_delay_list q2 \<noteq> [] \<Longrightarrow> tqent_id u < tqent_id (hd (tq_delay_list q2))" using l hd by simp_all
    moreover have "tq_active_list q2 \<noteq> [] \<Longrightarrow> tqent_id u < tqt_id (hd (tq_active_list q2))" using la ha by simp
    ultimately show ?thesis using lt nw by (simp add: taskq_lowest_id_def q' Let_def)
  qed
  have "tqent_id u \<in> outstanding q'" using u by (simp add: outstanding_alt q')
  moreover have "taskq_wait_id_check (tqent_id u) q'" using f by (simp add: taskq_wait_id_check_def)
  moreover have "taskq_cancel_id env' waits timer_pending (tqent_id u) q' = Some (Some ENOENT, q')"
    by (simp add: taskq_cancel_id_def taskq_cancel_unlink_def f)
  ultimately show ?thesis using low by blast
qed

theorem taskq_noqueue_breaks_order_witness:
  "\<exists>r q'. taskq_dispatch (\<lambda>_ q. q) (\<lambda>_. Some 20) 0 8 0 TQ_NOQUEUE demo_q = (r, q') \<and> r = 4 \<and> 2 \<in> outstanding q' \<and> taskq_wait_id_check 2 q' \<and>
    taskq_cancel_id (\<lambda>q. q) [] False 2 q' = Some (Some ENOENT, q')"
proof -
  obtain r q' where d: "taskq_dispatch (\<lambda>_ q. q) (\<lambda>_. Some 20) 0 8 0 TQ_NOQUEUE demo_q = (r, q')" by (rule prod.exhaust)
  then have r: "r = 4" and u: "demo_ent 11 2 6 \<in> set (tq_prio_list q')" by (auto simp: taskq_eval demo_q_def demo_q0_def)
  have e: "avoids (\<lambda>_. Some 20) demo_q" "rely (\<lambda>_ q. q) (\<lambda>_. Some 20)" "has TQ_NOQUEUE TQ_NOQUEUE"
    by (simp_all add: demo_q_def demo_q0_def taskq_flag_defs avoids_def addrs_def queued_def running_def demo_ent_def rely_def)
  have i: "tqent_id (demo_ent 11 2 6) = 2" by (simp add: demo_ent_def)
  have "r \<noteq> TASKQID_INVALID" "tqent_id (demo_ent 11 2 6) \<noteq> r" by (simp_all add: r i TASKQID_INVALID_def)
  moreover have "tq_next_id q' \<noteq> 0" using d by (auto simp: taskq_eval demo_q_def demo_q0_def)
  ultimately show ?thesis
    using taskq_noqueue_breaks_order [OF demo_in_use e d _ _ u, of "\<lambda>q. q" "[]" False] d r i by auto
qed

lemma release_fresh:
  assumes i: "taskq_inv q" and t: "t \<in> set (tq_cancelling q)"
  shows "tqent_addr t \<notin> set (addrs (q\<lparr>tq_cancelling := filter (\<lambda>u. tqent_addr u \<noteq> tqent_addr t) (tq_cancelling q)\<rparr>))"
proof -
  have d: "distinct (map tqent_addr (tq_cancelling q))" using i by (auto simp: taskq_inv_def ents_distinct_def addrs_def)
  let ?q = "q\<lparr>tq_cancelling := filter (\<lambda>u. tqent_addr u \<noteq> tqent_addr t) (tq_cancelling q)\<rparr>"
  have m: "mset (tq_cancelling q) = add_mset t (mset (tq_cancelling ?q))" using t by (simp add: filter_addr [OF d t])
  have "queued ?q = queued q" "running ?q = running q" "tq_free_list ?q = tq_free_list q" by (simp_all add: queued_def running_def)
  then have "mset (addrs q) = add_mset (tqent_addr t) (mset (addrs ?q))" unfolding mset_addrs m by simp
  from distinct_add [OF this] show ?thesis using i by (simp add: taskq_inv_def ents_distinct_def)
qed

lemma insert_back_0: "k t = 0 \<Longrightarrow> insert_back k t xs = xs @ [t]"
  by (induction xs) auto

text \<open>The callback of a timer that finds its entry in the pool puts it first on the priority list.\<close>

lemma expire_pooled:
  assumes "tqent_id t = 0" "tqent_flags t = 0" "tqent_func t = None"
  shows "\<exists>w q2. taskq_thread_take pid (task_expire_impl now t q) = (Some w, q2) \<and> tqt_id w = TASKQID_INVALID \<and> tqent_func (tqt_task w) = None"
  using assms
  by (simp add: task_expire_impl_def Let_def insert_in_order_def insert_back_0 taskq_thread_take_def taskq_next_ent_def TASKQID_INVALID_def)

text \<open>C14: Cancelling a delayed task whose timer has already fired, but whose callback is still waiting
  for \<open>tq_lock\<close>, in any queue reached by \<open>taskq_steps\<close>: the timer is not pending, so \<open>taskq_cancel_id\<close> does not wait for the callback and
  releases the entry.  If the queue keeps it in its pool, \<open>task_done\<close> has cleared the flag that would have
  stopped the callback, which then queues the pooled entry as a task with id 0 and no function, first on the priority list, so that the
  next worker takes it; otherwise the entry is freed, and no list has it, when the callback uses it.
\<close>

theorem taskq_cancel_timer_race:
  assumes "taskq_in_use q" and "t \<in> set (tq_delay_list q)"
  shows "\<exists>q1. taskq_cancel_id env waits False (tqent_id t) q = Some (None, q1) \<and>
    (if tq_nalloc q \<le> tq_minalloc q
     then \<exists>t0 \<in> set (tq_free_list q1). tqent_addr t0 = tqent_addr t \<and>
       (\<forall>now pid. \<exists>w q2. taskq_thread_take pid (task_expire_impl now t0 q1) = (Some w, q2) \<and>
         tqt_id w = TASKQID_INVALID \<and> tqent_func (tqt_task w) = None)
     else tqent_addr t \<notin> set (addrs q1) \<and> tq_nalloc q1 = tq_nalloc q - 1)"
proof -
  have inv: "taskq_inv q" using in_use_inv [OF assms(1)] by simp
  have t: "taskq_find (tqent_id t) q = Found t" using assms(2) find_Found [OF inv] by (simp add: queued_def)
  have f0: "tqent_flags t = 0" using inv assms(2) by (simp add: taskq_inv_def ents_distinct_def)
  from cancel_unlink_found [OF inv t] obtain t1 q1 where u: "taskq_cancel_unlink (tqent_id t) q = (Cancelled t1, q1)"
    and t1: "t1 = t\<lparr>tqent_flags := tqent_flags t OR TQENT_FLAG_CANCEL\<rparr>" "t1 \<in> set (tq_cancelling q1)" "taskq_inv q1"
    and n: "tq_nalloc q1 = tq_nalloc q" "tq_minalloc q1 = tq_minalloc q" by metis
  let ?c = "q1\<lparr>tq_cancelling := filter (\<lambda>u. tqent_addr u \<noteq> tqent_addr t1) (tq_cancelling q1)\<rparr>"
  have np: "\<not> has (tqent_flags t1) TQENT_FLAG_PREALLOC"
    by (simp add: t1 f0 has_def TQENT_FLAG_CANCEL_def TQENT_FLAG_PREALLOC_def)
  have c: "taskq_cancel_id env waits False (tqent_id t) q = Some (None, task_done t1 ?c)"
    using np by (simp add: taskq_cancel_id_def u taskq_cancel_release_def Let_def)
  have fr: "tqent_addr t \<notin> set (addrs ?c)" using release_fresh [OF t1(3,2)] by (simp add: t1(1))
  show ?thesis
  proof (cases "tq_nalloc q \<le> tq_minalloc q")
    case True
    let ?t = "t1\<lparr>tqent_id := TASKQID_INVALID, tqent_func := None, tqent_arg := 0, tqent_flags := 0\<rparr>"
    have "?t \<in> set (tq_free_list (task_done t1 ?c))" using True n by (simp add: task_done_def)
    moreover have "tqent_addr ?t = tqent_addr t" by (simp add: t1(1))
    moreover have "\<exists>w q2. taskq_thread_take pid (task_expire_impl now ?t (task_done t1 ?c)) = (Some w, q2) \<and>
         tqt_id w = TASKQID_INVALID \<and> tqent_func (tqt_task w) = None" for now pid
      by (rule expire_pooled) (simp_all add: TASKQID_INVALID_def)
    ultimately have "\<exists>t0 \<in> set (tq_free_list (task_done t1 ?c)). tqent_addr t0 = tqent_addr t \<and>
       (\<forall>now pid. \<exists>w q2. taskq_thread_take pid (task_expire_impl now t0 (task_done t1 ?c)) = (Some w, q2) \<and>
         tqt_id w = TASKQID_INVALID \<and> tqent_func (tqt_task w) = None)" by (intro bexI conjI allI)
    then show ?thesis using True c by (metis (no_types, lifting))
  next
    case False
    then show ?thesis unfolding c using fr n by (simp add: task_done_def task_free_def)
  qed
qed

theorem taskq_cancel_timer_race_witness:
  "taskq_in_use demo_q \<and> (\<exists>q1. taskq_cancel_id (\<lambda>q. q) [] False 3 demo_q = Some (None, q1) \<and> 12 \<notin> set (addrs q1))"
proof -
  have t: "demo_ent 12 3 7 \<in> set (tq_delay_list demo_q)" "tqent_id (demo_ent 12 3 7) = 3" "tqent_addr (demo_ent 12 3 7) = 12"
    "\<not> tq_nalloc demo_q \<le> tq_minalloc demo_q" by (simp_all add: demo_q_def demo_q0_def demo_ent_def)
  from taskq_cancel_timer_race [OF demo_in_use t(1), of "\<lambda>q. q" "[]"] t demo_in_use show ?thesis by auto
qed

end
