(* ===== verification/Spl_Thread.thy ===== *)
theory Spl_Thread
  imports Tsd
begin

text \<open>
  Threads, \<^verbatim>\<open>module/spl/spl-thread.c\<close>, and the compression wrappers of \<^verbatim>\<open>module/spl/spl-zlib.c\<close>: code whose
  interest is what happens to its memory on every path.  The kernel's thread creation and zlib are parameters.
\<close>

section \<open>Creating threads\<close>

definition TASK_COMM_LEN :: nat where "TASK_COMM_LEN = 16"

text \<open>The attempts of the loop are numbered; \<open>kt\<close> answers \<^verbatim>\<open>kthread_create\<close>, \<open>sig\<close> says whether a signal is pending.  The loop
  goes on after a signal or for lack of memory, perhaps forever; \<open>Some None\<close> is the null pointer.\<close>

partial_function (option) kthread_loop :: "(nat \<Rightarrow> errno + nat) \<Rightarrow> (nat \<Rightarrow> bool) \<Rightarrow> nat \<Rightarrow> nat option option" where
  "kthread_loop kt sig i =
     (case kt i of
        Inr tsk \<Rightarrow> Some (Some tsk)
      | Inl e \<Rightarrow> if sig i \<or> e = ENOMEM then kthread_loop kt sig (i + 1) else Some None)"

definition comm_name :: "string \<Rightarrow> string" where
  "comm_name name = take (TASK_COMM_LEN - 1) name"

definition spl_kthread_create :: "(string \<Rightarrow> nat \<Rightarrow> errno + nat) \<Rightarrow> (nat \<Rightarrow> bool) \<Rightarrow> string \<Rightarrow> nat option option" where
  "spl_kthread_create kt sig name = kthread_loop (kt (comm_name name)) sig 0"

text \<open>The part of a string before the first occurrence of another.\<close>

fun before :: "string \<Rightarrow> string \<Rightarrow> string" where
  "before pat [] = []"
| "before pat (c # cs) = (if take (length pat) (c # cs) = pat then [] else c # before pat cs)"

record thread_priv =
  tp_name_size :: nat
  tp_name :: string
  tp_func :: "nat option"
  tp_args :: u64
  tp_len :: u64
  tp_state :: int
  tp_pri :: int

datatype tp_block = Tp_block | Name_block nat

datatype created = Thread nat | Null_thread | Wake_null

text \<open>The outcome with the blocks that stay allocated; waking the null pointer crashes.  Outer \<open>None\<close>: the function does
  not return.\<close>

definition thread_create ::
  "(string \<Rightarrow> nat \<Rightarrow> errno + nat) \<Rightarrow> (nat \<Rightarrow> bool) \<Rightarrow> bool \<Rightarrow> bool \<Rightarrow> string \<Rightarrow> nat option \<Rightarrow> u64 \<Rightarrow> u64 \<Rightarrow> int \<Rightarrow> int \<Rightarrow> (created \<times> tp_block list \<times> thread_priv option) option" where
  "thread_create kt sig mem1 mem2 name func args len state pri =
     (if \<not> mem1 then Some (Null_thread, [], None)
      else if \<not> mem2 then Some (Null_thread, [], None)
      else let tp = \<lparr>tp_name_size = length name + 1, tp_name = before ''_thread'' name, tp_func = func, tp_args = args, tp_len = len, tp_state = state, tp_pri = pri\<rparr>
           in map_option (\<lambda>tsk. (case tsk of None \<Rightarrow> Wake_null | Some t \<Rightarrow> Thread t, [Tp_block, Name_block (tp_name_size tp)], Some tp))
                (spl_kthread_create kt sig (tp_name tp)))"

text \<open>The thread: it sets its state and priority, frees both blocks, then calls the function.\<close>

datatype thread_event = Set_state int | Set_nice int | Free_tp tp_block | Call nat u64

definition thread_generic_wrapper :: "(int \<Rightarrow> int) \<Rightarrow> thread_priv \<Rightarrow> thread_event list" where
  "thread_generic_wrapper prio_to_nice tp =
     [Set_state (tp_state tp), Set_nice (prio_to_nice (tp_pri tp)), Free_tp (Name_block (tp_name_size tp)), Free_tp Tp_block] @
     (case tp_func tp of None \<Rightarrow> [] | Some f \<Rightarrow> [Call f (tp_args tp)])"

text \<open>Leaving a thread runs the destructors of its thread specific data before the thread ends.\<close>

definition thread_exit :: "hashfn \<Rightarrow> u32 \<Rightarrow> tsd_state \<Rightarrow> tsd_state option" where
  "thread_exit H pid s = tsd_exit H pid s"

lemma kthread_first:
  assumes "\<And>j. j < n \<Longrightarrow> (\<exists>e. kt (i + j) = Inl e \<and> (sig (i + j) \<or> e = ENOMEM))"
  shows "kthread_loop kt sig i = kthread_loop kt sig (i + n)"
  using assms
proof (induction n arbitrary: i)
  case (Suc n)
  obtain e where "kt i = Inl e" "sig i \<or> e = ENOMEM" using Suc.prems [of 0] by auto
  then have "kthread_loop kt sig i = kthread_loop kt sig (i + 1)" by (subst kthread_loop.simps) simp
  also have "\<dots> = kthread_loop kt sig (i + 1 + n)"
  proof (rule Suc.IH)
    fix j
    assume "j < n"
    then show "\<exists>e. kt (i + 1 + j) = Inl e \<and> (sig (i + 1 + j) \<or> e = ENOMEM)" using Suc.prems [of "j + 1"] by (simp add: add.assoc)
  qed
  finally show ?case by simp
qed simp

text \<open>Creating returns the thread of the first attempt that succeeds, if all before fail for lack of memory or on a signal: the
  function called is the one given, under a name without the ending, and the thread frees exactly the memory
  that creating it allocated.  Without memory nothing is kept.\<close>

theorem thread_create_balanced:
  assumes "\<And>j. j < n \<Longrightarrow> (\<exists>e. kt (comm_name (before ''_thread'' name)) j = Inl e \<and> (sig j \<or> e = ENOMEM))"
    "kt (comm_name (before ''_thread'' name)) n = Inr t"
  shows "(\<exists>tp b c. thread_create kt sig True True name (Some f) args len state pri = Some (Thread t, [b, c], Some tp) \<and>
      thread_generic_wrapper nice tp = [Set_state state, Set_nice (nice pri), Free_tp c, Free_tp b, Call f args]) \<and>
    thread_create kt sig False m name (Some f) args len state pri = Some (Null_thread, [], None) \<and>
    thread_create kt sig True False name (Some f) args len state pri = Some (Null_thread, [], None)"
proof -
  let ?kt = "kt (comm_name (before ''_thread'' name))"
  have "kthread_loop ?kt sig 0 = kthread_loop ?kt sig n" using kthread_first [of n ?kt 0 sig] assms(1) by simp
  also have "\<dots> = Some (Some t)" using assms(2) by (subst kthread_loop.simps) simp
  finally show ?thesis by (simp add: thread_create_def spl_kthread_create_def thread_generic_wrapper_def Let_def)
qed

theorem thread_create_balanced_witness:
  "\<exists>tp b c. thread_create (\<lambda>_ i. if i < 3 then Inl ENOMEM else Inr 42) (\<lambda>_. False) True True ''txg_thread'' (Some 9) 5 0 0 0 = Some (Thread 42, [b, c], Some tp) \<and>
     thread_generic_wrapper (\<lambda>p. p - 120) tp = [Set_state 0, Set_nice (- 120), Free_tp c, Free_tp b, Call 9 5]"
proof -
  let ?kt = "\<lambda>_ i::nat. if i < 3 then Inl ENOMEM else Inr (42 :: nat)"
  have "\<exists>e. ?kt n j = Inl e \<and> (False \<or> e = ENOMEM)" if "j < 3" for n j using that by simp
  moreover have "?kt n 3 = Inr 42" for n by simp
  ultimately show ?thesis using thread_create_balanced [of 3 ?kt "''txg_thread''" "\<lambda>_. False" 42 9 5 0 0 0 "\<lambda>p. p - 120"] by simp
qed

text \<open>Any other failure gives a null pointer, which the caller takes for a thread: it tests for an error pointer only.\<close>

lemma thread_create_wakes_null:
  assumes "\<And>n. kt n 0 = Inl e" "e \<noteq> ENOMEM" "\<not> sig 0"
  shows "\<exists>tp. thread_create kt sig True True name func args len state pri = Some (Wake_null, [Tp_block, Name_block (length name + 1)], Some tp)"
  using assms by (simp add: thread_create_def spl_kthread_create_def Let_def kthread_loop.simps [of _ sig 0])

lemma before_name: "before ''_thread'' ''txg_sync_thread'' = ''txg_sync''" by simp

section \<open>Compression\<close>

definition Z_OK :: int where "Z_OK = 0"
definition Z_STREAM_END :: int where "Z_STREAM_END = 1"
definition Z_NEED_DICT :: int where "Z_NEED_DICT = 2"
definition Z_DATA_ERROR :: int where "Z_DATA_ERROR = - 3"
definition Z_MEM_ERROR :: int where "Z_MEM_ERROR = - 4"
definition Z_BUF_ERROR :: int where "Z_BUF_ERROR = - 5"

lemmas z_defs = Z_OK_def Z_STREAM_END_def Z_NEED_DICT_def Z_DATA_ERROR_def Z_MEM_ERROR_def Z_BUF_ERROR_def

text \<open>
  zlib as parameters: initialising, the step with the flag to finish, given the input and output sizes it sees, and
  ending.  The step gives a code, the number of bytes put out and the input left.  The result has the code, the
  output length, and how often the workspace was allocated and freed.
\<close>

record zlib =
  z_init :: int
  z_step :: "u32 \<Rightarrow> u32 \<Rightarrow> int \<times> u64 \<times> u32"
  z_end :: int

record z_result =
  z_rc :: int
  z_destLen :: u64
  z_allocs :: nat
  z_frees :: nat

definition z_compress_level :: "zlib \<Rightarrow> bool \<Rightarrow> u64 \<Rightarrow> u64 \<Rightarrow> z_result" where
  "z_compress_level z mem destLen sourceLen =
     (let avail_in = ucast sourceLen :: u32; avail_out = ucast destLen :: u32
      in if ucast avail_out \<noteq> destLen then \<lparr>z_rc = Z_BUF_ERROR, z_destLen = destLen, z_allocs = 0, z_frees = 0\<rparr>
         else if \<not> mem then \<lparr>z_rc = Z_MEM_ERROR, z_destLen = destLen, z_allocs = 0, z_frees = 0\<rparr>
         else if z_init z \<noteq> Z_OK then \<lparr>z_rc = z_init z, z_destLen = destLen, z_allocs = 1, z_frees = 1\<rparr>
         else case z_step z avail_in avail_out of (err, total_out, left) \<Rightarrow>
           if err \<noteq> Z_STREAM_END then \<lparr>z_rc = (if err = Z_OK then Z_BUF_ERROR else err), z_destLen = destLen, z_allocs = 1, z_frees = 1\<rparr>
           else \<lparr>z_rc = z_end z, z_destLen = total_out, z_allocs = 1, z_frees = 1\<rparr>)"

definition z_uncompress :: "zlib \<Rightarrow> bool \<Rightarrow> u64 \<Rightarrow> u64 \<Rightarrow> z_result" where
  "z_uncompress z mem destLen sourceLen =
     (let avail_in = ucast sourceLen :: u32; avail_out = ucast destLen :: u32
      in if ucast avail_out \<noteq> destLen then \<lparr>z_rc = Z_BUF_ERROR, z_destLen = destLen, z_allocs = 0, z_frees = 0\<rparr>
         else if \<not> mem then \<lparr>z_rc = Z_MEM_ERROR, z_destLen = destLen, z_allocs = 0, z_frees = 0\<rparr>
         else if z_init z \<noteq> Z_OK then \<lparr>z_rc = z_init z, z_destLen = destLen, z_allocs = 1, z_frees = 1\<rparr>
         else case z_step z avail_in avail_out of (err, total_out, left) \<Rightarrow>
           if err \<noteq> Z_STREAM_END
           then \<lparr>z_rc = (if err = Z_NEED_DICT \<or> err = Z_BUF_ERROR \<and> left = 0 then Z_DATA_ERROR else err), z_destLen = destLen, z_allocs = 1, z_frees = 1\<rparr>
           else \<lparr>z_rc = z_end z, z_destLen = total_out, z_allocs = 1, z_frees = 1\<rparr>)"

text \<open>The workspace is freed as often as it is allocated, and compressing reports success only if the stream came to its end.\<close>

lemma z_balanced:
  "z_allocs (z_compress_level z m d s) = z_frees (z_compress_level z m d s)" "z_allocs (z_uncompress z m d s) = z_frees (z_uncompress z m d s)"
  by (simp_all add: z_compress_level_def z_uncompress_def Let_def split: prod.splits)

lemma z_compress_ok:
  "z_rc (z_compress_level z m d s) = Z_OK \<Longrightarrow> \<exists>left. z_step z (ucast s) (ucast d) = (Z_STREAM_END, z_destLen (z_compress_level z m d s), left) \<and> d < 2 ^ 32"
proof -
  assume a: "z_rc (z_compress_level z m d s) = Z_OK"
  then have d: "ucast (ucast d :: u32) = d" by (auto simp: z_compress_level_def z_defs Let_def split: if_splits)
  then have "unat d = unat (ucast d :: u32)" by (metis unat_ucast_u32)
  then have "unat d < 2 ^ 32" using unat_u32_less [of "ucast d"] by simp
  then have "d < 2 ^ 32" by (simp add: word_less_nat_alt)
  then show ?thesis using a d by (auto simp: z_compress_level_def z_defs Let_def split: if_splits prod.splits)
qed

text \<open>Only the length of the output is checked: of an input of 4 GiB and more all but the low 32 bits of the length are dropped.\<close>

lemma z_compress_truncates:
  "\<lbrakk>ucast (ucast d :: u32) = d; z_init z = Z_OK; \<And>n m. z_step z n m = (Z_STREAM_END, ucast n, 0); z_end z = Z_OK\<rbrakk> \<Longrightarrow>
   z_compress_level z True d (0x100000000 + 5) = \<lparr>z_rc = Z_OK, z_destLen = 5, z_allocs = 1, z_frees = 1\<rparr>"
  by (simp add: z_compress_level_def z_defs)

end
