(* ===== verification/Taskq_Worker.thy ===== *)
theory Taskq_Worker
  imports Taskq_Safety Spl_Thread
begin

text \<open>
  The worker threads of \<^verbatim>\<open>module/spl/spl-taskq.c\<close> as a whole: \<^verbatim>\<open>taskq_thread\<close> from its start to its end, the creating of
  workers, and the queues of the module itself.  What other threads do while a worker runs a task or sleeps is an argument.
\<close>

section \<open>The worker\<close>

text \<open>
  A pass of the loop, in which \<open>run\<close> is what happens to the queue during the task function and \<open>idle\<close> during the sleep.  \<open>Inl\<close> leaves
  the loop; otherwise the pass gives the number of tasks since the last sleep, the queue and the task it ran.
\<close>

definition taskq_thread_work ::
  "bool \<Rightarrow> int \<Rightarrow> (taskq_thread \<Rightarrow> taskq \<Rightarrow> taskq) \<Rightarrow> nat \<Rightarrow> int \<Rightarrow> taskq \<Rightarrow> taskq + int \<times> taskq \<times> taskq_thread option" where
  "taskq_thread_work dyn lim run pid seq_tasks tq =
     (case taskq_thread_take pid tq of
        (Some tqt, tq1) \<Rightarrow>
          (case taskq_thread_finish lim tqt seq_tasks (run tqt tq1) of (seq', tq2) \<Rightarrow> Inr (seq', tq2, Some tqt))
      | (None, tq1) \<Rightarrow> if taskq_thread_should_stop dyn pid tq1 then Inl tq1 else Inr (seq_tasks, tq1, None))"

definition taskq_thread_pass ::
  "bool \<Rightarrow> int \<Rightarrow> (taskq_thread \<Rightarrow> taskq \<Rightarrow> taskq) \<times> (taskq \<Rightarrow> taskq) \<Rightarrow> nat \<Rightarrow> int \<Rightarrow> taskq \<Rightarrow> taskq + int \<times> taskq \<times> taskq_thread option" where
  "taskq_thread_pass dyn lim env pid seq_tasks tq =
     (if tq_pend_list tq = [] \<and> tq_prio_list tq = []
      then if taskq_thread_should_stop dyn pid tq then Inl tq
           else taskq_thread_work dyn lim (fst env) pid 0 (snd env tq)
      else taskq_thread_work dyn lim (fst env) pid seq_tasks tq)"

text \<open>One element of the list for every pass; the thread is told to stop when the list ends.\<close>

fun taskq_thread_loop ::
  "bool \<Rightarrow> int \<Rightarrow> nat \<Rightarrow> ((taskq_thread \<Rightarrow> taskq \<Rightarrow> taskq) \<times> (taskq \<Rightarrow> taskq)) list \<Rightarrow> int \<Rightarrow> taskq \<Rightarrow> taskq_thread list \<times> taskq" where
  "taskq_thread_loop dyn lim pid [] seq_tasks tq = ([], tq)"
| "taskq_thread_loop dyn lim pid (e # es) seq_tasks tq =
     (case taskq_thread_pass dyn lim e pid seq_tasks tq of
        Inl tq1 \<Rightarrow> ([], tq1)
      | Inr (seq', tq1, w) \<Rightarrow>
          (case taskq_thread_loop dyn lim pid es seq' tq1 of (ws, tq2) \<Rightarrow> ((case w of None \<Rightarrow> ws | Some tqt \<Rightarrow> tqt # ws), tq2)))"

definition taskq_thread_main ::
  "bool \<Rightarrow> int \<Rightarrow> nat \<Rightarrow> ((taskq_thread \<Rightarrow> taskq \<Rightarrow> taskq) \<times> (taskq \<Rightarrow> taskq)) list \<Rightarrow> taskq \<Rightarrow> taskq_thread list \<times> taskq" where
  "taskq_thread_main dyn lim pid es tq =
     (case taskq_thread_start pid tq of
        (False, tq1) \<Rightarrow> ([], tq1)
      | (True, tq1) \<Rightarrow> (case taskq_thread_loop dyn lim pid es 0 tq1 of (ws, tq2) \<Rightarrow> (ws, taskq_thread_exit pid tq2)))"

section \<open>What a worker does to the lists\<close>

text \<open>The tasks that can be run, in the order in which they are taken.\<close>

definition todo :: "taskq \<Rightarrow> taskq_ent list" where
  "todo tq = tq_prio_list tq @ tq_pend_list tq"

lemma next_ent_todo: "taskq_next_ent tq = (if todo tq = [] then None else Some (hd (todo tq)))"
  by (simp add: taskq_next_ent_def todo_def)

lemma filter_insert_in_order: "\<not> P t \<Longrightarrow> filter P (insert_in_order k t xs) = filter P xs"
proof -
  assume "\<not> P t"
  then have "filter P (insert_back k t ys) = filter P ys" for ys by (induction ys) auto
  then show ?thesis unfolding insert_in_order_def by (simp add: rev_filter [symmetric])
qed

lemma unlink_todo:
  assumes "ents_distinct tq" "todo tq = t # ts"
  shows "todo (unlink_ent t tq) = ts" "tq_delay_list (unlink_ent t tq) = tq_delay_list tq"
proof -
  have d: "distinct (map tqent_addr (todo tq @ tq_delay_list tq))"
    using assms(1) by (auto simp: ents_distinct_def addrs_def queued_def todo_def)
  have "filter (\<lambda>u. tqent_addr u \<noteq> tqent_addr t) (todo tq) = ts"
    using filter_addr [of tqent_addr "todo tq" t] d assms(2) by simp
  then show "todo (unlink_ent t tq) = ts" by (simp add: todo_def unlink_ent_def Let_def)
  have "tqent_addr t \<notin> tqent_addr ` set (tq_delay_list tq)" using d assms(2) by auto
  then have "\<forall>u \<in> set (tq_delay_list tq). tqent_addr u \<noteq> tqent_addr t" by (metis imageI)
  then show "tq_delay_list (unlink_ent t tq) = tq_delay_list tq" by (simp add: unlink_ent_def Let_def)
qed

lemma finish_lists:
  "todo (snd (taskq_thread_finish m w n tq)) = todo tq" "tq_delay_list (snd (taskq_thread_finish m w n tq)) = tq_delay_list tq"
  "tq_thread_list (snd (taskq_thread_finish m w n tq)) = tq_thread_list tq" "tq_next_id (snd (taskq_thread_finish m w n tq)) = tq_next_id tq"
  "tq_active_list (snd (taskq_thread_finish m w n tq)) = filter (\<lambda>v. tqt_thread v \<noteq> tqt_thread w) (tq_active_list tq)"
  by (simp_all add: taskq_thread_finish_def taskq_thread_spawn_def task_done_def task_free_def Let_def case_prod_beta todo_def)

lemma pass_runs:
  assumes i: "taskq_inv tq" and p: "pid \<in> set (tq_thread_list tq)" "pid \<notin> tqt_thread ` set (tq_active_list tq)" and t: "todo tq = t # ts"
  shows "\<exists>seq' tq' w. taskq_thread_pass dyn lim (\<lambda>_ q. q, idle) pid sq tq = Inr (seq', tq', Some w) \<and>
    tqt_id w = tqent_id t \<and> tqent_func (tqt_task w) = tqent_func t \<and> tqent_arg (tqt_task w) = tqent_arg t \<and>
    taskq_inv tq' \<and> todo tq' = ts \<and> tq_delay_list tq' = tq_delay_list tq \<and> tq_active_list tq' = tq_active_list tq \<and>
    tq_thread_list tq' = tq_thread_list tq \<and> tq_next_id tq' = tq_next_id tq"
proof -
  obtain w tq1 where take: "taskq_thread_take pid tq = (Some w, tq1)"
    and w: "tqt_thread w = pid" "tqt_id w = tqent_id t" "tqent_func (tqt_task w) = tqent_func t" "tqent_arg (tqt_task w) = tqent_arg t"
    and tq1: "tq1 = (taskq_insert_in_order w (unlink_ent t tq))\<lparr>tq_nactive := tq_nactive tq + 1\<rparr>"
    using next_ent_todo [of tq] t by (simp add: taskq_thread_take_def Let_def taskq_insert_in_order_def dup_task_def)
  have e: "ents_distinct tq" using i by (simp add: taskq_inv_def)
  have l: "todo tq1 = ts" "tq_delay_list tq1 = tq_delay_list tq" "tq_thread_list tq1 = tq_thread_list tq" "tq_next_id tq1 = tq_next_id tq"
    "tq_active_list tq1 = insert_in_order tqt_id w (tq_active_list tq)"
    using unlink_todo [OF e t] by (simp_all add: tq1 taskq_insert_in_order_def todo_def)
  have inv1: "taskq_inv tq1" using inv_take [OF i p] take by simp
  have "w \<in> set (tq_active_list tq1)" by (simp add: l)
  then have inv2: "taskq_inv (snd (taskq_thread_finish lim w n tq1))" for n using inv_finish [OF inv1] by blast
  have "\<forall>v \<in> set (tq_active_list tq). tqt_thread v \<noteq> tqt_thread w" using p(2) w(1) by (metis imageI)
  then have act: "filter (\<lambda>v. tqt_thread v \<noteq> tqt_thread w) (tq_active_list tq1) = tq_active_list tq"
    using l(5) filter_insert_in_order [of "\<lambda>v. tqt_thread v \<noteq> tqt_thread w" w tqt_id "tq_active_list tq"] by simp
  have "\<not> (tq_pend_list tq = [] \<and> tq_prio_list tq = [])" using t by (auto simp: todo_def)
  then have "taskq_thread_pass dyn lim (\<lambda>_ q. q, idle) pid sq tq =
      Inr (fst (taskq_thread_finish lim w sq tq1), snd (taskq_thread_finish lim w sq tq1), Some w)"
    by (auto simp: taskq_thread_pass_def taskq_thread_work_def take case_prod_beta)
  then show ?thesis using w inv2 [of sq] finish_lists [of lim w sq tq1] l act by simp
qed

lemma loop_runs:
  assumes "taskq_inv tq" "pid \<in> set (tq_thread_list tq)" "pid \<notin> tqt_thread ` set (tq_active_list tq)" "length es = length (todo tq)"
    "\<And>e. e \<in> set es \<Longrightarrow> fst e = (\<lambda>_ q. q)"
  shows "\<exists>ws tq'. taskq_thread_loop dyn lim pid es sq tq = (ws, tq') \<and>
    map (\<lambda>w. (tqt_id w, tqent_func (tqt_task w), tqent_arg (tqt_task w))) ws = map (\<lambda>t. (tqent_id t, tqent_func t, tqent_arg t)) (todo tq) \<and>
    taskq_inv tq' \<and> todo tq' = [] \<and> tq_delay_list tq' = tq_delay_list tq \<and> tq_active_list tq' = tq_active_list tq \<and>
    tq_thread_list tq' = tq_thread_list tq \<and> tq_next_id tq' = tq_next_id tq"
  using assms
proof (induction es arbitrary: sq tq)
  case (Cons e es)
  obtain t ts where t: "todo tq = t # ts" using Cons.prems(4) by (cases "todo tq") auto
  obtain idle where e: "e = (\<lambda>_ q. q, idle)" using Cons.prems(5) [of e] by (cases e) auto
  obtain s1 q1 w where w: "taskq_thread_pass dyn lim (\<lambda>_ q. q, idle) pid sq tq = Inr (s1, q1, Some w)"
    "tqt_id w = tqent_id t" "tqent_func (tqt_task w) = tqent_func t" "tqent_arg (tqt_task w) = tqent_arg t"
    and q1: "taskq_inv q1" "todo q1 = ts" "tq_delay_list q1 = tq_delay_list tq" "tq_active_list q1 = tq_active_list tq"
      "tq_thread_list q1 = tq_thread_list tq" "tq_next_id q1 = tq_next_id tq"
    using pass_runs [OF Cons.prems(1-3) t, of dyn lim idle sq] by blast
  have p: "pid \<in> set (tq_thread_list q1)" "pid \<notin> tqt_thread ` set (tq_active_list q1)" "length es = length (todo q1)"
    using Cons.prems(2-4) q1 t by simp_all
  have es: "\<And>e. e \<in> set es \<Longrightarrow> fst e = (\<lambda>_ q. q)" using Cons.prems(5) by simp
  obtain ws q2 where "taskq_thread_loop dyn lim pid es s1 q1 = (ws, q2)"
    "map (\<lambda>w. (tqt_id w, tqent_func (tqt_task w), tqent_arg (tqt_task w))) ws = map (\<lambda>t. (tqent_id t, tqent_func t, tqent_arg t)) (todo q1)"
    "taskq_inv q2" "todo q2 = []" "tq_delay_list q2 = tq_delay_list q1" "tq_active_list q2 = tq_active_list q1"
    "tq_thread_list q2 = tq_thread_list q1" "tq_next_id q2 = tq_next_id q1"
    using Cons.IH [OF q1(1) p es, of s1] by blast
  then show ?case using w q1 t e by simp
qed simp

section \<open>Workers finish what is queued\<close>

lemma wait_check_empty:
  assumes "taskq_inv q" "outstanding q = {}"
  shows "taskq_wait_check q" "i < tq_next_id q \<Longrightarrow> taskq_wait_outstanding_check i q" "taskq_wait_id_check i q"
proof -
  have low: "tq_lowest_id q = tq_next_id q" using assms by (simp add: taskq_inv_def ids_ok_def)
  then show "taskq_wait_check q" by (simp add: taskq_wait_check_def)
  show "taskq_wait_outstanding_check i q" if "i < tq_next_id q" using that low by (simp add: taskq_wait_outstanding_check_def)
  show "taskq_wait_id_check i q" unfolding taskq_wait_id_check_def find_none(1) [OF assms(1)] using assms(2) by simp
qed

text \<open>C9: A worker makes progress when it is alone: in a queue reached by \<open>taskq_steps\<close> (so without \<open>TQ_NOQUEUE\<close>), if no other thread, timer or
  task function changes the queue while it runs its tasks, a worker that is not busy runs every task that can be run, in as many passes as there are
  tasks, each once with the function and argument it was dispatched with, first the tasks of the priority list and then those of the pending list, and
  the tasks of each list by increasing id; nothing else changes hands.  If no task is delayed or running on another thread, all waits for the queue
  are over afterwards.\<close>

theorem taskq_worker_drains:
  assumes "taskq_in_use q" "pid \<in> set (tq_thread_list q)" "pid \<notin> tqt_thread ` set (tq_active_list q)"
    "length es = length (tq_prio_list q @ tq_pend_list q)" "\<And>e. e \<in> set es \<Longrightarrow> fst e = (\<lambda>_ r. r)"
  shows "\<exists>ws q'. taskq_thread_loop dyn lim pid es sq q = (ws, q') \<and>
    map (\<lambda>w. (tqt_id w, tqent_func (tqt_task w), tqent_arg (tqt_task w))) ws =
      map (\<lambda>t. (tqent_id t, tqent_func t, tqent_arg t)) (tq_prio_list q @ tq_pend_list q) \<and>
    sorted_wrt (<) (map tqt_id (take (length (tq_prio_list q)) ws)) \<and> sorted_wrt (<) (map tqt_id (drop (length (tq_prio_list q)) ws)) \<and>
    tq_prio_list q' = [] \<and> tq_pend_list q' = [] \<and> tq_delay_list q' = tq_delay_list q \<and> tq_active_list q' = tq_active_list q \<and>
    (tq_delay_list q = [] \<and> tq_active_list q = [] \<longrightarrow>
       taskq_wait_check q' \<and> taskq_wait_id_check i q' \<and> (i < tq_next_id q \<longrightarrow> taskq_wait_outstanding_check i q'))"
proof -
  have inv: "taskq_inv q" using in_use_inv [OF assms(1)] by simp
  have "length es = length (todo q)" using assms(4) by (simp add: todo_def)
  from loop_runs [OF inv assms(2,3) this assms(5), of dyn lim sq] obtain ws q' where
    l: "taskq_thread_loop dyn lim pid es sq q = (ws, q')"
    "map (\<lambda>w. (tqt_id w, tqent_func (tqt_task w), tqent_arg (tqt_task w))) ws = map (\<lambda>t. (tqent_id t, tqent_func t, tqent_arg t)) (todo q)"
    and q': "taskq_inv q'" "todo q' = []" "tq_delay_list q' = tq_delay_list q" "tq_active_list q' = tq_active_list q" "tq_next_id q' = tq_next_id q"
    by blast
  have e: "tq_prio_list q' = []" "tq_pend_list q' = []" using q'(2) by (simp_all add: todo_def)
  have "outstanding q' = {}" if "tq_delay_list q = [] \<and> tq_active_list q = []" using that e q' by (simp add: outstanding_alt)
  then have w: "tq_delay_list q = [] \<and> tq_active_list q = [] \<longrightarrow>
       taskq_wait_check q' \<and> taskq_wait_id_check i q' \<and> (i < tq_next_id q \<longrightarrow> taskq_wait_outstanding_check i q')"
    using q'(5) wait_check_empty [OF q'(1)] by simp
  have ids: "map tqt_id ws = map tqent_id (tq_prio_list q) @ map tqent_id (tq_pend_list q)"
    using arg_cong [OF l(2), of "map fst"] by (simp add: comp_def todo_def)
  have s: "sorted_wrt (<) (map tqent_id (tq_prio_list q))" "sorted_wrt (<) (map tqent_id (tq_pend_list q))"
    using inv by (simp_all add: taskq_inv_def lists_sorted_def sorted_by_def sorted_wrt_map)
  have "sorted_wrt (<) (map tqt_id (take (length (tq_prio_list q)) ws))" "sorted_wrt (<) (map tqt_id (drop (length (tq_prio_list q)) ws))"
    unfolding take_map [symmetric] drop_map [symmetric] ids using s by simp_all
  then show ?thesis using l e q' w by (intro exI [of _ ws] exI [of _ q']) (simp add: todo_def)
qed

text \<open>The queue of three tasks, the last of which is delayed.\<close>

theorem taskq_worker_drains_witness:
  "\<exists>ws q'. taskq_thread_loop True 4 0 [(\<lambda>_ r. r, id), (\<lambda>_ r. r, id)] 0 demo_q = (ws, q') \<and> map tqt_id ws = [2, 1] \<and> tq_prio_list q' = []"
proof -
  have d: "0 \<in> set (tq_thread_list demo_q)" "0 \<notin> tqt_thread ` set (tq_active_list demo_q)"
    "tq_prio_list demo_q @ tq_pend_list demo_q = [demo_ent 11 2 6, demo_ent 0 1 5]"
    by (simp_all add: demo_q_def demo_q0_def)
  define es where "es = [(\<lambda>_ r. r, id), (\<lambda>_ r. r, id) :: (taskq_thread \<Rightarrow> taskq \<Rightarrow> taskq) \<times> (taskq \<Rightarrow> taskq)]"
  have es: "length es = length (tq_prio_list demo_q @ tq_pend_list demo_q)" "\<And>e. e \<in> set es \<Longrightarrow> fst e = (\<lambda>_ r. r)"
    unfolding d(3) by (auto simp: es_def)
  from taskq_worker_drains [OF demo_in_use d(1,2) es, of True 4 0 0]
  obtain ws q' where l: "taskq_thread_loop True 4 0 es 0 demo_q = (ws, q')"
    "map (\<lambda>w. (tqt_id w, tqent_func (tqt_task w), tqent_arg (tqt_task w))) ws = [(2, Some 6, 0), (1, Some 5, 0)]" "tq_prio_list q' = []"
    unfolding d(3) by (auto simp: demo_ent_def)
  have "map tqt_id ws = map fst (map (\<lambda>w. (tqt_id w, tqent_func (tqt_task w), tqent_arg (tqt_task w))) ws)" by simp
  also have "\<dots> = [2, 1]" unfolding l(2) by simp
  finally have ids: "map tqt_id ws = [2, 1]" .
  show ?thesis by (intro exI [of _ ws] exI [of _ q'] conjI) (fact l(1) [unfolded es_def], fact ids, fact l(3))
qed

section \<open>Waiting for a queue\<close>

lemma wait_event_one: "P (e s) \<Longrightarrow> \<exists>s'. wait_event P [e] s = Some s' \<and> P s'"
  by auto

lemma worker_ends_waits:
  assumes "taskq_in_use q" "pid \<in> set (tq_thread_list q)" "tq_active_list q = []" "tq_delay_list q = []"
    "length es = length (tq_prio_list q @ tq_pend_list q)" "\<And>e. e \<in> set es \<Longrightarrow> fst e = (\<lambda>_ r. r)"
  shows "taskq_wait_check (snd (taskq_thread_loop dyn lim pid es sq q))" "taskq_wait_id_check i (snd (taskq_thread_loop dyn lim pid es sq q))"
    "i < tq_next_id q \<Longrightarrow> taskq_wait_outstanding_check i (snd (taskq_thread_loop dyn lim pid es sq q))"
proof -
  have inv: "taskq_inv q" using in_use_inv [OF assms(1)] by simp
  have "length es = length (todo q)" "pid \<notin> tqt_thread ` set (tq_active_list q)" using assms(3,5) by (simp_all add: todo_def)
  from loop_runs [OF inv assms(2) this(2,1) assms(6), of dyn lim sq] obtain ws q' where
    l: "taskq_thread_loop dyn lim pid es sq q = (ws, q')"
    and q': "taskq_inv q'" "todo q' = []" "tq_delay_list q' = tq_delay_list q" "tq_active_list q' = tq_active_list q" "tq_next_id q' = tq_next_id q"
    by blast
  then have "outstanding q' = {}" using assms(3,4) by (simp add: outstanding_alt todo_def)
  from wait_check_empty [OF q'(1) this] show "taskq_wait_check (snd (taskq_thread_loop dyn lim pid es sq q))"
    "taskq_wait_id_check i (snd (taskq_thread_loop dyn lim pid es sq q))"
    "i < tq_next_id q \<Longrightarrow> taskq_wait_outstanding_check i (snd (taskq_thread_loop dyn lim pid es sq q))"
    using l q'(5) by simp_all
qed

text \<open>Each of the three waits returns once a worker has run through the queue, if no task is delayed; \<^verbatim>\<open>taskq_wait_outstanding\<close> also if it is called with 0, for all
  tasks so far.\<close>

theorem taskq_waits_return:
  assumes "taskq_in_use q" "pid \<in> set (tq_thread_list q)" "tq_active_list q = []" "tq_delay_list q = []"
    "length es = length (tq_prio_list q @ tq_pend_list q)" "\<And>e. e \<in> set es \<Longrightarrow> fst e = (\<lambda>_ r. r)"
    "worker = (\<lambda>r. snd (taskq_thread_loop dyn lim pid es sq r))"
  shows "(\<exists>q'. taskq_wait [worker] q = Some q' \<and> taskq_wait_check q') \<and>
    (\<exists>q'. taskq_wait_id [worker] i q = Some q' \<and> taskq_wait_id_check i q') \<and>
    (taskq_wait_outstanding_id i q < tq_next_id q \<longrightarrow>
       (\<exists>q'. taskq_wait_outstanding [worker] i q = Some q' \<and> taskq_wait_outstanding_check (taskq_wait_outstanding_id i q) q'))"
  unfolding taskq_wait_def taskq_wait_id_def taskq_wait_outstanding_def
  using worker_ends_waits [OF assms(1-6), where dyn = dyn and lim = lim and sq = sq] assms(7) by (intro conjI impI wait_event_one) simp_all

section \<open>Creating workers\<close>

text \<open>\<open>kt\<close> and \<open>sig\<close> are as for \<open>spl_kthread_create\<close>.  The result is the thread, if any, the processor that was used last, and what is
  done to the thread; outer \<open>None\<close>: the function does not return.\<close>

datatype worker_call = Kthread_bind nat nat | Set_user_nice nat int | Wake_up_process nat

definition taskq_thread_create ::
  "(string \<Rightarrow> nat \<Rightarrow> errno + nat) \<Rightarrow> (nat \<Rightarrow> bool) \<Rightarrow> (int \<Rightarrow> int) \<Rightarrow> bool \<Rightarrow> bool \<Rightarrow> nat \<Rightarrow> string \<Rightarrow> int \<Rightarrow> nat \<Rightarrow> (nat option \<times> nat \<times> worker_call list) option" where
  "taskq_thread_create kt sig prio_to_nice spl_taskq_thread_bind spl_taskq_thread_priority ncpus name pri last_used_cpu =
     map_option (\<lambda>r. case r of
         None \<Rightarrow> (None, last_used_cpu, [])
       | Some t \<Rightarrow>
           let cpu = (if spl_taskq_thread_bind then (last_used_cpu + 1) mod ncpus else last_used_cpu)
           in (Some t, cpu, (if spl_taskq_thread_bind then [Kthread_bind t cpu] else []) @
                 (if spl_taskq_thread_priority then [Set_user_nice t (prio_to_nice pri)] else []) @ [Wake_up_process t]))
       (spl_kthread_create kt sig name)"

text \<open>The processors that successive workers are bound to: each in turn, so that as many workers as there are processors
  are on different ones.\<close>

fun bind_cpus :: "nat \<Rightarrow> nat \<Rightarrow> nat \<Rightarrow> nat list" where
  "bind_cpus ncpus c 0 = []"
| "bind_cpus ncpus c (Suc n) = ((c + 1) mod ncpus) # bind_cpus ncpus ((c + 1) mod ncpus) n"

lemma bind_cpus_nth: "bind_cpus n c k = map (\<lambda>i. (c + 1 + i) mod n) [0..<k]"
proof (induction k arbitrary: c)
  case (Suc k)
  have "((c + 1) mod n + 1 + i) mod n = (c + 1 + Suc i) mod n" for i
    using mod_add_left_eq [of "c + 1" n "1 + i"] by (simp add: add.assoc del: mod_add_left_eq)
  then have m: "map (\<lambda>i. ((c + 1) mod n + 1 + i) mod n) [0..<k] = map (\<lambda>i. (c + 1 + Suc i) mod n) [0..<k]" by simp
  have "bind_cpus n c (Suc k) = ((c + 1) mod n) # map (\<lambda>i. (c + 1 + Suc i) mod n) [0..<k]"
    unfolding bind_cpus.simps Suc.IH m ..
  also have "\<dots> = map (\<lambda>i. (c + 1 + i) mod n) [0..<Suc k]" by (simp add: map_upt_Suc del: upt_Suc)
  finally show ?case .
qed simp

lemma bind_cpus_distinct: "distinct (bind_cpus n c n)"
proof -
  have "inj_on (\<lambda>i. (c + 1 + i) mod n) {0..<n}"
  proof (rule inj_onI)
    fix i j
    assume "i \<in> {0..<n}" "j \<in> {0..<n}" "(c + 1 + i) mod n = (c + 1 + j) mod n"
    then show "i = j" using mod_add_inj [of "c + 1" i n j] by simp
  qed
  then show ?thesis unfolding bind_cpus_nth distinct_map by simp
qed

lemma taskq_thread_create_binds:
  assumes "spl_kthread_create kt sig name = Some (Some t)"
  shows "taskq_thread_create kt sig nice True pr n name pri c =
    Some (Some t, hd (bind_cpus n c 1), Kthread_bind t (hd (bind_cpus n c 1)) # (if pr then [Set_user_nice t (nice pri)] else []) @ [Wake_up_process t])"
  using assms by (simp add: taskq_thread_create_def Let_def)

section \<open>The queues of the module\<close>

datatype tq_call = Tsd_create | Taskq_create string int int u32 | Taskq_destroy string | Tsd_destroy

text \<open>\<open>ok\<close> says which queues can be created.\<close>

definition spl_taskq_init :: "(string \<Rightarrow> bool) \<Rightarrow> int \<Rightarrow> int \<times> tq_call list" where
  "spl_taskq_init ok boot_ncpus =
     (let fl = TASKQ_PREPOPULATE OR TASKQ_DYNAMIC;
          c0 = [Tsd_create, Taskq_create ''spl_system_taskq'' (max boot_ncpus 64) boot_ncpus fl]
      in if \<not> ok ''spl_system_taskq'' then (1, c0)
         else let c1 = c0 @ [Taskq_create ''spl_delay_taskq'' (max boot_ncpus 4) boot_ncpus fl]
              in if \<not> ok ''spl_delay_taskq'' then (1, c1 @ [Taskq_destroy ''spl_system_taskq''])
                 else let c2 = c1 @ [Taskq_create ''spl_dynamic_taskq'' 1 boot_ncpus TASKQ_PREPOPULATE]
                      in if \<not> ok ''spl_dynamic_taskq''
                         then (1, c2 @ [Taskq_destroy ''spl_system_taskq'', Taskq_destroy ''spl_delay_taskq''])
                         else (0, c2))"

definition spl_taskq_fini :: "tq_call list" where
  "spl_taskq_fini = [Taskq_destroy ''spl_dynamic_taskq'', Taskq_destroy ''spl_delay_taskq'', Taskq_destroy ''spl_system_taskq'', Tsd_destroy]"

text \<open>The queues that exist after some calls.\<close>

fun live_queues :: "(string \<Rightarrow> bool) \<Rightarrow> tq_call list \<Rightarrow> string set \<Rightarrow> string set" where
  "live_queues ok [] S = S"
| "live_queues ok (Taskq_create n _ _ _ # cs) S = live_queues ok cs (if ok n then insert n S else S)"
| "live_queues ok (Taskq_destroy n # cs) S = live_queues ok cs (S - {n})"
| "live_queues ok (_ # cs) S = live_queues ok cs S"

text \<open>All or nothing: after a failure no queue is left, after success all three exist, and finishing destroys them.\<close>

lemma taskq_init_all_or_nothing:
  "live_queues ok (snd (spl_taskq_init ok n)) {} =
     (if fst (spl_taskq_init ok n) = 0 then {''spl_system_taskq'', ''spl_delay_taskq'', ''spl_dynamic_taskq''} else {})"
  "live_queues ok spl_taskq_fini {''spl_system_taskq'', ''spl_delay_taskq'', ''spl_dynamic_taskq''} = {}"
  by (auto simp: spl_taskq_init_def spl_taskq_fini_def Let_def)

end
