(* ===== verification/Spl_Division.thy ===== *)
theory Spl_Division
  imports Spl_Prelude "HOL-Library.Signed_Division"
begin

text \<open>
  The 64-bit division of \<^verbatim>\<open>module/spl/spl-generic.c\<close> for 32-bit machines: the definitions follow
  the code on machine words, and the theorems compare them with the division of the mathematical
  integers.  Division by zero traps in the code and is excluded.
\<close>

section \<open>Unsigned division\<close>

definition nlz_step :: "u64 \<Rightarrow> nat \<Rightarrow> nat \<times> u64 \<Rightarrow> nat \<times> u64" where
  "nlz_step m s p = (case p of (n, x) \<Rightarrow> if x \<le> m then (n + s, push_bit s x) else (n, x))"

definition nlz64 :: "u64 \<Rightarrow> nat" where
  "nlz64 x =
     (if x = 0 then 64
      else fst (nlz_step 0x7FFFFFFFFFFFFFFF 1 (nlz_step 0x3FFFFFFFFFFFFFFF 2 (nlz_step 0x0FFFFFFFFFFFFFFF 4
             (nlz_step 0x00FFFFFFFFFFFFFF 8 (nlz_step 0x0000FFFFFFFFFFFF 16 (nlz_step 0x00000000FFFFFFFF 32 (0, x))))))))"

text \<open>\<^verbatim>\<open>do_div\<close> divides by a 32-bit value.\<close>

definition div_u64 :: "u64 \<Rightarrow> u32 \<Rightarrow> u64" where
  "div_u64 u v = u div ucast v"

definition udivdi3 :: "u64 \<Rightarrow> u64 \<Rightarrow> u64" where
  "udivdi3 u v =
     (if drop_bit 32 v = 0 then
        if drop_bit 32 u < v then div_u64 u (ucast v)
        else let u1 = drop_bit 32 u;
                 u0 = u AND 0xFFFFFFFF;
                 q1 = div_u64 u1 (ucast v);
                 k = u1 - q1 * v;
                 u0' = u0 + push_bit 32 k;
                 q0 = div_u64 u0' (ucast v)
             in push_bit 32 q1 + q0
      else let n = nlz64 v;
               v1 = drop_bit 32 (push_bit n v);
               u1 = drop_bit 1 u;
               q1 = div_u64 u1 (ucast v1);
               q0 = drop_bit 31 (push_bit n q1);
               q0' = (if q0 \<noteq> 0 then q0 - 1 else q0)
           in if u - q0' * v \<ge> v then q0' + 1 else q0')"

definition umoddi3 :: "u64 \<Rightarrow> u64 \<Rightarrow> u64" where
  "umoddi3 dividend divisor = dividend - divisor * udivdi3 dividend divisor"

text \<open>The quotient and, through the pointer, the remainder.\<close>

definition udivmoddi4 :: "u64 \<Rightarrow> u64 \<Rightarrow> u64 \<times> u64" where
  "udivmoddi4 n d = (let q = udivdi3 n d in (q, n - d * q))"

section \<open>Signed division\<close>

text \<open>The 64-bit words are read as signed by \<^const>\<open>sint\<close>; the shift of a signed value is arithmetic.\<close>

definition abs64 :: "u64 \<Rightarrow> u64" where
  "abs64 x = (let t = signed_drop_bit 63 x in (x XOR t) - t)"

definition divdi3 :: "u64 \<Rightarrow> u64 \<Rightarrow> u64" where
  "divdi3 u v =
     (let q = udivdi3 (abs64 u) (abs64 v);
          t = signed_drop_bit 63 (u XOR v)
      in (q XOR t) - t)"

definition divmoddi4 :: "u64 \<Rightarrow> u64 \<Rightarrow> u64 \<times> u64" where
  "divmoddi4 n d =
     (let nn = n <s 0; n1 = (if nn then - n else n);
          nd = d <s 0; d1 = (if nd then - d else d);
          (q, rr) = udivmoddi4 n1 d1
      in (if nn \<noteq> nd then - q else q, if nn then - rr else rr))"

text \<open>The ARM run-time interface: the four registers \<open>r0\<close> to \<open>r3\<close>.\<close>

definition aeabi_regs :: "u64 \<Rightarrow> u64 \<Rightarrow> u32 \<times> u32 \<times> u32 \<times> u32" where
  "aeabi_regs res md = (ucast (res AND 0xFFFFFFFF), ucast (drop_bit 32 res), ucast (md AND 0xFFFFFFFF), ucast (drop_bit 32 md))"

definition aeabi_uldivmod :: "u64 \<Rightarrow> u64 \<Rightarrow> u32 \<times> u32 \<times> u32 \<times> u32" where
  "aeabi_uldivmod u v = aeabi_regs (udivdi3 u v) (umoddi3 u v)"

definition aeabi_ldivmod :: "u64 \<Rightarrow> u64 \<Rightarrow> u32 \<times> u32 \<times> u32 \<times> u32" where
  "aeabi_ldivmod u v = aeabi_regs (divdi3 u v) (umoddi3 u v)"

section \<open>Words as naturals\<close>

lemma unat_u64: "unat (x :: u64) < 2 ^ 64"
  using unsigned_less [of x] by simp

lemma unat_drop: "unat (drop_bit n (x :: 'a::len word)) = unat x div 2 ^ n"
  unfolding unat_drop_bit_eq by (simp add: drop_bit_eq_div)

lemma unat_push:
  assumes "unat (x :: u64) * 2 ^ n < 2 ^ 64"
  shows "unat (push_bit n x) = unat x * 2 ^ n"
  unfolding unsigned_push_bit_eq using assms by (simp add: take_bit_nat_eq_self push_bit_eq_mult)

lemma unat_mul: "unat (x :: u64) * unat y < 2 ^ 64 \<Longrightarrow> unat (x * y) = unat x * unat y"
  by (simp add: unat_word_ariths)

lemma unat_add: "unat (x :: u64) + unat y < 2 ^ 64 \<Longrightarrow> unat (x + y) = unat x + unat y"
  by (simp add: unat_word_ariths)

lemma unat_div_u64: "unat v < 2 ^ 32 \<Longrightarrow> unat (div_u64 u (ucast v)) = unat u div unat (v :: u64)"
  by (simp add: div_u64_def unat_div unsigned_ucast_eq unsigned_take_bit_eq take_bit_nat_eq_self)

section \<open>Leading zeros\<close>

lemma nlz_step_ok:
  assumes m: "unat m + 1 = 2 ^ (64 - s)" and s: "s \<le> 32" and x: "2 ^ (64 - 2 * s) \<le> unat x" "unat x = unat v * 2 ^ n"
    and p: "nlz_step m s (n, x) = (n', x')"
  shows "2 ^ (64 - s) \<le> unat x' \<and> unat x' = unat v * 2 ^ n' \<and> n \<le> n'"
proof (cases "x \<le> m")
  case True
  then have l: "unat x < 2 ^ (64 - s)" using m by (simp add: word_le_nat_alt)
  have "unat x * 2 ^ s < 2 ^ (64 - s) * 2 ^ s" using l by simp
  also have "(2 :: nat) ^ (64 - s) * 2 ^ s = 2 ^ 64" using s by (simp flip: power_add)
  finally have u: "unat (push_bit s x) = unat x * 2 ^ s" by (rule unat_push)
  have "(2 :: nat) ^ (64 - s) = 2 ^ (64 - 2 * s) * 2 ^ s" using s by (simp flip: power_add)
  also have "\<dots> \<le> unat x * 2 ^ s" using x(1) by simp
  finally show ?thesis using p True u x(2) by (auto simp: nlz_step_def power_add)
next
  case False
  then have "2 ^ (64 - s) \<le> unat x" using m by (simp add: word_le_nat_alt)
  with p False x show ?thesis by (simp add: nlz_step_def)
qed

lemma nlz64_ok:
  assumes "v \<noteq> 0"
  shows "2 ^ 63 \<le> unat v * 2 ^ nlz64 v" and "unat v * 2 ^ nlz64 v < 2 ^ 64"
proof -
  obtain n1 x1 where 1: "nlz_step 0x00000000FFFFFFFF 32 (0, v) = (n1, x1)" by (rule prod.exhaust)
  obtain n2 x2 where 2: "nlz_step 0x0000FFFFFFFFFFFF 16 (n1, x1) = (n2, x2)" by (rule prod.exhaust)
  obtain n3 x3 where 3: "nlz_step 0x00FFFFFFFFFFFFFF 8 (n2, x2) = (n3, x3)" by (rule prod.exhaust)
  obtain n4 x4 where 4: "nlz_step 0x0FFFFFFFFFFFFFFF 4 (n3, x3) = (n4, x4)" by (rule prod.exhaust)
  obtain n5 x5 where 5: "nlz_step 0x3FFFFFFFFFFFFFFF 2 (n4, x4) = (n5, x5)" by (rule prod.exhaust)
  obtain n6 x6 where 6: "nlz_step 0x7FFFFFFFFFFFFFFF 1 (n5, x5) = (n6, x6)" by (rule prod.exhaust)
  have v: "2 ^ (64 - 2 * 32) \<le> unat v" "unat v = unat v * 2 ^ 0" using assms by (simp_all add: unat_gt_0 Suc_leI)
  note s1 = nlz_step_ok [OF _ _ v 1]
  then have a1: "2 ^ (64 - 2 * 16) \<le> unat x1" "unat x1 = unat v * 2 ^ n1" by simp_all
  from nlz_step_ok [OF _ _ this 2] have a2: "2 ^ (64 - 2 * 8) \<le> unat x2" "unat x2 = unat v * 2 ^ n2" by simp_all
  from nlz_step_ok [OF _ _ this 3] have a3: "2 ^ (64 - 2 * 4) \<le> unat x3" "unat x3 = unat v * 2 ^ n3" by simp_all
  from nlz_step_ok [OF _ _ this 4] have a4: "2 ^ (64 - 2 * 2) \<le> unat x4" "unat x4 = unat v * 2 ^ n4" by simp_all
  from nlz_step_ok [OF _ _ this 5] have a5: "2 ^ (64 - 2 * 1) \<le> unat x5" "unat x5 = unat v * 2 ^ n5" by simp_all
  from nlz_step_ok [OF _ _ this 6] have a6: "2 ^ 63 \<le> unat x6" "unat x6 = unat v * 2 ^ n6" by simp_all
  have "nlz64 v = n6" using assms by (simp only: nlz64_def 1 2 3 4 5 6 if_False fst_conv)
  with a6 unat_u64 [of x6] show "2 ^ 63 \<le> unat v * 2 ^ nlz64 v" "unat v * 2 ^ nlz64 v < 2 ^ 64" by simp_all
qed

section \<open>The estimate of the quotient\<close>

lemma div_estimate:
  fixes u v V r q :: nat
  assumes V: "V \<le> v" "0 < V" and r: "(u div v + 1) * (v - V) \<le> V"
  shows "u div v \<le> u div V \<and> u div V \<le> u div v + 1"
proof
  show "u div v \<le> u div V" using V by (simp add: div_le_mono2)
  show "u div V \<le> u div v + 1"
  proof (rule ccontr)
    let ?q = "u div v"
    assume "\<not> ?thesis"
    then have "?q + 2 \<le> u div V" by simp
    then have "(?q + 2) * V \<le> u" using V(2) by (simp add: less_eq_div_iff_mult_less_eq)
    moreover have "u < (?q + 1) * v" using V by (metis Suc_eq_plus1 dividend_less_div_times less_le_trans mult.commute mult_Suc)
    moreover have "(?q + 1) * v = (?q + 1) * V + (?q + 1) * (v - V)" using V(1) by (simp flip: distrib_left)
    ultimately have "(?q + 2) * V < (?q + 1) * V + V" using r by linarith
    then show False by (simp add: algebra_simps)
  qed
qed

lemma hd_div_bounds:
  fixes u v n :: nat
  assumes n: "2 ^ 63 \<le> v * 2 ^ n" "v * 2 ^ n < 2 ^ 64" and v: "2 ^ 32 \<le> v" and u: "u < 2 ^ 64"
  defines "v1 \<equiv> v * 2 ^ n div 2 ^ 32"
  shows "n \<le> 31" and "2 ^ 31 \<le> v1" and "v1 < 2 ^ 32"
    and "u div v \<le> (u div 2 div v1) * 2 ^ n div 2 ^ 31" and "(u div 2 div v1) * 2 ^ n div 2 ^ 31 \<le> u div v + 1"
proof -
  show n31: "n \<le> 31"
  proof (rule ccontr)
    assume "\<not> n \<le> 31"
    then have "(2 :: nat) ^ 32 \<le> 2 ^ n" by (intro power_increasing) auto
    with v have "2 ^ 32 * 2 ^ 32 \<le> v * 2 ^ n" by (rule mult_le_mono)
    with n(2) show False by simp
  qed
  show v1: "2 ^ 31 \<le> v1" "v1 < 2 ^ 32"
    using n unfolding v1_def by (auto simp: less_eq_div_iff_mult_less_eq less_mult_imp_div_less)
  let ?k = "31 - n" and ?V = "v1 * 2 ^ (32 - n)"
  have "v1 = v div 2 ^ (32 - n)"
  proof -
    have "(2 :: nat) ^ 32 = 2 ^ n * 2 ^ (32 - n)" using n31 by (simp flip: power_add)
    then show ?thesis unfolding v1_def by (simp only: mult.commute [of v] div_mult_mult1 power_not_zero zero_neq_numeral [symmetric] not_False_eq_True)
  qed
  then have Vv: "?V \<le> v" "v - ?V < 2 ^ (32 - n)"
    by (simp_all add: mult.commute minus_mult_div_eq_mod)
  have V0: "0 < ?V" using v1(1) by simp
  have q0: "(u div 2 div v1) * 2 ^ n div 2 ^ 31 = u div ?V"
  proof -
    have "(2 :: nat) ^ 31 = 2 ^ n * 2 ^ ?k" using n31 by (simp flip: power_add)
    then have "(u div 2 div v1) * 2 ^ n div 2 ^ 31 = (u div 2 div v1) div 2 ^ ?k"
      by (simp only: mult.commute [of _ "2 ^ n"] div_mult_mult1 power_not_zero zero_neq_numeral [symmetric] not_False_eq_True)
    also have "\<dots> = u div (2 * v1 * 2 ^ ?k)" by (simp add: div_mult2_eq)
    also have "2 * v1 * 2 ^ ?k = ?V"
    proof -
      have "32 - n = Suc ?k" using n31 by simp
      then show ?thesis by simp
    qed
    finally show ?thesis .
  qed
  have "(u div v + 1) * (v - ?V) \<le> ?V"
  proof -
    have "u div v < 2 ^ (n + 1)"
    proof -
      have "u < v * 2 ^ (n + 1)" using u n(1) by simp
      then show ?thesis by (simp add: less_mult_imp_div_less mult.commute)
    qed
    then have "u div v + 1 \<le> 2 ^ (n + 1)" by simp
    moreover have "v - ?V \<le> 2 ^ (32 - n) - 1" using Vv(2) by simp
    ultimately have "(u div v + 1) * (v - ?V) \<le> 2 ^ (n + 1) * (2 ^ (32 - n) - 1)" by (rule mult_le_mono)
    also have "\<dots> \<le> 2 ^ 31 * 2 ^ (32 - n)"
    proof (cases "n = 31")
      case True
      then show ?thesis by simp
    next
      case False
      then have "(2 :: nat) ^ (n + 1) \<le> 2 ^ 31" using n31 by (intro power_increasing) auto
      then show ?thesis by (intro mult_le_mono) auto
    qed
    also have "\<dots> \<le> ?V" using v1(1) by simp
    finally show ?thesis .
  qed
  from div_estimate [OF Vv(1) V0 this]
  show "u div v \<le> (u div 2 div v1) * 2 ^ n div 2 ^ 31" "(u div 2 div v1) * 2 ^ n div 2 ^ 31 \<le> u div v + 1"
    unfolding q0 by simp_all
qed

lemma div_by_halves:
  fixes u v :: nat
  assumes "0 < v"
  shows "u div v = (u div 2 ^ 32) div v * 2 ^ 32 + ((u div 2 ^ 32) mod v * 2 ^ 32 + u mod 2 ^ 32) div v"
proof -
  have "u = (v * (u div 2 ^ 32 div v) + u div 2 ^ 32 mod v) * 2 ^ 32 + u mod 2 ^ 32" by (simp only: mult_div_mod_eq div_mult_mod_eq)
  also have "\<dots> = v * (u div 2 ^ 32 div v * 2 ^ 32) + (u div 2 ^ 32 mod v * 2 ^ 32 + u mod 2 ^ 32)"
    by (simp only: distrib_right mult.assoc add.assoc)
  finally have "u div v = (v * (u div 2 ^ 32 div v * 2 ^ 32) + (u div 2 ^ 32 mod v * 2 ^ 32 + u mod 2 ^ 32)) div v"
    by (rule arg_cong [of _ _ "\<lambda>x. x div v"])
  then show ?thesis using div_mult_self4 [of v "u div 2 ^ 32 div v * 2 ^ 32"] assms by (metis less_numeral_extra(3))
qed

lemma of_nat_mod_diff: "(of_nat a :: u64) - of_nat (a div b) * of_nat b = of_nat (a mod b)"
  by (metis add_diff_cancel_left' div_mult_mod_eq of_nat_add of_nat_mult)

lemma udivdi3_small:
  assumes v: "v \<noteq> 0" "unat v < 2 ^ 32"
  shows "unat (udivdi3 u v) = unat u div unat v"
proof -
  have v0: "0 < unat v" using v(1) by (simp add: unat_gt_0)
  have d: "drop_bit 32 v = 0" using v(2) by (simp add: word_unat_eq_iff unat_drop)
  show ?thesis
  proof (cases "drop_bit 32 u < v")
    case True
    with d v(2) show ?thesis by (simp add: udivdi3_def unat_div_u64)
  next
    case False
    let ?u1 = "drop_bit 32 u" and ?u0 = "u AND 0xFFFFFFFF"
    let ?q1 = "div_u64 ?u1 (ucast v)"
    let ?k = "?u1 - ?q1 * v"
    have u1: "unat ?u1 = unat u div 2 ^ 32" by (rule unat_drop)
    have q1: "unat ?q1 = unat u div 2 ^ 32 div unat v" using v(2) by (simp add: unat_div_u64 u1)
    have "?q1 = word_of_nat (unat ?q1)" "?u1 = word_of_nat (unat ?u1)" by simp_all
    then have "?k = word_of_nat (unat ?u1) - word_of_nat (unat ?q1) * word_of_nat (unat v)" by simp
    then have "?k = word_of_nat (unat u div 2 ^ 32 mod unat v)"
      unfolding u1 q1 of_nat_mod_diff .
    moreover have kl: "unat u div 2 ^ 32 mod unat v < 2 ^ 32"
      using mod_less_divisor [OF v0, of "unat u div 2 ^ 32"] v(2) by (rule less_trans)
    ultimately have k: "unat ?k = unat u div 2 ^ 32 mod unat v" by (simp add: unat_of_nat)
    have u0: "unat ?u0 = unat u mod 2 ^ 32"
    proof -
      have "(0xFFFFFFFF :: u64) = mask 32" by (simp add: mask_eq_exp_minus_1)
      then have "?u0 = take_bit 32 u" by (simp only: take_bit_eq_mask)
      then show ?thesis by (simp only: unsigned_take_bit_eq) (simp only: take_bit_eq_mod)
    qed
    have pk: "unat (push_bit 32 ?k) = unat ?k * 2 ^ 32" using kl by (intro unat_push) (simp add: k)
    have "unat ?k * 2 ^ 32 + unat ?u0 < 2 ^ 64"
    proof -
      have "unat ?k + 1 \<le> 2 ^ 32" using kl k by simp
      then have "(unat ?k + 1) * 2 ^ 32 \<le> 2 ^ 32 * 2 ^ 32" by (rule mult_le_mono1)
      moreover have "unat ?u0 < 2 ^ 32" unfolding u0 by simp
      ultimately show ?thesis by simp
    qed
    then have s: "unat (?u0 + push_bit 32 ?k) = unat ?k * 2 ^ 32 + unat u mod 2 ^ 32"
      by (subst unat_add) (simp_all add: pk u0 add.commute)
    let ?q0 = "div_u64 (?u0 + push_bit 32 ?k) (ucast v)"
    have q0: "unat ?q0 = (unat u div 2 ^ 32 mod unat v * 2 ^ 32 + unat u mod 2 ^ 32) div unat v"
      using v(2) by (simp add: unat_div_u64 s k)
    have total: "unat u div unat v = unat ?q1 * 2 ^ 32 + unat ?q0" unfolding q0 q1 by (rule div_by_halves [OF v0])
    have "unat u div unat v < 2 ^ 64" using unat_u64 [of u] by (metis div_le_dividend le_less_trans)
    then have "unat (push_bit 32 ?q1) = unat ?q1 * 2 ^ 32" "unat ?q1 * 2 ^ 32 + unat ?q0 < 2 ^ 64"
      unfolding total by (simp_all add: unat_push)
    then have "unat (push_bit 32 ?q1 + ?q0) = unat u div unat v" unfolding total by (simp add: unat_add)
    with False d show ?thesis by (simp add: udivdi3_def Let_def)
  qed
qed

lemma udivdi3_large:
  assumes v: "2 ^ 32 \<le> unat v"
  shows "unat (udivdi3 u v) = unat u div unat v"
proof -
  let ?n = "nlz64 v" and ?q = "unat u div unat v"
  have v0: "v \<noteq> 0" using v by auto
  note n = nlz64_ok [OF v0]
  note B = hd_div_bounds [OF n v unat_u64 [of u]]
  let ?v1 = "drop_bit 32 (push_bit ?n v)" and ?u1 = "drop_bit 1 u"
  have v1: "unat ?v1 = unat v * 2 ^ ?n div 2 ^ 32" using unat_push [OF n(2)] by (simp add: unat_drop)
  have u1: "unat ?u1 = unat u div 2" unfolding unat_drop by simp
  let ?q1 = "div_u64 ?u1 (ucast ?v1)"
  have q1: "unat ?q1 = unat u div 2 div unat ?v1" using B(3) unat_div_u64 [of ?v1 ?u1] unfolding v1 u1 by blast
  have "unat ?q1 * 2 ^ ?n < 2 ^ 64"
  proof -
    have "unat u div 2 < unat ?v1 * 2 ^ 32" using unat_u64 [of u] B(2) unfolding v1 by simp
    then have "unat ?q1 < 2 ^ 32" unfolding q1 by (simp add: less_mult_imp_div_less mult.commute)
    moreover have "(2 :: nat) ^ ?n \<le> 2 ^ 32" using B(1) by (intro power_increasing) auto
    ultimately have "unat ?q1 * 2 ^ ?n < 2 ^ 32 * 2 ^ 32" by (intro mult_less_le_imp_less) auto
    then show ?thesis by simp
  qed
  then have q0: "unat (drop_bit 31 (push_bit ?n ?q1)) = unat u div 2 div unat ?v1 * 2 ^ ?n div 2 ^ 31"
    unfolding unat_drop [of 31] q1 [symmetric] by (simp only: unat_push)
  obtain q0' where q0': "q0' = drop_bit 31 (push_bit ?n ?q1)" by blast
  have E: "?q \<le> unat q0'" "unat q0' \<le> ?q + 1" using B(4,5) unfolding q0' q0 v1 by simp_all
  obtain w where w: "w = (if q0' \<noteq> 0 then q0' - 1 else q0')" by blast
  have W: "unat w = ?q \<or> unat w + 1 = ?q"
  proof (cases "q0' = 0")
    case True
    then show ?thesis using E(1) by (simp add: w)
  next
    case False
    then have "unat w = unat q0' - 1" "0 < unat q0'" by (simp_all add: w unat_minus_one unat_gt_0)
    then show ?thesis using E by linarith
  qed
  have le: "unat w * unat v \<le> unat u" 
  proof -
    have "unat w \<le> ?q" using W by linarith
    then have "unat w * unat v \<le> ?q * unat v" by (rule mult_le_mono1)
    also have "\<dots> \<le> unat u" by (rule div_times_less_eq_dividend)
    finally show ?thesis .
  qed
  have "unat (w * v) = unat w * unat v" using le unat_u64 [of u] by (intro unat_mul) simp
  then have d: "unat (u - w * v) = unat u - unat w * unat v" using le by (simp add: unat_sub word_le_nat_alt)
  have r: "udivdi3 u v = (if v \<le> u - w * v then w + 1 else w)"
  proof -
    have "drop_bit 32 v \<noteq> 0" using v by (metis div_greater_zero_iff less_irrefl unat_0 unat_drop zero_less_numeral zero_less_power)
    then show ?thesis unfolding udivdi3_def by (simp add: Let_def w q0')
  qed
  have v00: "0 < unat v" using v0 by (simp add: unat_gt_0)
  show ?thesis
  proof (cases "unat w = ?q")
    case True
    then have "unat (u - w * v) < unat v" using d v00 by (simp add: minus_div_mult_eq_mod)
    then show ?thesis using r True by (simp add: word_le_nat_alt)
  next
    case False
    with W have W1: "unat w + 1 = ?q" by simp
    have "(unat w + 1) * unat v \<le> unat u" unfolding W1 by (rule div_times_less_eq_dividend)
    then have "unat v \<le> unat (u - w * v)" unfolding d by (simp add: algebra_simps)
    then have "udivdi3 u v = w + 1" using r by (simp add: word_le_nat_alt)
    moreover have "unat w + unat (1 :: u64) < 2 ^ 64"
      using W1 unat_u64 [of u] by (simp add: le_less_trans [OF div_le_dividend])
    ultimately show ?thesis using W1 by (simp add: unat_add)
  qed
qed

lemma udivdi3_eq: "v \<noteq> 0 \<Longrightarrow> udivdi3 u v = u div v"
  using udivdi3_small [of v u] udivdi3_large [of v u] by (auto simp: word_unat_eq_iff unat_div not_less [symmetric])

section \<open>Signs\<close>

lemma sint_u64_bounds: "- (2 ^ 63) \<le> sint (x :: u64)" "sint (x :: u64) < 2 ^ 63"
  using sint_ge [of x] sint_lt [of x] by simp_all

lemma sign_mask: "signed_drop_bit 63 (x :: u64) = (if sint x < 0 then - 1 else 0)"
proof -
  have "bit x 63 \<longleftrightarrow> sint x < 0" using bit_last_iff [of x] by simp
  moreover have "signed_drop_bit 63 x = (if bit x 63 then - 1 else 0)"
    by (rule bit_word_eqI) (auto simp: bit_signed_drop_bit_iff not_le)
  ultimately show ?thesis by simp
qed

lemma negate_by_mask: "(x XOR (if b then - 1 else 0)) - (if b then - 1 else 0) = (if b then - x else (x :: u64))"
  by (cases b) (simp_all add: not_eq_complement)

lemma uint_abs64: "uint (abs64 x) = \<bar>sint x\<bar>"
proof -
  have "abs64 x = (if sint x < 0 then - x else x)" unfolding abs64_def Let_def sign_mask negate_by_mask ..
  then have "abs64 x = word_of_int \<bar>sint x\<bar>" by (auto simp: abs_if)
  moreover have "\<bar>sint x\<bar> < 2 ^ 64" using sint_u64_bounds [of x] by auto
  ultimately show ?thesis by (simp add: uint_word_of_int)
qed

lemma abs64_0: "abs64 v = 0 \<longleftrightarrow> v = 0"
proof -
  have "abs64 v = 0 \<longleftrightarrow> uint (abs64 v) = 0" by (simp add: unsigned_eq_0_iff)
  then show ?thesis unfolding uint_abs64 by (simp add: signed_eq_0_iff)
qed

lemma sign_xor: "u \<noteq> 0 \<Longrightarrow> v \<noteq> 0 \<Longrightarrow> sint (u XOR v :: u64) < 0 \<longleftrightarrow> sgn (sint u) * sgn (sint v) = - 1"
proof -
  assume nz: "u \<noteq> 0" "v \<noteq> 0"
  have "sint (u XOR v) < 0 \<longleftrightarrow> (sint u < 0) \<noteq> (sint v < 0)"
    using bit_last_iff [of "u XOR v"] bit_last_iff [of u] bit_last_iff [of v] by (simp add: bit_xor_iff)
  moreover have "sint u \<noteq> 0" "sint v \<noteq> 0" using nz by (simp_all add: signed_eq_0_iff)
  ultimately show ?thesis by (auto simp: sgn_if)
qed

lemma abs_quotient: "v \<noteq> 0 \<Longrightarrow> udivdi3 (abs64 u) (abs64 v) = word_of_int (\<bar>sint u\<bar> div \<bar>sint v\<bar>)"
  by (simp add: udivdi3_eq abs64_0 word_div_def uint_abs64)

lemma divdi3_eq:
  assumes "v \<noteq> 0"
  shows "divdi3 u v = word_of_int (sint u sdiv sint v)"
proof (cases "u = 0")
  case True
  then show ?thesis using assms by (simp add: divdi3_def Let_def abs_quotient sign_mask signed_divide_int_def)
next
  case False
  have "sgn (sint u) * sgn (sint v) = - 1 \<or> sgn (sint u) * sgn (sint v) = 1"
    using False assms by (auto simp: sgn_if signed_eq_0_iff)
  then show ?thesis unfolding divdi3_def Let_def sign_mask negate_by_mask abs_quotient [OF assms] sign_xor [OF False assms]
      signed_divide_int_def by (elim disjE) (simp_all del: of_int_mult)
qed

text \<open>C15: The unsigned 64-bit division routines compute exactly the quotient and the remainder, for
  every dividend and every nonzero divisor; the normalised estimate of the second case (``make q0
  correct or too small by 1'') is always correctable by one.\<close>

theorem udivdi3_correct:
  assumes "v \<noteq> 0"
  shows "udivdi3 u v = u div v \<and> umoddi3 u v = u mod v \<and> udivmoddi4 u v = (u div v, u mod v)"
  using udivdi3_eq [OF assms, of u] by (simp add: umoddi3_def udivmoddi4_def Let_def minus_mult_div_eq_mod)

theorem udivdi3_correct_witness:
  "udivdi3 0xFFFFFFFFFFFFFFFF 0x100000001 = 0xFFFFFFFF \<and> umoddi3 0xFFFFFFFFFFFFFFFF 0x100000001 = 0"
  using udivdi3_correct [of "0x100000001" "0xFFFFFFFFFFFFFFFF"] by simp

text \<open>The signed division routines truncate towards zero and the remainder has the sign of the
  dividend, as C requires; the one quotient that does not fit, the least integer divided by minus
  one, wraps around.\<close>

theorem divdi3_correct:
  assumes "v \<noteq> 0"
  shows "divdi3 u v = word_of_int (sint u sdiv sint v) \<and>
    divmoddi4 u v = (word_of_int (sint u sdiv sint v), word_of_int (sint u smod sint v))"
proof -
  have a: "(if x <s 0 then - x else x) = abs64 x" for x
    unfolding abs64_def Let_def sign_mask negate_by_mask by (simp add: word_sless_alt)
  have q: "udivmoddi4 (abs64 u) (abs64 v) = (word_of_int (\<bar>sint u\<bar> div \<bar>sint v\<bar>), word_of_int (\<bar>sint u\<bar> mod \<bar>sint v\<bar>))"
  proof -
    have "udivmoddi4 (abs64 u) (abs64 v) = (abs64 u div abs64 v, abs64 u mod abs64 v)"
      using udivdi3_eq [of "abs64 v" "abs64 u"] abs64_0 [of v] assms
      by (simp add: udivmoddi4_def Let_def minus_mult_div_eq_mod)
    then show ?thesis by (simp add: word_div_def word_mod_def uint_abs64)
  qed
  have "sint v \<noteq> 0" using assms by (simp add: signed_eq_0_iff)
  then have "divmoddi4 u v = (word_of_int (sint u sdiv sint v), word_of_int (sint u smod sint v))"
    unfolding divmoddi4_def Let_def a q prod.case
    by (auto simp: word_sless_alt signed_divide_int_def signed_modulo_int_def sgn_if)
  with divdi3_eq [OF assms] show ?thesis by blast
qed

theorem divdi3_correct_witness: "divdi3 (- 7) 2 = - 3 \<and> divmoddi4 (- 7) 2 = (- 3, - 1)"
  using divdi3_correct [of 2 "- 7"] by (simp add: signed_divide_int_def signed_modulo_int_def)

text \<open>The ARM entry point for signed division, \<open>__aeabi_ldivmod\<close>, returns the right quotient but
  the remainder of the unsigned division of the two bit patterns: for \<open>-7 / 2\<close> the registers hold
  the quotient \<open>-3\<close> and the remainder \<open>1\<close>, and \<open>-3 * 2 + 1\<close> is not \<open>-7\<close>.\<close>

theorem aeabi_ldivmod_remainder:
  "aeabi_ldivmod (- 7) 2 = aeabi_regs (- 3) 1 \<and> - 3 * 2 + 1 \<noteq> (- 7 :: u64)"
proof -
  have "umoddi3 (- 7) 2 = 1" unfolding umoddi3_def udivdi3_eq [of 2, simplified] minus_mult_div_eq_mod by simp
  then show ?thesis using divdi3_eq [of 2 "- 7"] by (simp add: aeabi_ldivmod_def signed_divide_int_def)
qed

end
