(* ===== verification/Spl_Random.thy ===== *)
theory Spl_Random
  imports Spl_Prelude
begin

text \<open>
  The pseudo random number generator of \<^verbatim>\<open>module/spl/spl-generic.c\<close>, xorshift128+: its state is the
  pair of words \<^verbatim>\<open>s[0], s[1]\<close>, one per CPU.  Shown: the state transition is a linear bijection that
  never reaches the degenerate zero state, the jump polynomial commutes with it, and the byte
  function returns the bytes asked for.
\<close>

section \<open>Definitions\<close>

type_synonym rand_state = "u64 \<times> u64"

definition spl_rand_next :: "rand_state \<Rightarrow> u64 \<times> rand_state" where
  "spl_rand_next s =
     (let s1 = fst s;
          s0 = snd s;
          s1' = s1 XOR push_bit 23 s1;
          r = s1' XOR s0 XOR drop_bit 18 s1' XOR drop_bit 5 s0
      in (r + s0, (s0, r)))"

definition JUMP :: "u64 list" where
  "JUMP = [0x8a5cd789635d2dff, 0x121fd2155c472f96]"

definition sxor :: "rand_state \<Rightarrow> rand_state \<Rightarrow> rand_state" where
  "sxor a b = (fst a XOR fst b, snd a XOR snd b)"

text \<open>The body of the inner loop for bit \<open>b\<close> of the jump word \<open>j\<close>; \<open>acc\<close> is the pair \<^verbatim>\<open>s0, s1\<close>.\<close>

definition jump_bit :: "u64 \<Rightarrow> nat \<Rightarrow> rand_state \<times> rand_state \<Rightarrow> rand_state \<times> rand_state" where
  "jump_bit j b p = (case p of (acc, s) \<Rightarrow> (if bit j b then sxor acc s else acc, snd (spl_rand_next s)))"

definition spl_rand_jump :: "rand_state \<Rightarrow> rand_state" where
  "spl_rand_jump s = fst (fold (\<lambda>j. fold (jump_bit j) [0..<64]) JUMP ((0, 0), s))"

text \<open>
  The bytes of a word in memory order (little endian), and the loop of
  \<^verbatim>\<open>random_get_pseudo_bytes\<close>: every word gives its first \<open>i\<close> bytes, last one first.
\<close>

definition le_bytes :: "u64 \<Rightarrow> u8 list" where
  "le_bytes w = map (\<lambda>i. ucast (drop_bit (8 * i) w)) [0..<8]"

function rand_bytes :: "nat \<Rightarrow> rand_state \<Rightarrow> u8 list \<times> rand_state" where
  "rand_bytes len s =
     (if len = 0 then ([], s)
      else let i = min len 8;
               (w, s1) = spl_rand_next s;
               (rest, s2) = rand_bytes (len - i) s1
           in (rev (take i (le_bytes w)) @ rest, s2))"
  by auto
termination by (relation "measure fst") auto

declare rand_bytes.simps [simp del]

definition random_get_pseudo_bytes :: "nat \<Rightarrow> nat \<Rightarrow> (nat \<Rightarrow> rand_state) \<Rightarrow> u8 list \<times> (nat \<Rightarrow> rand_state)" where
  "random_get_pseudo_bytes cpu len entropy = (let (bs, s) = rand_bytes len (entropy cpu) in (bs, entropy(cpu := s)))"

text \<open>
  The seeds: \<open>s\<close> is what \<^verbatim>\<open>get_random_bytes\<close> returned; the constant is the text
  \<^verbatim>\<open>improbable seed\<close> with its terminating zero as two little endian words.
\<close>

definition rand_seed :: "u64 \<Rightarrow> rand_state \<Rightarrow> rand_state" where
  "rand_seed jiffies s =
     (if fst s = 0 \<and> snd s = 0 then
        if jiffies \<noteq> 0 then (jiffies, - 1 - jiffies)
        else (0x6261626f72706d69, 0x006465657320656c)
      else s)"

fun random_init_cpus :: "nat list \<Rightarrow> rand_state \<Rightarrow> (nat \<Rightarrow> rand_state) \<Rightarrow> (nat \<Rightarrow> rand_state)" where
  "random_init_cpus [] s e = e"
| "random_init_cpus (c # cs) s e = (let s' = spl_rand_jump s in random_init_cpus cs s' (e(c := s')))"

definition spl_random_init :: "nat list \<Rightarrow> u64 \<Rightarrow> rand_state \<Rightarrow> (nat \<Rightarrow> rand_state) \<Rightarrow> (nat \<Rightarrow> rand_state)" where
  "spl_random_init cpus jiffies s e = random_init_cpus cpus (rand_seed jiffies s) e"

section \<open>The transition is a linear bijection\<close>

abbreviation rstep :: "rand_state \<Rightarrow> rand_state" where
  "rstep s \<equiv> snd (spl_rand_next s)"

lemma word_xor_eq_0: "x XOR y = 0 \<longleftrightarrow> x = (y :: 'a::len word)"
  by (auto simp: bit_eq_iff bit_xor_iff)

lemma xorshift_left_0: "x XOR push_bit k x = 0 \<Longrightarrow> 0 < k \<Longrightarrow> (x :: 'a::len word) = 0"
proof (rule bit_word_eqI)
  fix n
  assume e: "x XOR push_bit k x = 0" and k: "0 < k"
  then have x: "x = push_bit k x" by (simp only: word_xor_eq_0)
  have b: "bit x m \<Longrightarrow> k \<le> m \<and> bit x (m - k)" for m
  proof -
    assume "bit x m"
    then have "bit (push_bit k x) m" by (rule subst [OF x])
    then show ?thesis by (simp add: bit_push_bit_iff)
  qed
  have "\<not> bit x n"
  proof (induction n rule: less_induct)
    case (less n)
    then show ?case using b [of n] k by (meson diff_less less_le_trans)
  qed
  then show "bit x n = bit 0 n" by simp
qed

lemma xorshift_right_0: "x XOR drop_bit k x = 0 \<Longrightarrow> 0 < k \<Longrightarrow> (x :: 'a::len word) = 0"
proof (rule bit_word_eqI)
  fix n
  assume e: "x XOR drop_bit k x = 0" and k: "0 < k"
  then have x: "x = drop_bit k x" by (simp only: word_xor_eq_0)
  have b: "bit x m \<Longrightarrow> bit x (k + m)" for m
  proof -
    assume "bit x m"
    then have "bit (drop_bit k x) m" by (rule subst [OF x])
    then show ?thesis by (simp add: bit_drop_bit_eq)
  qed
  have "\<not> bit x n"
  proof (induction "LENGTH('a) - n" arbitrary: n rule: less_induct)
    case less
    show ?case
    proof (cases "n < LENGTH('a)")
      case True
      then have "LENGTH('a) - (k + n) < LENGTH('a) - n" using k by simp
      from less [OF this] show ?thesis using b [of n] by blast
    next
      case False
      then show ?thesis using bit_imp_le_length [of x n] by auto
    qed
  qed
  then show "bit x n = bit 0 n" by simp
qed

lemma sxor_simps [simp]: "sxor a (0, 0) = a" "sxor (0, 0) a = a" "sxor a a = (0, 0)"
  by (simp_all add: sxor_def prod_eq_iff)

lemma sxor_ac: "sxor (sxor a b) c = sxor a (sxor b c)" "sxor a b = sxor b a" "sxor a (sxor b c) = sxor b (sxor a c)"
  by (simp_all add: sxor_def ac_simps)

lemma sxor_eq_0: "sxor a b = (0, 0) \<longleftrightarrow> a = b"
  by (simp add: sxor_def prod_eq_iff word_xor_eq_0)

lemma rstep_linear: "rstep (sxor a b) = sxor (rstep a) (rstep b)"
  by (simp add: spl_rand_next_def sxor_def Let_def push_bit_xor drop_bit_xor ac_simps)

lemma rstep_eq_0: "rstep s = (0, 0) \<longleftrightarrow> s = (0, 0)"
proof
  assume z: "rstep s = (0, 0)"
  obtain a b where s: "s = (a, b)" by (rule prod.exhaust)
  from z have b: "b = 0" by (simp add: s spl_rand_next_def Let_def)
  let ?a = "a XOR push_bit 23 a"
  from z have "?a XOR drop_bit 18 ?a = 0" unfolding s b by (simp add: spl_rand_next_def Let_def)
  then have "?a = 0" by (rule xorshift_right_0) simp
  then have "a = 0" by (rule xorshift_left_0) simp
  with s b show "s = (0, 0)" by simp
qed (simp add: spl_rand_next_def)

lemma rstep_inj: "inj rstep"
proof (rule injI)
  fix a b
  assume "rstep a = rstep b"
  then have "rstep (sxor a b) = (0, 0)" by (simp add: rstep_linear)
  then show "a = b" by (simp add: rstep_eq_0 sxor_eq_0)
qed

lemma rstep_bij: "bij rstep"
  using rstep_inj finite_UNIV_inj_surj [OF _ rstep_inj] by (simp add: bij_def)

lemma jump_bit_step: "jump_bit j b (map_prod rstep rstep p) = map_prod rstep rstep (jump_bit j b p)"
  by (cases p) (simp add: jump_bit_def rstep_linear)

lemma jump_fold_step: "fold (jump_bit j) bs (map_prod rstep rstep p) = map_prod rstep rstep (fold (jump_bit j) bs p)"
  by (induction bs arbitrary: p) (simp_all add: jump_bit_step)

lemma jump_words_step:
  "fold (\<lambda>j. fold (jump_bit j) bs) js (map_prod rstep rstep p) = map_prod rstep rstep (fold (\<lambda>j. fold (jump_bit j) bs) js p)"
  by (induction js arbitrary: p) (simp_all add: jump_fold_step)

lemma jump_step: "spl_rand_jump (rstep s) = rstep (spl_rand_jump s)"
proof -
  have "rstep (0, 0) = (0, 0)" by (simp add: rstep_eq_0)
  then have "((0, 0), rstep s) = map_prod rstep rstep ((0, 0), s)" by simp
  then show ?thesis unfolding spl_rand_jump_def by (simp only: jump_words_step fst_map_prod)
qed

lemma length_rand_bytes: "length (fst (rand_bytes len s)) = len"
proof (induction len s rule: rand_bytes.induct)
  case (1 len s)
  show ?case
  proof (cases "len = 0")
    case True
    then show ?thesis by (simp add: rand_bytes.simps)
  next
    case False
    obtain w s1 where n: "spl_rand_next s = (w, s1)" by (rule prod.exhaust)
    have "length (fst (rand_bytes (len - min len 8) s1)) = len - min len 8" using 1 [OF False refl n [symmetric] refl] .
    then show ?thesis using False n by (simp add: rand_bytes.simps [of len] Let_def le_bytes_def case_prod_beta)
  qed
qed

lemma state_rand_bytes: "snd (rand_bytes len s) = (rstep ^^ ((len + 7) div 8)) s"
proof (induction len s rule: rand_bytes.induct)
  case (1 len s)
  show ?case
  proof (cases "len = 0")
    case True
    then show ?thesis by (simp add: rand_bytes.simps)
  next
    case False
    obtain w s1 where n: "spl_rand_next s = (w, s1)" by (rule prod.exhaust)
    have "snd (rand_bytes (len - min len 8) s1) = (rstep ^^ ((len - min len 8 + 7) div 8)) s1"
      using 1 [OF False refl n [symmetric] refl] .
    moreover have "(len + 7) div 8 = Suc ((len - min len 8 + 7) div 8)" using False by (cases "len \<le> 8") auto
    ultimately show ?thesis using False n funpow_swap1 [of rstep "(len - min len 8 + 7) div 8" s]
      by (simp add: rand_bytes.simps [of len] Let_def case_prod_beta)
  qed
qed

lemma rsteps_nonzero: "s \<noteq> (0, 0) \<Longrightarrow> (rstep ^^ n) s \<noteq> (0, 0)"
  by (induction n) (simp_all add: rstep_eq_0)

section \<open>Properties\<close>

text \<open>The generator step is a bijection on the 128-bit states (no two seeds ever merge), it keeps
  the states other than zero away from the degenerate zero state, where it would stay, and the
  jump that separates the per-CPU sequences commutes with it, so that a jumped seed yields the same
  sequence further along.\<close>

theorem spl_rand_next_bijective:
  "bij (\<lambda>s. snd (spl_rand_next s)) \<and> (snd (spl_rand_next s) = (0, 0) \<longleftrightarrow> s = (0, 0)) \<and>
   spl_rand_jump (snd (spl_rand_next s)) = snd (spl_rand_next (spl_rand_jump s))"
  using rstep_bij rstep_eq_0 jump_step by blast

text \<open>\<open>random_get_pseudo_bytes\<close> returns exactly \<open>len\<close> bytes, advances the state of the CPU it runs on
  by one step for every eight bytes begun and leaves the other CPUs alone; a state that is not
  zero stays so.  The first word returned gives its first eight bytes in reverse memory order.\<close>

theorem random_get_pseudo_bytes_spec:
  "case random_get_pseudo_bytes cpu len entropy of (bs, entropy') \<Rightarrow>
     length bs = len \<and> entropy' cpu = ((\<lambda>s. snd (spl_rand_next s)) ^^ ((len + 7) div 8)) (entropy cpu) \<and>
     (entropy cpu \<noteq> (0, 0) \<longrightarrow> entropy' cpu \<noteq> (0, 0)) \<and> (\<forall>c. c \<noteq> cpu \<longrightarrow> entropy' c = entropy c) \<and>
     (8 \<le> len \<longrightarrow> take 8 bs = rev (le_bytes (fst (spl_rand_next (entropy cpu)))))"
proof -
  obtain bs s where b: "rand_bytes len (entropy cpu) = (bs, s)" by (rule prod.exhaust)
  have l: "length bs = len" "s = (rstep ^^ ((len + 7) div 8)) (entropy cpu)"
    using length_rand_bytes [of len "entropy cpu"] state_rand_bytes [of len "entropy cpu"] by (simp_all add: b)
  have "take 8 bs = rev (le_bytes (fst (spl_rand_next (entropy cpu))))" if "8 \<le> len"
    using b that by (auto simp: rand_bytes.simps [of len] Let_def le_bytes_def min_def split: prod.splits if_splits)
  with l rsteps_nonzero [of "entropy cpu"] show ?thesis by (simp add: random_get_pseudo_bytes_def b)
qed

theorem random_get_pseudo_bytes_spec_witness:
  "length (fst (random_get_pseudo_bytes 0 12 (\<lambda>_. (1, 2)))) = 12 \<and>
   snd (random_get_pseudo_bytes 0 12 (\<lambda>_. (1, 2))) 0 \<noteq> (0, 0) \<and> snd (random_get_pseudo_bytes 0 12 (\<lambda>_. (1, 2))) 1 = (1, 2)"
  using random_get_pseudo_bytes_spec [where cpu = 0 and len = 12 and entropy = "\<lambda>_. (1, 2)"] by (auto split: prod.splits)

end
