(* ===== verification/Spl_Generic.thy ===== *)
theory Spl_Generic
  imports Spl_Prelude
begin

text \<open>
  The rest of \<^verbatim>\<open>module/spl/spl-generic.c\<close>: the number parsers \<^verbatim>\<open>ddi_strtoul\<close>, \<^verbatim>\<open>ddi_strtol\<close> (and their
  \<^verbatim>\<open>long long\<close> twins, which the same macros generate), the copy functions, the host id, and the
  initialisation of the module with its error unwinding.
\<close>

section \<open>Parsing numbers\<close>

text \<open>
  A C string is the list of its bytes before the terminating zero; the byte at a position past them
  is zero.  The character classes are those of the kernel's table (ASCII and Latin-1).
\<close>

definition str_at :: "u8 list \<Rightarrow> nat \<Rightarrow> u8" where
  "str_at s i = (if i < length s then s ! i else 0)"

definition isdigit :: "u8 \<Rightarrow> bool" where
  "isdigit c \<longleftrightarrow> 48 \<le> c \<and> c \<le> 57"

definition isupper :: "u8 \<Rightarrow> bool" where
  "isupper c \<longleftrightarrow> 65 \<le> c \<and> c \<le> 90 \<or> 192 \<le> c \<and> c \<le> 222 \<and> c \<noteq> 215"

definition islower :: "u8 \<Rightarrow> bool" where
  "islower c \<longleftrightarrow> 97 \<le> c \<and> c \<le> 122 \<or> 223 \<le> c \<and> c \<noteq> 247"

definition isalpha :: "u8 \<Rightarrow> bool" where
  "isalpha c \<longleftrightarrow> isupper c \<or> islower c"

definition isxdigit :: "u8 \<Rightarrow> bool" where
  "isxdigit c \<longleftrightarrow> isdigit c \<or> 65 \<le> c \<and> c \<le> 70 \<or> 97 \<le> c \<and> c \<le> 102"

definition tolower :: "u8 \<Rightarrow> u8" where
  "tolower c = (if isupper c then c + 32 else c)"

definition digit_of :: "u8 \<Rightarrow> int option" where
  "digit_of c = (if isdigit c then Some (uint c - 48) else if isalpha c then Some (uint (tolower c) - 97 + 10) else None)"

text \<open>The loop: the value and the rest of the string, or the overflow error.\<close>

fun strtou_loop :: "int \<Rightarrow> u64 \<Rightarrow> u8 list \<Rightarrow> errno + u64 \<times> u8 list" where
  "strtou_loop base value [] = Inr (value, [])"
| "strtou_loop base value (c # cs) =
     (case digit_of c of
        None \<Rightarrow> Inr (value, c # cs)
      | Some digit \<Rightarrow>
          if digit \<ge> base then Inr (value, c # cs)
          else let value' = value * word_of_int base + word_of_int digit
               in if value > value' then Inl ERANGE else strtou_loop base value' cs)"

text \<open>The base and the number of prefix characters to skip.\<close>

definition strtou_base :: "int \<Rightarrow> u8 list \<Rightarrow> (int \<times> nat) option" where
  "strtou_base base str =
     (if base \<noteq> 0 then Some (base, 0)
      else if str_at str 0 = 48 then
        if tolower (str_at str 1) = 120 \<and> isxdigit (str_at str 2) then Some (16, 2)
        else if str_at str 1 \<ge> 48 \<and> str_at str 1 < 8 then Some (8, 1)
        else None
      else Some (10, 0))"

text \<open>
  The result is the error, or the value and the position of \<^verbatim>\<open>*endptr\<close> in the string (\<^verbatim>\<open>flag\<close> is
  always 1).
\<close>

definition ddi_strtou :: "u8 list \<Rightarrow> int \<Rightarrow> errno + u64 \<times> nat" where
  "ddi_strtou str base =
     (if length str = 0 then Inl EINVAL
      else case strtou_base base str of
        None \<Rightarrow> Inl EINVAL
      | Some (b, k) \<Rightarrow>
          (case strtou_loop b 0 (drop k str) of
             Inl e \<Rightarrow> Inl e
           | Inr (value, rest) \<Rightarrow> Inr (value, length str - length rest)))"

text \<open>
  The signed version; \<open>has_end\<close> says whether the caller passed an \<^verbatim>\<open>endptr\<close>, and \<open>None\<close> is the null
  pointer dereference of the code if not.
\<close>

definition ddi_strto :: "bool \<Rightarrow> u8 list \<Rightarrow> int \<Rightarrow> (errno + u64 \<times> nat) option" where
  "ddi_strto has_end str base =
     (if str_at str 0 = 45 then
        (case ddi_strtou (drop 1 str) base of
           Inl e \<Rightarrow> Some (Inl e)
         | Inr (value, n) \<Rightarrow>
             if \<not> has_end then None
             else if n = 0 then Some (Inr (value, 0))
             else Some (Inr (- value, n + 1)))
      else Some (ddi_strtou str base))"

section \<open>Copying\<close>

definition FKIOCTL :: u32 where "FKIOCTL = 0x80000000"

text \<open>
  \<open>xcopy from to len\<close> is the kernel's \<^verbatim>\<open>copy_from_user\<close> or \<^verbatim>\<open>copy_to_user\<close>: the number of bytes it could not
  copy and the destination afterwards.
\<close>

type_synonym xcopy = "u8 list \<Rightarrow> u8 list \<Rightarrow> nat \<Rightarrow> nat \<times> u8 list"

definition memcpy_list :: "u8 list \<Rightarrow> u8 list \<Rightarrow> nat \<Rightarrow> u8 list" where
  "memcpy_list from to len = take len from @ drop len to"

definition copyin :: "xcopy \<Rightarrow> u8 list \<Rightarrow> u8 list \<Rightarrow> nat \<Rightarrow> int \<times> u8 list" where
  "copyin xcopyin from to len = (let (left, to') = xcopyin from to len in (if left \<noteq> 0 then - 1 else 0, to'))"

definition copyout :: "xcopy \<Rightarrow> u8 list \<Rightarrow> u8 list \<Rightarrow> nat \<Rightarrow> int \<times> u8 list" where
  "copyout xcopyout from to len = (let (left, to') = xcopyout from to len in (if left \<noteq> 0 then - 1 else 0, to'))"

text \<open>The return value, the destination and the value stored through \<^verbatim>\<open>done\<close>, an unsigned 64-bit number.\<close>

definition copyinstr :: "xcopy \<Rightarrow> u8 list \<Rightarrow> u8 list \<Rightarrow> nat \<Rightarrow> errno option \<times> u8 list \<times> u64 option" where
  "copyinstr xcopyin from to len =
     (if len = 0 then (Some ENAMETOOLONG, to, None)
      else let to1 = replicate len 0 @ drop len to;
               (rc, to2) = copyin xcopyin from to1 (len - 1)
           in (None, to2, Some (word_of_int rc)))"

definition ddi_copyin :: "xcopy \<Rightarrow> u8 list \<Rightarrow> u8 list \<Rightarrow> nat \<Rightarrow> u32 \<Rightarrow> int \<times> u8 list" where
  "ddi_copyin xcopyin from to len flags =
     (if flags AND FKIOCTL \<noteq> 0 then (0, memcpy_list from to len) else copyin xcopyin from to len)"

definition ddi_copyout :: "xcopy \<Rightarrow> u8 list \<Rightarrow> u8 list \<Rightarrow> nat \<Rightarrow> u32 \<Rightarrow> int \<times> u8 list" where
  "ddi_copyout xcopyout from to len flags =
     (if flags AND FKIOCTL \<noteq> 0 then (0, memcpy_list from to len) else copyout xcopyout from to len)"

section \<open>The host id\<close>

definition HW_HOSTID_MASK :: u32 where "HW_HOSTID_MASK = 0xFFFFFFFF"

definition le32 :: "u8 list \<Rightarrow> u32" where
  "le32 bs = ucast (bs ! 0) OR push_bit 8 (ucast (bs ! 1)) OR push_bit 16 (ucast (bs ! 2)) OR push_bit 24 (ucast (bs ! 3))"

text \<open>
  \<open>opened\<close> is the contents of the host id file, if it can be opened; \<open>fsize\<close> the result of
  \<^verbatim>\<open>kobj_get_filesize\<close>; \<open>rd\<close> the number of bytes read, if reading does not fail.  The variable
  read into was zero.
\<close>

definition hostid_read :: "u8 list option \<Rightarrow> errno + u64 \<Rightarrow> nat option \<Rightarrow> errno + u32" where
  "hostid_read opened fsize rd =
     (case opened of
        None \<Rightarrow> Inl ENOENT
      | Some contents \<Rightarrow>
          (case fsize of
             Inl e \<Rightarrow> Inl e
           | Inr n \<Rightarrow>
               if n < 4 then Inl EINVAL
               else (case rd of
                       None \<Rightarrow> Inl EIO
                     | Some k \<Rightarrow> Inr (le32 (take 4 (take k contents @ [0, 0, 0, 0])) AND HW_HOSTID_MASK))))"

definition zone_get_hostid :: "u64 \<Rightarrow> u8 list option \<Rightarrow> errno + u64 \<Rightarrow> nat option \<Rightarrow> u32" where
  "zone_get_hostid spl_hostid opened fsize rd =
     (if spl_hostid \<noteq> 0 then ucast (spl_hostid AND ucast HW_HOSTID_MASK)
      else case hostid_read opened fsize rd of Inr h \<Rightarrow> h | Inl _ \<Rightarrow> 0)"

section \<open>Initialisation\<close>

datatype subsys = S_KMEM | S_VMEM | S_MUTEX | S_RW | S_TSD | S_TASKQ | S_KMEM_CACHE | S_VN | S_PROC | S_KSTAT | S_ZLIB

datatype init_event = Init subsys | Fini subsys

text \<open>
  \<open>rc s\<close> is the result of the subsystem's init function (0 for success).  The result of the module's
  init function is its return value and what it initialised and finalised, in order.  A failed
  init function leaves its own subsystem uninitialised.
\<close>

definition try_init :: "(subsys \<Rightarrow> int) \<Rightarrow> subsys \<Rightarrow> (int \<times> init_event list) \<Rightarrow> (int \<times> init_event list) \<Rightarrow> int \<times> init_event list" where
  "try_init rc s fail next = (if rc s \<noteq> 0 then (rc s, snd fail) else (fst next, Init s # snd next))"

definition spl_kvmem_init :: "(subsys \<Rightarrow> int) \<Rightarrow> int \<times> init_event list" where
  "spl_kvmem_init rc =
     (if rc S_KMEM \<noteq> 0 then (rc S_KMEM, [])
      else if rc S_VMEM \<noteq> 0 then (rc S_VMEM, [Init S_KMEM, Fini S_KMEM])
      else (0, [Init S_KMEM, Init S_VMEM]))"

definition spl_kvmem_fini :: "init_event list" where
  "spl_kvmem_fini = [Fini S_VMEM, Fini S_KMEM]"

definition out2 :: "init_event list" where "out2 = spl_kvmem_fini"
definition out3 :: "init_event list" where "out3 = Fini S_MUTEX # out2"
definition out4 :: "init_event list" where "out4 = Fini S_RW # out3"
definition out5 :: "init_event list" where "out5 = Fini S_TSD # out4"
definition out6 :: "init_event list" where "out6 = Fini S_TASKQ # out5"
definition out7 :: "init_event list" where "out7 = Fini S_KMEM_CACHE # out6"
definition out8 :: "init_event list" where "out8 = Fini S_VN # out7"
definition out9 :: "init_event list" where "out9 = Fini S_PROC # out8"
definition out10 :: "init_event list" where "out10 = Fini S_KSTAT # out9"

definition spl_init :: "(subsys \<Rightarrow> int) \<Rightarrow> int \<times> init_event list" where
  "spl_init rc =
     (case spl_kvmem_init rc of (r, log) \<Rightarrow>
        if r \<noteq> 0 then (r, log)
        else let (r', rest) =
               try_init rc S_MUTEX (0, out2) (try_init rc S_RW (0, out3) (try_init rc S_TSD (0, out4)
                (try_init rc S_TASKQ (0, out5) (try_init rc S_KMEM_CACHE (0, out6) (try_init rc S_VN (0, out7)
                  (try_init rc S_PROC (0, out8) (try_init rc S_KSTAT (0, out9) (try_init rc S_ZLIB (0, out10) (0, [])))))))))
             in (r', log @ rest))"

definition spl_fini :: "init_event list" where
  "spl_fini = [Fini S_ZLIB, Fini S_KSTAT, Fini S_PROC, Fini S_VN, Fini S_KMEM_CACHE, Fini S_TASKQ, Fini S_TSD, Fini S_RW,
     Fini S_MUTEX] @ spl_kvmem_fini"

section \<open>The parsers on numbers that fit\<close>

lemma digit_of_nonneg: "digit_of c = Some d \<Longrightarrow> 0 \<le> d"
proof -
  assume d: "digit_of c = Some d"
  consider "isdigit c" | "isupper c" "\<not> isdigit c" | "\<not> isupper c" "islower c" "\<not> isdigit c"
    using d by (auto simp: digit_of_def isalpha_def split: if_splits)
  then show ?thesis
  proof cases
    case 1
    then show ?thesis using d by (auto simp: digit_of_def isdigit_def word_le_def)
  next
    case 2
    then have u: "uint c + 32 < 256" "65 \<le> uint c" by (auto simp: isupper_def word_le_def)
    then have "uint (c + 32) = uint c + 32" by (simp add: uint_word_ariths)
    with 2 d u show ?thesis by (auto simp: digit_of_def tolower_def isalpha_def)
  next
    case 3
    then have "97 \<le> uint c" by (auto simp: islower_def word_le_def)
    with 3 d show ?thesis by (auto simp: digit_of_def tolower_def isalpha_def)
  qed
qed

text \<open>The number a string of digits denotes.\<close>

definition digit_val :: "u8 \<Rightarrow> nat" where
  "digit_val c = (case digit_of c of Some d \<Rightarrow> nat d | None \<Rightarrow> 0)"

definition digits_val :: "nat \<Rightarrow> nat \<Rightarrow> u8 list \<Rightarrow> nat" where
  "digits_val b = foldl (\<lambda>a c. a * b + digit_val c)"

definition is_digit_in :: "int \<Rightarrow> u8 \<Rightarrow> bool" where
  "is_digit_in base c \<longleftrightarrow> (case digit_of c of Some d \<Rightarrow> d < base | None \<Rightarrow> False)"

lemma digits_val_simps [simp]: "digits_val b v [] = v" "digits_val b v (c # cs) = digits_val b (v * b + digit_val c) cs"
  by (simp_all add: digits_val_def)

lemma digits_val_mono: "1 \<le> b \<Longrightarrow> v \<le> digits_val b v cs"
proof (induction cs arbitrary: v)
  case (Cons c cs)
  have "v \<le> v * b + digit_val c" using Cons.prems by (simp add: trans_le_add1)
  also have "\<dots> \<le> digits_val b (v * b + digit_val c) cs" using Cons by blast
  finally show ?case by simp
qed simp

lemma strtou_loop_digits:
  assumes "1 \<le> b" "\<forall>c \<in> set cs. is_digit_in (int b) c" "digits_val b v cs < 2 ^ 64"
  shows "strtou_loop (int b) (of_nat v) (cs @ rest) = strtou_loop (int b) (of_nat (digits_val b v cs)) rest"
  using assms
proof (induction cs arbitrary: v)
  case (Cons c cs)
  obtain d where d: "digit_of c = Some d" "d < int b" using Cons.prems(2) by (auto simp: is_digit_in_def split: option.splits)
  have dv: "int (digit_val c) = d" using d digit_of_nonneg [OF d(1)] by (simp add: digit_val_def)
  let ?w = "v * b + digit_val c"
  have w: "(of_nat v :: u64) * word_of_int (int b) + word_of_int d = of_nat ?w" by (simp flip: dv)
  have l: "?w < 2 ^ 64" "v < 2 ^ 64"
  proof -
    show w64: "?w < 2 ^ 64" using Cons.prems(1,3) digits_val_mono [of b ?w cs] by simp
    have "v \<le> ?w" using Cons.prems(1) by (simp add: trans_le_add1)
    then show "v < 2 ^ 64" using w64 by simp
  qed
  then have "\<not> (of_nat v :: u64) > of_nat ?w" using Cons.prems(1)
    by (simp add: word_less_nat_alt unat_of_nat not_less trans_le_add1 del: of_nat_add of_nat_mult)
  moreover have "strtou_loop (int b) (of_nat ?w) (cs @ rest) = strtou_loop (int b) (of_nat (digits_val b ?w cs)) rest"
    using Cons.IH [of ?w] Cons.prems by (simp del: of_nat_add of_nat_mult)
  ultimately show ?case using d w by (simp add: Let_def del: of_nat_add of_nat_mult)
qed simp

lemma strtou_loop_stop: "rest = [] \<or> \<not> is_digit_in base (hd rest) \<Longrightarrow> strtou_loop base v rest = Inr (v, rest)"
  by (cases rest) (auto simp: is_digit_in_def split: option.splits)

lemma ddi_strtou_fits:
  assumes "str \<noteq> []" "strtou_base base str = Some (int b, k)" "1 \<le> b" "drop k str = cs @ rest"
    "\<forall>c \<in> set cs. is_digit_in (int b) c" "rest = [] \<or> \<not> is_digit_in (int b) (hd rest)" "digits_val b 0 cs < 2 ^ 64"
  shows "ddi_strtou str base = Inr (of_nat (digits_val b 0 cs), length str - length rest)"
  using assms strtou_loop_digits [OF assms(3,5,7), of rest] strtou_loop_stop [OF assms(6)]
  by (simp add: ddi_strtou_def)

lemma digits_val_zeros: "digits_val b v (replicate n 48) = v * b ^ n"
  by (induction n arbitrary: v) (simp_all add: digit_val_def digit_of_def isdigit_def)

section \<open>Initialisation as a stack discipline\<close>

text \<open>
  Running the events: an init pushes its subsystem, a fini must find its subsystem on top; \<open>None\<close> is
  a fini of a subsystem that is not initialised or that others may still use.
\<close>

fun run_events :: "init_event list \<Rightarrow> subsys list \<Rightarrow> subsys list option" where
  "run_events [] st = Some st"
| "run_events (Init s # es) st = (if s \<in> set st then None else run_events es (s # st))"
| "run_events (Fini s # es) [] = None"
| "run_events (Fini s # es) (t # st) = (if s = t then run_events es st else None)"

lemma run_events_append: "run_events (es @ fs) st = (case run_events es st of None \<Rightarrow> None | Some st' \<Rightarrow> run_events fs st')"
  by (induction es st rule: run_events.induct) auto

lemmas out_defs = out2_def out3_def out4_def out5_def out6_def out7_def out8_def out9_def out10_def spl_kvmem_fini_def

definition all_subsys :: "subsys list" where
  "all_subsys = [S_KMEM, S_VMEM, S_MUTEX, S_RW, S_TSD, S_TASKQ, S_KMEM_CACHE, S_VN, S_PROC, S_KSTAT, S_ZLIB]"

section \<open>Properties\<close>

text \<open>C16: Loading the module is all or nothing.  If every init function succeeds, \<open>spl_init\<close> returns 0
  with all subsystems initialised in order, and \<open>spl_fini\<close> then finalises each of them exactly once
  in reverse order.  If some fail, it returns the error of the first one that fails, nothing is
  left initialised, and at no point is a subsystem finalised that is not initialised or
  that is below a live one.\<close>

theorem spl_init_all_or_nothing:
  "case spl_init rc of (r, log) \<Rightarrow>
     (case find (\<lambda>s. rc s \<noteq> 0) all_subsys of
        None \<Rightarrow> r = 0 \<and> run_events log [] = Some (rev all_subsys) \<and> run_events (log @ spl_fini) [] = Some []
      | Some s \<Rightarrow> r = rc s \<and> r \<noteq> 0 \<and> run_events log [] = Some [])"
proof (cases "rc S_KMEM \<noteq> 0 \<or> rc S_VMEM \<noteq> 0")
  case True
  then show ?thesis by (auto simp: spl_init_def spl_kvmem_init_def all_subsys_def)
next
  case False
  then show ?thesis
    unfolding spl_init_def spl_kvmem_init_def try_init_def out_defs all_subsys_def spl_fini_def by simp
qed

text \<open>The unsigned parser on numbers that fit in 64 bits: if the prefix rules give base \<open>b\<close> and
  skip \<open>k\<close> characters, and digits of that base (of either case) with a value below \<open>2^64\<close>
  follow up to the end of the string or a character that is no digit, the call succeeds with
  exactly that value and the end pointer right behind the digits.  A minus sign negates the value
  for the signed parser, which dereferences the end pointer even if it is null.\<close>

theorem ddi_strtou_value:
  assumes "str \<noteq> []" and "strtou_base base str = Some (int b, k)" and "1 \<le> b" and "drop k str = cs @ rest"
    and "\<forall>c \<in> set cs. is_digit_in (int b) c" and "rest = [] \<or> \<not> is_digit_in (int b) (hd rest)"
    and "digits_val b 0 cs < 2 ^ 64"
  shows "ddi_strtou str base = Inr (of_nat (digits_val b 0 cs), length str - length rest) \<and>
    (cs \<noteq> [] \<longrightarrow> ddi_strto True (45 # str) base = Some (Inr (- of_nat (digits_val b 0 cs), 1 + length str - length rest))) \<and>
    ddi_strto False (45 # str) base = None"
proof -
  note f = ddi_strtou_fits [OF assms]
  have "length str - length rest \<noteq> 0 \<and> length rest \<le> length str" if "cs \<noteq> []"
  proof -
    have "length (drop k str) = length cs + length rest" using assms(4) by simp
    then have "length cs + length rest \<le> length str" by simp
    with that show ?thesis by (cases cs) auto
  qed
  then show ?thesis using f by (auto simp: ddi_strto_def str_at_def Suc_diff_le)
qed

text \<open>The string \<open>0x1aF;\<close> in base 0.\<close>

theorem ddi_strtou_value_witness:
  "ddi_strtou [48, 120, 49, 97, 70, 59] 0 = Inr (431, 5) \<and> ddi_strto True [45, 48, 120, 49, 97, 70, 59] 0 = Some (Inr (- 431, 6))"
proof -
  have d: "digit_of 49 = Some 1" "digit_of 97 = Some 10" "digit_of 70 = Some 15" "digit_of 59 = None"
    by (simp_all add: digit_of_def isdigit_def isalpha_def isupper_def islower_def tolower_def)
  then have "is_digit_in (int 16) 49" "is_digit_in (int 16) 97" "is_digit_in (int 16) 70" "\<not> is_digit_in (int 16) 59"
    "digits_val 16 0 [49, 97, 70] = 431" by (simp_all add: is_digit_in_def digit_val_def)
  moreover have "strtou_base 0 [48, 120, 49, 97, 70, 59] = Some (int 16, 2)"
    by (simp add: strtou_base_def str_at_def tolower_def isupper_def isxdigit_def isdigit_def)
  ultimately show ?thesis
    using ddi_strtou_value [of "[48, 120, 49, 97, 70, 59]" 0 16 2 "[49, 97, 70]" "[59]"] by simp
qed

text \<open>Three defects of the parsers.  With base 0, a string that starts with \<open>0\<close> and is not hexadecimal
  is always rejected (the test for an octal digit compares with the number 8 instead of the
  character), so neither \<open>010\<close> nor \<open>0\<close> itself can be parsed.  The overflow test misses wrap-arounds:
  \<open>30000000000000000000\<close> is accepted with a value that is off by \<open>2^64\<close>.  And a string with no digits
  at all is accepted with value 0.\<close>

theorem ddi_strtou_defects:
  "(str_at str 0 = 48 \<longrightarrow> \<not> (tolower (str_at str 1) = 120 \<and> isxdigit (str_at str 2)) \<longrightarrow> ddi_strtou str 0 = Inl EINVAL) \<and>
   ddi_strtou (51 # replicate 19 48) 10 = Inr (word_of_int (30000000000000000000 - 2 ^ 64), 20) \<and>
   ddi_strtou [59] 10 = Inr (0, 0)"
proof (intro conjI impI)
  assume z: "str_at str 0 = 48" "\<not> (tolower (str_at str 1) = 120 \<and> isxdigit (str_at str 2))"
  have "\<not> (str_at str 1 \<ge> 48 \<and> str_at str 1 < 8)" by (auto simp: word_le_def word_less_def)
  with z have "strtou_base 0 str = None" unfolding strtou_base_def by metis
  then show "ddi_strtou str 0 = Inl EINVAL" by (simp add: ddi_strtou_def)
next
  have d: "digit_of 51 = Some 3" "digit_of 48 = Some 0" by (simp_all add: digit_of_def isdigit_def)
  let ?cs = "51 # replicate 18 48 :: u8 list"
  have v: "digits_val 10 0 ?cs = 3 * 10 ^ 18" unfolding digits_val_simps digits_val_zeros using d by (simp add: digit_val_def)
  have "replicate (Suc 18) (48 :: u8) = replicate 18 48 @ [48]" by (simp only: replicate_append_same replicate_Suc)
  then have s: "51 # replicate 19 48 = ?cs @ [48 :: u8]" by simp
  have "strtou_loop (int 10) (of_nat 0) (?cs @ [48]) = strtou_loop (int 10) (of_nat (3 * 10 ^ 18)) [48]"
    using strtou_loop_digits [of 10 ?cs 0 "[48]"] d unfolding v by (simp add: is_digit_in_def)
  then show "ddi_strtou (51 # replicate 19 48) 10 = Inr (word_of_int (30000000000000000000 - 2 ^ 64), 20)"
    using d by (simp add: ddi_strtou_def strtou_base_def s)
next
  show "ddi_strtou [59] 10 = Inr (0, 0)"
    by (simp add: ddi_strtou_def strtou_base_def digit_of_def isdigit_def isalpha_def isupper_def islower_def)
qed

theorem ddi_strtou_defects_witness: "ddi_strtou [48, 49, 48] 0 = Inl EINVAL \<and> ddi_strtou [48] 0 = Inl EINVAL"
proof -
  have "\<not> (tolower (str_at [48, 49, 48] 1) = 120)" "\<not> (tolower (str_at [48] 1) = 120)"
    by (simp_all add: str_at_def tolower_def isupper_def)
  then show ?thesis using ddi_strtou_defects [of "[48, 49, 48]"] ddi_strtou_defects [of "[48]"] by (simp add: str_at_def)
qed

end
