(* ===== verification/Kmem_Cache.thy ===== *)
theory Kmem_Cache
  imports Kmem "HOL-Library.Tree"
begin

text \<open>
  The slab allocator, \<^verbatim>\<open>module/spl/spl-kmem-cache.c\<close> and \<^verbatim>\<open>include/spl/sys/kmem_cache.h\<close>.  A cache hands
  out objects of one size; they live on slabs, which are on the list of complete slabs
  when all their objects are out and else on the list of partial slabs, and every CPU has a
  magazine of objects that are out of their slab but not in use.  Each section of the code under
  \<open>skc_lock\<close> (or with interrupts disabled, for the magazine of the current CPU) is one function.
  The memory of slabs and objects is explicit: \<open>skc_slabs\<close> gives the header of the slab at an address
  and \<open>sko_slab\<close> the back pointer stored behind each object.  \<open>kv_live\<close> is the memory the cache holds from
  the kernel; it is not in the code.  Linux slab backed caches (\<open>KMC_SLAB\<close>) only pass calls on.
\<close>

section \<open>State\<close>

definition KMC_NOMAGAZINE :: u64 where "KMC_NOMAGAZINE = push_bit 2 1"
definition KMC_KMEM :: u64 where "KMC_KMEM = push_bit 5 1"
definition KMC_VMEM :: u64 where "KMC_VMEM = push_bit 6 1"
definition KMC_SLAB :: u64 where "KMC_SLAB = push_bit 7 1"
definition KMC_OFFSLAB :: u64 where "KMC_OFFSLAB = push_bit 8 1"
definition KMC_DEADLOCKED :: u64 where "KMC_DEADLOCKED = push_bit 14 1"
definition KMC_GROWING :: u64 where "KMC_GROWING = push_bit 15 1"
definition KMC_REAPING :: u64 where "KMC_REAPING = push_bit 16 1"
definition KMC_DESTROY :: u64 where "KMC_DESTROY = push_bit 17 1"

definition KMC_EXPIRE_AGE :: u32 where "KMC_EXPIRE_AGE = 0x1"
definition KMC_EXPIRE_MEM :: u32 where "KMC_EXPIRE_MEM = 0x2"

record spl_kmem_slab =
  sks_objs :: nat
  sks_ref :: nat
  sks_free_list :: "addr list"

text \<open>The array of a magazine holds \<open>skm_avail\<close> objects; the last one is the next to go out.\<close>

record spl_kmem_magazine =
  skm_objs :: "addr list"
  skm_size :: nat
  skm_refill :: nat
  skm_age :: u64

record spl_kmem_cache =
  skc_flags :: u64
  skc_obj_size :: u32
  skc_obj_align :: u32
  skc_slab_objs :: u32
  skc_slab_size :: u32
  skc_delay :: u64
  skc_mag :: "nat \<Rightarrow> spl_kmem_magazine"
  skc_complete_list :: "addr list"
  skc_partial_list :: "addr list"
  skc_slabs :: "addr \<Rightarrow> spl_kmem_slab"
  sko_slab :: "addr \<Rightarrow> addr option"
  skc_emergency_tree :: "addr tree"
  skc_slab_total :: int
  skc_slab_alloc :: int
  skc_slab_max :: int
  skc_obj_total :: int
  skc_obj_alloc :: int
  skc_obj_max :: int
  skc_obj_deadlock :: int
  skc_obj_emergency :: int
  skc_obj_emergency_max :: int
  kv_live :: "addr set"

section \<open>Sizes\<close>

definition P2ROUNDUP :: "u32 \<Rightarrow> u32 \<Rightarrow> u32" where
  "P2ROUNDUP x align = ((x - 1) OR (align - 1)) + 1"

text \<open>The sizes of the two C structures on a 64-bit machine, and the page size of the model.\<close>

definition sizeof_slab :: u32 where "sizeof_slab = 64"
definition sizeof_obj :: u32 where "sizeof_obj = 40"
definition PAGE_SIZE :: u32 where "PAGE_SIZE = 4096"
definition SPL_MAX_ORDER_NR_PAGES :: u32 where "SPL_MAX_ORDER_NR_PAGES = push_bit 7 1"

definition spl_sks_size :: "u32 \<Rightarrow> u32" where
  "spl_sks_size align = P2ROUNDUP sizeof_slab align"

definition spl_obj_size :: "u32 \<Rightarrow> u32 \<Rightarrow> u32" where
  "spl_obj_size obj_size align = P2ROUNDUP obj_size align + P2ROUNDUP sizeof_obj align"

text \<open>The number of objects and the size of a slab, or \<open>ENOSPC\<close>; \<open>per_slab\<close> and \<open>max_mb\<close> are tunables, and
  \<open>get_order\<close> is the kernel's function that gives the order of pages for a size.\<close>

definition spl_slab_size :: "(u32 \<Rightarrow> nat) \<Rightarrow> u32 \<Rightarrow> u32 \<Rightarrow> u64 \<Rightarrow> u32 \<Rightarrow> u32 \<Rightarrow> errno + u32 \<times> u32" where
  "spl_slab_size get_order per_slab max_mb flags osize align =
     (if has flags KMC_OFFSLAB then
        if has flags KMC_KMEM \<and> spl_obj_size osize align > SPL_MAX_ORDER_NR_PAGES * PAGE_SIZE then Inl ENOSPC
        else if per_slab = 0 then Inl ENOSPC
        else Inr (per_slab, P2ROUNDUP sizeof_slab PAGE_SIZE)
      else
        let sks_size = spl_sks_size align;
            obj_size = spl_obj_size osize align;
            max0 = max_mb * 1024 * 1024;
            tgt0 = per_slab * obj_size + sks_size;
            max_size = (if has flags KMC_KMEM then SPL_MAX_ORDER_NR_PAGES * PAGE_SIZE else max0);
            tgt1 = (if has flags KMC_KMEM then min max_size (PAGE_SIZE * push_bit (max (get_order tgt0 - 1) 1) 1) else tgt0);
            tgt_objs = (if tgt1 \<le> max_size then (tgt1 - sks_size) div obj_size else (max_size - sks_size) div obj_size);
            tgt_size = (if tgt1 \<le> max_size then tgt1 else tgt_objs * obj_size + sks_size)
        in if tgt_objs = 0 then Inl ENOSPC else Inr (tgt_objs, tgt_size))"

definition spl_magazine_size :: "u32 \<Rightarrow> u32 \<Rightarrow> nat" where
  "spl_magazine_size spl_kmem_cache_magazine_size obj_size =
     (if spl_kmem_cache_magazine_size > 0 then unat (max (min spl_kmem_cache_magazine_size 256) 2)
      else if obj_size > PAGE_SIZE * 256 then 4
      else if obj_size > PAGE_SIZE * 32 then 16
      else if obj_size > PAGE_SIZE then 64
      else if obj_size > PAGE_SIZE div 4 then 128
      else 256)"

section \<open>Slabs\<close>

definition upd_slab :: "addr \<Rightarrow> (spl_kmem_slab \<Rightarrow> spl_kmem_slab) \<Rightarrow> spl_kmem_cache \<Rightarrow> spl_kmem_cache" where
  "upd_slab s f c = c\<lparr>skc_slabs := (skc_slabs c)(s := f (skc_slabs c s))\<rparr>"

text \<open>
  The addresses of the objects of a slab: behind the slab header at \<open>base\<close>, or, off slab, what
  \<^verbatim>\<open>kv_alloc\<close> returns for each (\<open>None\<close> if it fails).
\<close>

definition slab_objects :: "spl_kmem_cache \<Rightarrow> addr \<Rightarrow> (nat \<Rightarrow> addr option) \<Rightarrow> addr option list" where
  "slab_objects c base off =
     map (\<lambda>i. if has (skc_flags c) KMC_OFFSLAB then off i
              else Some (base + unat (spl_sks_size (skc_obj_align c)) + i * unat (spl_obj_size (skc_obj_size c) (skc_obj_align c))))
       [0..<unat (skc_slab_objs c)]"

text \<open>
  On failure everything allocated so far is freed again, so that nothing changes; on success the
  slab header and the back pointers of its objects are set up.
\<close>

definition spl_slab_alloc :: "addr option \<Rightarrow> (nat \<Rightarrow> addr option) \<Rightarrow> spl_kmem_cache \<Rightarrow> addr option \<times> spl_kmem_cache" where
  "spl_slab_alloc kv off c =
     (case kv of
        None \<Rightarrow> (None, c)
      | Some base \<Rightarrow>
          let objs = slab_objects c base off in
          if None \<in> set objs then (None, c)
          else let os = map the objs;
                   sks = \<lparr>sks_objs = unat (skc_slab_objs c), sks_ref = 0, sks_free_list = os\<rparr>
               in (Some base, c\<lparr>skc_slabs := (skc_slabs c)(base := sks),
                     sko_slab := (\<lambda>a. if a \<in> set os then Some base else sko_slab c a),
                     kv_live := insert base (kv_live c) \<union> (if has (skc_flags c) KMC_OFFSLAB then set os else {})\<rparr>))"

text \<open>Taking an empty slab off the partial list, and giving its memory back.\<close>

definition spl_slab_free :: "addr \<Rightarrow> spl_kmem_cache \<Rightarrow> spl_kmem_cache" where
  "spl_slab_free s c =
     c\<lparr>skc_obj_total := skc_obj_total c - int (sks_objs (skc_slabs c s)),
       skc_slab_total := skc_slab_total c - 1,
       skc_partial_list := filter (\<lambda>t. t \<noteq> s) (skc_partial_list c)\<rparr>"

definition kv_free_slab :: "addr \<Rightarrow> spl_kmem_cache \<Rightarrow> spl_kmem_cache" where
  "kv_free_slab s c =
     (let os = set (sks_free_list (skc_slabs c s)) in
      c\<lparr>sko_slab := (\<lambda>a. if a \<in> os then None else sko_slab c a),
        kv_live := kv_live c - ({s} \<union> (if has (skc_flags c) KMC_OFFSLAB then os else {}))\<rparr>)"

text \<open>The empty slabs at the end of the partial list.\<close>

definition empty_tail :: "spl_kmem_cache \<Rightarrow> addr list" where
  "empty_tail c = takeWhile (\<lambda>s. \<not> sks_ref (skc_slabs c s) > 0) (rev (skc_partial_list c))"

definition spl_slab_reclaim :: "spl_kmem_cache \<Rightarrow> spl_kmem_cache" where
  "spl_slab_reclaim c = (let ss = empty_tail c in fold kv_free_slab ss (fold spl_slab_free ss c))"

section \<open>Emergency objects\<close>

text \<open>
  A search tree over addresses.  The kernel's rebalancing after an insertion and its removal of a
  node, \<^verbatim>\<open>rb_insert_color\<close> and \<^verbatim>\<open>rb_erase\<close>, are parameters.
\<close>

fun spl_emergency_search :: "addr tree \<Rightarrow> addr \<Rightarrow> addr option" where
  "spl_emergency_search Leaf a = None"
| "spl_emergency_search (Node l x r) a =
     (if a < x then spl_emergency_search l a else if a > x then spl_emergency_search r a else Some x)"

fun emergency_link :: "addr \<Rightarrow> addr tree \<Rightarrow> addr tree option" where
  "emergency_link a Leaf = Some (Node Leaf a Leaf)"
| "emergency_link a (Node l x r) =
     (if a < x then map_option (\<lambda>l'. Node l' x r) (emergency_link a l)
      else if a > x then map_option (\<lambda>r'. Node l x r') (emergency_link a r)
      else None)"

definition spl_emergency_insert :: "(addr tree \<Rightarrow> addr tree) \<Rightarrow> addr \<Rightarrow> addr tree \<Rightarrow> addr tree option" where
  "spl_emergency_insert rb_insert_color a t = map_option rb_insert_color (emergency_link a t)"

text \<open>\<open>ske\<close> says whether the tree node could be allocated; \<open>pages\<close> is the memory for the object.\<close>

definition spl_emergency_alloc ::
  "(addr tree \<Rightarrow> addr tree) \<Rightarrow> bool \<Rightarrow> addr option \<Rightarrow> spl_kmem_cache \<Rightarrow> (errno + addr) \<times> spl_kmem_cache" where
  "spl_emergency_alloc color ske pages c =
     (if skc_partial_list c \<noteq> [] then (Inl EEXIST, c)
      else if \<not> ske then (Inl ENOMEM, c)
      else case pages of
             None \<Rightarrow> (Inl ENOMEM, c)
           | Some a \<Rightarrow>
               (case spl_emergency_insert color a (skc_emergency_tree c) of
                  None \<Rightarrow> (Inl EINVAL, c)
                | Some t \<Rightarrow>
                    let c1 = c\<lparr>skc_emergency_tree := t, skc_obj_total := skc_obj_total c + 1,
                               skc_obj_emergency := skc_obj_emergency c + 1, kv_live := insert a (kv_live c)\<rparr>
                    in (Inr a, if skc_obj_emergency c1 > skc_obj_emergency_max c1
                               then c1\<lparr>skc_obj_emergency_max := skc_obj_emergency c1\<rparr> else c1)))"

definition spl_emergency_free :: "(addr \<Rightarrow> addr tree \<Rightarrow> addr tree) \<Rightarrow> addr \<Rightarrow> spl_kmem_cache \<Rightarrow> errno option \<times> spl_kmem_cache" where
  "spl_emergency_free rb_erase a c =
     (case spl_emergency_search (skc_emergency_tree c) a of
        None \<Rightarrow> (Some ENOENT, c)
      | Some x \<Rightarrow>
          (None, c\<lparr>skc_emergency_tree := rb_erase x (skc_emergency_tree c), skc_obj_emergency := skc_obj_emergency c - 1,
                   skc_obj_total := skc_obj_total c - 1, kv_live := kv_live c - {x}\<rparr>))"

section \<open>Objects and magazines\<close>

definition upd_mag :: "nat \<Rightarrow> (spl_kmem_magazine \<Rightarrow> spl_kmem_magazine) \<Rightarrow> spl_kmem_cache \<Rightarrow> spl_kmem_cache" where
  "upd_mag cpu f c = c\<lparr>skc_mag := (skc_mag c)(cpu := f (skc_mag c cpu))\<rparr>"

abbreviation skm_avail :: "spl_kmem_magazine \<Rightarrow> nat" where
  "skm_avail m \<equiv> length (skm_objs m)"

definition spl_cache_obj :: "addr \<Rightarrow> spl_kmem_cache \<Rightarrow> addr \<times> spl_kmem_cache" where
  "spl_cache_obj s c =
     (let obj = hd (sks_free_list (skc_slabs c s));
          c1 = upd_slab s (\<lambda>k. k\<lparr>sks_free_list := tl (sks_free_list k), sks_ref := sks_ref k + 1\<rparr>) c;
          c2 = c1\<lparr>skc_obj_alloc := skc_obj_alloc c1 + 1\<rparr>;
          c3 = (if skc_obj_alloc c2 > skc_obj_max c2 then c2\<lparr>skc_obj_max := skc_obj_alloc c2\<rparr> else c2);
          c4 = (if sks_ref (skc_slabs c3 s) = 1
                then let c' = c3\<lparr>skc_slab_alloc := skc_slab_alloc c3 + 1\<rparr>
                     in if skc_slab_alloc c' > skc_slab_max c' then c'\<lparr>skc_slab_max := skc_slab_alloc c'\<rparr> else c'
                else c3)
      in (obj, c4))"

definition spl_cache_shrink :: "addr \<Rightarrow> spl_kmem_cache \<Rightarrow> spl_kmem_cache" where
  "spl_cache_shrink obj c =
     (let s = the (sko_slab c obj);
          c1 = upd_slab s (\<lambda>k. k\<lparr>sks_free_list := obj # sks_free_list k, sks_ref := sks_ref k - 1\<rparr>) c;
          c2 = c1\<lparr>skc_obj_alloc := skc_obj_alloc c1 - 1\<rparr>;
          k = skc_slabs c2 s;
          c3 = (if sks_ref k = sks_objs k - 1
                then c2\<lparr>skc_complete_list := filter (\<lambda>t. t \<noteq> s) (skc_complete_list c2),
                        skc_partial_list := s # filter (\<lambda>t. t \<noteq> s) (skc_partial_list c2)\<rparr>
                else c2)
      in if sks_ref k = 0
         then c3\<lparr>skc_complete_list := filter (\<lambda>t. t \<noteq> s) (skc_complete_list c3),
                 skc_partial_list := filter (\<lambda>t. t \<noteq> s) (skc_partial_list c3) @ [s],
                 skc_slab_alloc := skc_slab_alloc c3 - 1\<rparr>
         else c3)"

definition spl_cache_flush :: "nat \<Rightarrow> nat \<Rightarrow> spl_kmem_cache \<Rightarrow> spl_kmem_cache" where
  "spl_cache_flush cpu flush c =
     (let os = skm_objs (skc_mag c cpu);
          count = min flush (length os)
      in upd_mag cpu (\<lambda>m. m\<lparr>skm_objs := drop count os\<rparr>) (fold spl_cache_shrink (take count os) c))"

text \<open>\<open>contended\<close>: the lock is held by the code that the interrupt stopped.\<close>

definition spl_magazine_age :: "u64 \<Rightarrow> u64 \<Rightarrow> bool \<Rightarrow> nat \<Rightarrow> spl_kmem_cache \<Rightarrow> spl_kmem_cache" where
  "spl_magazine_age HZ jiffies contended cpu c =
     (let m = skc_mag c cpu in
      if skm_avail m = 0 \<or> sint (jiffies - (skm_age m + skc_delay c * HZ)) < 0 \<or> contended then c
      else spl_cache_flush cpu (skm_refill m) c)"

definition spl_cache_age :: "u32 \<Rightarrow> u64 \<Rightarrow> u64 \<Rightarrow> (nat \<Rightarrow> bool) \<Rightarrow> nat list \<Rightarrow> spl_kmem_cache \<Rightarrow> spl_kmem_cache" where
  "spl_cache_age spl_kmem_cache_expire HZ jiffies contended cpus c =
     (if \<not> has spl_kmem_cache_expire KMC_EXPIRE_AGE then c
      else spl_slab_reclaim
             (if has (skc_flags c) KMC_NOMAGAZINE then c
              else fold (\<lambda>cpu. spl_magazine_age HZ jiffies (contended cpu) cpu) cpus c))"

section \<open>Growing\<close>

definition cache_grow :: "addr option \<Rightarrow> (nat \<Rightarrow> addr option) \<Rightarrow> spl_kmem_cache \<Rightarrow> bool \<times> spl_kmem_cache" where
  "cache_grow kv off c =
     (case spl_slab_alloc kv off c of
        (None, c1) \<Rightarrow> (False, c1)
      | (Some s, c1) \<Rightarrow>
          (True, c1\<lparr>skc_slab_total := skc_slab_total c1 + 1,
                    skc_obj_total := skc_obj_total c1 + int (sks_objs (skc_slabs c1 s)),
                    skc_partial_list := skc_partial_list c1 @ [s],
                    skc_flags := skc_flags c1 AND NOT KMC_DEADLOCKED\<rparr>))"

text \<open>The task that allocates a slab in the background.\<close>

definition spl_cache_grow_work :: "addr option \<Rightarrow> (nat \<Rightarrow> addr option) \<Rightarrow> spl_kmem_cache \<Rightarrow> spl_kmem_cache" where
  "spl_cache_grow_work kv off c =
     (let c1 = snd (cache_grow kv off c) in c1\<lparr>skc_flags := skc_flags c1 AND NOT KMC_GROWING\<rparr>)"

text \<open>
  What the kernel and the other threads do during one call of \<^verbatim>\<open>spl_cache_grow\<close>: \<open>ge_run\<close> is what other
  threads do once the lock is dropped and interrupts are on, \<open>ge_wait\<close> what they do while this thread
  sleeps.  The addresses that the kernel returns depend on the memory in use.
\<close>

record grow_env =
  ge_kv :: "spl_kmem_cache \<Rightarrow> addr option"
  ge_off :: "spl_kmem_cache \<Rightarrow> nat \<Rightarrow> addr option"
  ge_ska :: bool
  ge_ske :: bool
  ge_pages :: "spl_kmem_cache \<Rightarrow> addr option"
  ge_timeout :: bool
  ge_run :: "spl_kmem_cache \<Rightarrow> spl_kmem_cache"
  ge_wait :: "spl_kmem_cache \<Rightarrow> spl_kmem_cache"

text \<open>Success comes with an emergency object or with none; \<open>color\<close> is \<^verbatim>\<open>rb_insert_color\<close>.\<close>

definition spl_cache_grow ::
  "(addr tree \<Rightarrow> addr tree) \<Rightarrow> grow_env \<Rightarrow> spl_kmem_cache \<Rightarrow> (errno + addr option) \<times> spl_kmem_cache" where
  "spl_cache_grow color g c =
     (if has (skc_flags c) KMC_REAPING then (Inl EAGAIN, ge_wait g c)
      else let (ok, c1) = (if has (skc_flags c) KMC_VMEM then (False, c) else cache_grow (ge_kv g c) (ge_off g c) c) in
      if ok then (Inr None, c1)
      else if \<not> has (skc_flags c1) KMC_GROWING \<and> \<not> ge_ska g then (Inl ENOMEM, c1)
      else let c2 = c1\<lparr>skc_flags := skc_flags c1 OR KMC_GROWING\<rparr> in
      if has (skc_flags c2) KMC_DEADLOCKED then
        (case spl_emergency_alloc color (ge_ske g) (ge_pages g c2) c2 of
           (Inl e, c3) \<Rightarrow> (Inl e, c3)
         | (Inr a, c3) \<Rightarrow> (Inr (Some a), c3))
      else let c3 = ge_wait g c2
           in (Inl ENOMEM, if ge_timeout g \<and> has (skc_flags c3) KMC_GROWING
                           then c3\<lparr>skc_flags := skc_flags c3 OR KMC_DEADLOCKED, skc_obj_deadlock := skc_obj_deadlock c3 + 1\<rparr>
                           else c3))"

section \<open>Refilling, allocating and freeing\<close>

text \<open>Taking \<open>n\<close> objects from slab \<open>s\<close> into the magazine.\<close>

fun take_objs :: "nat \<Rightarrow> nat \<Rightarrow> addr \<Rightarrow> spl_kmem_cache \<Rightarrow> spl_kmem_cache" where
  "take_objs 0 cpu s c = c"
| "take_objs (Suc n) cpu s c =
     (let (obj, c1) = spl_cache_obj s c in take_objs n cpu s (upd_mag cpu (\<lambda>m. m\<lparr>skm_objs := skm_objs m @ [obj]\<rparr>) c1))"

text \<open>The body of the loop of \<^verbatim>\<open>spl_cache_refill\<close> for the first partial slab: how many objects it gave.\<close>

definition refill_from_slab :: "nat \<Rightarrow> nat \<Rightarrow> spl_kmem_cache \<Rightarrow> nat \<times> spl_kmem_cache" where
  "refill_from_slab cpu refill c =
     (let s = hd (skc_partial_list c);
          n = min refill (sks_objs (skc_slabs c s) - sks_ref (skc_slabs c s));
          c1 = take_objs n cpu s c
      in (n, if sks_ref (skc_slabs c1 s) = sks_objs (skc_slabs c1 s)
             then c1\<lparr>skc_partial_list := filter (\<lambda>t. t \<noteq> s) (skc_partial_list c1),
                     skc_complete_list := s # filter (\<lambda>t. t \<noteq> s) (skc_complete_list c1)\<rparr>
             else c1))"

text \<open>
  The loop, with at most \<open>fuel\<close> passes (\<open>None\<close> if they do not suffice); pass \<open>n\<close> grows the cache in
  the environment \<open>G n\<close>, and \<open>moved n\<close> says that the thread is on another CPU afterwards.
\<close>

fun refill_loop ::
  "nat \<Rightarrow> (addr tree \<Rightarrow> addr tree) \<Rightarrow> (nat \<Rightarrow> grow_env) \<Rightarrow> (nat \<Rightarrow> bool) \<Rightarrow> nat \<Rightarrow> nat \<Rightarrow> spl_kmem_cache \<Rightarrow>
   (addr option \<times> spl_kmem_cache) option" where
  "refill_loop 0 color G moved cpu refill c = (if refill = 0 then Some (None, c) else None)"
| "refill_loop (Suc fuel) color G moved cpu refill c =
     (if refill = 0 then Some (None, c)
      else if skc_partial_list c = [] then
        (case spl_cache_grow color (G fuel) (ge_run (G fuel) c) of
           (Inr (Some obj), c1) \<Rightarrow> Some (Some obj, c1)
         | (Inl e, c1) \<Rightarrow> Some (None, c1)
         | (Inr None, c1) \<Rightarrow>
             if moved fuel then Some (None, c1)
             else refill_loop fuel color G moved cpu (min refill (skm_size (skc_mag c1 cpu) - skm_avail (skc_mag c1 cpu))) c1)
      else let (n, c1) = refill_from_slab cpu refill c in refill_loop fuel color G moved cpu (refill - n) c1)"

definition spl_cache_refill ::
  "nat \<Rightarrow> (addr tree \<Rightarrow> addr tree) \<Rightarrow> (nat \<Rightarrow> grow_env) \<Rightarrow> (nat \<Rightarrow> bool) \<Rightarrow> nat \<Rightarrow> spl_kmem_cache \<Rightarrow>
   (addr option \<times> spl_kmem_cache) option" where
  "spl_cache_refill fuel color G moved cpu c =
     refill_loop fuel color G moved cpu
       (min (skm_refill (skc_mag c cpu)) (skm_size (skc_mag c cpu) - skm_avail (skc_mag c cpu))) c"

text \<open>
  One pass of \<^verbatim>\<open>spl_kmem_cache_alloc\<close> from \<^verbatim>\<open>restart\<close>: the object (\<open>Inr\<close>, null if \<open>None\<close>), or \<open>Inl\<close> for the
  jump back to \<^verbatim>\<open>restart\<close>.
\<close>

definition cache_alloc_pass ::
  "nat \<Rightarrow> (addr tree \<Rightarrow> addr tree) \<Rightarrow> (nat \<Rightarrow> grow_env) \<Rightarrow> (nat \<Rightarrow> bool) \<Rightarrow> u64 \<Rightarrow> km_flag \<Rightarrow> nat \<Rightarrow> spl_kmem_cache \<Rightarrow>
   ((unit + addr option) \<times> spl_kmem_cache) option" where
  "cache_alloc_pass fuel color G moved jiffies flags cpu c =
     (let os = skm_objs (skc_mag c cpu) in
      if os \<noteq> [] then Some (Inr (Some (last os)), upd_mag cpu (\<lambda>m. m\<lparr>skm_objs := butlast os, skm_age := jiffies\<rparr>) c)
      else case spl_cache_refill fuel color G moved cpu c of
             None \<Rightarrow> None
           | Some (obj, c1) \<Rightarrow>
               Some (if obj = None \<and> \<not> has flags KM_NOSLEEP then (Inl (), c1) else (Inr obj, c1)))"

text \<open>The passes: each pass \<open>i\<close> has its own environment and may run on another CPU.\<close>

fun cache_alloc_restart ::
  "nat \<Rightarrow> nat \<Rightarrow> (addr tree \<Rightarrow> addr tree) \<Rightarrow> (nat \<Rightarrow> nat \<Rightarrow> grow_env) \<Rightarrow> (nat \<Rightarrow> nat \<Rightarrow> bool) \<Rightarrow> u64 \<Rightarrow> km_flag \<Rightarrow> (nat \<Rightarrow> nat) \<Rightarrow>
   spl_kmem_cache \<Rightarrow> (addr option \<times> spl_kmem_cache) option" where
  "cache_alloc_restart 0 fuel color G moved jiffies flags cpu c = None"
| "cache_alloc_restart (Suc i) fuel color G moved jiffies flags cpu c =
     (case cache_alloc_pass fuel color (G i) (moved i) jiffies flags (cpu i) c of
        None \<Rightarrow> None
      | Some (Inr obj, c1) \<Rightarrow> Some (obj, c1)
      | Some (Inl _, c1) \<Rightarrow> cache_alloc_restart i fuel color G moved jiffies flags cpu c1)"

text \<open>The Linux slab: attempt \<open>i\<close> of \<^verbatim>\<open>kmem_cache_alloc\<close> gives \<open>slc i\<close>; a caller that may sleep tries again.\<close>

fun linux_slab_alloc :: "nat \<Rightarrow> (nat \<Rightarrow> addr option) \<Rightarrow> km_flag \<Rightarrow> addr option option" where
  "linux_slab_alloc 0 slc flags = None"
| "linux_slab_alloc (Suc i) slc flags =
     (if slc i = None \<and> \<not> has flags KM_NOSLEEP then linux_slab_alloc i slc flags else Some (slc i))"

text \<open>The whole function, up to the constructor, which the caller supplies.\<close>

definition spl_kmem_cache_alloc ::
  "nat \<Rightarrow> nat \<Rightarrow> (nat \<Rightarrow> addr option) \<Rightarrow> (addr tree \<Rightarrow> addr tree) \<Rightarrow> (nat \<Rightarrow> nat \<Rightarrow> grow_env) \<Rightarrow> (nat \<Rightarrow> nat \<Rightarrow> bool) \<Rightarrow> u64 \<Rightarrow>
   km_flag \<Rightarrow> (nat \<Rightarrow> nat) \<Rightarrow> spl_kmem_cache \<Rightarrow> (addr option \<times> spl_kmem_cache) option" where
  "spl_kmem_cache_alloc passes fuel slc color G moved jiffies flags cpu c =
     (if has (skc_flags c) KMC_SLAB then map_option (\<lambda>obj. (obj, c)) (linux_slab_alloc passes slc flags)
      else cache_alloc_restart passes fuel color G moved jiffies flags cpu c)"

definition cache_free_obj ::
  "(addr \<Rightarrow> addr tree \<Rightarrow> addr tree) \<Rightarrow> (addr \<Rightarrow> bool) \<Rightarrow> nat \<Rightarrow> addr \<Rightarrow> spl_kmem_cache \<Rightarrow> spl_kmem_cache" where
  "cache_free_obj rb_erase is_vmalloc_addr cpu obj c =
     (let (rc, c1) = (if \<not> is_vmalloc_addr obj \<and> skc_obj_emergency c > 0 then spl_emergency_free rb_erase obj c
                      else (Some ENOENT, c)) in
      if rc = None then c1
      else let m = skc_mag c1 cpu;
               full = (skm_avail m \<ge> skm_size m);
               c2 = (if full then spl_cache_flush cpu (skm_refill m) c1 else c1);
               c3 = upd_mag cpu (\<lambda>k. k\<lparr>skm_objs := skm_objs k @ [obj]\<rparr>) c2
           in if full then spl_slab_reclaim c3 else c3)"

text \<open>The whole function, after the destructor; an object of a Linux slab goes back there.\<close>

definition spl_kmem_cache_free ::
  "(addr \<Rightarrow> addr tree \<Rightarrow> addr tree) \<Rightarrow> (addr \<Rightarrow> bool) \<Rightarrow> nat \<Rightarrow> addr \<Rightarrow> spl_kmem_cache \<Rightarrow> spl_kmem_cache" where
  "spl_kmem_cache_free rb_erase is_vmalloc_addr cpu obj c =
     (if has (skc_flags c) KMC_SLAB then c else cache_free_obj rb_erase is_vmalloc_addr cpu obj c)"

section \<open>Reaping and destroying\<close>

text \<open>\<open>f\<close> is the client's reclaim callback, which may free objects; counters are unsigned.\<close>

function reap_reclaim :: "(spl_kmem_cache \<Rightarrow> spl_kmem_cache) \<Rightarrow> nat \<Rightarrow> spl_kmem_cache \<Rightarrow> spl_kmem_cache" where
  "reap_reclaim f objects c =
     (if skc_slab_total c > 0 \<and> skc_slab_total c - skc_slab_alloc c = 0 \<and> nat (skc_obj_alloc c) < objects
      then reap_reclaim f (nat (skc_obj_alloc c)) (f c) else c)"
  by auto
termination by (relation "measure (\<lambda>(f, objects, c). objects)") auto

declare reap_reclaim.simps [simp del]

definition spl_kmem_cache_reap_now ::
  "u32 \<Rightarrow> (spl_kmem_cache \<Rightarrow> spl_kmem_cache) option \<Rightarrow> nat \<Rightarrow> spl_kmem_cache \<Rightarrow> spl_kmem_cache" where
  "spl_kmem_cache_reap_now spl_kmem_cache_expire reclaim cpu c =
     (if has (skc_flags c) KMC_SLAB then (case reclaim of Some f \<Rightarrow> f c | None \<Rightarrow> c)
      else if has (skc_flags c) KMC_REAPING then c
      else let c1 = c\<lparr>skc_flags := skc_flags c OR KMC_REAPING\<rparr>;
               c2 = (case reclaim of Some f \<Rightarrow> reap_reclaim f (2 ^ 64 - 1) c1 | None \<Rightarrow> c1);
               c3 = (if has spl_kmem_cache_expire KMC_EXPIRE_MEM then spl_cache_flush cpu (skm_avail (skc_mag c2 cpu)) c2 else c2);
               c4 = spl_slab_reclaim c3
           in c4\<lparr>skc_flags := skc_flags c4 AND NOT KMC_REAPING\<rparr>)"

definition spl_magazine_destroy :: "nat list \<Rightarrow> spl_kmem_cache \<Rightarrow> spl_kmem_cache" where
  "spl_magazine_destroy cpus c =
     (if has (skc_flags c) KMC_NOMAGAZINE then c
      else fold (\<lambda>cpu c. spl_cache_flush cpu (skm_avail (skc_mag c cpu)) c) cpus c)"

text \<open>
  \<^verbatim>\<open>spl_kmem_cache_destroy\<close>, with the wait for other callers done: \<open>None\<close> is the failed check of a second destroy.
\<close>

definition spl_kmem_cache_destroy :: "nat list \<Rightarrow> spl_kmem_cache \<Rightarrow> spl_kmem_cache option" where
  "spl_kmem_cache_destroy cpus c =
     (if has (skc_flags c) KMC_DESTROY then None
      else let c1 = c\<lparr>skc_flags := skc_flags c OR KMC_DESTROY\<rparr>
           in Some (if has (skc_flags c1) (KMC_KMEM OR KMC_VMEM) then spl_slab_reclaim (spl_magazine_destroy cpus c1) else c1))"

text \<open>The assertions at its end.\<close>

definition destroy_asserts :: "spl_kmem_cache \<Rightarrow> bool" where
  "destroy_asserts c \<longleftrightarrow> skc_slab_alloc c = 0 \<and> skc_obj_alloc c = 0 \<and> skc_slab_total c = 0 \<and> skc_obj_total c = 0 \<and>
     skc_obj_emergency c = 0 \<and> skc_complete_list c = []"

text \<open>
  The shrinker, with \<^verbatim>\<open>HAVE_SPLIT_SHRINKER_CALLBACK\<close>: \<open>reap\<close> is what \<^verbatim>\<open>spl_kmem_cache_reap_now\<close> does to each
  cache; \<open>None\<close> is \<^verbatim>\<open>SHRINK_STOP\<close>.  The total is kept in a 32-bit \<^verbatim>\<open>int\<close>.
\<close>

definition spl_kmem_cache_generic_shrinker ::
  "bool \<Rightarrow> bool \<Rightarrow> (spl_kmem_cache \<Rightarrow> spl_kmem_cache) \<Rightarrow> u64 \<Rightarrow> spl_kmem_cache list \<Rightarrow> int option \<times> spl_kmem_cache list" where
  "spl_kmem_cache_generic_shrinker fstrans reclaim_once reap nr_to_scan cs =
     (if nr_to_scan \<noteq> 0 \<and> fstrans then (None, cs)
      else let cs1 = (if nr_to_scan \<noteq> 0 then map reap cs else cs);
               total = (if nr_to_scan \<noteq> 0
                        then (\<Sum>(c, c1) \<leftarrow> zip cs cs1. if skc_obj_alloc c > skc_obj_alloc c1 then skc_obj_alloc c - skc_obj_alloc c1 else 0)
                        else (\<Sum>c \<leftarrow> cs. skc_obj_alloc c));
               alloc = (of_int total :: u32)
           in (if reclaim_once \<and> nr_to_scan \<noteq> 0 then None else Some (max (sint alloc) 0), cs1))"

definition KMC_REAP_CHUNK :: u64 where "KMC_REAP_CHUNK = 0x7FFFFFFF"

definition spl_kmem_reap ::
  "bool \<Rightarrow> bool \<Rightarrow> (spl_kmem_cache \<Rightarrow> spl_kmem_cache) \<Rightarrow> spl_kmem_cache list \<Rightarrow> spl_kmem_cache list" where
  "spl_kmem_reap fstrans reclaim_once reap cs = snd (spl_kmem_cache_generic_shrinker fstrans reclaim_once reap KMC_REAP_CHUNK cs)"

section \<open>Creating\<close>

definition SPL_KMEM_CACHE_ALIGN :: u32 where "SPL_KMEM_CACHE_ALIGN = 8"
definition SPL_KMEM_CACHE_DELAY :: u64 where "SPL_KMEM_CACHE_DELAY = 15"

text \<open>The module parameters.\<close>

record kmem_tunables =
  spl_kmem_cache_obj_per_slab :: u32
  spl_kmem_cache_max_size :: u32
  spl_kmem_cache_magazine_size :: u32
  spl_kmem_cache_slab_limit :: u32
  spl_kmem_cache_kmem_limit :: u32

text \<open>The kind of cache, if none was asked for.\<close>

definition cache_kind :: "kmem_tunables \<Rightarrow> u64 \<Rightarrow> u32 \<Rightarrow> u64 \<Rightarrow> u64" where
  "cache_kind tun sz align flags =
     (if has flags (KMC_KMEM OR KMC_VMEM OR KMC_SLAB) then flags
      else if spl_kmem_cache_slab_limit tun \<noteq> 0 \<and> sz \<le> ucast (spl_kmem_cache_slab_limit tun) then flags OR KMC_SLAB
      else if spl_obj_size (ucast sz) align \<le> spl_kmem_cache_kmem_limit tun then flags OR KMC_KMEM
      else flags OR KMC_VMEM)"

text \<open>Magazines of the size \<open>n\<close>; a cache without magazines has none of them.\<close>

definition spl_magazine_create :: "kmem_tunables \<Rightarrow> u64 \<Rightarrow> spl_kmem_cache \<Rightarrow> spl_kmem_cache" where
  "spl_magazine_create tun jiffies c =
     (if has (skc_flags c) KMC_NOMAGAZINE then c
      else let n = spl_magazine_size (spl_kmem_cache_magazine_size tun) (spl_obj_size (skc_obj_size c) (skc_obj_align c))
           in c\<lparr>skc_mag := (\<lambda>_. \<lparr>skm_objs = [], skm_size = n, skm_refill = (n + 1) div 2, skm_age = jiffies\<rparr>)\<rparr>)"

definition new_cache :: "u64 \<Rightarrow> u32 \<Rightarrow> u32 \<Rightarrow> spl_kmem_cache" where
  "new_cache flags sz align =
     \<lparr>skc_flags = flags, skc_obj_size = sz, skc_obj_align = align, skc_slab_objs = 0, skc_slab_size = 0,
      skc_delay = SPL_KMEM_CACHE_DELAY, skc_mag = (\<lambda>_. \<lparr>skm_objs = [], skm_size = 0, skm_refill = 0, skm_age = 0\<rparr>),
      skc_complete_list = [], skc_partial_list = [], skc_slabs = (\<lambda>_. \<lparr>sks_objs = 0, sks_ref = 0, sks_free_list = []\<rparr>),
      sko_slab = (\<lambda>_. None), skc_emergency_tree = Leaf, skc_slab_total = 0, skc_slab_alloc = 0, skc_slab_max = 0,
      skc_obj_total = 0, skc_obj_alloc = 0, skc_obj_max = 0, skc_obj_deadlock = 0, skc_obj_emergency = 0,
      skc_obj_emergency_max = 0, kv_live = {}\<rparr>"

datatype create_result = Verify_failed | Null_cache | Cache spl_kmem_cache

text \<open>
  \<open>mem\<close> says that the kernel's allocations for the structure and its name succeed, \<open>mags\<close> that those for
  the magazines, or for the Linux slab, do, \<open>max_kmem\<close> is the largest object of a Linux slab.  The object size is stored in 32 bits.
\<close>

definition spl_kmem_cache_create ::
  "(u32 \<Rightarrow> nat) \<Rightarrow> kmem_tunables \<Rightarrow> bool \<Rightarrow> bool \<Rightarrow> u64 \<Rightarrow> u64 \<Rightarrow> u64 \<Rightarrow> u64 \<Rightarrow> u64 \<Rightarrow> create_result" where
  "spl_kmem_cache_create get_order tun mem mags max_kmem jiffies sz align flags =
     (if \<not> mem then Null_cache
      else if align \<noteq> 0 \<and> \<not> (align AND (align - 1) = 0 \<and> ucast SPL_KMEM_CACHE_ALIGN \<le> align \<and> align \<le> ucast PAGE_SIZE) then Verify_failed
      else let al = (if align = 0 then SPL_KMEM_CACHE_ALIGN else ucast align);
               c = new_cache (cache_kind tun sz al flags) (ucast sz) al
           in if has (skc_flags c) (KMC_KMEM OR KMC_VMEM) then
                (case spl_slab_size get_order (spl_kmem_cache_obj_per_slab tun) (spl_kmem_cache_max_size tun) (skc_flags c) (skc_obj_size c) al of
                   Inl _ \<Rightarrow> Null_cache
                 | Inr (objs, slab_size) \<Rightarrow>
                     if \<not> mags then Null_cache
                     else Cache (spl_magazine_create tun jiffies (c\<lparr>skc_slab_objs := objs, skc_slab_size := slab_size\<rparr>)))
              else if sz > max_kmem \<or> \<not> mags then Null_cache
              else Cache (c\<lparr>skc_flags := skc_flags c OR KMC_NOMAGAZINE\<rparr>))"

end
