(* ===== verification/Kmem_Cache_Props.thy ===== *)
theory Kmem_Cache_Props
  imports Kmem_Cache
begin

text \<open>
  The invariant of a cache and that every operation keeps it; what allocating and freeing do to
  the set of objects in use.
\<close>

section \<open>Invariant\<close>

definition slabs :: "spl_kmem_cache \<Rightarrow> addr set" where
  "slabs c = set (skc_complete_list c) \<union> set (skc_partial_list c)"

abbreviation ref_of :: "spl_kmem_cache \<Rightarrow> addr \<Rightarrow> nat" where
  "ref_of c s \<equiv> sks_ref (skc_slabs c s)"

abbreviation nobjs :: "spl_kmem_cache \<Rightarrow> addr \<Rightarrow> nat" where
  "nobjs c s \<equiv> sks_objs (skc_slabs c s)"

abbreviation free_of :: "spl_kmem_cache \<Rightarrow> addr \<Rightarrow> addr list" where
  "free_of c s \<equiv> sks_free_list (skc_slabs c s)"

definition objs_of :: "spl_kmem_cache \<Rightarrow> addr \<Rightarrow> addr set" where
  "objs_of c s = {a. sko_slab c a = Some s}"

text \<open>Objects that are out of their slab, those of them in a magazine, and those in use by a caller.\<close>

definition allocated :: "spl_kmem_cache \<Rightarrow> addr set" where
  "allocated c = (\<Union>s \<in> slabs c. objs_of c s - set (free_of c s))"

abbreviation mag_objs :: "spl_kmem_cache \<Rightarrow> nat \<Rightarrow> addr list" where
  "mag_objs c i \<equiv> skm_objs (skc_mag c i)"

definition mag_set :: "spl_kmem_cache \<Rightarrow> addr set" where
  "mag_set c = (\<Union>i. set (mag_objs c i))"

definition in_use :: "spl_kmem_cache \<Rightarrow> addr set" where
  "in_use c = (allocated c - mag_set c) \<union> set_tree (skc_emergency_tree c)"

definition slab_ok :: "spl_kmem_cache \<Rightarrow> addr \<Rightarrow> bool" where
  "slab_ok c s \<longleftrightarrow> 0 < nobjs c s \<and> finite (objs_of c s) \<and> card (objs_of c s) = nobjs c s \<and> distinct (free_of c s) \<and>
     set (free_of c s) \<subseteq> objs_of c s \<and> ref_of c s + length (free_of c s) = nobjs c s"

definition mags_ok :: "spl_kmem_cache \<Rightarrow> bool" where
  "mags_ok c \<longleftrightarrow> (\<forall>i. distinct (mag_objs c i) \<and> length (mag_objs c i) \<le> skm_size (skc_mag c i) \<and> set (mag_objs c i) \<subseteq> allocated c) \<and>
     (\<forall>i j. i \<noteq> j \<longrightarrow> set (mag_objs c i) \<inter> set (mag_objs c j) = {})"

definition counts_ok :: "spl_kmem_cache \<Rightarrow> bool" where
  "counts_ok c \<longleftrightarrow> skc_slab_total c = int (card (slabs c)) \<and> skc_slab_alloc c = int (card {s \<in> slabs c. 0 < ref_of c s}) \<and>
     skc_obj_alloc c = (\<Sum>s \<in> slabs c. int (ref_of c s)) \<and>
     skc_obj_total c = (\<Sum>s \<in> slabs c. int (nobjs c s)) + skc_obj_emergency c \<and>
     skc_obj_emergency c = int (card (set_tree (skc_emergency_tree c)))"

definition offslab :: "spl_kmem_cache \<Rightarrow> bool" where
  "offslab c \<longleftrightarrow> has (skc_flags c) KMC_OFFSLAB"

definition mem_ok :: "spl_kmem_cache \<Rightarrow> bool" where
  "mem_ok c \<longleftrightarrow> bst (skc_emergency_tree c) \<and> (\<forall>a s. sko_slab c a = Some s \<longrightarrow> s \<in> slabs c) \<and>
     set_tree (skc_emergency_tree c) \<inter> dom (sko_slab c) = {} \<and> set_tree (skc_emergency_tree c) \<inter> slabs c = {} \<and>
     slabs c \<inter> dom (sko_slab c) = {} \<and>
     kv_live c = slabs c \<union> set_tree (skc_emergency_tree c) \<union> (if offslab c then dom (sko_slab c) else {})"

definition lists_ok :: "spl_kmem_cache \<Rightarrow> bool" where
  "lists_ok c \<longleftrightarrow> (\<forall>s \<in> set (skc_complete_list c). ref_of c s = nobjs c s) \<and>
     (\<forall>s \<in> set (skc_partial_list c). ref_of c s < nobjs c s) \<and>
     sorted_wrt (\<lambda>s t. 0 < ref_of c t \<longrightarrow> 0 < ref_of c s) (skc_partial_list c)"

definition core_inv :: "spl_kmem_cache \<Rightarrow> bool" where
  "core_inv c \<longleftrightarrow> distinct (skc_complete_list c @ skc_partial_list c) \<and> (\<forall>s \<in> slabs c. slab_ok c s) \<and> mags_ok c \<and> counts_ok c \<and> mem_ok c"

definition cache_inv :: "spl_kmem_cache \<Rightarrow> bool" where
  "cache_inv c \<longleftrightarrow> core_inv c \<and> lists_ok c"

lemma finite_slabs [simp]: "finite (slabs c)"
  by (simp add: slabs_def)

section \<open>Sums over slabs\<close>

lemma sum_upd:
  fixes f :: "'a \<Rightarrow> int"
  assumes "finite S" "s \<in> S" "\<And>t. t \<in> S \<Longrightarrow> t \<noteq> s \<Longrightarrow> g t = f t"
  shows "sum g S = sum f S - f s + g s"
proof -
  have "sum g S = g s + sum g (S - {s})" "sum f S = f s + sum f (S - {s})" using assms by (simp_all add: sum.remove)
  moreover have "sum g (S - {s}) = sum f (S - {s})" by (rule sum.cong) (use assms in auto)
  ultimately show ?thesis by simp
qed

lemma card_upd:
  assumes "finite S" "s \<in> S" "\<And>t. t \<in> S \<Longrightarrow> t \<noteq> s \<Longrightarrow> P t = Q t"
  shows "int (card {t \<in> S. P t}) = int (card {t \<in> S. Q t}) - of_bool (Q s) + of_bool (P s)"
proof -
  have c: "int (card {t \<in> S. R t}) = (\<Sum>t \<in> S. of_bool (R t))" for R
    using assms(1) by (simp add: of_bool_def sum.If_cases Int_def)
  show ?thesis unfolding c by (rule sum_upd [OF assms(1,2)]) (use assms(3) in simp)
qed

section \<open>Moving objects between callers and magazines\<close>

lemma upd_mag_fields [simp]:
  "slabs (upd_mag i f c) = slabs c" "skc_slabs (upd_mag i f c) = skc_slabs c" "sko_slab (upd_mag i f c) = sko_slab c"
  "skc_emergency_tree (upd_mag i f c) = skc_emergency_tree c" "skc_partial_list (upd_mag i f c) = skc_partial_list c"
  "skc_complete_list (upd_mag i f c) = skc_complete_list c" "objs_of (upd_mag i f c) = objs_of c"
  "allocated (upd_mag i f c) = allocated c" "counts_ok (upd_mag i f c) = counts_ok c" "mem_ok (upd_mag i f c) = mem_ok c"
  "lists_ok (upd_mag i f c) = lists_ok c" "slab_ok (upd_mag i f c) = slab_ok c" "skc_flags (upd_mag i f c) = skc_flags c"
  "skc_mag (upd_mag i f c) i = f (skc_mag c i)" "j \<noteq> i \<Longrightarrow> skc_mag (upd_mag i f c) j = skc_mag c j"
  by (simp_all add: upd_mag_def slabs_def objs_of_def allocated_def counts_ok_def mem_ok_def lists_ok_def slab_ok_def fun_eq_iff offslab_def)

lemma mag_set_upd: "mag_set (upd_mag i f c) = set (skm_objs (f (skc_mag c i))) \<union> (\<Union>j \<in> - {i}. set (mag_objs c j))"
proof -
  have u: "(\<Union>j. A j) = A i \<union> (\<Union>j \<in> - {i}. A j)" for A :: "nat \<Rightarrow> addr set" by auto
  show ?thesis unfolding mag_set_def u [of "\<lambda>j. set (mag_objs (upd_mag i f c) j)"] by auto
qed

lemma mag_set_split: "mag_set c = set (mag_objs c i) \<union> (\<Union>j \<in> - {i}. set (mag_objs c j))"
  unfolding mag_set_def by auto

lemma mags_disjoint: "mags_ok c \<Longrightarrow> i \<noteq> j \<Longrightarrow> set (mag_objs c i) \<inter> set (mag_objs c j) = {}"
  unfolding mags_ok_def by blast

lemma mags_others:
  assumes "mags_ok c"
  shows "set (mag_objs c i) \<inter> (\<Union>j \<in> - {i}. set (mag_objs c j)) = {}"
proof -
  have "set (mag_objs c i) \<inter> set (mag_objs c j) = {}" if "j \<in> - {i}" for j
    using mags_disjoint [OF assms, of i j] that by auto
  then show ?thesis by (simp only: Int_UN_distrib) simp
qed

text \<open>A magazine whose array is replaced by one with fewer, or with different allocated, objects.\<close>

lemma inv_upd_mag:
  assumes c: "core_inv c" and d: "distinct (skm_objs (f (skc_mag c i)))" "length (skm_objs (f (skc_mag c i))) \<le> skm_size (f (skc_mag c i))"
    "set (skm_objs (f (skc_mag c i))) \<subseteq> allocated c - (\<Union>j \<in> - {i}. set (mag_objs c j))"
  shows "core_inv (upd_mag i f c)"
proof -
  have "mags_ok (upd_mag i f c)"
    unfolding mags_ok_def
  proof (intro conjI allI impI)
    fix j
    show "distinct (mag_objs (upd_mag i f c) j)" "length (mag_objs (upd_mag i f c) j) \<le> skm_size (skc_mag (upd_mag i f c) j)"
      "set (mag_objs (upd_mag i f c) j) \<subseteq> allocated (upd_mag i f c)"
      using c d by (cases "j = i"; auto simp: core_inv_def mags_ok_def)+
  next
    fix j k :: nat
    assume "j \<noteq> k"
    then show "set (mag_objs (upd_mag i f c) j) \<inter> set (mag_objs (upd_mag i f c) k) = {}"
      using c d(3) by (cases "j = i"; cases "k = i"; auto simp: core_inv_def mags_ok_def)
  qed
  with c show ?thesis by (simp add: core_inv_def)
qed

section \<open>Returning an object to its slab\<close>

lemma objs_disjoint: "s \<noteq> t \<Longrightarrow> objs_of c s \<inter> objs_of c t = {}"
  by (auto simp: objs_of_def)

lemma allocated_slab:
  assumes "core_inv c" "obj \<in> allocated c"
  shows "\<exists>s \<in> slabs c. sko_slab c obj = Some s \<and> obj \<notin> set (free_of c s)"
  using assms by (auto simp: allocated_def objs_of_def)

lemma out_card:
  assumes "slab_ok c s"
  shows "card (objs_of c s - set (free_of c s)) = ref_of c s"
proof -
  have "card (objs_of c s - set (free_of c s)) = card (objs_of c s) - card (set (free_of c s))"
    using assms by (intro card_Diff_subset) (auto simp: slab_ok_def)
  then have "card (objs_of c s - set (free_of c s)) = nobjs c s - length (free_of c s)"
    using assms by (simp add: slab_ok_def distinct_card)
  moreover have "ref_of c s + length (free_of c s) = nobjs c s" using assms by (simp add: slab_ok_def)
  ultimately show ?thesis by linarith
qed

lemma out_ref_pos:
  assumes "slab_ok c s" "obj \<in> objs_of c s" "obj \<notin> set (free_of c s)"
  shows "0 < ref_of c s"
proof -
  have "finite (objs_of c s - set (free_of c s))" "obj \<in> objs_of c s - set (free_of c s)" using assms by (auto simp: slab_ok_def)
  then have "0 < card (objs_of c s - set (free_of c s))" by (auto simp: card_gt_0_iff)
  then show ?thesis unfolding out_card [OF assms(1)] .
qed

text \<open>The two phases of shrinking: the slab header and counters, then the lists.\<close>

definition shrink_obj :: "addr \<Rightarrow> addr \<Rightarrow> spl_kmem_cache \<Rightarrow> spl_kmem_cache" where
  "shrink_obj s obj c =
     (upd_slab s (\<lambda>k. k\<lparr>sks_free_list := obj # sks_free_list k, sks_ref := sks_ref k - 1\<rparr>) c)
     \<lparr>skc_obj_alloc := skc_obj_alloc c - 1, skc_slab_alloc := skc_slab_alloc c - of_bool (ref_of c s = 1)\<rparr>"

lemma shrink_obj_fields [simp]:
  "slabs (shrink_obj s obj c) = slabs c" "sko_slab (shrink_obj s obj c) = sko_slab c" "skc_mag (shrink_obj s obj c) = skc_mag c"
  "skc_emergency_tree (shrink_obj s obj c) = skc_emergency_tree c" "skc_partial_list (shrink_obj s obj c) = skc_partial_list c"
  "skc_complete_list (shrink_obj s obj c) = skc_complete_list c" "objs_of (shrink_obj s obj c) = objs_of c"
  "mag_set (shrink_obj s obj c) = mag_set c" "mem_ok (shrink_obj s obj c) = mem_ok c" "skc_flags (shrink_obj s obj c) = skc_flags c"
  "t \<noteq> s \<Longrightarrow> skc_slabs (shrink_obj s obj c) t = skc_slabs c t"
  "free_of (shrink_obj s obj c) s = obj # free_of c s" "ref_of (shrink_obj s obj c) s = ref_of c s - 1"
  "nobjs (shrink_obj s obj c) t = nobjs c t"
  by (simp_all add: shrink_obj_def upd_slab_def slabs_def objs_of_def fun_eq_iff mag_set_def mem_ok_def offslab_def)

lemma allocated_shrink_obj:
  assumes "s \<in> slabs c" "sko_slab c obj = Some s" "obj \<notin> set (free_of c s)"
  shows "allocated (shrink_obj s obj c) = allocated c - {obj}"
proof -
  have "objs_of c t - set (free_of (shrink_obj s obj c) t) = objs_of c t - set (free_of c t) - {obj}" for t
    using assms(2) by (cases "t = s") (auto simp: objs_of_def)
  then show ?thesis unfolding allocated_def by (auto simp: allocated_def)
qed

lemma core_shrink_obj:
  assumes i: "core_inv c" and o: "obj \<in> allocated c" "obj \<notin> mag_set c" and s: "sko_slab c obj = Some s"
  shows "core_inv (shrink_obj s obj c)"
proof -
  obtain s': "s \<in> slabs c" and f: "obj \<notin> set (free_of c s)" using allocated_slab [OF i o(1)] s by auto
  have ok: "slab_ok c s" using i s' by (simp add: core_inv_def)
  have os: "obj \<in> objs_of c s" using s by (simp add: objs_of_def)
  have r: "0 < ref_of c s" by (rule out_ref_pos [OF ok os f])
  have "slab_ok (shrink_obj s obj c) s" using ok os f r by (simp add: slab_ok_def)
  moreover have "slab_ok (shrink_obj s obj c) t" if "t \<in> slabs c" "t \<noteq> s" for t using i that by (simp add: core_inv_def slab_ok_def)
  ultimately have "\<forall>t \<in> slabs c. slab_ok (shrink_obj s obj c) t" by metis
  moreover have "mags_ok (shrink_obj s obj c)"
  proof -
    have "set (mag_objs c j) \<subseteq> allocated c - {obj}" for j using i o(2) by (auto simp: core_inv_def mags_ok_def mag_set_def)
    then show ?thesis using i allocated_shrink_obj [OF s' s f] by (simp add: core_inv_def mags_ok_def)
  qed
  moreover have "counts_ok (shrink_obj s obj c)"
  proof -
    have "(\<Sum>t \<in> slabs c. int (ref_of (shrink_obj s obj c) t)) = (\<Sum>t \<in> slabs c. int (ref_of c t)) - int (ref_of c s) + int (ref_of (shrink_obj s obj c) s)"
      by (rule sum_upd) (use s' in auto)
    then have "(\<Sum>t \<in> slabs c. int (ref_of (shrink_obj s obj c) t)) = (\<Sum>t \<in> slabs c. int (ref_of c t)) - 1" using r by simp
    moreover have "int (card {t \<in> slabs c. 0 < ref_of (shrink_obj s obj c) t}) =
        int (card {t \<in> slabs c. 0 < ref_of c t}) - of_bool (0 < ref_of c s) + of_bool (0 < ref_of (shrink_obj s obj c) s)"
      by (rule card_upd) (use s' in auto)
    then have "int (card {t \<in> slabs c. 0 < ref_of (shrink_obj s obj c) t}) = int (card {t \<in> slabs c. 0 < ref_of c t}) - of_bool (ref_of c s = 1)"
      using r by (auto simp: of_bool_def)
    ultimately show ?thesis using i by (simp add: core_inv_def counts_ok_def) (simp add: shrink_obj_def upd_slab_def)
  qed
  ultimately show ?thesis using i by (simp add: core_inv_def)
qed

definition relist :: "addr \<Rightarrow> spl_kmem_cache \<Rightarrow> spl_kmem_cache" where
  "relist s c =
     (let k = skc_slabs c s;
          c3 = (if sks_ref k = sks_objs k - 1
                then c\<lparr>skc_complete_list := filter (\<lambda>t. t \<noteq> s) (skc_complete_list c),
                       skc_partial_list := s # filter (\<lambda>t. t \<noteq> s) (skc_partial_list c)\<rparr> else c)
      in if sks_ref k = 0
         then c3\<lparr>skc_complete_list := filter (\<lambda>t. t \<noteq> s) (skc_complete_list c3),
                 skc_partial_list := filter (\<lambda>t. t \<noteq> s) (skc_partial_list c3) @ [s]\<rparr> else c3)"

lemma shrink_relist:
  assumes "sko_slab c obj = Some s" "0 < ref_of c s"
  shows "spl_cache_shrink obj c = relist s (shrink_obj s obj c)"
  using assms by (auto simp: spl_cache_shrink_def relist_def shrink_obj_def upd_slab_def Let_def)

lemma relist_fields [simp]:
  "skc_slabs (relist s c) = skc_slabs c" "sko_slab (relist s c) = sko_slab c" "skc_mag (relist s c) = skc_mag c"
  "skc_emergency_tree (relist s c) = skc_emergency_tree c" "kv_live (relist s c) = kv_live c" "skc_flags (relist s c) = skc_flags c"
  "skc_slab_total (relist s c) = skc_slab_total c" "skc_slab_alloc (relist s c) = skc_slab_alloc c"
  "skc_obj_alloc (relist s c) = skc_obj_alloc c" "skc_obj_total (relist s c) = skc_obj_total c"
  "skc_obj_emergency (relist s c) = skc_obj_emergency c" "objs_of (relist s c) = objs_of c" "mag_set (relist s c) = mag_set c"
  by (simp_all add: relist_def Let_def objs_of_def mag_set_def fun_eq_iff)

lemma slabs_relist: "s \<in> slabs c \<Longrightarrow> slabs (relist s c) = slabs c"
  by (auto simp: relist_def slabs_def Let_def)

text \<open>An operation that only rearranges the lists of the same slabs keeps the core of the invariant.\<close>

lemma core_same_slabs:
  assumes "core_inv c" "slabs c' = slabs c" "distinct (skc_complete_list c' @ skc_partial_list c')"
    "skc_slabs c' = skc_slabs c" "sko_slab c' = sko_slab c" "skc_mag c' = skc_mag c" "skc_emergency_tree c' = skc_emergency_tree c"
    "kv_live c' = kv_live c" "skc_flags c' AND KMC_OFFSLAB = skc_flags c AND KMC_OFFSLAB" "skc_slab_total c' = skc_slab_total c"
    "skc_slab_alloc c' = skc_slab_alloc c"
    "skc_obj_alloc c' = skc_obj_alloc c" "skc_obj_total c' = skc_obj_total c" "skc_obj_emergency c' = skc_obj_emergency c"
  shows "core_inv c'" and "in_use c' = in_use c" and "allocated c' = allocated c"
proof -
  have o: "objs_of c' = objs_of c" by (simp add: objs_of_def fun_eq_iff assms)
  then show a: "allocated c' = allocated c" by (simp add: allocated_def assms)
  then show "in_use c' = in_use c" by (simp add: in_use_def mag_set_def assms)
  show "core_inv c'" using assms o a by (simp add: core_inv_def slab_ok_def mags_ok_def counts_ok_def mem_ok_def offslab_def has_def)
qed

lemma distinct_relist:
  assumes "distinct (skc_complete_list c @ skc_partial_list c)" "s \<in> slabs c"
    "sks_ref (skc_slabs c s) = nobjs c s - 1 \<or> s \<in> set (skc_partial_list c) \<or> ref_of c s = 0"
  shows "distinct (skc_complete_list (relist s c) @ skc_partial_list (relist s c))"
  using assms by (auto simp: relist_def Let_def slabs_def)

lemma sorted_pos_filter: "sorted_wrt R xs \<Longrightarrow> sorted_wrt R (filter P xs)"
  by (rule sorted_wrt_filter)

lemma lists_relist:
  assumes l: "lists_ok c" and d: "distinct (skc_complete_list c @ skc_partial_list c)" and s: "s \<in> slabs c" and r: "0 < ref_of c s"
    and c': "skc_partial_list c' = skc_partial_list c" "skc_complete_list c' = skc_complete_list c"
      "\<And>t. t \<noteq> s \<Longrightarrow> skc_slabs c' t = skc_slabs c t" "ref_of c' s = ref_of c s - 1" "nobjs c' s = nobjs c s" "0 < nobjs c s"
  shows "lists_ok (relist s c')"
proof -
  let ?R = "\<lambda>s t. 0 < ref_of c t \<longrightarrow> 0 < ref_of c s" and ?R' = "\<lambda>s t. 0 < ref_of c' t \<longrightarrow> 0 < ref_of c' s"
  have srt: "sorted_wrt ?R (skc_partial_list c)" using l by (simp add: lists_ok_def)
  have fsrt: "sorted_wrt ?R' (filter (\<lambda>t. t \<noteq> s) (skc_partial_list c))"
    using sorted_wrt_filter [OF srt, of "\<lambda>t. t \<noteq> s"] by (rule sorted_wrt_mono_rel [rotated]) (auto simp: c'(3))
  have refs: "ref_of c' t = ref_of c t" "nobjs c' t = nobjs c t" if "t \<noteq> s" for t using c'(3) [OF that] by simp_all
  show ?thesis
  proof (cases "s \<in> set (skc_complete_list c)")
    case True
    then have full: "ref_of c s = nobjs c s" "s \<notin> set (skc_partial_list c)" using l d by (auto simp: lists_ok_def)
    then have rn: "ref_of c' s = nobjs c' s - 1" using c' by simp
    show ?thesis using l full rn fsrt c'(4-6) refs r
      by (auto simp: lists_ok_def relist_def Let_def c'(1,2) sorted_wrt_append)
  next
    case False
    then have part: "s \<in> set (skc_partial_list c)" using s by (simp add: slabs_def)
    then have rl: "ref_of c s < nobjs c s" using l by (simp add: lists_ok_def)
    then have rn: "ref_of c' s \<noteq> nobjs c' s - 1" using r c'(4,5) by linarith
    show ?thesis
    proof (cases "ref_of c' s = 0")
      case True
      then show ?thesis using l fsrt rn refs False part rl c'(4,5)
        by (auto simp: lists_ok_def relist_def Let_def c'(1,2) sorted_wrt_append)
    next
      case pos: False
      have "sorted_wrt ?R' (skc_partial_list c)"
        by (rule sorted_wrt_mono_rel [OF _ srt]) (metis c'(4) pos r refs(1) zero_less_iff_neq_zero)
      moreover have "relist s c' = c'" using rn pos by (simp add: relist_def Let_def)
      ultimately show ?thesis using l refs rl c'(4,5) False
        by (auto simp: lists_ok_def c'(1,2)) (metis less_imp_diff_less refs)+
    qed
  qed
qed

lemma shrink_inv:
  assumes i: "cache_inv c" and o: "obj \<in> allocated c - mag_set c"
  shows "cache_inv (spl_cache_shrink obj c) \<and> allocated (spl_cache_shrink obj c) = allocated c - {obj} \<and>
    skc_mag (spl_cache_shrink obj c) = skc_mag c \<and> skc_emergency_tree (spl_cache_shrink obj c) = skc_emergency_tree c \<and>
    skc_flags (spl_cache_shrink obj c) = skc_flags c \<and> slabs (spl_cache_shrink obj c) = slabs c"
proof -
  have c: "core_inv c" and l: "lists_ok c" using i by (simp_all add: cache_inv_def)
  obtain s where s: "s \<in> slabs c" "sko_slab c obj = Some s" "obj \<notin> set (free_of c s)" using allocated_slab [OF c] o by auto
  have ok: "slab_ok c s" using c s by (simp add: core_inv_def)
  have r: "0 < ref_of c s" using out_ref_pos [OF ok _ s(3)] s(2) by (simp add: objs_of_def)
  let ?c = "shrink_obj s obj c"
  have e: "spl_cache_shrink obj c = relist s ?c" by (rule shrink_relist [OF s(2) r])
  have core: "core_inv ?c" by (rule core_shrink_obj [OF c _ _ s(2)]) (use o in auto)
  have d: "distinct (skc_complete_list c @ skc_partial_list c)" using c by (simp add: core_inv_def)
  have cond: "ref_of ?c s = nobjs ?c s - 1 \<or> s \<in> set (skc_partial_list ?c) \<or> ref_of ?c s = 0"
    using l s(1) by (auto simp: lists_ok_def slabs_def)
  have dr: "distinct (skc_complete_list (relist s ?c) @ skc_partial_list (relist s ?c))"
    by (rule distinct_relist) (use d s(1) cond in simp_all)
  have sl: "slabs (relist s ?c) = slabs ?c" using s(1) by (simp add: slabs_relist)
  have "core_inv (relist s ?c)" "allocated (relist s ?c) = allocated ?c"
    by (rule core_same_slabs [OF core sl dr]; simp)+
  moreover have "lists_ok (relist s ?c)"
    by (rule lists_relist [OF l d s(1) r]) (use ok in \<open>simp_all add: slab_ok_def\<close>)
  ultimately show ?thesis unfolding e using allocated_shrink_obj [OF s] sl by (simp add: cache_inv_def)
qed

lemma shrink_fold_inv:
  assumes "cache_inv c" "distinct os" "set os \<subseteq> allocated c - mag_set c"
  shows "cache_inv (fold spl_cache_shrink os c) \<and> allocated (fold spl_cache_shrink os c) = allocated c - set os \<and>
    skc_mag (fold spl_cache_shrink os c) = skc_mag c \<and> skc_emergency_tree (fold spl_cache_shrink os c) = skc_emergency_tree c \<and>
    skc_flags (fold spl_cache_shrink os c) = skc_flags c \<and> slabs (fold spl_cache_shrink os c) = slabs c"
  using assms
proof (induction os arbitrary: c)
  case (Cons a os)
  let ?c = "spl_cache_shrink a c"
  have "a \<in> allocated c - mag_set c" using Cons.prems(3) by simp
  note s = shrink_inv [OF Cons.prems(1) this]
  have ms: "mag_set ?c = mag_set c" using s by (simp add: mag_set_def)
  have "set os \<subseteq> allocated c - {a} - mag_set c" using Cons.prems(2,3) by auto
  then have "set os \<subseteq> allocated ?c - mag_set ?c" using s ms by simp
  note IH = Cons.IH [OF _ _ this]
  have "allocated c - set (a # os) = allocated c - {a} - set os" by auto
  then show ?case using IH Cons.prems(2) s by simp
qed simp

lemma shrink_upd_mag: "spl_cache_shrink obj (upd_mag i f c) = upd_mag i f (spl_cache_shrink obj c)"
  by (simp add: spl_cache_shrink_def upd_mag_def upd_slab_def Let_def)

lemma shrink_fold_upd_mag: "fold spl_cache_shrink os (upd_mag i f c) = upd_mag i f (fold spl_cache_shrink os c)"
  by (induction os arbitrary: c) (simp_all add: shrink_upd_mag)

lemma flush_alt:
  "spl_cache_flush cpu n c =
     fold spl_cache_shrink (take n (mag_objs c cpu)) (upd_mag cpu (\<lambda>m. m\<lparr>skm_objs := drop n (mag_objs c cpu)\<rparr>) c)"
proof -
  have "take (min n (length (mag_objs c cpu))) (mag_objs c cpu) = take n (mag_objs c cpu)"
    "drop (min n (length (mag_objs c cpu))) (mag_objs c cpu) = drop n (mag_objs c cpu)" by (simp_all add: min_def)
  then show ?thesis unfolding spl_cache_flush_def Let_def shrink_fold_upd_mag by simp
qed

lemma flush_inv:
  assumes i: "cache_inv c"
  shows "cache_inv (spl_cache_flush cpu n c) \<and> in_use (spl_cache_flush cpu n c) = in_use c \<and>
    skc_mag (spl_cache_flush cpu n c) = (skc_mag c)(cpu := (skc_mag c cpu)\<lparr>skm_objs := drop n (mag_objs c cpu)\<rparr>) \<and>
    skc_flags (spl_cache_flush cpu n c) = skc_flags c \<and> slabs (spl_cache_flush cpu n c) = slabs c \<and>
    skc_emergency_tree (spl_cache_flush cpu n c) = skc_emergency_tree c"
proof -
  let ?f = "\<lambda>m. m\<lparr>skm_objs := drop n (mag_objs c cpu)\<rparr>"
  let ?c = "upd_mag cpu ?f c" and ?os = "take n (mag_objs c cpu)"
  have core: "core_inv c" and m: "mags_ok c" using i by (auto simp: cache_inv_def core_inv_def)
  have dm: "distinct (mag_objs c cpu)" "set (mag_objs c cpu) \<subseteq> allocated c" "length (mag_objs c cpu) \<le> skm_size (skc_mag c cpu)"
    using m by (auto simp: mags_ok_def)
  then have dd: "distinct (take n (mag_objs c cpu) @ drop n (mag_objs c cpu))" by simp
  then have tk: "distinct ?os" "set ?os \<inter> set (drop n (mag_objs c cpu)) = {}" unfolding distinct_append by auto
  note ot = mags_others [OF m, of cpu]
  have "core_inv ?c"
    by (rule inv_upd_mag [OF core]) (use dm ot set_drop_subset [of n "mag_objs c cpu"] in \<open>auto\<close>)
  then have ic: "cache_inv ?c" using i by (simp add: cache_inv_def)
  have ms: "mag_set ?c = set (drop n (mag_objs c cpu)) \<union> (\<Union>j \<in> - {cpu}. set (mag_objs c j))" by (simp add: mag_set_upd)
  have sub: "set ?os \<subseteq> set (mag_objs c cpu)" by (rule set_take_subset)
  then have os: "set ?os \<subseteq> allocated ?c - mag_set ?c" unfolding ms using dm(2) tk(2) ot by auto
  note F = shrink_fold_inv [OF ic tk(1) os]
  have "set (mag_objs c cpu) = set ?os \<union> set (drop n (mag_objs c cpu))" by (metis append_take_drop_id set_append)
  then have "mag_set c = set ?os \<union> mag_set ?c" unfolding ms mag_set_split [of c cpu] by auto
  then have "allocated c - set ?os - mag_set ?c = allocated c - mag_set c" by auto
  moreover have "mag_set (spl_cache_flush cpu n c) = mag_set ?c" unfolding flush_alt using F by (simp add: mag_set_def)
  ultimately have "in_use (spl_cache_flush cpu n c) = in_use c"
    unfolding in_use_def using F by (simp add: flush_alt)
  moreover have "skc_mag ?c = (skc_mag c)(cpu := ?f (skc_mag c cpu))" by (simp add: upd_mag_def)
  ultimately show ?thesis using F by (simp add: flush_alt)
qed

section \<open>Reclaiming empty slabs\<close>

definition reclaim_one :: "addr \<Rightarrow> spl_kmem_cache \<Rightarrow> spl_kmem_cache" where
  "reclaim_one s c = kv_free_slab s (spl_slab_free s c)"

lemma free_commute: "kv_free_slab s (spl_slab_free t c) = spl_slab_free t (kv_free_slab s c)"
  by (simp add: kv_free_slab_def spl_slab_free_def Let_def cong: if_cong)

lemma fold_free_commute: "fold kv_free_slab ss (spl_slab_free t c) = spl_slab_free t (fold kv_free_slab ss c)"
  by (induction ss arbitrary: c) (simp_all add: free_commute)

lemma fold_free_one: "kv_free_slab s (fold spl_slab_free ss c) = fold spl_slab_free ss (kv_free_slab s c)"
  by (induction ss arbitrary: c) (simp_all add: free_commute)

lemma fold_reclaim: "fold kv_free_slab ss (fold spl_slab_free ss c) = fold reclaim_one ss c"
proof (induction ss arbitrary: c)
  case (Cons s ss)
  have "fold kv_free_slab (s # ss) (fold spl_slab_free (s # ss) c) = fold kv_free_slab ss (fold spl_slab_free ss (reclaim_one s c))"
    by (simp add: fold_free_one reclaim_one_def)
  then show ?case by (simp add: Cons.IH)
qed simp

lemma reclaim_one_fields [simp]:
  "skc_slabs (reclaim_one s c) = skc_slabs c" "skc_mag (reclaim_one s c) = skc_mag c" "skc_flags (reclaim_one s c) = skc_flags c"
  "skc_emergency_tree (reclaim_one s c) = skc_emergency_tree c" "skc_complete_list (reclaim_one s c) = skc_complete_list c"
  "skc_partial_list (reclaim_one s c) = filter (\<lambda>t. t \<noteq> s) (skc_partial_list c)"
  "skc_obj_emergency (reclaim_one s c) = skc_obj_emergency c" "skc_slab_total (reclaim_one s c) = skc_slab_total c - 1"
  "skc_obj_total (reclaim_one s c) = skc_obj_total c - int (nobjs c s)" "skc_slab_alloc (reclaim_one s c) = skc_slab_alloc c"
  "skc_obj_alloc (reclaim_one s c) = skc_obj_alloc c" "mag_set (reclaim_one s c) = mag_set c" "offslab (reclaim_one s c) = offslab c"
  "sko_slab (reclaim_one s c) = (\<lambda>a. if a \<in> set (free_of c s) then None else sko_slab c a)"
  "kv_live (reclaim_one s c) = kv_live c - ({s} \<union> (if offslab c then set (free_of c s) else {}))"
  by (simp_all add: reclaim_one_def kv_free_slab_def spl_slab_free_def Let_def mag_set_def offslab_def cong: if_cong)

lemma reclaim_one_inv:
  assumes i: "cache_inv c" and s: "s \<in> set (skc_partial_list c)" and r: "ref_of c s = 0"
  shows "cache_inv (reclaim_one s c) \<and> in_use (reclaim_one s c) = in_use c \<and> slabs (reclaim_one s c) = slabs c - {s}"
proof -
  have core: "core_inv c" and l: "lists_ok c" using i by (simp_all add: cache_inv_def)
  have sl: "s \<in> slabs c" using s by (simp add: slabs_def)
  have ok: "slab_ok c s" using core sl by (simp add: core_inv_def)
  have fr: "set (free_of c s) = objs_of c s"
    by (rule card_subset_eq) (use ok r in \<open>simp_all add: slab_ok_def distinct_card\<close>)
  have sc: "s \<notin> set (skc_complete_list c)" using core s by (auto simp: core_inv_def)
  then have S: "slabs (reclaim_one s c) = slabs c - {s}" by (auto simp: slabs_def)
  have ob: "objs_of (reclaim_one s c) t = objs_of c t" if "t \<noteq> s" for t
    using fr objs_disjoint [OF that, of c] by (auto simp: objs_of_def)
  have al: "allocated (reclaim_one s c) = allocated c"
  proof -
    have "allocated (reclaim_one s c) = (\<Union>t \<in> slabs c - {s}. objs_of c t - set (free_of c t))" by (simp add: allocated_def S ob)
    also have "\<dots> = allocated c" unfolding allocated_def using fr by auto
    finally show ?thesis .
  qed
  have dm: "dom (sko_slab (reclaim_one s c)) = dom (sko_slab c) - objs_of c s" by (auto simp: fr split: if_splits)
  have "distinct (skc_complete_list (reclaim_one s c) @ skc_partial_list (reclaim_one s c))" using core by (auto simp: core_inv_def)
  moreover have "\<forall>t \<in> slabs (reclaim_one s c). slab_ok (reclaim_one s c) t"
    using core by (simp add: S core_inv_def slab_ok_def ob)
  moreover have "mags_ok (reclaim_one s c)" using core al by (simp add: core_inv_def mags_ok_def)
  moreover have "counts_ok (reclaim_one s c)"
  proof -
    have "{t \<in> slabs c - {s}. 0 < ref_of c t} = {t \<in> slabs c. 0 < ref_of c t}" using r by auto
    moreover have "Suc (card (slabs c - {s})) = card (slabs c)" by (rule card_Suc_Diff1 [OF finite_slabs sl])
    then have "int (card (slabs c - {s})) = int (card (slabs c)) - 1" by linarith
    ultimately show ?thesis using core sl r by (simp add: core_inv_def counts_ok_def S sum_diff1)
  qed
  moreover have "mem_ok (reclaim_one s c)"
  proof -
    have m: "mem_ok c" using core by (simp add: core_inv_def)
    have bk: "t \<in> slabs c - {s}" if "sko_slab (reclaim_one s c) a = Some t" for a t
    proof -
      have "a \<notin> objs_of c s" "sko_slab c a = Some t" using that by (simp_all add: fr split: if_splits)
      then show ?thesis using m by (auto simp: mem_ok_def objs_of_def)
    qed
    have sub: "objs_of c s \<subseteq> dom (sko_slab c)" by (auto simp: objs_of_def)
    let ?E = "set_tree (skc_emergency_tree c)" and ?D = "dom (sko_slab c)"
    have d: "?E \<inter> ?D = {}" "?E \<inter> slabs c = {}" "slabs c \<inter> ?D = {}" "bst (skc_emergency_tree c)"
      and k: "kv_live c = slabs c \<union> ?E \<union> (if offslab c then ?D else {})" using m by (simp_all add: mem_ok_def)
    have "kv_live (reclaim_one s c) = slabs c - {s} \<union> ?E \<union> (if offslab c then ?D - objs_of c s else {})"
      unfolding reclaim_one_fields(15) k fr using d(1-3) sub sl by (cases "offslab c") auto
    moreover have "?E \<inter> (?D - objs_of c s) = {}" "?E \<inter> (slabs c - {s}) = {}" "(slabs c - {s}) \<inter> (?D - objs_of c s) = {}"
      using d(1-3) by auto
    ultimately show ?thesis unfolding mem_ok_def S dm reclaim_one_fields(4,13) using d(4) bk by blast
  qed
  ultimately have "core_inv (reclaim_one s c)" by (simp add: core_inv_def)
  moreover have "lists_ok (reclaim_one s c)" using l by (auto simp: lists_ok_def sorted_wrt_filter)
  ultimately show ?thesis using S al by (simp add: cache_inv_def in_use_def)
qed

lemma fold_reclaim_inv:
  assumes "cache_inv c" "distinct ss" "set ss \<subseteq> {s \<in> set (skc_partial_list c). ref_of c s = 0}"
  shows "cache_inv (fold reclaim_one ss c) \<and> in_use (fold reclaim_one ss c) = in_use c \<and> slabs (fold reclaim_one ss c) = slabs c - set ss \<and>
    skc_mag (fold reclaim_one ss c) = skc_mag c \<and> skc_flags (fold reclaim_one ss c) = skc_flags c \<and>
    skc_emergency_tree (fold reclaim_one ss c) = skc_emergency_tree c \<and> skc_slabs (fold reclaim_one ss c) = skc_slabs c"
  using assms
proof (induction ss arbitrary: c)
  case (Cons s ss)
  have "s \<in> set (skc_partial_list c)" "ref_of c s = 0" using Cons.prems(3) by auto
  note S = reclaim_one_inv [OF Cons.prems(1) this]
  have "set ss \<subseteq> {t \<in> set (skc_partial_list (reclaim_one s c)). ref_of (reclaim_one s c) t = 0}"
    using Cons.prems(2,3) by auto
  note IH = Cons.IH [OF _ _ this]
  have "slabs c - set (s # ss) = slabs c - {s} - set ss" by auto
  then show ?case using IH S Cons.prems(2) by simp
qed simp

lemma takeWhile_rev_sorted:
  assumes "sorted_wrt (\<lambda>s t. P t \<longrightarrow> P s) xs"
  shows "set (takeWhile (\<lambda>s. \<not> P s) (rev xs)) = {s \<in> set xs. \<not> P s}"
  using assms
proof (induction xs rule: rev_induct)
  case (snoc x xs)
  then show ?case by (auto simp: sorted_wrt_append)
qed simp

lemma reclaim_inv:
  assumes i: "cache_inv c"
  shows "cache_inv (spl_slab_reclaim c) \<and> in_use (spl_slab_reclaim c) = in_use c \<and> slabs (spl_slab_reclaim c) = {s \<in> slabs c. 0 < ref_of c s} \<and>
    skc_mag (spl_slab_reclaim c) = skc_mag c \<and> skc_flags (spl_slab_reclaim c) = skc_flags c \<and>
    skc_emergency_tree (spl_slab_reclaim c) = skc_emergency_tree c \<and> skc_slabs (spl_slab_reclaim c) = skc_slabs c"
proof -
  have core: "core_inv c" and l: "lists_ok c" using i by (simp_all add: cache_inv_def)
  have e: "spl_slab_reclaim c = fold reclaim_one (empty_tail c) c" by (simp add: spl_slab_reclaim_def fold_reclaim)
  have st: "set (empty_tail c) = {s \<in> set (skc_partial_list c). \<not> 0 < ref_of c s}"
    unfolding empty_tail_def by (rule takeWhile_rev_sorted) (use l in \<open>simp add: lists_ok_def\<close>)
  have dd: "distinct (empty_tail c)" using core by (simp add: empty_tail_def core_inv_def)
  have ne: "0 < ref_of c s" if "s \<in> set (skc_complete_list c)" for s
  proof -
    have "slab_ok c s" "ref_of c s = nobjs c s" using that core l by (auto simp: core_inv_def slabs_def lists_ok_def)
    then show ?thesis by (simp add: slab_ok_def)
  qed
  have "slabs c - set (empty_tail c) = {s \<in> slabs c. 0 < ref_of c s}" using st ne by (auto simp: slabs_def)
  then show ?thesis using fold_reclaim_inv [OF i dd] st unfolding e by simp
qed

section \<open>Taking objects from a slab\<close>

definition take_one :: "nat \<Rightarrow> addr \<Rightarrow> spl_kmem_cache \<Rightarrow> spl_kmem_cache" where
  "take_one cpu s c = (let (obj, c1) = spl_cache_obj s c in upd_mag cpu (\<lambda>m. m\<lparr>skm_objs := skm_objs m @ [obj]\<rparr>) c1)"

lemma take_objs_Suc: "take_objs (Suc n) cpu s c = take_objs n cpu s (take_one cpu s c)"
  by (simp add: take_one_def split: prod.split)

lemma take_one_fields [simp]:
  "slabs (take_one i s c) = slabs c" "sko_slab (take_one i s c) = sko_slab c" "objs_of (take_one i s c) = objs_of c"
  "skc_emergency_tree (take_one i s c) = skc_emergency_tree c" "skc_partial_list (take_one i s c) = skc_partial_list c"
  "skc_complete_list (take_one i s c) = skc_complete_list c" "skc_flags (take_one i s c) = skc_flags c"
  "kv_live (take_one i s c) = kv_live c" "mem_ok (take_one i s c) = mem_ok c"
  "skc_slab_total (take_one i s c) = skc_slab_total c" "skc_obj_total (take_one i s c) = skc_obj_total c"
  "skc_obj_emergency (take_one i s c) = skc_obj_emergency c" "skc_obj_alloc (take_one i s c) = skc_obj_alloc c + 1"
  "skc_slab_alloc (take_one i s c) = skc_slab_alloc c + of_bool (ref_of c s = 0)"
  "t \<noteq> s \<Longrightarrow> skc_slabs (take_one i s c) t = skc_slabs c t" "free_of (take_one i s c) s = tl (free_of c s)"
  "ref_of (take_one i s c) s = ref_of c s + 1" "nobjs (take_one i s c) t = nobjs c t"
  "mag_objs (take_one i s c) i = mag_objs c i @ [hd (free_of c s)]" "skm_size (skc_mag (take_one i s c) j) = skm_size (skc_mag c j)"
  "skm_refill (skc_mag (take_one i s c) j) = skm_refill (skc_mag c j)"
  "j \<noteq> i \<Longrightarrow> skc_mag (take_one i s c) j = skc_mag c j"
  by (simp_all add: take_one_def spl_cache_obj_def upd_mag_def upd_slab_def Let_def slabs_def objs_of_def fun_eq_iff mem_ok_def offslab_def)

lemma take_one_inv:
  assumes i: "core_inv c" and s: "s \<in> slabs c" and f: "free_of c s \<noteq> []" and m: "length (mag_objs c cpu) < skm_size (skc_mag c cpu)"
  shows "core_inv (take_one cpu s c) \<and> in_use (take_one cpu s c) = in_use c"
proof -
  let ?c = "take_one cpu s c" and ?o = "hd (free_of c s)"
  obtain fs where fs: "free_of c s = ?o # fs" using f by (cases "free_of c s") auto
  have ok: "slab_ok c s" using i s by (simp add: core_inv_def)
  have df: "distinct (?o # fs)" "set (?o # fs) \<subseteq> objs_of c s" using ok fs by (auto simp: slab_ok_def)
  have tlf: "tl (free_of c s) = fs" by (subst fs) simp
  have oo: "?o \<in> objs_of c s" using df by simp
  have ofr: "?o \<in> set (free_of c s)" using f by simp
  have na: "?o \<notin> allocated c"
  proof
    assume "?o \<in> allocated c"
    from allocated_slab [OF i this] oo ofr show False by (auto simp: objs_of_def)
  qed
  have out: "objs_of c s - set fs = insert ?o (objs_of c s - set (free_of c s))"
  proof -
    have "set (free_of c s) = insert ?o (set fs)" by (subst fs) simp
    then show ?thesis using df by auto
  qed
  have al: "allocated ?c = insert ?o (allocated c)"
  proof -
    have "allocated d = (objs_of d s - set (free_of d s)) \<union> (\<Union>t \<in> slabs d - {s}. objs_of d t - set (free_of d t))"
      if "s \<in> slabs d" for d using that by (auto simp: allocated_def)
    from this [of ?c] this [of c] show ?thesis using s by (simp add: tlf out)
  qed
  have ms: "mag_set ?c = insert ?o (mag_set c)"
    unfolding mag_set_split [of ?c cpu] mag_set_split [of c cpu] by auto
  have mo: "mags_ok c" using i by (simp add: core_inv_def)
  then have nm: "?o \<notin> set (mag_objs c j)" for j using na by (auto simp: mags_ok_def)
  have "mags_ok ?c"
    unfolding mags_ok_def al
  proof (intro conjI allI impI)
    fix j
    show "distinct (mag_objs ?c j)" "length (mag_objs ?c j) \<le> skm_size (skc_mag ?c j)" "set (mag_objs ?c j) \<subseteq> insert ?o (allocated c)"
      using mo nm m by (cases "j = cpu"; auto simp: mags_ok_def)+
  next
    fix j k :: nat
    assume "j \<noteq> k"
    then show "set (mag_objs ?c j) \<inter> set (mag_objs ?c k) = {}"
      using mags_disjoint [OF mo, of j k] nm by (cases "j = cpu"; cases "k = cpu"; simp)
  qed
  moreover have "length (free_of c s) = Suc (length fs)" by (subst fs) simp
  then have sok: "slab_ok ?c s" using ok df by (simp add: slab_ok_def tlf)
  have tok: "slab_ok ?c t" if "t \<in> slabs c" "t \<noteq> s" for t using i that by (simp add: core_inv_def slab_ok_def)
  have "\<forall>t \<in> slabs c. slab_ok ?c t" using sok tok by blast
  moreover have "counts_ok ?c"
  proof -
    have "(\<Sum>t \<in> slabs c. int (ref_of ?c t)) = (\<Sum>t \<in> slabs c. int (ref_of c t)) - int (ref_of c s) + int (ref_of ?c s)"
      by (rule sum_upd) (use s in auto)
    moreover have "int (card {t \<in> slabs c. 0 < ref_of ?c t}) = int (card {t \<in> slabs c. 0 < ref_of c t}) - of_bool (0 < ref_of c s) + of_bool (0 < ref_of ?c s)"
      by (rule card_upd) (use s in auto)
    ultimately show ?thesis using i by (simp add: core_inv_def counts_ok_def)
  qed
  ultimately have "core_inv ?c" using i by (simp add: core_inv_def)
  moreover have "insert ?o (allocated c) - insert ?o (mag_set c) = allocated c - mag_set c" using na by auto
  ultimately show ?thesis by (simp add: in_use_def al ms)
qed

lemma take_objs_inv:
  assumes "core_inv c" "s \<in> slabs c" "n \<le> length (free_of c s)" "length (mag_objs c cpu) + n \<le> skm_size (skc_mag c cpu)"
    "c' = take_objs n cpu s c"
  shows "core_inv c' \<and> in_use c' = in_use c \<and> slabs c' = slabs c \<and> skc_partial_list c' = skc_partial_list c \<and>
    skc_complete_list c' = skc_complete_list c \<and> ref_of c' s = ref_of c s + n \<and> nobjs c' s = nobjs c s \<and>
    (\<forall>t. t \<noteq> s \<longrightarrow> skc_slabs c' t = skc_slabs c t) \<and> length (mag_objs c' cpu) = length (mag_objs c cpu) + n \<and>
    (\<forall>j. skm_size (skc_mag c' j) = skm_size (skc_mag c j)) \<and> skc_flags c' = skc_flags c \<and>
    skc_emergency_tree c' = skc_emergency_tree c"
  using assms
proof (induction n arbitrary: c)
  case (Suc n)
  have "free_of c s \<noteq> []" "length (mag_objs c cpu) < skm_size (skc_mag c cpu)" using Suc.prems(3,4) by auto
  note T = take_one_inv [OF Suc.prems(1,2) this]
  have "n \<le> length (free_of (take_one cpu s c) s)" using Suc.prems(3) by simp
  note IH = Suc.IH [OF _ _ this]
  show ?case using IH T Suc.prems by (simp add: take_objs_Suc del: take_objs.simps)
qed simp

lemma refill_from_slab_inv:
  assumes i: "cache_inv c" and p: "skc_partial_list c \<noteq> []" and r: "0 < refill"
    and m: "length (mag_objs c cpu) + refill \<le> skm_size (skc_mag c cpu)" and e: "refill_from_slab cpu refill c = (n, c')"
  shows "cache_inv c' \<and> in_use c' = in_use c \<and> 0 < n \<and> n \<le> refill \<and> length (mag_objs c' cpu) = length (mag_objs c cpu) + n \<and>
    (\<forall>j. skm_size (skc_mag c' j) = skm_size (skc_mag c j)) \<and> skc_flags c' = skc_flags c \<and>
    skc_emergency_tree c' = skc_emergency_tree c"
proof -
  let ?s = "hd (skc_partial_list c)"
  have core: "core_inv c" and l: "lists_ok c" using i by (simp_all add: cache_inv_def)
  obtain ps where ps: "skc_partial_list c = ?s # ps" using p by (cases "skc_partial_list c") auto
  have sp: "?s \<in> set (skc_partial_list c)" using p by simp
  then have s: "?s \<in> slabs c" and lt: "ref_of c ?s < nobjs c ?s" using l by (auto simp: slabs_def lists_ok_def)
  have ok: "slab_ok c ?s" using core s by (simp add: core_inv_def)
  define k where "k = min refill (nobjs c ?s - ref_of c ?s)"
  define c1 where "c1 = take_objs k cpu ?s c"
  have k: "0 < k" "k \<le> refill" "k \<le> length (free_of c ?s)" "ref_of c ?s + k \<le> nobjs c ?s"
    using r lt ok by (auto simp: k_def slab_ok_def)
  have T: "core_inv c1" "in_use c1 = in_use c" "slabs c1 = slabs c" "skc_partial_list c1 = skc_partial_list c"
    "skc_complete_list c1 = skc_complete_list c" "ref_of c1 ?s = ref_of c ?s + k" "nobjs c1 ?s = nobjs c ?s"
    "length (mag_objs c1 cpu) = length (mag_objs c cpu) + k" "skc_flags c1 = skc_flags c"
    "skc_emergency_tree c1 = skc_emergency_tree c"
    and T2: "\<And>t. t \<noteq> ?s \<Longrightarrow> skc_slabs c1 t = skc_slabs c t" "\<And>j. skm_size (skc_mag c1 j) = skm_size (skc_mag c j)"
    using take_objs_inv [OF core s k(3) _ c1_def] m k(2) by simp_all
  let ?m = "c1\<lparr>skc_partial_list := filter (\<lambda>t. t \<noteq> ?s) (skc_partial_list c1),
              skc_complete_list := ?s # filter (\<lambda>t. t \<noteq> ?s) (skc_complete_list c1)\<rparr>"
  have n: "n = k" and c': "c' = (if ref_of c1 ?s = nobjs c1 ?s then ?m else c1)"
    using e unfolding refill_from_slab_def Let_def k_def [symmetric] c1_def [symmetric] prod.inject by (blast intro: sym)+
  have dd: "distinct (skc_complete_list c @ ?s # ps)" using core ps by (simp add: core_inv_def)
  have srt: "sorted_wrt (\<lambda>s t. 0 < ref_of c t \<longrightarrow> 0 < ref_of c s) (?s # ps)" using l ps by (simp add: lists_ok_def)
  have psn: "skc_slabs c1 t = skc_slabs c t" if "t \<in> set ps \<union> set (skc_complete_list c)" for t using that dd by (intro T2(1)) auto
  have lps: "ref_of c t < nobjs c t" if "t \<in> set ps" for t using l that ps by (metis list.set_intros(2) lists_ok_def)
  have lcs: "ref_of c t = nobjs c t" if "t \<in> set (skc_complete_list c)" for t using l that by (simp add: lists_ok_def)
  have srt1: "sorted_wrt (\<lambda>s t. 0 < ref_of c1 t \<longrightarrow> 0 < ref_of c1 s) ps"
    by (rule sorted_wrt_mono_rel [of _ "\<lambda>s t. 0 < ref_of c t \<longrightarrow> 0 < ref_of c s"]) (use srt psn in auto)
  have p1: "skc_partial_list c1 = ?s # ps" using T(4) ps by simp
  have "cache_inv c' \<and> in_use c' = in_use c"
  proof (cases "ref_of c1 ?s = nobjs c1 ?s")
    case True
    have fl: "filter (\<lambda>t. t \<noteq> ?s) (?s # ps) = ps" "filter (\<lambda>t. t \<noteq> ?s) (skc_complete_list c) = skc_complete_list c"
      using dd by (auto simp: filter_id_conv)
    have lm: "skc_partial_list ?m = ps" "skc_complete_list ?m = ?s # skc_complete_list c" using fl T(5) by (simp_all add: p1)
    have "slabs ?m = slabs c1" unfolding slabs_def lm p1 T(5) by auto
    moreover have "distinct (skc_complete_list ?m @ skc_partial_list ?m)" unfolding lm using dd by auto
    ultimately have "core_inv ?m" "in_use ?m = in_use c1" by (rule core_same_slabs [OF T(1)]; simp)+
    moreover have "lists_ok ?m" unfolding lists_ok_def lm using True srt1 psn lps lcs by simp
    ultimately show ?thesis using True T(2) by (simp add: c' cache_inv_def)
  next
    case False
    have "ref_of c1 ?s < nobjs c1 ?s" "0 < ref_of c1 ?s" using False T(6,7) k by simp_all
    then have "lists_ok c1" unfolding lists_ok_def p1 T(5) using srt1 psn lps lcs by simp
    then show ?thesis using False T(1,2) by (simp add: c' cache_inv_def)
  qed
  then show ?thesis using n k T(8-10) T2(2) by (simp add: c')
qed

end
