(* ===== verification/Kmem_Cache_Alloc.thy ===== *)
theory Kmem_Cache_Alloc
  imports Kmem_Cache_Props
begin

text \<open>
  Growing a cache, refilling a magazine, allocating and freeing: what the operations do to the
  invariant and to the set of objects in use, when other threads use the cache as well.
\<close>

unbundle bit_operations_syntax

section \<open>Configuration\<close>

text \<open>What \<^verbatim>\<open>spl_kmem_cache_create\<close> fixes and no operation changes.\<close>

definition kind :: "u64 \<Rightarrow> bool \<times> bool" where
  "kind flags = (has flags KMC_OFFSLAB, has flags KMC_SLAB)"

definition cfg :: "spl_kmem_cache \<Rightarrow> (u32 \<times> u32 \<times> u32) \<times> (bool \<times> bool) \<times> (nat \<Rightarrow> nat \<times> nat)" where
  "cfg c = ((skc_obj_size c, skc_obj_align c, skc_slab_objs c), kind (skc_flags c),
     (\<lambda>i. (skm_size (skc_mag c i), skm_refill (skc_mag c i))))"

definition cfg_ok :: "spl_kmem_cache \<Rightarrow> bool" where
  "cfg_ok c \<longleftrightarrow> \<not> has (skc_flags c) KMC_SLAB \<and> skc_slab_objs c \<noteq> 0 \<and> spl_sks_size (skc_obj_align c) \<noteq> 0 \<and> spl_obj_size (skc_obj_size c) (skc_obj_align c) \<noteq> 0 \<and>
     (\<forall>i. 0 < skm_refill (skc_mag c i) \<and> skm_refill (skc_mag c i) \<le> skm_size (skc_mag c i) \<and> skm_size (skc_mag c i) \<le> 256)"

lemma cfg_ok_cong: "cfg c' = cfg c \<Longrightarrow> cfg_ok c \<Longrightarrow> cfg_ok c'"
  by (simp add: cfg_def cfg_ok_def kind_def fun_eq_iff)

lemma has_push_bit: "k < LENGTH('a) \<Longrightarrow> has (f :: 'a::len word) (push_bit k 1) \<longleftrightarrow> bit f k"
  by (simp add: has_def push_bit_eq_mult and_exp_eq_0_iff_not_bit)

lemma kind_bits: "kind f = (bit f 8, bit f 7)"
proof -
  have "has f (push_bit k 1) = bit f k" if "k < 64" for k using that by (intro has_push_bit) simp
  then show ?thesis unfolding kind_def KMC_OFFSLAB_def KMC_SLAB_def by (simp only:)
qed

lemma kind_kept:
  "kind (f AND NOT KMC_DEADLOCKED) = kind f" "kind (f OR KMC_GROWING) = kind f" "kind (f OR KMC_DEADLOCKED) = kind f"
  "kind (f AND NOT KMC_GROWING) = kind f" "kind (f OR KMC_REAPING) = kind f" "kind (f AND NOT KMC_REAPING) = kind f"
  "kind (f OR KMC_DESTROY) = kind f"
  unfolding kind_bits KMC_DEADLOCKED_def KMC_GROWING_def KMC_REAPING_def KMC_DESTROY_def
  by (simp_all only: bit_and_iff bit_or_iff bit_not_iff bit_push_bit_iff bit_1_iff) simp_all

lemma kind_offslab: "kind f = kind f' \<Longrightarrow> has f KMC_OFFSLAB = has f' KMC_OFFSLAB"
  by (simp add: kind_def)

text \<open>Operations that only set flags, the statistics of deadlocks or the age of a magazine.\<close>

lemma inv_flags:
  assumes "kind f = kind (skc_flags c)"
  shows "cache_inv (c\<lparr>skc_flags := f\<rparr>) = cache_inv c" "in_use (c\<lparr>skc_flags := f\<rparr>) = in_use c" "cfg (c\<lparr>skc_flags := f\<rparr>) = cfg c"
    "slabs (c\<lparr>skc_flags := f\<rparr>) = slabs c"
proof -
  let ?c = "c\<lparr>skc_flags := f\<rparr>"
  show s: "slabs ?c = slabs c" by (simp add: slabs_def)
  have o: "objs_of ?c = objs_of c" by (simp add: objs_of_def fun_eq_iff)
  have a: "allocated ?c = allocated c" by (simp add: allocated_def s o)
  show "in_use ?c = in_use c" by (simp add: in_use_def a mag_set_def)
  show "cfg ?c = cfg c" by (simp add: cfg_def assms)
  show "cache_inv ?c = cache_inv c"
    by (simp add: cache_inv_def core_inv_def lists_ok_def slab_ok_def mags_ok_def counts_ok_def mem_ok_def offslab_def s o a kind_offslab [OF assms])
qed

lemma inv_deadlock:
  "cache_inv (c\<lparr>skc_obj_deadlock := n\<rparr>) = cache_inv c" "in_use (c\<lparr>skc_obj_deadlock := n\<rparr>) = in_use c"
  "cfg (c\<lparr>skc_obj_deadlock := n\<rparr>) = cfg c"
proof -
  let ?c = "c\<lparr>skc_obj_deadlock := n\<rparr>"
  have s: "slabs ?c = slabs c" by (simp add: slabs_def)
  have o: "objs_of ?c = objs_of c" by (simp add: objs_of_def fun_eq_iff)
  have a: "allocated ?c = allocated c" by (simp add: allocated_def s o)
  show "in_use ?c = in_use c" by (simp add: in_use_def a mag_set_def)
  show "cfg ?c = cfg c" by (simp add: cfg_def)
  show "cache_inv ?c = cache_inv c"
    by (simp add: cache_inv_def core_inv_def lists_ok_def slab_ok_def mags_ok_def counts_ok_def mem_ok_def offslab_def s o a)
qed

section \<open>Growing\<close>

text \<open>
  What the kernel's page allocators promise: memory that is not in use.  A new slab starts at an
  address the cache does not hold, and no object of the cache is inside it; off slab, the objects
  are separate pieces of memory.
\<close>

definition kv_fresh :: "spl_kmem_cache \<Rightarrow> addr \<Rightarrow> addr list \<Rightarrow> bool" where
  "kv_fresh c base os \<longleftrightarrow> set (base # os) \<inter> (kv_live c \<union> dom (sko_slab c)) = {} \<and>
     (has (skc_flags c) KMC_OFFSLAB \<longrightarrow> distinct (base # os))"

lemma slab_objects_distinct:
  assumes "cfg_ok c" "kv_fresh c base (map the (slab_objects c base off))"
  shows "distinct (base # map the (slab_objects c base off))"
proof (cases "has (skc_flags c) KMC_OFFSLAB")
  case True
  then show ?thesis using assms(2) by (simp add: kv_fresh_def)
next
  case False
  let ?a = "unat (spl_sks_size (skc_obj_align c))" and ?b = "unat (spl_obj_size (skc_obj_size c) (skc_obj_align c))"
  have ab: "0 < ?a" "0 < ?b" using assms(1) by (simp_all add: cfg_ok_def unat_gt_0)
  have "map the (slab_objects c base off) = map (\<lambda>i. base + ?a + i * ?b) [0..<unat (skc_slab_objs c)]"
    using False by (simp add: slab_objects_def)
  moreover have "distinct (map (\<lambda>i. base + ?a + i * ?b) [0..<n])" for n using ab by (auto simp: distinct_map inj_on_def)
  moreover have "base \<notin> set (map (\<lambda>i. base + ?a + i * ?b) [0..<n])" for n using ab by auto
  ultimately show ?thesis by simp
qed

lemma slab_alloc_fields:
  assumes "spl_slab_alloc kv off c = (Some s, c')" "os = map the (slab_objects c s off)"
  shows "kv = Some s \<and> length os = unat (skc_slab_objs c) \<and>
    c' = c\<lparr>skc_slabs := (skc_slabs c)(s := \<lparr>sks_objs = unat (skc_slab_objs c), sks_ref = 0, sks_free_list = os\<rparr>),
           sko_slab := (\<lambda>a. if a \<in> set os then Some s else sko_slab c a),
           kv_live := insert s (kv_live c) \<union> (if has (skc_flags c) KMC_OFFSLAB then set os else {})\<rparr>"
proof -
  obtain b where b: "kv = Some b" using assms(1) by (cases kv) (simp_all add: spl_slab_alloc_def)
  then have "s = b" using assms(1) by (simp add: spl_slab_alloc_def Let_def split: if_splits)
  moreover have "length os = unat (skc_slab_objs c)" using assms(2) by (simp add: slab_objects_def)
  ultimately show ?thesis using assms b by (auto simp: spl_slab_alloc_def Let_def split: if_splits)
qed

lemma cache_grow_inv:
  assumes i: "cache_inv c" and cf: "cfg_ok c" and e: "cache_grow kv off c = (ok, c')"
    and fresh: "\<And>base. kv = Some base \<Longrightarrow> kv_fresh c base (map the (slab_objects c base off))"
  shows "cache_inv c' \<and> in_use c' = in_use c \<and> cfg c' = cfg c \<and> (ok \<longrightarrow> skc_partial_list c' \<noteq> []) \<and> (\<not> ok \<longrightarrow> c' = c) \<and>
    skc_mag c' = skc_mag c \<and> skc_emergency_tree c' = skc_emergency_tree c"
proof (cases "fst (spl_slab_alloc kv off c)")
  case None
  then have "c' = c \<and> \<not> ok" using e by (cases kv) (auto simp: cache_grow_def spl_slab_alloc_def Let_def split: if_splits)
  then show ?thesis using i by simp
next
  case (Some s)
  let ?os = "map the (slab_objects c s off)"
  obtain c1 where c1: "spl_slab_alloc kv off c = (Some s, c1)" using Some by (metis prod.collapse)
  note A = slab_alloc_fields [OF c1 refl]
  have fr: "kv_fresh c s ?os" using A by (intro fresh) simp
  have d: "distinct (s # ?os)" by (rule slab_objects_distinct [OF cf fr])
  have core: "core_inv c" and l: "lists_ok c" using i by (simp_all add: cache_inv_def)
  then have m: "mem_ok c" and mo: "mags_ok c" by (simp_all add: core_inv_def)
  let ?E = "set_tree (skc_emergency_tree c)" and ?D = "dom (sko_slab c)"
  have kl: "kv_live c = slabs c \<union> ?E \<union> (if offslab c then ?D else {})" using m by (simp add: mem_ok_def)
  have n: "s \<notin> slabs c" "s \<notin> ?E" "s \<notin> ?D" "set ?os \<inter> slabs c = {}" "set ?os \<inter> ?E = {}" "set ?os \<inter> ?D = {}"
    using fr unfolding kv_fresh_def kl by auto
  define k where "k = \<lparr>sks_objs = unat (skc_slab_objs c), sks_ref = 0, sks_free_list = ?os\<rparr>"
  have ok: "ok" and c': "c' = c\<lparr>skc_slabs := (skc_slabs c)(s := k),
      sko_slab := (\<lambda>a. if a \<in> set ?os then Some s else sko_slab c a),
      kv_live := insert s (kv_live c) \<union> (if has (skc_flags c) KMC_OFFSLAB then set ?os else {}),
      skc_slab_total := skc_slab_total c + 1, skc_obj_total := skc_obj_total c + int (unat (skc_slab_objs c)),
      skc_partial_list := skc_partial_list c @ [s], skc_flags := skc_flags c AND NOT KMC_DEADLOCKED\<rparr>"
    using e c1 A by (simp_all add: cache_grow_def k_def cong: if_cong)
  have F: "skc_slabs c' = (skc_slabs c)(s := k)" "sko_slab c' = (\<lambda>a. if a \<in> set ?os then Some s else sko_slab c a)"
    "skc_partial_list c' = skc_partial_list c @ [s]" "skc_complete_list c' = skc_complete_list c" "skc_mag c' = skc_mag c"
    "skc_emergency_tree c' = skc_emergency_tree c" "skc_obj_alloc c' = skc_obj_alloc c" "skc_slab_alloc c' = skc_slab_alloc c"
    "skc_obj_emergency c' = skc_obj_emergency c" "skc_slab_total c' = skc_slab_total c + 1"
    "skc_obj_total c' = skc_obj_total c + int (unat (skc_slab_objs c))" "offslab c' = offslab c" "cfg c' = cfg c"
    "kv_live c' = insert s (kv_live c) \<union> (if offslab c then set ?os else {})"
    by (simp_all add: c' offslab_def kind_kept cfg_def kind_offslab [OF kind_kept(1)])
  have S: "slabs c' = insert s (slabs c)" by (auto simp: slabs_def F)
  have os: "objs_of c' s = set ?os" using n(3) m unfolding objs_of_def F(2) by (auto simp: mem_ok_def) (metis n(1))
  have ot: "objs_of c' t = objs_of c t" if "t \<noteq> s" for t using that n(6) unfolding objs_of_def F(2) by auto
  have st: "skc_slabs c' t = skc_slabs c t" if "t \<in> slabs c" for t using that n(1) by (auto simp: F)
  have ks: "skc_slabs c' s = k" by (simp add: F)
  have "allocated c' = (objs_of c' s - set (free_of c' s)) \<union> (\<Union>t \<in> slabs c. objs_of c' t - set (free_of c' t))"
    by (simp add: allocated_def S)
  also have "\<dots> = (\<Union>t \<in> slabs c. objs_of c t - set (free_of c t))"
  proof -
    have "objs_of c' t - set (free_of c' t) = objs_of c t - set (free_of c t)" if "t \<in> slabs c" for t
    proof -
      have "t \<noteq> s" using that n(1) by auto
      then show ?thesis using st [OF that] ot [of t] by simp
    qed
    then show ?thesis by (simp add: os ks k_def)
  qed
  finally have al: "allocated c' = allocated c" by (simp add: allocated_def)
  have "card (set ?os) = unat (skc_slab_objs c)" using A d by (metis distinct.simps(2) distinct_card)
  then have "slab_ok c' s" using A d cf unfolding slab_ok_def os ks by (simp add: k_def cfg_ok_def unat_gt_0)
  moreover have "slab_ok c' t" if "t \<in> slabs c" for t
  proof -
    have "t \<noteq> s" "slab_ok c t" using that n(1) core by (auto simp: core_inv_def)
    then show ?thesis using st [OF that] ot [of t] by (simp add: slab_ok_def)
  qed
  ultimately have "\<forall>t \<in> slabs c'. slab_ok c' t" unfolding S by blast
  moreover have "distinct (skc_complete_list c' @ skc_partial_list c')" using core n(1) by (auto simp: F core_inv_def slabs_def)
  moreover have "mags_ok c'" using mo by (simp add: mags_ok_def al F)
  moreover have "counts_ok c'"
  proof -
    have "{t \<in> insert s (slabs c). 0 < ref_of c' t} = {t \<in> slabs c. 0 < ref_of c t}" using n(1) st by (auto simp: ks k_def)
    moreover have "(\<Sum>t \<in> slabs c. int (ref_of c' t)) = (\<Sum>t \<in> slabs c. int (ref_of c t))"
      "(\<Sum>t \<in> slabs c. int (nobjs c' t)) = (\<Sum>t \<in> slabs c. int (nobjs c t))" by (simp_all add: st)
    moreover have "counts_ok c" using core by (simp add: core_inv_def)
    ultimately show ?thesis using n(1) unfolding counts_ok_def S by (simp add: F(6-11)) (simp add: ks k_def)
  qed
  moreover have "mem_ok c'"
  proof -
    have dm: "dom (sko_slab c') = set ?os \<union> ?D" by (auto simp: F(2) split: if_splits)
    have "t \<in> insert s (slabs c)" if "sko_slab c' a = Some t" for a t
      using that m by (auto simp: F(2) mem_ok_def split: if_splits)
    moreover have m': "?E \<inter> ?D = {}" "?E \<inter> slabs c = {}" "slabs c \<inter> ?D = {}" "bst (skc_emergency_tree c)" using m by (simp_all add: mem_ok_def)
    moreover have "s \<notin> set ?os" using d by simp
    then have "?E \<inter> (set ?os \<union> ?D) = {}" "?E \<inter> insert s (slabs c) = {}" "insert s (slabs c) \<inter> (set ?os \<union> ?D) = {}"
      using n m' by auto
    moreover have "kv_live c' = insert s (slabs c) \<union> ?E \<union> (if offslab c then set ?os \<union> ?D else {})"
      unfolding F(14) kl by (cases "offslab c") auto
    ultimately show ?thesis unfolding mem_ok_def S dm F(6,12) by simp
  qed
  ultimately have "core_inv c'" by (simp add: core_inv_def)
  moreover have "lists_ok c'"
  proof -
    have same: "skc_slabs c' t = skc_slabs c t" if "t \<in> set (skc_complete_list c) \<union> set (skc_partial_list c)" for t
      using that by (intro st) (simp add: slabs_def)
    have pos: "0 < unat (skc_slab_objs c)" using cf by (simp add: cfg_ok_def unat_gt_0)
    have "sorted_wrt (\<lambda>s t. 0 < ref_of c' t \<longrightarrow> 0 < ref_of c' s) (skc_partial_list c)"
      by (rule sorted_wrt_mono_rel [of _ "\<lambda>s t. 0 < ref_of c t \<longrightarrow> 0 < ref_of c s"]) (use l same in \<open>simp_all add: lists_ok_def\<close>)
    moreover have "ref_of c' s = 0" "nobjs c' s = unat (skc_slab_objs c)" by (simp_all add: ks k_def)
    moreover have "\<forall>t \<in> set (skc_complete_list c). ref_of c' t = nobjs c' t" "\<forall>t \<in> set (skc_partial_list c). ref_of c' t < nobjs c' t"
      using l same by (simp_all add: lists_ok_def)
    ultimately show ?thesis using pos unfolding lists_ok_def F(3,4) by (simp add: sorted_wrt_append)
  qed
  ultimately show ?thesis using ok F al by (simp add: cache_inv_def in_use_def mag_set_def)
qed

section \<open>Emergency objects\<close>

text \<open>
  What the kernel documents of \<^verbatim>\<open>rb_insert_color\<close> and \<^verbatim>\<open>rb_erase\<close>: the first only rebalances, so that the
  order of the nodes stays, and the second takes one node out of the order.
\<close>

definition rb_color_ok :: "(addr tree \<Rightarrow> addr tree) \<Rightarrow> bool" where
  "rb_color_ok color \<longleftrightarrow> (\<forall>t. inorder (color t) = inorder t)"

definition rb_erase_ok :: "(addr \<Rightarrow> addr tree \<Rightarrow> addr tree) \<Rightarrow> bool" where
  "rb_erase_ok erase \<longleftrightarrow> (\<forall>x t. inorder (erase x t) = remove1 x (inorder t))"

lemma search_spec: "bst t \<Longrightarrow> spl_emergency_search t a = (if a \<in> set_tree t then Some a else None)"
  by (induction t) auto

lemma link_None: "bst t \<Longrightarrow> emergency_link a t = None \<longleftrightarrow> a \<in> set_tree t"
  by (induction t) auto

lemma link_Some: "bst t \<Longrightarrow> emergency_link a t = Some t' \<Longrightarrow> bst t' \<and> set_tree t' = insert a (set_tree t)"
proof (induction t arbitrary: t')
  case (Node l x r)
  consider (L) l' where "a < x" "emergency_link a l = Some l'" "t' = Node l' x r"
    | (R) r' where "x < a" "emergency_link a r = Some r'" "t' = Node l x r'"
    using Node.prems(2) by (auto split: if_splits)
  then show ?case
  proof cases
    case L
    then show ?thesis using Node.IH(1) [OF _ L(2)] Node.prems(1) by auto
  next
    case R
    then show ?thesis using Node.IH(2) [OF _ R(2)] Node.prems(1) by auto
  qed
qed auto

lemma insert_spec:
  assumes "rb_color_ok color" "bst t"
  shows "spl_emergency_insert color a t = None \<longleftrightarrow> a \<in> set_tree t"
    and "spl_emergency_insert color a t = Some t' \<Longrightarrow> bst t' \<and> set_tree t' = insert a (set_tree t)"
proof -
  show "spl_emergency_insert color a t = None \<longleftrightarrow> a \<in> set_tree t"
    using link_None [OF assms(2)] by (simp add: spl_emergency_insert_def)
  assume "spl_emergency_insert color a t = Some t'"
  then obtain u where u: "emergency_link a t = Some u" "t' = color u" by (auto simp: spl_emergency_insert_def)
  have "bst u \<and> set_tree u = insert a (set_tree t)" by (rule link_Some [OF assms(2) u(1)])
  moreover have "bst (color u) = bst u" "set_tree (color u) = set_tree u"
    using assms(1) by (simp_all add: rb_color_ok_def bst_iff_sorted_wrt_less flip: set_inorder)
  ultimately show "bst t' \<and> set_tree t' = insert a (set_tree t)" by (simp add: u(2))
qed

lemma erase_spec:
  assumes "rb_erase_ok erase" "bst t"
  shows "bst (erase a t) \<and> set_tree (erase a t) = set_tree t - {a}"
proof -
  have "sorted_wrt (<) (inorder t)" using assms(2) by (simp add: bst_iff_sorted_wrt_less)
  moreover have "distinct (inorder t)" using calculation by (simp add: strict_sorted_iff)
  moreover have "inorder (erase a t) = filter ((\<noteq>) a) (inorder t)"
    using assms(1) calculation(2) by (simp add: rb_erase_ok_def distinct_remove1_removeAll removeAll_filter_not_eq)
  ultimately show ?thesis
    by (simp add: bst_iff_sorted_wrt_less sorted_wrt_filter flip: set_inorder) auto
qed

text \<open>An operation that only changes the emergency tree and its counters.\<close>

lemma inv_tree:
  assumes i: "cache_inv c" and t: "bst t" "set_tree t \<inter> (slabs c \<union> dom (sko_slab c)) = {}" and n: "n = int (card (set_tree t))"
    and d: "tot = skc_obj_total c - skc_obj_emergency c + n" and k: "kl = slabs c \<union> set_tree t \<union> (if offslab c then dom (sko_slab c) else {})"
    and e: "c' = c\<lparr>skc_emergency_tree := t, skc_obj_total := tot, skc_obj_emergency := n, skc_obj_emergency_max := mx, kv_live := kl\<rparr>"
  shows "cache_inv c' \<and> in_use c' = (in_use c - set_tree (skc_emergency_tree c)) \<union> set_tree t \<and> cfg c' = cfg c"
proof -
  have s: "slabs c' = slabs c" by (simp add: slabs_def e)
  have o: "objs_of c' = objs_of c" by (simp add: objs_of_def fun_eq_iff e)
  have a: "allocated c' = allocated c" by (simp add: allocated_def s o) (simp add: e)
  have m: "mem_ok c" using i by (simp add: cache_inv_def core_inv_def)
  have "allocated c \<subseteq> dom (sko_slab c)" by (auto simp: allocated_def objs_of_def)
  then have "(in_use c - set_tree (skc_emergency_tree c)) = allocated c - mag_set c" using m by (auto simp: in_use_def mem_ok_def)
  then have "in_use c' = (in_use c - set_tree (skc_emergency_tree c)) \<union> set_tree t" by (simp add: in_use_def a) (simp add: e mag_set_def)
  moreover have "mem_ok c'" using m t k unfolding mem_ok_def s by (auto simp: e offslab_def)
  moreover have "counts_ok c'" using i n d unfolding counts_ok_def cache_inv_def core_inv_def s by (simp add: e)
  moreover have "mags_ok c'" using i unfolding cache_inv_def core_inv_def mags_ok_def a by (simp add: e)
  moreover have "lists_ok c'" "distinct (skc_complete_list c' @ skc_partial_list c')" "\<forall>s \<in> slabs c. slab_ok c' s"
    using i unfolding cache_inv_def core_inv_def lists_ok_def slab_ok_def o by (simp_all add: e)
  ultimately show ?thesis by (simp add: cache_inv_def core_inv_def s) (simp add: e cfg_def)
qed

lemma emergency_alloc_inv:
  assumes i: "cache_inv c" and col: "rb_color_ok color" and e: "spl_emergency_alloc color ske pages c = (r, c')"
    and fresh: "\<And>a. pages = Some a \<Longrightarrow> a \<notin> kv_live c \<union> dom (sko_slab c)"
  shows "cache_inv c' \<and> cfg c' = cfg c \<and>
    (case r of Inl _ \<Rightarrow> c' = c | Inr a \<Rightarrow> pages = Some a \<and> a \<notin> in_use c \<and> in_use c' = insert a (in_use c) \<and>
      set_tree (skc_emergency_tree c') = insert a (set_tree (skc_emergency_tree c)))"
proof (cases r)
  case (Inl x)
  then have "c' = c" using e by (auto simp: spl_emergency_alloc_def Let_def split: if_splits option.splits)
  then show ?thesis using i Inl by simp
next
  case (Inr a)
  let ?E = "set_tree (skc_emergency_tree c)"
  have m: "mem_ok c" and cn: "counts_ok c" using i by (simp_all add: cache_inv_def core_inv_def)
  have p: "pages = Some a" using e Inr by (auto simp: spl_emergency_alloc_def Let_def split: if_splits option.splits)
  note fr = fresh [OF p]
  obtain t where t: "spl_emergency_insert color a (skc_emergency_tree c) = Some t"
    using e Inr p by (auto simp: spl_emergency_alloc_def Let_def split: if_splits option.splits)
  have T: "bst t" "set_tree t = insert a ?E" using insert_spec(2) [OF col _ t] m by (simp_all add: mem_ok_def)
  obtain mx where c': "c' = c\<lparr>skc_emergency_tree := t, skc_obj_total := skc_obj_total c + 1, skc_obj_emergency := skc_obj_emergency c + 1,
      skc_obj_emergency_max := mx, kv_live := insert a (kv_live c)\<rparr>"
  proof (rule that [of "max (skc_obj_emergency_max c) (skc_obj_emergency c + 1)"])
    show "c' = c\<lparr>skc_emergency_tree := t, skc_obj_total := skc_obj_total c + 1, skc_obj_emergency := skc_obj_emergency c + 1,
      skc_obj_emergency_max := max (skc_obj_emergency_max c) (skc_obj_emergency c + 1), kv_live := insert a (kv_live c)\<rparr>"
      using e Inr p t by (cases c) (auto simp: spl_emergency_alloc_def Let_def max_def split: if_splits)
  qed
  have na: "a \<notin> ?E" "a \<notin> slabs c" "a \<notin> dom (sko_slab c)" using fr m by (auto simp: mem_ok_def)
  have "allocated c \<subseteq> dom (sko_slab c)" by (auto simp: allocated_def objs_of_def)
  then have nu: "a \<notin> in_use c" using na by (auto simp: in_use_def)
  have "cache_inv c' \<and> in_use c' = (in_use c - ?E) \<union> set_tree t \<and> cfg c' = cfg c"
    by (rule inv_tree [OF i T(1) _ _ _ _ c']) (use m cn na T(2) in \<open>auto simp: mem_ok_def counts_ok_def\<close>)
  moreover have "(in_use c - ?E) \<union> insert a ?E = insert a (in_use c)" by (auto simp: in_use_def)
  moreover have "skc_emergency_tree c' = t" by (simp add: c')
  ultimately show ?thesis using Inr p nu T(2) by simp
qed

lemma emergency_free_inv:
  assumes i: "cache_inv c" and er: "rb_erase_ok erase" and e: "spl_emergency_free erase a c = (r, c')"
  shows "if a \<in> set_tree (skc_emergency_tree c) then r = None \<and> cache_inv c' \<and> in_use c' = in_use c - {a} \<and> cfg c' = cfg c \<and>
      set_tree (skc_emergency_tree c') = set_tree (skc_emergency_tree c) - {a}
    else r = Some ENOENT \<and> c' = c"
proof -
  let ?E = "set_tree (skc_emergency_tree c)"
  have m: "mem_ok c" and cn: "counts_ok c" using i by (simp_all add: cache_inv_def core_inv_def)
  have b: "bst (skc_emergency_tree c)" using m by (simp add: mem_ok_def)
  show ?thesis
  proof (cases "a \<in> ?E")
    case True
    let ?t = "erase a (skc_emergency_tree c)"
    have T: "bst ?t" "set_tree ?t = ?E - {a}" using erase_spec [OF er b] by simp_all
    have r: "r = None" and c': "c' = c\<lparr>skc_emergency_tree := ?t, skc_obj_total := skc_obj_total c - 1,
        skc_obj_emergency := skc_obj_emergency c - 1, skc_obj_emergency_max := skc_obj_emergency_max c, kv_live := kv_live c - {a}\<rparr>"
      using e True by (auto simp: spl_emergency_free_def search_spec [OF b])
    have "Suc (card (?E - {a})) = card ?E" by (rule card_Suc_Diff1) (use True in simp_all)
    then have "int (card (?E - {a})) = int (card ?E) - 1" by linarith
    then have "cache_inv c' \<and> in_use c' = (in_use c - ?E) \<union> set_tree ?t \<and> cfg c' = cfg c"
      by (intro inv_tree [OF i T(1) _ _ _ _ c']) (use m cn T(2) True in \<open>auto simp: mem_ok_def counts_ok_def\<close>)
    moreover have "allocated c \<subseteq> dom (sko_slab c)" by (auto simp: allocated_def objs_of_def)
    then have "(in_use c - ?E) \<union> (?E - {a}) = in_use c - {a}" using m True by (auto simp: in_use_def mem_ok_def)
    moreover have "skc_emergency_tree c' = ?t" by (simp add: c')
    ultimately show ?thesis using True r T(2) by simp
  next
    case False
    then show ?thesis using e by (simp add: spl_emergency_free_def search_spec [OF b])
  qed
qed

section \<open>Growing and refilling among other threads\<close>

text \<open>
  \<open>H\<close> are objects that their holders keep during the operation, and \<open>U\<close> bounds the objects in use.
  Other threads may allocate and free whatever respects the two bounds.  \<open>V\<close> are the addresses of
  \<^verbatim>\<open>vmalloc\<close> space; emergency objects, which are pages or \<^verbatim>\<open>kmalloc\<close> memory, are never there.
\<close>

definition good :: "(addr \<Rightarrow> bool) \<Rightarrow> addr set \<Rightarrow> addr set \<Rightarrow> spl_kmem_cache \<Rightarrow> bool" where
  "good V H U c \<longleftrightarrow> cache_inv c \<and> cfg_ok c \<and> H \<subseteq> in_use c \<and> in_use c \<subseteq> U \<and>
     (\<forall>x \<in> set_tree (skc_emergency_tree c). \<not> V x)"

definition rely :: "(addr \<Rightarrow> bool) \<Rightarrow> addr set \<Rightarrow> addr set \<Rightarrow> (spl_kmem_cache \<Rightarrow> spl_kmem_cache) \<Rightarrow> bool" where
  "rely V H U R \<longleftrightarrow> (\<forall>c. good V H U c \<longrightarrow> good V H U (R c))"

definition fresh_ok :: "(addr \<Rightarrow> bool) \<Rightarrow> grow_env \<Rightarrow> bool" where
  "fresh_ok V g \<longleftrightarrow> (\<forall>c. cache_inv c \<longrightarrow>
     (\<forall>base. ge_kv g c = Some base \<longrightarrow> kv_fresh c base (map the (slab_objects c base (ge_off g c)))) \<and>
     (\<forall>a. ge_pages g c = Some a \<longrightarrow> a \<notin> kv_live c \<union> dom (sko_slab c) \<and> \<not> V a))"

definition env_ok :: "(addr \<Rightarrow> bool) \<Rightarrow> addr set \<Rightarrow> addr set \<Rightarrow> grow_env \<Rightarrow> bool" where
  "env_ok V H U g \<longleftrightarrow> rely V H U (ge_run g) \<and> rely V H U (ge_wait g) \<and> fresh_ok V g"

lemma good_same:
  assumes "good V H U c" "cache_inv c'" "in_use c' = in_use c" "cfg c' = cfg c" "skc_emergency_tree c' = skc_emergency_tree c"
  shows "good V H U c'"
  using assms cfg_ok_cong [OF assms(4)] by (simp add: good_def)

lemma good_flags:
  assumes "good V H U c" "kind f = kind (skc_flags c)"
  shows "good V H U (c\<lparr>skc_flags := f\<rparr>)"
  using inv_flags [OF assms(2)] assms(1) by (intro good_same [OF assms(1)]) (simp_all add: good_def)

text \<open>What a step of the allocator gives: nothing new, or one more object that nobody held.\<close>

definition given :: "(addr \<Rightarrow> bool) \<Rightarrow> addr set \<Rightarrow> addr set \<Rightarrow> addr option \<Rightarrow> spl_kmem_cache \<Rightarrow> bool" where
  "given V H U r c \<longleftrightarrow> (case r of None \<Rightarrow> good V H U c | Some a \<Rightarrow> a \<notin> H \<and> good V (insert a H) (insert a U) c)"

lemma given_insert:
  assumes "good V H U c" "cache_inv c'" "cfg c' = cfg c" "a \<notin> in_use c" "in_use c' = insert a (in_use c)"
    "\<forall>x \<in> set_tree (skc_emergency_tree c'). \<not> V x"
  shows "given V H U (Some a) c'"
  using assms cfg_ok_cong [OF assms(3)] by (auto simp: given_def good_def)

lemma cache_grow_good:
  assumes "good V H U c" "fresh_ok V g" "cache_grow (ge_kv g c) (ge_off g c) c = (ok, c')"
  shows "good V H U c' \<and> (ok \<longrightarrow> skc_partial_list c' \<noteq> []) \<and> (\<not> ok \<longrightarrow> c' = c) \<and> skc_mag c' = skc_mag c"
proof -
  have c: "cache_inv c" "cfg_ok c" using assms(1) by (simp_all add: good_def)
  have fr: "kv_fresh c base (map the (slab_objects c base (ge_off g c)))" if "ge_kv g c = Some base" for base
    using assms(2) c(1) that by (simp add: fresh_ok_def)
  note A = cache_grow_inv [OF c assms(3) fr]
  have "good V H U c'" by (rule good_same [OF assms(1)]) (use A in simp_all)
  then show ?thesis using A by simp
qed

lemma emergency_alloc_given:
  assumes "good V H U c" "fresh_ok V g" "rb_color_ok color" "spl_emergency_alloc color ske (ge_pages g c) c = (r, c')"
  shows "case r of Inl _ \<Rightarrow> good V H U c' | Inr a \<Rightarrow> given V H U (Some a) c'"
proof -
  have c: "cache_inv c" using assms(1) by (simp add: good_def)
  have fr: "a \<notin> kv_live c \<union> dom (sko_slab c)" "\<not> V a" if "ge_pages g c = Some a" for a using assms(2) c that by (simp_all add: fresh_ok_def)
  note A = emergency_alloc_inv [OF c assms(3,4) fr(1)]
  show ?thesis
  proof (cases r)
    case (Inl e)
    then show ?thesis using A assms(1) by simp
  next
    case (Inr a)
    have "given V H U (Some a) c'" by (rule given_insert [OF assms(1)]) (use A Inr fr(2) assms(1) in \<open>simp_all add: good_def\<close>)
    then show ?thesis using Inr by simp
  qed
qed

lemma grow_given:
  assumes g: "good V H U c" and env: "env_ok V H U g" and col: "rb_color_ok color" and e: "spl_cache_grow color g c = (r, c')"
  shows "case r of Inl _ \<Rightarrow> good V H U c' | Inr obj \<Rightarrow> given V H U obj c' \<and> (obj = None \<longrightarrow> skc_partial_list c' \<noteq> [])"
proof -
  have w: "rely V H U (ge_wait g)" and f: "fresh_ok V g" using env by (simp_all add: env_ok_def)
  obtain ok c1 where c1: "(if has (skc_flags c) KMC_VMEM then (False, c) else cache_grow (ge_kv g c) (ge_off g c) c) = (ok, c1)"
    by (metis surj_pair)
  have G1: "good V H U c1 \<and> (ok \<longrightarrow> skc_partial_list c1 \<noteq> [])"
    using c1 cache_grow_good [OF g f] g by (auto split: if_splits)
  let ?c2 = "c1\<lparr>skc_flags := skc_flags c1 OR KMC_GROWING\<rparr>"
  have G2: "good V H U ?c2" by (rule good_flags) (use G1 kind_kept in simp_all)
  let ?c3 = "ge_wait g ?c2"
  have G3: "good V H U ?c3" using w G2 by (simp add: rely_def)
  let ?c4 = "?c3\<lparr>skc_flags := skc_flags ?c3 OR KMC_DEADLOCKED, skc_obj_deadlock := skc_obj_deadlock ?c3 + 1\<rparr>"
  have G3': "good V H U (?c3\<lparr>skc_flags := skc_flags ?c3 OR KMC_DEADLOCKED\<rparr>)" by (rule good_flags [OF G3]) (simp add: kind_kept)
  have G4: "good V H U ?c4" by (rule good_same [OF G3']) (use G3' in \<open>simp_all add: inv_deadlock good_def\<close>)
  consider (reap) "has (skc_flags c) KMC_REAPING" | (ok) "\<not> has (skc_flags c) KMC_REAPING" ok
    | (ska) "\<not> has (skc_flags c) KMC_REAPING" "\<not> ok" "\<not> has (skc_flags c1) KMC_GROWING \<and> \<not> ge_ska g"
    | (dead) "\<not> has (skc_flags c) KMC_REAPING" "\<not> ok" "has (skc_flags c1) KMC_GROWING \<or> ge_ska g" "has (skc_flags ?c2) KMC_DEADLOCKED"
    | (wait) "\<not> has (skc_flags c) KMC_REAPING" "\<not> ok" "has (skc_flags c1) KMC_GROWING \<or> ge_ska g" "\<not> has (skc_flags ?c2) KMC_DEADLOCKED"
    by blast
  then show ?thesis
  proof cases
    case reap
    then show ?thesis using e g w by (auto simp: spl_cache_grow_def rely_def)
  next
    case ok
    then show ?thesis using e G1 by (auto simp: spl_cache_grow_def c1 given_def)
  next
    case ska
    then show ?thesis using e G1 by (auto simp: spl_cache_grow_def c1)
  next
    case dead
    obtain q d where q: "spl_emergency_alloc color (ge_ske g) (ge_pages g ?c2) ?c2 = (q, d)" by (metis surj_pair)
    show ?thesis using emergency_alloc_given [OF G2 f col q] e dead
      by (auto simp: spl_cache_grow_def c1 q Let_def split: sum.splits)
  next
    case wait
    then show ?thesis using e G3 G4 by (auto simp: spl_cache_grow_def c1 Let_def split: if_splits)
  qed
qed

lemma cfg_take_one [simp]: "cfg (take_one i s c) = cfg c"
  by (auto simp: cfg_def take_one_def spl_cache_obj_def upd_mag_def upd_slab_def Let_def fun_eq_iff)

lemma cfg_take_objs [simp]: "cfg (take_objs n i s c) = cfg c"
  by (induction n arbitrary: c) (simp_all add: take_objs_Suc del: take_objs.simps(2))

lemma cfg_refill_from_slab: "refill_from_slab i n c = (k, c') \<Longrightarrow> cfg c' = cfg c"
proof -
  have u: "cfg (d\<lparr>skc_partial_list := p, skc_complete_list := q\<rparr>) = cfg d" for d p q by (simp add: cfg_def)
  show "refill_from_slab i n c = (k, c') \<Longrightarrow> cfg c' = cfg c" by (auto simp: refill_from_slab_def Let_def u)
qed

lemma refill_from_slab_good:
  assumes "good V H U c" "skc_partial_list c \<noteq> []" "0 < refill" "length (mag_objs c cpu) + refill \<le> skm_size (skc_mag c cpu)"
    "refill_from_slab cpu refill c = (n, c')"
  shows "good V H U c' \<and> 0 < n \<and> n \<le> refill \<and> length (mag_objs c' cpu) = length (mag_objs c cpu) + n \<and>
    skm_size (skc_mag c' cpu) = skm_size (skc_mag c cpu) \<and> skc_flags c' = skc_flags c"
proof -
  have "cache_inv c" using assms(1) by (simp add: good_def)
  note R = refill_from_slab_inv [OF this assms(2-5)]
  moreover have "good V H U c'" by (rule good_same [OF assms(1)]) (use R cfg_refill_from_slab [OF assms(5)] in simp_all)
  ultimately show ?thesis by simp
qed

lemma good_mag_room: "good V H U c \<Longrightarrow> length (mag_objs c cpu) \<le> skm_size (skc_mag c cpu)"
  by (simp add: good_def cache_inv_def core_inv_def mags_ok_def)

lemma refill_bound: "good V H U c \<Longrightarrow> skm_refill (skc_mag c cpu) \<le> 256"
  unfolding good_def cfg_ok_def by (meson le_trans)

text \<open>
  The loop ends: a pass either takes objects, or grows the cache so that the next pass does.  When it
  ends it has given what \<open>given\<close> says.
\<close>

lemma refill_loop_given:
  assumes "good V H U c" "\<And>n. env_ok V H U (G n)" "rb_color_ok color" "length (mag_objs c cpu) + refill \<le> skm_size (skc_mag c cpu)"
    "2 * refill + of_bool (skc_partial_list c = []) \<le> fuel"
  shows "\<exists>r c'. refill_loop fuel color G moved cpu refill c = Some (r, c') \<and> given V H U r c'"
  using assms(1,4,5)
proof (induction fuel arbitrary: c refill)
  case 0
  then show ?case by (simp add: given_def)
next
  case (Suc fuel)
  show ?case
  proof (cases "refill = 0")
    case True
    then show ?thesis using Suc.prems(1) by (simp add: given_def)
  next
    case pos: False
    show ?thesis
    proof (cases "skc_partial_list c = []")
      case empty: True
      let ?c = "ge_run (G fuel) c"
      have e: "env_ok V H U (G fuel)" by (rule assms(2))
      have gc: "good V H U ?c" using e Suc.prems(1) by (simp add: env_ok_def rely_def)
      obtain q c1 where q: "spl_cache_grow color (G fuel) ?c = (q, c1)" by (metis surj_pair)
      note A = grow_given [OF gc e assms(3) q]
      show ?thesis
      proof (cases q)
        case (Inl x)
        then show ?thesis using A empty pos q by (simp add: given_def)
      next
        case (Inr obj)
        show ?thesis
        proof (cases obj)
          case (Some a)
          then show ?thesis using A Inr empty pos q by simp
        next
          case None
          let ?r = "min refill (skm_size (skc_mag c1 cpu) - skm_avail (skc_mag c1 cpu))"
          have c1: "good V H U c1" "skc_partial_list c1 \<noteq> []" using A Inr None by (simp_all add: given_def)
          have "length (mag_objs c1 cpu) + ?r \<le> skm_size (skc_mag c1 cpu)" using good_mag_room [OF c1(1), of cpu] by simp
          from Suc.IH [OF c1(1) this] show ?thesis using Inr None empty pos q c1 Suc.prems(3) by (simp add: given_def)
        qed
      qed
    next
      case ne: False
      obtain n c1 where n: "refill_from_slab cpu refill c = (n, c1)" by (metis surj_pair)
      note A = refill_from_slab_good [OF Suc.prems(1) ne _ Suc.prems(2) n]
      have "0 < n" "n \<le> refill" using A pos by simp_all
      then have "2 * (refill - n) + 2 \<le> 2 * refill" by linarith
      moreover have "2 * refill \<le> Suc fuel" using Suc.prems(3) by simp
      ultimately have "2 * (refill - n) + of_bool (skc_partial_list c1 = []) \<le> fuel" by (simp add: of_bool_def)
      from Suc.IH [OF _ _ this] show ?thesis using A pos ne n Suc.prems(2) by simp
    qed
  qed
qed

lemma spl_cache_refill_given:
  assumes "good V H U c" "\<And>n. env_ok V H U (G n)" "rb_color_ok color" "512 < fuel"
  shows "\<exists>r c'. spl_cache_refill fuel color G moved cpu c = Some (r, c') \<and> given V H U r c'"
  unfolding spl_cache_refill_def
  by (rule refill_loop_given [OF assms(1,2,3)]) (use good_mag_room [OF assms(1), of cpu] refill_bound [OF assms(1), of cpu] assms(4) in \<open>auto simp: of_bool_def\<close>)

section \<open>Allocating\<close>

lemma allocated_tree: "cache_inv c \<Longrightarrow> allocated c \<inter> set_tree (skc_emergency_tree c) = {}"
  by (auto simp: allocated_def objs_of_def cache_inv_def core_inv_def mem_ok_def)

lemma pop_given:
  assumes g: "good V H U c" and ne: "mag_objs c cpu \<noteq> []"
    and e: "c' = upd_mag cpu (\<lambda>m. m\<lparr>skm_objs := butlast (mag_objs c cpu), skm_age := j\<rparr>) c"
  shows "given V H U (Some (last (mag_objs c cpu))) c'"
proof -
  let ?os = "mag_objs c cpu" and ?a = "last (mag_objs c cpu)" and ?O = "\<Union>j \<in> - {cpu}. set (mag_objs c j)"
  have i: "cache_inv c" using g by (simp add: good_def)
  then have core: "core_inv c" and m: "mags_ok c" by (simp_all add: cache_inv_def core_inv_def)
  have os: "?os = butlast ?os @ [?a]" using ne by simp
  have mo: "distinct ?os" "set ?os \<subseteq> allocated c" "length ?os \<le> skm_size (skc_mag c cpu)" using m by (simp_all add: mags_ok_def)
  have st: "set ?os = insert ?a (set (butlast ?os))" by (subst os) simp
  have d: "?a \<notin> set (butlast ?os)" "distinct (butlast ?os)" using mo(1) os by (metis distinct_append distinct_butlast not_distinct_conv_prefix append_Nil2, simp add: distinct_butlast mo(1))
  have ot: "set ?os \<inter> ?O = {}" by (rule mags_others [OF m])
  have "core_inv c'" unfolding e by (rule inv_upd_mag [OF core]) (use mo d ot st in auto)
  then have i': "cache_inv c'" using i by (simp add: e cache_inv_def)
  have ms: "mag_set c = insert ?a (mag_set c')" unfolding mag_set_split [of c cpu] e mag_set_upd st by simp
  have na: "?a \<notin> mag_set c'" unfolding e mag_set_upd using d(1) ot st by auto
  have aa: "?a \<in> allocated c" using mo(2) st by auto
  have "in_use c' = insert ?a (in_use c)" using ms na aa by (simp add: in_use_def e) auto
  moreover have "?a \<notin> in_use c" using ms allocated_tree [OF i] aa by (auto simp: in_use_def)
  moreover have "cfg c' = cfg c" by (auto simp: e cfg_def upd_mag_def)
  moreover have "skc_emergency_tree c' = skc_emergency_tree c" by (simp add: e)
  ultimately show ?thesis using given_insert [OF g i'] g by (simp add: good_def)
qed

lemma alloc_pass_given:
  assumes "good V H U c" "\<And>n. env_ok V H U (G n)" "rb_color_ok color" "512 < fuel"
  shows "\<exists>r c'. cache_alloc_pass fuel color G moved j flags cpu c = Some (r, c') \<and>
    (case r of Inl _ \<Rightarrow> good V H U c' \<and> \<not> has flags KM_NOSLEEP | Inr obj \<Rightarrow> given V H U obj c' \<and> (obj = None \<longrightarrow> has flags KM_NOSLEEP))"
proof (cases "mag_objs c cpu = []")
  case True
  obtain r c' where r: "spl_cache_refill fuel color G moved cpu c = Some (r, c')" "given V H U r c'"
    using spl_cache_refill_given [where G = G and moved = moved and cpu = cpu, OF assms] by blast
  then show ?thesis using True by (auto simp: cache_alloc_pass_def Let_def given_def)
next
  case False
  show ?thesis using False pop_given [OF assms(1) False refl] by (simp add: cache_alloc_pass_def Let_def)
qed

lemma alloc_restart_given:
  assumes "good V H U c" "\<And>i n. env_ok V H U (G i n)" "rb_color_ok color"
    "cache_alloc_restart passes fuel color G moved j flags cpu c = Some (r, c')" "512 < fuel"
  shows "given V H U r c' \<and> (r = None \<longrightarrow> has flags KM_NOSLEEP)"
  using assms(1,4)
proof (induction passes arbitrary: c)
  case (Suc i)
  obtain q d where q: "cache_alloc_pass fuel color (G i) (moved i) j flags (cpu i) c = Some (q, d)"
    "case q of Inl _ \<Rightarrow> good V H U d \<and> \<not> has flags KM_NOSLEEP | Inr obj \<Rightarrow> given V H U obj d \<and> (obj = None \<longrightarrow> has flags KM_NOSLEEP)"
    using alloc_pass_given [where G = "G i", OF Suc.prems(1) assms(2,3,5)] by blast
  then show ?case using Suc by (auto split: sum.splits)
qed simp

text \<open>One pass is enough for a caller that must not sleep.\<close>

lemma alloc_nosleep_total:
  assumes "good V H U c" "\<And>i n. env_ok V H U (G i n)" "rb_color_ok color" "512 < fuel" "has flags KM_NOSLEEP"
  shows "\<exists>r c'. cache_alloc_restart (Suc i) fuel color G moved j flags cpu c = Some (r, c') \<and> given V H U r c'"
proof -
  obtain q d where "cache_alloc_pass fuel color (G i) (moved i) j flags (cpu i) c = Some (q, d)"
    "case q of Inl _ \<Rightarrow> good V H U d \<and> \<not> has flags KM_NOSLEEP | Inr obj \<Rightarrow> given V H U obj d \<and> (obj = None \<longrightarrow> has flags KM_NOSLEEP)"
    using alloc_pass_given [where G = "G i", OF assms(1-4)] by blast
  then show ?thesis using assms(5) by (auto split: sum.splits)
qed

section \<open>Freeing\<close>

lemma cfg_same:
  "cfg (upd_slab s f c) = cfg c" "cfg (c\<lparr>skc_obj_alloc := n\<rparr>) = cfg c" "cfg (c\<lparr>skc_complete_list := p, skc_partial_list := q\<rparr>) = cfg c"
  "cfg (c\<lparr>skc_complete_list := p, skc_partial_list := q, skc_slab_alloc := n\<rparr>) = cfg c"
  "cfg (upd_mag i (\<lambda>m. m\<lparr>skm_objs := os\<rparr>) c) = cfg c" "cfg (spl_slab_free s c) = cfg c" "cfg (kv_free_slab s c) = cfg c"
  by (auto simp: cfg_def upd_slab_def upd_mag_def spl_slab_free_def kv_free_slab_def Let_def fun_eq_iff)

lemma cfg_shrink [simp]: "cfg (spl_cache_shrink obj c) = cfg c"
  unfolding spl_cache_shrink_def Let_def by (simp add: cfg_same)

lemma cfg_shrink_fold [simp]: "cfg (fold spl_cache_shrink os c) = cfg c"
  by (induction os arbitrary: c) simp_all

lemma cfg_flush [simp]: "cfg (spl_cache_flush i n c) = cfg c"
  by (simp add: spl_cache_flush_def Let_def cfg_same)

lemma cfg_reclaim [simp]: "cfg (spl_slab_reclaim c) = cfg c"
proof -
  have "cfg (fold reclaim_one ss c) = cfg c" for ss by (induction ss arbitrary: c) (simp_all add: reclaim_one_def cfg_same)
  then show ?thesis by (simp add: spl_slab_reclaim_def fold_reclaim)
qed

lemma push_inv:
  assumes i: "cache_inv c" and a: "a \<in> allocated c - mag_set c" and l: "length (mag_objs c cpu) < skm_size (skc_mag c cpu)"
    and e: "c' = upd_mag cpu (\<lambda>m. m\<lparr>skm_objs := skm_objs m @ [a]\<rparr>) c"
  shows "cache_inv c' \<and> in_use c' = in_use c - {a} \<and> cfg c' = cfg c"
proof -
  have core: "core_inv c" and m: "mags_ok c" using i by (simp_all add: cache_inv_def core_inv_def)
  have mo: "distinct (mag_objs c cpu)" "set (mag_objs c cpu) \<subseteq> allocated c" using m by (simp_all add: mags_ok_def)
  have na: "a \<notin> set (mag_objs c k)" for k using a by (auto simp: mag_set_def)
  let ?O = "\<Union>j \<in> - {cpu}. set (mag_objs c j)"
  have "a \<notin> ?O" using na by simp
  then have "set (mag_objs c cpu @ [a]) \<subseteq> allocated c - ?O" using mo(2) a mags_others [OF m, of cpu] by auto
  then have "core_inv c'" unfolding e
    by (intro inv_upd_mag [OF core]) (use mo(1) na [of cpu] l in simp_all)
  then have i': "cache_inv c'" using i by (simp add: e cache_inv_def)
  have ms: "mag_set c' = insert a (mag_set c)" unfolding mag_set_split [of c cpu] e mag_set_upd by auto
  have al: "allocated c' = allocated c" "skc_emergency_tree c' = skc_emergency_tree c" by (simp_all add: e)
  have "in_use c' = in_use c - {a}" using a allocated_tree [OF i] unfolding in_use_def ms al by auto
  moreover have "cfg c' = cfg c" by (auto simp: e cfg_def upd_mag_def)
  ultimately show ?thesis using i' by simp
qed

lemma free_inv:
  assumes i: "cache_inv c" and cf: "cfg_ok c" and er: "rb_erase_ok erase" and o: "a \<in> in_use c"
    and v: "\<And>x. x \<in> set_tree (skc_emergency_tree c) \<Longrightarrow> \<not> is_vmalloc_addr x"
    and e: "c' = cache_free_obj erase is_vmalloc_addr cpu a c"
  shows "cache_inv c' \<and> in_use c' = in_use c - {a} \<and> cfg c' = cfg c \<and>
    set_tree (skc_emergency_tree c') \<subseteq> set_tree (skc_emergency_tree c)"
proof -
  let ?E = "set_tree (skc_emergency_tree c)"
  obtain r d where r: "spl_emergency_free erase a c = (r, d)" by (metis surj_pair)
  note F = emergency_free_inv [OF i er r]
  have cn: "skc_obj_emergency c = int (card ?E)" using i by (simp add: cache_inv_def core_inv_def counts_ok_def)
  show ?thesis
  proof (cases "a \<in> ?E")
    case True
    then have "0 < skc_obj_emergency c" "\<not> is_vmalloc_addr a" using v cn card_gt_0_iff [of ?E] by auto
    then have "c' = d" using F True r by (simp add: e cache_free_obj_def)
    then show ?thesis using F True by auto
  next
    case False
    let ?full = "skm_avail (skc_mag c cpu) \<ge> skm_size (skc_mag c cpu)"
    define c2 where "c2 = (if ?full then spl_cache_flush cpu (skm_refill (skc_mag c cpu)) c else c)"
    define c3 where "c3 = upd_mag cpu (\<lambda>k. k\<lparr>skm_objs := skm_objs k @ [a]\<rparr>) c2"
    have c': "c' = (if ?full then spl_slab_reclaim c3 else c3)"
      using F False r unfolding e cache_free_obj_def c2_def c3_def Let_def by simp
    have a: "a \<in> allocated c - mag_set c" using o False by (simp add: in_use_def)
    have rf: "0 < skm_refill (skc_mag c cpu)" "skm_refill (skc_mag c cpu) \<le> skm_size (skc_mag c cpu)" using cf by (simp_all add: cfg_ok_def)
    have lm: "length (mag_objs c cpu) \<le> skm_size (skc_mag c cpu)" using i by (simp add: cache_inv_def core_inv_def mags_ok_def)
    note Fl = flush_inv [OF i, of cpu "skm_refill (skc_mag c cpu)"]
    have i2: "cache_inv c2" "in_use c2 = in_use c" "cfg c2 = cfg c" "skc_emergency_tree c2 = skc_emergency_tree c"
      using Fl i by (simp_all add: c2_def)
    have l2: "length (mag_objs c2 cpu) < skm_size (skc_mag c2 cpu)" using Fl lm rf by (auto simp: c2_def)
    have "a \<in> in_use c2" "a \<notin> set_tree (skc_emergency_tree c2)" using o False i2(2,4) by simp_all
    then have a2: "a \<in> allocated c2 - mag_set c2" by (simp add: in_use_def)
    note P = push_inv [OF i2(1) a2 l2 c3_def]
    moreover have "skc_emergency_tree c3 = skc_emergency_tree c" using i2(4) by (simp add: c3_def)
    ultimately have "cache_inv c3" and P: "in_use c3 = in_use c - {a}" "cfg c3 = cfg c" "skc_emergency_tree c3 = skc_emergency_tree c"
      using i2 by simp_all
    from reclaim_inv [OF \<open>cache_inv c3\<close>] show ?thesis using P \<open>cache_inv c3\<close> by (simp add: c')
  qed
qed

end
