(* ===== verification/Kmem_Cache_Life.thy ===== *)
theory Kmem_Cache_Life
  imports Kmem_Cache_Alloc
begin

text \<open>
  The life of a cache: creating it, the maintenance that returns memory to the system, and
  destroying it; the contract of an object cache, and that this one keeps it.
\<close>

unbundle bit_operations_syntax

section \<open>Maintenance\<close>

definition keeps :: "spl_kmem_cache \<Rightarrow> spl_kmem_cache \<Rightarrow> bool" where
  "keeps c c' \<longleftrightarrow> cache_inv c' \<and> in_use c' = in_use c \<and> cfg c' = cfg c \<and> skc_emergency_tree c' = skc_emergency_tree c"

lemma keeps_refl: "cache_inv c \<Longrightarrow> keeps c c"
  by (simp add: keeps_def)

lemma keeps_trans: "keeps c d \<Longrightarrow> keeps d e \<Longrightarrow> keeps c e"
  by (simp add: keeps_def)

lemma keeps_inv: "keeps c c' \<Longrightarrow> cache_inv c'"
  by (simp add: keeps_def)

lemma keeps_flush: "cache_inv c \<Longrightarrow> keeps c (spl_cache_flush i n c)"
  using flush_inv [of c i n] by (simp add: keeps_def)

lemma keeps_reclaim: "cache_inv c \<Longrightarrow> keeps c (spl_slab_reclaim c)"
  using reclaim_inv [of c] by (simp add: keeps_def)

lemma keeps_flags: "cache_inv c \<Longrightarrow> kind f = kind (skc_flags c) \<Longrightarrow> keeps c (c\<lparr>skc_flags := f\<rparr>)"
  using inv_flags [of f c] by (simp add: keeps_def)

lemma keeps_fold:
  assumes "cache_inv c" "\<And>x d. cache_inv d \<Longrightarrow> keeps d (f x d)"
  shows "keeps c (fold f xs c)"
  using assms(1)
proof (induction xs arbitrary: c)
  case (Cons x xs)
  have "keeps c (f x c)" by (rule assms(2) [OF Cons.prems])
  then show ?case using Cons.IH [OF keeps_inv] by (auto intro: keeps_trans)
qed (simp add: keeps_refl)

lemma keeps_magazine_age: "cache_inv c \<Longrightarrow> keeps c (spl_magazine_age HZ j b i c)"
  by (simp add: spl_magazine_age_def Let_def keeps_refl keeps_flush)

lemma keeps_cache_age: "cache_inv c \<Longrightarrow> keeps c (spl_cache_age ex HZ j b cpus c)"
proof -
  assume i: "cache_inv c"
  let ?d = "if has (skc_flags c) KMC_NOMAGAZINE then c else fold (\<lambda>cpu. spl_magazine_age HZ j (b cpu) cpu) cpus c"
  have d: "keeps c ?d" using i by (simp add: keeps_refl keeps_fold keeps_magazine_age)
  then show ?thesis using keeps_trans [OF d keeps_reclaim [OF keeps_inv [OF d]]] i by (simp add: spl_cache_age_def keeps_refl)
qed

lemma keeps_magazine_destroy: "cache_inv c \<Longrightarrow> keeps c (spl_magazine_destroy cpus c)"
  by (simp add: spl_magazine_destroy_def keeps_refl keeps_fold keeps_flush)

text \<open>
  Reaping, with a reclaim callback that frees objects of its owner: what the callback guarantees of
  the cache, the whole operation guarantees.
\<close>

lemma reap_reclaim_ind:
  assumes "P c" "\<And>d. P d \<Longrightarrow> P (f d)"
  shows "P (reap_reclaim f n c)"
  using assms
proof (induction f n c rule: reap_reclaim.induct)
  case (1 f n c)
  have "P (f c)" by (rule 1(3) [OF 1(2)])
  then show ?case using 1 by (subst reap_reclaim.simps) simp
qed

text \<open>The callback only frees.\<close>

definition frees_only :: "spl_kmem_cache \<Rightarrow> spl_kmem_cache \<Rightarrow> bool" where
  "frees_only c c' \<longleftrightarrow> cache_inv c' \<and> in_use c' \<subseteq> in_use c \<and> cfg c' = cfg c \<and>
     set_tree (skc_emergency_tree c') \<subseteq> set_tree (skc_emergency_tree c)"

lemma frees_refl: "cache_inv c \<Longrightarrow> frees_only c c"
  by (simp add: frees_only_def)

lemma frees_trans: "frees_only c d \<Longrightarrow> frees_only d e \<Longrightarrow> frees_only c e"
  by (auto simp: frees_only_def)

lemma keeps_frees: "keeps c d \<Longrightarrow> frees_only c d"
  by (simp add: frees_only_def keeps_def)

lemma frees_inv: "frees_only c d \<Longrightarrow> cache_inv d"
  by (simp add: frees_only_def)

lemma reap_now_frees:
  assumes i: "cache_inv c" and f: "\<And>g d. reclaim = Some g \<Longrightarrow> cache_inv d \<Longrightarrow> frees_only d (g d)"
  shows "frees_only c (spl_kmem_cache_reap_now ex reclaim cpu c)"
proof -
  define c1 where "c1 = c\<lparr>skc_flags := skc_flags c OR KMC_REAPING\<rparr>"
  define c2 where "c2 = (case reclaim of Some g \<Rightarrow> reap_reclaim g (2 ^ 64 - 1) c1 | None \<Rightarrow> c1)"
  define c3 where "c3 = (if has ex KMC_EXPIRE_MEM then spl_cache_flush cpu (skm_avail (skc_mag c2 cpu)) c2 else c2)"
  define c4 where "c4 = spl_slab_reclaim c3"
  have 1: "frees_only c c1" unfolding c1_def by (intro keeps_frees keeps_flags i) (simp add: kind_kept)
  have 2: "frees_only c c2"
  proof (cases reclaim)
    case (Some g)
    have "frees_only c (reap_reclaim g (2 ^ 64 - 1) c1)"
      by (rule reap_reclaim_ind [where P = "frees_only c"]) (auto intro: 1 frees_trans f Some frees_inv)
    then show ?thesis by (simp add: c2_def Some)
  qed (simp add: c2_def 1)
  have 3: "frees_only c c3" using frees_trans [OF 2 keeps_frees [OF keeps_flush [OF frees_inv [OF 2]]]] 2 by (simp add: c3_def)
  have 4: "frees_only c c4" unfolding c4_def by (rule frees_trans [OF 3 keeps_frees [OF keeps_reclaim [OF frees_inv [OF 3]]]])
  have 5: "frees_only c (c4\<lparr>skc_flags := skc_flags c4 AND NOT KMC_REAPING\<rparr>)"
    by (rule frees_trans [OF 4 keeps_frees [OF keeps_flags [OF frees_inv [OF 4]]]]) (simp add: kind_kept)
  show ?thesis
    using 5 i f unfolding spl_kmem_cache_reap_now_def Let_def c4_def c3_def c2_def c1_def
    by (auto simp: frees_refl split: option.splits)
qed

section \<open>Destroying\<close>

lemma destroy_mags:
  "mag_objs (fold (\<lambda>cpu c. spl_cache_flush cpu (skm_avail (skc_mag c cpu)) c) cpus c) i = (if i \<in> set cpus then [] else mag_objs c i)"
  if "cache_inv c" for c
  using that
proof (induction cpus arbitrary: c)
  case (Cons k cpus)
  let ?d = "spl_cache_flush k (skm_avail (skc_mag c k)) c"
  have F: "cache_inv ?d" "skc_mag ?d = (skc_mag c)(k := (skc_mag c k)\<lparr>skm_objs := []\<rparr>)"
    using flush_inv [OF Cons.prems, of k "skm_avail (skc_mag c k)"] by simp_all
  have "mag_objs ?d i = (if i = k then [] else mag_objs c i)" by (simp add: F(2))
  then show ?case using Cons.IH [OF F(1)] by (cases "i = k") simp_all
qed simp

lemma no_slabs:
  assumes i: "cache_inv c" and e: "in_use c = {}" "mag_set c = {}"
  shows "slabs (spl_slab_reclaim c) = {}"
proof -
  have "allocated c = {}" using e by (auto simp: in_use_def)
  then have "objs_of c s - set (free_of c s) = {}" if "s \<in> slabs c" for s using that by (auto simp: allocated_def)
  moreover have "slab_ok c s" if "s \<in> slabs c" for s using i that by (simp add: cache_inv_def core_inv_def)
  ultimately have "ref_of c s = 0" if "s \<in> slabs c" for s using that out_card [of c s] by (metis card.empty)
  then show ?thesis using reclaim_inv [OF i] by auto
qed

lemma asserts_no_slabs:
  assumes i: "cache_inv c"
  shows "destroy_asserts c \<longleftrightarrow> slabs c = {} \<and> set_tree (skc_emergency_tree c) = {}"
proof -
  have cn: "counts_ok c" using i by (simp add: cache_inv_def core_inv_def)
  show ?thesis
  proof
    assume "destroy_asserts c"
    then show "slabs c = {} \<and> set_tree (skc_emergency_tree c) = {}" using cn by (simp add: destroy_asserts_def counts_ok_def)
  next
    assume "slabs c = {} \<and> set_tree (skc_emergency_tree c) = {}"
    then show "destroy_asserts c" using cn by (simp add: destroy_asserts_def counts_ok_def slabs_def)
  qed
qed

lemma destroy_spec:
  assumes i: "cache_inv c" and fl: "\<not> has (skc_flags c) KMC_DESTROY" "has (skc_flags c) (KMC_KMEM OR KMC_VMEM)" "\<not> has (skc_flags c) KMC_NOMAGAZINE"
    and cp: "\<And>k. k \<notin> set cpus \<Longrightarrow> mag_objs c k = []"
  shows "\<exists>c'. spl_kmem_cache_destroy cpus c = Some c' \<and> (destroy_asserts c' \<longleftrightarrow> in_use c = {}) \<and> (in_use c = {} \<longrightarrow> kv_live c' = {})"
proof -
  define c1 where "c1 = c\<lparr>skc_flags := skc_flags c OR KMC_DESTROY\<rparr>"
  have k1: "keeps c c1" unfolding c1_def by (rule keeps_flags [OF i]) (simp add: kind_kept)
  define c2 where "c2 = spl_magazine_destroy cpus c1"
  have k2: "keeps c c2" unfolding c2_def by (rule keeps_trans [OF k1 keeps_magazine_destroy [OF keeps_inv [OF k1]]])
  define c' where "c' = spl_slab_reclaim c2"
  have k': "keeps c c'" unfolding c'_def by (rule keeps_trans [OF k2 keeps_reclaim [OF keeps_inv [OF k2]]])
  have f1: "has (skc_flags c1) (KMC_KMEM OR KMC_VMEM)" "\<not> has (skc_flags c1) KMC_NOMAGAZINE"
    using fl by (simp_all add: c1_def has_def bit.conj_disj_distrib bit.conj_disj_distrib2 KMC_DESTROY_def KMC_NOMAGAZINE_def KMC_KMEM_def KMC_VMEM_def)
  have e: "spl_kmem_cache_destroy cpus c = Some c'"
    using fl(1) f1(1) by (simp add: spl_kmem_cache_destroy_def c1_def c2_def c'_def Let_def)
  have "mag_objs c2 k = []" for k
    using f1(2) destroy_mags [OF keeps_inv [OF k1], of cpus k] cp [of k] by (simp add: c2_def spl_magazine_destroy_def c1_def split: if_splits)
  then have ms: "mag_set c2 = {}" by (simp add: mag_set_def)
  have i': "cache_inv c'" by (rule keeps_inv [OF k'])
  have "slabs c' = {}" if "in_use c = {}" unfolding c'_def using no_slabs [OF keeps_inv [OF k2] _ ms] that k2 by (simp add: keeps_def)
  moreover have "set_tree (skc_emergency_tree c') = {}" if "in_use c = {}" using that k' by (auto simp: keeps_def in_use_def)
  moreover have "in_use c = {}" if "slabs c' = {} \<and> set_tree (skc_emergency_tree c') = {}"
    using that k' by (auto simp: keeps_def in_use_def allocated_def)
  ultimately have a: "destroy_asserts c' \<longleftrightarrow> in_use c = {}" unfolding asserts_no_slabs [OF i'] by blast
  moreover have "kv_live c' = {}" if "in_use c = {}"
  proof -
    have "slabs c' = {} \<and> set_tree (skc_emergency_tree c') = {}" using that a asserts_no_slabs [OF i'] by simp
    moreover have m: "mem_ok c'" using i' by (simp add: cache_inv_def core_inv_def)
    then have "dom (sko_slab c') \<subseteq> {}" using calculation by (auto simp: mem_ok_def)
    ultimately show ?thesis using m by (simp add: mem_ok_def)
  qed
  ultimately show ?thesis using e by blast
qed

section \<open>Sizes\<close>

lemma or_mask_nat: "(n :: nat) OR mask k = n div 2 ^ k * 2 ^ k + (2 ^ k - 1)"
proof -
  have "push_bit k (drop_bit k n) + mask k = push_bit k (drop_bit k n) OR mask k"
    by (rule disjunctive_add) (auto simp: bit_push_bit_iff bit_mask_iff)
  also have "\<dots> = n OR mask k"
    by (rule bit_eqI) (auto simp: bit_or_iff bit_push_bit_iff bit_mask_iff bit_drop_bit_eq)
  finally show ?thesis by (simp add: push_bit_eq_mult drop_bit_eq_div mask_eq_exp_minus_1)
qed

lemma unat_2p: "k < 32 \<Longrightarrow> unat (2 ^ k :: u32) = 2 ^ k"
proof -
  assume "k < 32"
  then have "(2 :: nat) ^ k < 2 ^ 32" by (intro power_strict_increasing) simp_all
  then have "unat (of_nat (2 ^ k) :: u32) = 2 ^ k" by (subst unat_of_nat) simp
  then show ?thesis by simp
qed

lemma P2ROUNDUP_unat:
  assumes "x \<noteq> 0" "k < 32" "unat x + 2 ^ k \<le> 2 ^ 32"
  shows "unat (P2ROUNDUP x (2 ^ k)) = (unat x - 1) div 2 ^ k * 2 ^ k + 2 ^ k"
proof -
  let ?y = "(unat x - 1) div 2 ^ k * 2 ^ k"
  have p: "unat (2 ^ k :: u32) = 2 ^ k" by (rule unat_2p [OF assms(2)])
  then have "(2 ^ k :: u32) \<noteq> 0" by (metis power_not_zero unat_0 zero_neq_numeral)
  then have m: "unat (2 ^ k - 1 :: u32) = mask k" by (simp add: unat_minus_one p mask_eq_exp_minus_1)
  have "unat ((x - 1) OR (2 ^ k - 1)) = (unat x - 1) OR mask k"
    by (simp add: unsigned_or_eq m unat_minus_one [OF assms(1)])
  then have o: "unat ((x - 1) OR (2 ^ k - 1)) = ?y + (2 ^ k - 1)" by (simp add: or_mask_nat)
  have "?y \<le> unat x - 1" by simp
  moreover have "0 < unat x" using assms(1) by (simp add: unat_gt_0)
  ultimately have "?y + 2 ^ k < 2 ^ 32" using assms(3) by linarith
  then have "unat ((x - 1) OR (2 ^ k - 1)) + unat (1 :: u32) < 2 ^ LENGTH(32)" using o by simp
  then show ?thesis unfolding P2ROUNDUP_def unat_add_lem using o by simp
qed

text \<open>It is the least multiple of the alignment that is not below.\<close>

lemma P2ROUNDUP_bounds:
  assumes "x \<noteq> 0" "k < 32" "unat x + 2 ^ k \<le> 2 ^ 32"
  shows "unat x \<le> unat (P2ROUNDUP x (2 ^ k))" "unat (P2ROUNDUP x (2 ^ k)) < unat x + 2 ^ k" "2 ^ k dvd unat (P2ROUNDUP x (2 ^ k))"
proof -
  have x: "0 < unat x" using assms(1) by (simp add: unat_gt_0)
  have "(unat x - 1) div 2 ^ k * 2 ^ k \<le> unat x - 1" by simp
  moreover have "unat x - 1 < (unat x - 1) div 2 ^ k * 2 ^ k + 2 ^ k"
  proof -
    have "(unat x - 1) mod 2 ^ k < 2 ^ k" by simp
    then show ?thesis using div_mult_mod_eq [of "unat x - 1" "2 ^ k"] by linarith
  qed
  ultimately show "unat x \<le> unat (P2ROUNDUP x (2 ^ k))" "unat (P2ROUNDUP x (2 ^ k)) < unat x + 2 ^ k"
    unfolding P2ROUNDUP_unat [OF assms] using x by linarith+
  show "2 ^ k dvd unat (P2ROUNDUP x (2 ^ k))" unfolding P2ROUNDUP_unat [OF assms] by simp
qed

text \<open>The alignments \<^verbatim>\<open>spl_kmem_cache_create\<close> accepts: powers of two from 8 to the page size.\<close>

lemma sks_size_bounds:
  assumes "k \<le> 12"
  shows "64 \<le> unat (spl_sks_size (2 ^ k))" "unat (spl_sks_size (2 ^ k)) < 8192" "2 ^ k dvd unat (spl_sks_size (2 ^ k))"
proof -
  have "(2 :: nat) ^ k \<le> 2 ^ 12" by (rule power_increasing) (use assms in simp_all)
  then have k: "(2 :: nat) ^ k \<le> 4096" by simp
  have *: "sizeof_slab \<noteq> 0" "k < 32" "unat sizeof_slab + 2 ^ k \<le> 2 ^ 32" using assms k by (simp_all add: sizeof_slab_def)
  show "64 \<le> unat (spl_sks_size (2 ^ k))" "unat (spl_sks_size (2 ^ k)) < 8192" "2 ^ k dvd unat (spl_sks_size (2 ^ k))"
    using P2ROUNDUP_bounds [OF *] k by (simp_all add: spl_sks_size_def sizeof_slab_def)
qed

lemma obj_size_bounds:
  assumes "k \<le> 12" "sz \<noteq> 0" "unat sz \<le> 2 ^ 31"
  shows "unat sz + 40 \<le> unat (spl_obj_size sz (2 ^ k))" "2 ^ k dvd unat (spl_obj_size sz (2 ^ k))"
proof -
  have "(2 :: nat) ^ k \<le> 2 ^ 12" by (rule power_increasing) (use assms in simp_all)
  then have k: "(2 :: nat) ^ k \<le> 4096" by simp
  have o: "sizeof_obj \<noteq> 0" "k < 32" "unat sizeof_obj + 2 ^ k \<le> 2 ^ 32" using assms k by (simp_all add: sizeof_obj_def)
  have s: "unat sz + 2 ^ k \<le> 2 ^ 32" using assms(3) k by simp
  note O = P2ROUNDUP_bounds [OF o] and S = P2ROUNDUP_bounds [OF assms(2) o(2) s]
  have "unat (P2ROUNDUP sz (2 ^ k)) + unat (P2ROUNDUP sizeof_obj (2 ^ k)) < 2 ^ LENGTH(32)"
    using O S assms(3) k by (simp add: sizeof_obj_def)
  then have e: "unat (spl_obj_size sz (2 ^ k)) = unat (P2ROUNDUP sz (2 ^ k)) + unat (P2ROUNDUP sizeof_obj (2 ^ k))"
    unfolding spl_obj_size_def unat_add_lem by simp
  show "unat sz + 40 \<le> unat (spl_obj_size sz (2 ^ k))" "2 ^ k dvd unat (spl_obj_size sz (2 ^ k))"
    unfolding e using O S by (simp_all add: sizeof_obj_def)
qed

text \<open>The slab of a cache on pages has the size of a power of two.\<close>

lemma kmem_slab_size:
  "\<exists>m \<le> 19. 13 \<le> m \<and> min (SPL_MAX_ORDER_NR_PAGES * PAGE_SIZE) (PAGE_SIZE * push_bit (max (n - 1) 1) 1) = (2 ^ m :: u32)"
  if "n \<le> 20" for n :: nat
proof -
  define j where "j = max (n - 1) 1"
  have j: "1 \<le> j" "j \<le> 19" using that by (auto simp: j_def)
  have e: "SPL_MAX_ORDER_NR_PAGES * PAGE_SIZE = (2 ^ 19 :: u32)" "PAGE_SIZE * push_bit j 1 = (2 ^ (12 + j) :: u32)"
    by (simp_all add: SPL_MAX_ORDER_NR_PAGES_def PAGE_SIZE_def push_bit_eq_mult power_add)
  have u: "unat (2 ^ (12 + j) :: u32) = 2 ^ (12 + j)" "unat (2 ^ 19 :: u32) = 2 ^ 19" by (rule unat_2p; use j in simp)+
  have "min (2 ^ 19) (2 ^ (12 + j)) = (2 ^ min 19 (12 + j) :: u32)"
  proof (cases "j \<le> 7")
    case True
    have "(2 :: nat) ^ (12 + j) \<le> 2 ^ 19" by (rule power_increasing) (use True in simp_all)
    then have "(2 ^ (12 + j) :: u32) \<le> 2 ^ 19" unfolding word_le_nat_alt u .
    then show ?thesis using True by (simp add: min_def)
  next
    case False
    have "(2 :: nat) ^ 19 \<le> 2 ^ (12 + j)" by (rule power_increasing) (use False in simp_all)
    then have "(2 ^ 19 :: u32) \<le> 2 ^ (12 + j)" unfolding word_le_nat_alt u .
    then show ?thesis using False by (simp add: min_def)
  qed
  then show ?thesis unfolding j_def [symmetric] e using j by (intro exI [of _ "min 19 (12 + j)"]) auto
qed

lemma fit:
  assumes "s \<le> t" "b \<noteq> 0" "n = (t - s) div (b :: u32)"
  shows "unat s + unat n * unat b \<le> unat t"
proof -
  have "unat n = (unat t - unat s) div unat b" using assms by (simp add: unat_div unat_sub)
  then have "unat n * unat b \<le> unat t - unat s" by simp
  moreover have "unat s \<le> unat t" using assms(1) by (simp add: word_le_nat_alt)
  ultimately show ?thesis by linarith
qed

text \<open>The slab holds its header and all its objects, and on pages it has the size of a power of two.\<close>

lemma slab_size_fits:
  assumes go: "\<And>s. get_order s \<le> 20" and r: "spl_slab_size get_order per_slab max_mb flags sz (2 ^ k) = Inr (objs, tot)" and k: "k \<le> 12" and o: "\<not> has flags KMC_OFFSLAB"
    and sz: "sz \<noteq> 0" "unat sz \<le> 2 ^ 31"
    and nw: "\<not> has flags KMC_KMEM \<Longrightarrow>
      unat per_slab * unat (spl_obj_size sz (2 ^ k)) + unat (spl_sks_size (2 ^ k)) < 2 ^ 32 \<and> 0 < max_mb \<and> unat max_mb < 4096"
  shows "objs \<noteq> 0 \<and> unat (spl_sks_size (2 ^ k)) + unat objs * unat (spl_obj_size sz (2 ^ k)) \<le> unat tot \<and>
    (has flags KMC_KMEM \<longrightarrow> (\<exists>m \<le> 19. tot = 2 ^ m))"
proof -
  define s where "s = spl_sks_size (2 ^ k)"
  define b where "b = spl_obj_size sz (2 ^ k)"
  have s: "64 \<le> unat s" "unat s < 8192" and b: "b \<noteq> 0" using sks_size_bounds [OF k] obj_size_bounds [OF k sz] by (auto simp: s_def b_def)
  show ?thesis
  proof (cases "has flags KMC_KMEM")
    case True
    define t0 where "t0 = per_slab * b + s"
    obtain m where m: "m \<le> 19" "13 \<le> m" "min (SPL_MAX_ORDER_NR_PAGES * PAGE_SIZE) (PAGE_SIZE * push_bit (max (get_order t0 - 1) 1) 1) = (2 ^ m :: u32)"
      using kmem_slab_size [OF go] by blast
    have le: "(2 ^ m :: u32) \<le> SPL_MAX_ORDER_NR_PAGES * PAGE_SIZE" unfolding m(3) [symmetric] by simp
    have "objs = (2 ^ m - s) div b" "tot = 2 ^ m" "objs \<noteq> 0"
      using r o True le m(3) unfolding spl_slab_size_def Let_def s_def [symmetric] b_def [symmetric] t0_def [symmetric] by (auto split: if_splits)
    moreover have "(2 :: nat) ^ 13 \<le> 2 ^ m" by (rule power_increasing) (use m(2) in simp_all)
    then have "s \<le> 2 ^ m" unfolding word_le_nat_alt using s m(1) by (subst unat_2p) simp_all
    ultimately show ?thesis using fit [of s "2 ^ m" b] b m(1) True by (auto simp: s_def b_def)
  next
    case False
    define mx where "mx = max_mb * 1024 * 1024"
    define t0 where "t0 = per_slab * b + s"
    have n: "unat per_slab * unat b + unat s < 2 ^ 32" "0 < max_mb" "unat max_mb < 4096" using nw [OF False] by (simp_all add: s_def b_def)
    have pb: "unat (per_slab * b) = unat per_slab * unat b" by (rule unat_mult_lem [THEN iffD1]) (use n(1) in simp)
    have "unat (per_slab * b) + unat s < 2 ^ LENGTH(32)" using n(1) pb by simp
    then have t0: "unat t0 = unat per_slab * unat b + unat s" unfolding t0_def unat_add_lem using pb by simp
    have "unat mx = unat max_mb * 1048576"
    proof -
      have "mx = max_mb * 1048576" by (simp add: mx_def)
      moreover have "unat max_mb * unat (1048576 :: u32) < 2 ^ LENGTH(32)" using n(3) by simp
      ultimately show ?thesis using unat_mult_lem [of max_mb "1048576 :: u32"] by simp
    qed
    moreover have "0 < unat max_mb" using n(2) by (simp add: unat_gt_0)
    ultimately have smx: "s \<le> mx" unfolding word_le_nat_alt using s by linarith
    have st: "s \<le> t0" unfolding word_le_nat_alt t0 by simp
    have e: "objs \<noteq> 0" "if t0 \<le> mx then objs = (t0 - s) div b \<and> tot = t0 else objs = (mx - s) div b \<and> tot = objs * b + s"
      using r o False unfolding spl_slab_size_def Let_def s_def [symmetric] b_def [symmetric] t0_def [symmetric] mx_def [symmetric]
      by (auto split: if_splits)
    show ?thesis
    proof (cases "t0 \<le> mx")
      case True
      then show ?thesis using e fit [OF st b] False by (auto simp: s_def b_def)
    next
      case gt: False
      then have "unat s + unat objs * unat b \<le> unat mx" using e fit [OF smx b] by simp
      moreover have "unat mx < 2 ^ LENGTH(32)" by (rule unsigned_less)
      ultimately have lt: "unat objs * unat b + unat s < 2 ^ LENGTH(32)" by linarith
      then have ob: "unat (objs * b) = unat objs * unat b" by (intro unat_mult_lem [THEN iffD1]) linarith
      then have "unat (objs * b + s) = unat objs * unat b + unat s" using unat_add_lem [of "objs * b" s] lt by simp
      then show ?thesis using e gt False by (simp add: s_def b_def)
    qed
  qed
qed

lemma magazine_size_bounds: "2 \<le> spl_magazine_size m sz \<and> spl_magazine_size m sz \<le> 256"
proof -
  have "(max (min m 256) 2 :: u32) \<le> 256" "(2 :: u32) \<le> max (min m 256) 2" by (auto simp: max_def min_def)
  then have "unat (max (min m 256) 2 :: u32) \<le> 256" "2 \<le> unat (max (min m 256) 2 :: u32)" by (simp_all add: word_le_nat_alt)
  then show ?thesis by (simp add: spl_magazine_size_def)
qed

section \<open>Creating\<close>

lemma isp2_nat: "0 < n \<Longrightarrow> n AND (n - 1) = (0 :: nat) \<Longrightarrow> \<exists>k. n = 2 ^ k"
proof (induction n rule: less_induct)
  case (less n)
  show ?case
  proof (cases "even n")
    case True
    then obtain m where m: "n = 2 * m" by (elim evenE)
    have m0: "0 < m" using less.prems(1) m by simp
    have d: "(n - 1) div 2 = m - 1" "n div 2 = m" using m m0 by simp_all
    have "2 * (m AND (m - 1)) = 0" using less.prems(2) unfolding and_rec [of n] d by simp
    then obtain k where "m = 2 ^ k" using less.IH [of m] m m0 by auto
    then have "n = 2 ^ Suc k" using m by simp
    then show ?thesis by blast
  next
    case False
    then obtain m where m: "n = 2 * m + 1" by (elim oddE)
    have d: "(n - 1) div 2 = m" "n div 2 = m" using m by simp_all
    have "2 * (m AND m) = 0" using less.prems(2) unfolding and_rec [of n] d using m by simp
    then have "n = 2 ^ 0" using m by simp
    then show ?thesis by blast
  qed
qed

lemma isp2_align:
  fixes a :: u64
  assumes "a AND (a - 1) = 0" "ucast SPL_KMEM_CACHE_ALIGN \<le> a" "a \<le> ucast PAGE_SIZE"
  shows "\<exists>k. 3 \<le> k \<and> k \<le> 12 \<and> (ucast a :: u32) = 2 ^ k"
proof -
  have b: "8 \<le> unat a" "unat a \<le> 4096" using assms(2,3) by (simp_all add: word_le_nat_alt SPL_KMEM_CACHE_ALIGN_def PAGE_SIZE_def)
  then have nz: "a \<noteq> 0" by auto
  have "unat (a AND (a - 1)) = 0" using assms(1) by simp
  then have "unat a AND (unat a - 1) = 0" by (simp add: unsigned_and_eq unat_minus_one [OF nz])
  then obtain k where k: "unat a = 2 ^ k" using isp2_nat [of "unat a"] b by auto
  have "3 \<le> k" using power_le_imp_le_exp [of "2 :: nat" 3 k] b k by simp
  moreover have "k \<le> 12" using power_le_imp_le_exp [of "2 :: nat" k 12] b k by simp
  moreover have "(ucast a :: u32) = of_nat (unat a)" by simp
  then have "(ucast a :: u32) = 2 ^ k" by (simp add: k)
  ultimately show ?thesis by blast
qed

lemma slab_size_objs: "spl_slab_size get_order p m f s a = Inr (objs, tot) \<Longrightarrow> objs \<noteq> 0"
  by (auto simp: spl_slab_size_def Let_def split: if_splits)

lemma new_cache_inv: "cache_inv (spl_magazine_create tun j ((new_cache f sz al)\<lparr>skc_slab_objs := n, skc_slab_size := m\<rparr>))"
  "in_use (spl_magazine_create tun j ((new_cache f sz al)\<lparr>skc_slab_objs := n, skc_slab_size := m\<rparr>)) = {}"
  by (simp_all add: spl_magazine_create_def new_cache_def Let_def cache_inv_def core_inv_def lists_ok_def mags_ok_def counts_ok_def
      mem_ok_def slabs_def in_use_def mag_set_def allocated_def)

lemma create_good:
  assumes r: "spl_kmem_cache_create get_order tun mem mags mk j sz align flags = Cache c"
    and f: "has (skc_flags c) (KMC_KMEM OR KMC_VMEM)" "\<not> has (skc_flags c) KMC_NOMAGAZINE" "\<not> has (skc_flags c) KMC_SLAB" and sz: "0 < unat sz" "unat sz \<le> 2 ^ 31"
  shows "good V {} {} c \<and> kv_live c = {} \<and> skc_emergency_tree c = Leaf"
proof -
  define al where "al = (if align = 0 then SPL_KMEM_CACHE_ALIGN else ucast align)"
  define fl where "fl = cache_kind tun sz al flags"
  have ver: "align = 0 \<or> (align AND (align - 1) = 0 \<and> ucast SPL_KMEM_CACHE_ALIGN \<le> align \<and> align \<le> ucast PAGE_SIZE)"
    using r by (auto simp: spl_kmem_cache_create_def split: if_splits)
  have "\<exists>k. k \<le> 12 \<and> al = 2 ^ k"
  proof (cases "align = 0")
    case True
    then show ?thesis by (intro exI [of _ 3]) (simp add: al_def SPL_KMEM_CACHE_ALIGN_def)
  next
    case False
    then show ?thesis using ver isp2_align [of align] by (auto simp: al_def)
  qed
  then obtain k where k: "k \<le> 12" "al = 2 ^ k" by blast
  have us: "unat (ucast sz :: u32) = unat sz" using sz by (simp add: unsigned_ucast_eq take_bit_nat_eq_self_iff)
  have s0: "(ucast sz :: u32) \<noteq> 0" using us sz(1) by auto
  have h: "has fl (KMC_KMEM OR KMC_VMEM)"
  proof (rule ccontr)
    assume "\<not> has fl (KMC_KMEM OR KMC_VMEM)"
    then have "skc_flags c = fl OR KMC_NOMAGAZINE"
      using r by (auto simp: spl_kmem_cache_create_def Let_def al_def [symmetric] fl_def [symmetric] new_cache_def split: if_splits)
    then show False using f(2) by (simp add: has_def KMC_NOMAGAZINE_def bit.conj_disj_distrib2)
  qed
  obtain objs tot where t: "spl_slab_size get_order (spl_kmem_cache_obj_per_slab tun) (spl_kmem_cache_max_size tun) fl (ucast sz) al = Inr (objs, tot)"
    and c: "c = spl_magazine_create tun j ((new_cache fl (ucast sz) al)\<lparr>skc_slab_objs := objs, skc_slab_size := tot\<rparr>)"
    using r h by (auto simp: spl_kmem_cache_create_def Let_def al_def [symmetric] fl_def [symmetric] new_cache_def split: if_splits sum.splits)
  have fc: "skc_flags c = fl" by (simp add: c spl_magazine_create_def Let_def new_cache_def)
  have nm: "\<not> has fl KMC_NOMAGAZINE" using f(2) fc by simp
  let ?n = "spl_magazine_size (spl_kmem_cache_magazine_size tun) (spl_obj_size (ucast sz) al)"
  have F: "skc_slab_objs c = objs" "skc_obj_size c = ucast sz" "skc_obj_align c = al" "skm_size (skc_mag c i) = ?n"
    "skm_refill (skc_mag c i) = (?n + 1) div 2" for i
    using nm by (simp_all add: c spl_magazine_create_def Let_def new_cache_def)
  have "spl_sks_size al \<noteq> 0" "spl_obj_size (ucast sz) al \<noteq> 0"
    using sks_size_bounds(1) [OF k(1)] obj_size_bounds(1) [OF k(1) s0] us sz(2) by (auto simp: k(2))
  moreover have "objs \<noteq> 0" by (rule slab_size_objs [OF t])
  moreover have "2 \<le> ?n" using magazine_size_bounds by blast
  then have "0 < (?n + 1) div 2" "(?n + 1) div 2 \<le> ?n" by linarith+
  ultimately have "cfg_ok c" using magazine_size_bounds f(3) by (simp add: cfg_ok_def F)
  moreover have "kv_live c = {}" "skc_emergency_tree c = Leaf" by (simp_all add: c spl_magazine_create_def Let_def new_cache_def)
  ultimately show ?thesis using new_cache_inv [where tun = tun and j = j and f = fl and sz = "ucast sz" and al = al and n = objs and m = tot, folded c]
    by (simp add: good_def)
qed

section \<open>Allocation succeeds when there is memory\<close>

text \<open>A kernel that has memory, and no other threads.\<close>

definition grows :: "grow_env \<Rightarrow> bool" where
  "grows g \<longleftrightarrow> (\<forall>c. ge_run g c = c) \<and>
     (\<forall>c. cache_inv c \<longrightarrow> (\<exists>base. ge_kv g c = Some base \<and> None \<notin> set (slab_objects c base (ge_off g c))))"

lemma grow_ok:
  assumes g: "good V H U c" and f: "fresh_ok V g" "grows g" and fl: "\<not> has (skc_flags c) KMC_REAPING" "\<not> has (skc_flags c) KMC_VMEM"
  shows "\<exists>c'. spl_cache_grow color g c = (Inr None, c') \<and> good V H U c' \<and> skc_partial_list c' \<noteq> [] \<and> skc_mag c' = skc_mag c \<and>
    skc_flags c' = skc_flags c AND NOT KMC_DEADLOCKED"
proof -
  obtain base where b: "ge_kv g c = Some base" "None \<notin> set (slab_objects c base (ge_off g c))"
    using f(2) g by (auto simp: grows_def good_def)
  obtain ok c' where c': "cache_grow (ge_kv g c) (ge_off g c) c = (ok, c')" by (metis surj_pair)
  then have ok: ok "skc_flags c' = skc_flags c AND NOT KMC_DEADLOCKED"
    using b by (auto simp: cache_grow_def spl_slab_alloc_def Let_def)
  then show ?thesis using cache_grow_good [OF g f(1) c'] fl c' by (simp add: spl_cache_grow_def)
qed

lemma flags_kept:
  "has (f AND NOT KMC_DEADLOCKED) KMC_REAPING = has f KMC_REAPING" "has (f AND NOT KMC_DEADLOCKED) KMC_VMEM = has f KMC_VMEM"
  "has (f AND NOT KMC_DEADLOCKED) KMC_SLAB = has f KMC_SLAB"
proof -
  have "has f (push_bit k 1) = bit f k" if "k < 64" for f :: u64 and k using that by (intro has_push_bit) simp
  then show "has (f AND NOT KMC_DEADLOCKED) KMC_REAPING = has f KMC_REAPING" "has (f AND NOT KMC_DEADLOCKED) KMC_VMEM = has f KMC_VMEM"
    "has (f AND NOT KMC_DEADLOCKED) KMC_SLAB = has f KMC_SLAB"
    unfolding KMC_REAPING_def KMC_VMEM_def KMC_SLAB_def KMC_DEADLOCKED_def
    by (simp_all only: bit_and_iff bit_not_iff bit_push_bit_iff bit_1_iff) simp_all
qed

lemma refill_full:
  assumes "good V H U c" "\<And>n. fresh_ok V (G n)" "\<And>n. grows (G n)" "length (mag_objs c cpu) + refill \<le> skm_size (skc_mag c cpu)"
    "2 * refill + of_bool (skc_partial_list c = []) \<le> fuel" "\<not> has (skc_flags c) KMC_REAPING" "\<not> has (skc_flags c) KMC_VMEM"
  shows "\<exists>c'. refill_loop fuel color G (\<lambda>_. False) cpu refill c = Some (None, c') \<and> good V H U c' \<and>
    length (mag_objs c' cpu) = length (mag_objs c cpu) + refill"
  using assms(1,4-7)
proof (induction fuel arbitrary: c refill)
  case (Suc fuel)
  show ?case
  proof (cases "refill = 0")
    case pos: False
    show ?thesis
    proof (cases "skc_partial_list c = []")
      case empty: True
      obtain c1 where c1: "spl_cache_grow color (G fuel) c = (Inr None, c1)" "good V H U c1" "skc_partial_list c1 \<noteq> []" "skc_mag c1 = skc_mag c"
        "skc_flags c1 = skc_flags c AND NOT KMC_DEADLOCKED"
        using grow_ok [OF Suc.prems(1) assms(2,3) Suc.prems(4,5)] by blast
      have r: "ge_run (G fuel) c = c" using assms(3) by (simp add: grows_def)
      have "\<exists>c'. refill_loop fuel color G (\<lambda>_. False) cpu refill c1 = Some (None, c') \<and> good V H U c' \<and>
          length (mag_objs c' cpu) = length (mag_objs c1 cpu) + refill"
        by (rule Suc.IH) (use c1 Suc.prems flags_kept empty in simp_all)
      moreover have "min refill (skm_size (skc_mag c1 cpu) - skm_avail (skc_mag c1 cpu)) = refill" using c1(4) Suc.prems(2) by simp
      ultimately show ?thesis using empty pos c1(1,4) r by simp
    next
      case ne: False
      obtain n c1 where n: "refill_from_slab cpu refill c = (n, c1)" by (metis surj_pair)
      have "0 < refill" using pos by simp
      note A = refill_from_slab_good [OF Suc.prems(1) ne this Suc.prems(2) n]
      have "0 < n" "n \<le> refill" using A by simp_all
      then have "2 * (refill - n) + 2 \<le> 2 * refill" by linarith
      moreover have "2 * refill \<le> Suc fuel" using Suc.prems(3) by simp
      ultimately have "2 * (refill - n) + of_bool (skc_partial_list c1 = []) \<le> fuel" by (simp add: of_bool_def)
      from Suc.IH [OF _ _ this] show ?thesis using A pos ne n Suc.prems by simp
    qed
  qed (use Suc.prems in simp)
qed simp

text \<open>With an empty magazine the first pass fills it.\<close>

lemma empty_pass:
  assumes g: "good V H U c" and G: "\<And>n. fresh_ok V (G n)" "\<And>n. grows (G n)" and fu: "512 < fuel"
    and fl: "\<not> has (skc_flags c) KMC_REAPING" "\<not> has (skc_flags c) KMC_VMEM" and e: "mag_objs c cpu = []"
  shows "\<exists>c'. cache_alloc_pass fuel color G (\<lambda>_. False) j flags cpu c = Some (if has flags KM_NOSLEEP then (Inr None, c') else (Inl (), c')) \<and>
    good V H U c' \<and> mag_objs c' cpu \<noteq> []"
proof -
  let ?m = "skc_mag c cpu"
  have m: "0 < skm_refill ?m" "skm_refill ?m \<le> skm_size ?m" "skm_size ?m \<le> 256" using g by (auto simp: good_def cfg_ok_def)
  have "\<exists>c'. refill_loop fuel color G (\<lambda>_. False) cpu (skm_refill ?m) c = Some (None, c') \<and> good V H U c' \<and>
      length (mag_objs c' cpu) = length (mag_objs c cpu) + skm_refill ?m"
    by (rule refill_full [OF g G]) (use e m fu fl in \<open>simp_all add: of_bool_def\<close>)
  then obtain c' where c': "refill_loop fuel color G (\<lambda>_. False) cpu (skm_refill ?m) c = Some (None, c')" "good V H U c'"
    "length (mag_objs c' cpu) = length (mag_objs c cpu) + skm_refill ?m" by blast
  have "spl_cache_refill fuel color G (\<lambda>_. False) cpu c = Some (None, c')" using c'(1) e m by (simp add: spl_cache_refill_def)
  moreover have "mag_objs c' cpu \<noteq> []" using c'(3) m(1) by auto
  ultimately show ?thesis using c'(2) e by (simp add: cache_alloc_pass_def Let_def)
qed

end
