(* ===== verification/Kmem_Cache_Spec.thy ===== *)
theory Kmem_Cache_Spec
  imports Kmem_Cache_Life
begin

text \<open>
  The contract of an object cache as an interface, what its clients may conclude, and that the slab
  allocator keeps the contract on a kernel that serves memory; the properties of the allocator.
\<close>

unbundle bit_operations_syntax

section \<open>The contract\<close>

text \<open>The abstract cache: all it knows are the objects in use.\<close>

datatype 'a request = Alloc | Free 'a

inductive abs_step :: "'a request \<Rightarrow> 'a option \<Rightarrow> 'a set \<Rightarrow> 'a set \<Rightarrow> bool" where
  abs_alloc: "a \<notin> S \<Longrightarrow> abs_step Alloc (Some a) S (insert a S)"
| abs_fail: "abs_step Alloc None S S"
| abs_free: "a \<in> S \<Longrightarrow> abs_step (Free a) None S (S - {a})"

inductive_simps abs_step_simps: "abs_step Alloc r S S'" "abs_step (Free a) r S S'"

inductive abs_run :: "('a request \<times> 'a option) list \<Rightarrow> 'a set \<Rightarrow> 'a set \<Rightarrow> bool" where
  abs_nil: "abs_run [] S S"
| abs_cons: "abs_step q r S S' \<Longrightarrow> abs_run tr S' S'' \<Longrightarrow> abs_run ((q, r) # tr) S S''"

inductive_simps abs_run_simps: "abs_run [] S S'" "abs_run (x # tr) S S'"

text \<open>A client frees only what is in use.\<close>

fun requests_ok :: "'a request list \<Rightarrow> 'a set \<Rightarrow> ('a request \<times> 'a option) list \<Rightarrow> bool" where
  "requests_ok [] S tr = True"
| "requests_ok (q # qs) S [] = False"
| "requests_ok (q # qs) S ((q', r) # tr) =
     (q' = q \<and> (case q of Alloc \<Rightarrow> requests_ok qs (case r of Some a \<Rightarrow> insert a S | None \<Rightarrow> S) tr
                | Free a \<Rightarrow> a \<in> S \<and> requests_ok qs (S - {a}) tr))"

locale object_cache =
  fixes inv :: "'s \<Rightarrow> bool" and used :: "'s \<Rightarrow> 'a set" and alloc :: "'s \<Rightarrow> ('a option \<times> 's) option" and free :: "'a \<Rightarrow> 's \<Rightarrow> 's"
  assumes alloc_ok: "inv s \<Longrightarrow> \<exists>r s'. alloc s = Some (r, s') \<and> inv s' \<and>
      (case r of None \<Rightarrow> used s' = used s | Some a \<Rightarrow> a \<notin> used s \<and> used s' = insert a (used s))"
    and free_ok: "inv s \<Longrightarrow> a \<in> used s \<Longrightarrow> inv (free a s) \<and> used (free a s) = used s - {a}"
begin

definition serve :: "'a request \<Rightarrow> 's \<Rightarrow> 'a option \<times> 's" where
  "serve q s = (case q of Alloc \<Rightarrow> the (alloc s) | Free a \<Rightarrow> (None, free a s))"

fun serve_all :: "'a request list \<Rightarrow> 's \<Rightarrow> ('a request \<times> 'a option) list \<times> 's" where
  "serve_all [] s = ([], s)"
| "serve_all (q # qs) s = (let (r, s1) = serve q s; (tr, s2) = serve_all qs s1 in ((q, r) # tr, s2))"

lemma serve_refines:
  assumes "inv s" "serve q s = (r, s')" "\<And>a. q = Free a \<Longrightarrow> a \<in> used s"
  shows "inv s' \<and> abs_step q r (used s) (used s')"
proof (cases q)
  case Alloc
  obtain r1 s1 where "alloc s = Some (r1, s1)" "inv s1" "case r1 of None \<Rightarrow> used s1 = used s | Some a \<Rightarrow> a \<notin> used s \<and> used s1 = insert a (used s)"
    using alloc_ok [OF assms(1)] by blast
  then show ?thesis using assms(2) by (auto simp: serve_def Alloc abs_step_simps split: option.splits)
next
  case (Free a)
  then show ?thesis using assms free_ok [of s a] by (auto simp: serve_def abs_step_simps)
qed

theorem serve_all_refines:
  assumes "inv s" "serve_all qs s = (tr, s')" "requests_ok qs (used s) tr"
  shows "inv s' \<and> abs_run tr (used s) (used s')"
  using assms
proof (induction qs arbitrary: s tr)
  case (Cons q qs)
  obtain r s1 where r: "serve q s = (r, s1)" by (metis surj_pair)
  obtain tr1 where tr: "serve_all qs s1 = (tr1, s')" "tr = (q, r) # tr1" using Cons.prems(2) r by (auto split: prod.splits)
  have S: "inv s1 \<and> abs_step q r (used s) (used s1)"
    by (rule serve_refines [OF Cons.prems(1) r]) (use Cons.prems(3) tr in auto)
  have "requests_ok qs (used s1) tr1" using Cons.prems(3) S tr(2) by (cases q) (auto simp: abs_step_simps split: option.splits)
  then show ?case using Cons.IH [OF _ tr(1)] S tr(2) by (auto simp: abs_run_simps)
qed (simp add: abs_run_simps)

end

section \<open>A kernel with memory\<close>

text \<open>The contract of the slab allocator rests on that of the kernel; no other threads run.\<close>

locale kmem_kernel =
  fixes color :: "addr tree \<Rightarrow> addr tree" and erase :: "addr \<Rightarrow> addr tree \<Rightarrow> addr tree" and V :: "addr \<Rightarrow> bool" and g :: grow_env
  assumes color: "rb_color_ok color" and erase: "rb_erase_ok erase" and fresh: "fresh_ok V g"
    and alone: "ge_run g c = c" "ge_wait g c = c"
begin

lemma env: "env_ok V H U g"
  using fresh alone by (simp add: env_ok_def rely_def)

definition cache_ready :: "spl_kmem_cache \<Rightarrow> bool" where
  "cache_ready c \<longleftrightarrow> good V {} UNIV c"

definition cache_alloc :: "nat \<Rightarrow> spl_kmem_cache \<Rightarrow> (addr option \<times> spl_kmem_cache) option" where
  "cache_alloc cpu = cache_alloc_restart 1 513 color (\<lambda>_ _. g) (\<lambda>_ _. False) 0 KM_NOSLEEP (\<lambda>_. cpu)"

lemma ready_alloc:
  assumes "cache_ready c"
  shows "\<exists>r c'. cache_alloc cpu c = Some (r, c') \<and> cache_ready c' \<and>
    (case r of None \<Rightarrow> in_use c' = in_use c | Some a \<Rightarrow> a \<notin> in_use c \<and> in_use c' = insert a (in_use c))"
proof -
  let ?S = "in_use c"
  have "good V ?S ?S c" using assms by (simp add: cache_ready_def good_def)
  moreover have "has KM_NOSLEEP KM_NOSLEEP" by (simp add: has_def KM_NOSLEEP_def)
  ultimately obtain r c' where "cache_alloc_restart (Suc 0) 513 color (\<lambda>_ _. g) (\<lambda>_ _. False) 0 KM_NOSLEEP (\<lambda>_. cpu) c = Some (r, c')"
    "given V ?S ?S r c'" using alloc_nosleep_total [where G = "\<lambda>_ _. g" and i = 0 and fuel = 513 and moved = "\<lambda>_ _. False" and j = 0 and cpu = "\<lambda>_. cpu" and flags = KM_NOSLEEP,
      OF _ env color] by (simp del: cache_alloc_restart.simps) blast
  then show ?thesis by (auto simp: cache_alloc_def given_def good_def cache_ready_def split: option.splits)
qed

lemma ready_free:
  assumes "cache_ready c" "a \<in> in_use c"
  shows "cache_ready (cache_free_obj erase V cpu a c) \<and> in_use (cache_free_obj erase V cpu a c) = in_use c - {a}"
proof -
  have F: "cache_inv c" "cfg_ok c" "\<And>x. x \<in> set_tree (skc_emergency_tree c) \<Longrightarrow> \<not> V x" using assms(1) by (simp_all add: cache_ready_def good_def)
  define c' where "c' = cache_free_obj erase V cpu a c"
  note A = free_inv [OF F(1,2) erase assms(2) F(3) c'_def]
  then have "cfg c' = cfg c" by simp
  from cfg_ok_cong [OF this F(2)] have "good V {} UNIV c'" using A F(3) by (auto simp: good_def)
  then show ?thesis using A unfolding c'_def [symmetric] by (simp add: cache_ready_def)
qed

end

sublocale kmem_kernel \<subseteq> oc: object_cache cache_ready in_use "cache_alloc cpu" "cache_free_obj erase V cpu" for cpu
  by unfold_locales (use ready_alloc ready_free in blast)+

text \<open>One such kernel: memory behind everything in use, and trees that are lists.\<close>

definition mem_top :: "spl_kmem_cache \<Rightarrow> addr" where
  "mem_top c = Max (insert 0 (kv_live c \<union> dom (sko_slab c))) + 1"

definition bump :: grow_env where
  "bump = \<lparr>ge_kv = (\<lambda>c. Some (mem_top c)), ge_off = (\<lambda>c i. Some (mem_top c + 1 + i)), ge_ska = True, ge_ske = True,
     ge_pages = (\<lambda>c. Some (mem_top c)), ge_timeout = False, ge_run = (\<lambda>c. c), ge_wait = (\<lambda>c. c)\<rparr>"

definition list_erase :: "addr \<Rightarrow> addr tree \<Rightarrow> addr tree" where
  "list_erase x t = foldr (\<lambda>a. Node Leaf a) (remove1 x (inorder t)) Leaf"

lemma finite_cache_mem:
  assumes "cache_inv c"
  shows "finite (kv_live c \<union> dom (sko_slab c))"
proof -
  have m: "mem_ok c" and s: "\<And>t. t \<in> slabs c \<Longrightarrow> slab_ok c t" using assms by (simp_all add: cache_inv_def core_inv_def)
  have "dom (sko_slab c) \<subseteq> (\<Union>t \<in> slabs c. objs_of c t)" using m by (force simp: mem_ok_def objs_of_def)
  moreover have "finite (\<Union>t \<in> slabs c. objs_of c t)" using s by (simp add: slab_ok_def)
  ultimately have "finite (dom (sko_slab c))" by (rule finite_subset)
  then show ?thesis using m by (simp add: mem_ok_def)
qed

lemma above_top:
  assumes "cache_inv c" "mem_top c \<le> a"
  shows "a \<notin> kv_live c \<union> dom (sko_slab c)"
proof
  assume "a \<in> kv_live c \<union> dom (sko_slab c)"
  then have "a \<le> Max (insert 0 (kv_live c \<union> dom (sko_slab c)))" using finite_cache_mem [OF assms(1)] by (intro Max_ge) auto
  then show False using assms(2) by (simp add: mem_top_def)
qed

lemma bump_fresh: "fresh_ok (\<lambda>_. False) bump"
proof -
  have "kv_fresh c (mem_top c) (map the (slab_objects c (mem_top c) (\<lambda>i. Some (mem_top c + 1 + i))))" if i: "cache_inv c" for c
  proof -
    let ?os = "map the (slab_objects c (mem_top c) (\<lambda>i. Some (mem_top c + 1 + i)))"
    have "mem_top c \<le> a" if "a \<in> set (mem_top c # ?os)" for a using that by (auto simp: slab_objects_def split: if_splits)
    then have "set (mem_top c # ?os) \<inter> (kv_live c \<union> dom (sko_slab c)) = {}" using above_top [OF i] by blast
    moreover have "distinct (mem_top c # ?os)" if "has (skc_flags c) KMC_OFFSLAB"
      using that by (auto simp: slab_objects_def distinct_map inj_on_def)
    ultimately show ?thesis by (simp add: kv_fresh_def)
  qed
  then show ?thesis using above_top by (simp add: fresh_ok_def bump_def)
qed

lemma bump_grows: "grows bump"
  by (auto simp: grows_def bump_def slab_objects_def split: if_splits)

lemma id_color: "rb_color_ok (\<lambda>t. t)"
  by (simp add: rb_color_ok_def)

lemma list_erase_ok: "rb_erase_ok list_erase"
proof -
  have "inorder (foldr (\<lambda>a. Node Leaf a) xs Leaf) = xs" for xs :: "addr list" by (induction xs) simp_all
  then show ?thesis by (simp add: rb_erase_ok_def list_erase_def)
qed

interpretation bump: kmem_kernel "\<lambda>t. t" list_erase "\<lambda>_. False" bump
  by unfold_locales (use bump_fresh id_color list_erase_ok in \<open>simp_all add: bump_def\<close>)

section \<open>Runs of the allocator\<close>

text \<open>A client's requests, served by the two exported functions on one CPU; a request must not sleep.\<close>

fun client_run ::
  "(addr tree \<Rightarrow> addr tree) \<Rightarrow> (addr \<Rightarrow> addr tree \<Rightarrow> addr tree) \<Rightarrow> (addr \<Rightarrow> bool) \<Rightarrow> grow_env \<Rightarrow> nat \<Rightarrow> addr request list \<Rightarrow> spl_kmem_cache \<Rightarrow>
   (addr request \<times> addr option) list \<times> spl_kmem_cache" where
  "client_run color erase V g cpu [] c = ([], c)"
| "client_run color erase V g cpu (q # qs) c =
     (let (r, c1) = (case q of
            Alloc \<Rightarrow> the (spl_kmem_cache_alloc 1 513 (\<lambda>_. None) color (\<lambda>_ _. g) (\<lambda>_ _. False) 0 KM_NOSLEEP (\<lambda>_. cpu) c)
          | Free a \<Rightarrow> (None, spl_kmem_cache_free erase V cpu a c));
          (tr, c2) = client_run color erase V g cpu qs c1
      in ((q, r) # tr, c2))"

context kmem_kernel
begin

lemma run_serve_all:
  assumes "cache_ready c" "requests_ok qs (in_use c) (fst (client_run color erase V g cpu qs c))"
  shows "client_run color erase V g cpu qs c = oc.serve_all cpu qs c"
  using assms
proof (induction qs arbitrary: c)
  case (Cons q qs)
  have sl: "\<not> has (skc_flags c) KMC_SLAB" using Cons.prems(1) by (simp add: cache_ready_def good_def cfg_ok_def)
  obtain r c1 where r: "oc.serve cpu q c = (r, c1)" by (metis surj_pair)
  have e: "(case q of
      Alloc \<Rightarrow> the (spl_kmem_cache_alloc 1 513 (\<lambda>_. None) color (\<lambda>_ _. g) (\<lambda>_ _. False) 0 KM_NOSLEEP (\<lambda>_. cpu) c)
    | Free a \<Rightarrow> (None, spl_kmem_cache_free erase V cpu a c)) = (r, c1)"
    using r sl unfolding oc.serve_def
    by (cases q) (simp_all add: spl_kmem_cache_alloc_def spl_kmem_cache_free_def cache_alloc_def del: cache_alloc_restart.simps)
  have run: "client_run color erase V g cpu (q # qs) c = ((q, r) # fst (client_run color erase V g cpu qs c1), snd (client_run color erase V g cpu qs c1))"
    unfolding client_run.simps e by (simp split: prod.split)
  have u: "a \<in> in_use c" if "q = Free a" for a using Cons.prems(2) that unfolding run by simp
  have S: "cache_ready c1 \<and> abs_step q r (in_use c) (in_use c1)" by (rule oc.serve_refines [OF Cons.prems(1) r u])
  have "requests_ok qs (in_use c1) (fst (client_run color erase V g cpu qs c1))"
    using Cons.prems(2) S unfolding run by (cases q) (auto simp: abs_step_simps split: option.splits)
  then have "client_run color erase V g cpu qs c1 = oc.serve_all cpu qs c1" using Cons.IH S by blast
  then show ?case unfolding run by (simp add: r split: prod.split)
qed simp

lemma run_refines:
  assumes "cache_ready c" "client_run color erase V g cpu qs c = (tr, c')" "requests_ok qs (in_use c) tr"
  shows "cache_ready c' \<and> abs_run tr (in_use c) (in_use c')"
  using oc.serve_all_refines [of c cpu qs tr c'] run_serve_all [of c qs cpu] assms by simp

end

lemma kmem_kernelI:
  assumes "rb_color_ok color" "rb_erase_ok erase" "fresh_ok V g" "\<And>c. ge_run g c = c" "\<And>c. ge_wait g c = c"
  shows "kmem_kernel color erase V g"
  by unfold_locales (use assms in simp_all)

section \<open>Properties\<close>

lemma restart_Suc_pop:
  assumes "mag_objs c (cpu i) \<noteq> []"
  shows "cache_alloc_restart (Suc i) fuel color G moved j flags cpu c =
    Some (Some (last (mag_objs c (cpu i))), upd_mag (cpu i) (\<lambda>m. m\<lparr>skm_objs := butlast (mag_objs c (cpu i)), skm_age := j\<rparr>) c)"
  using assms by (simp add: cache_alloc_pass_def Let_def)

lemma alloc_live:
  assumes "good V (in_use c) (in_use c) c" "\<And>i n. fresh_ok V (G i n)" "\<And>i n. grows (G i n)" "512 < fuel" "\<not> has flags KM_NOSLEEP"
    "\<not> has (skc_flags c) KMC_REAPING" "\<not> has (skc_flags c) KMC_VMEM" "cpu (Suc i) = cpu i"
  shows "\<exists>a c'. spl_kmem_cache_alloc (Suc (Suc i)) fuel slc color G (\<lambda>_ _. False) jiffies flags cpu c = Some (Some a, c') \<and>
    a \<notin> in_use c \<and> in_use c' = insert a (in_use c) \<and> cache_inv c' \<and> cfg_ok c'"
proof -
  let ?S = "in_use c"
  have fin: "a \<notin> ?S \<and> in_use d = insert a ?S \<and> cache_inv d \<and> cfg_ok d" if "given V ?S ?S (Some a) d" for a d
    using that by (auto simp: given_def good_def)
  have sl: "\<not> has (skc_flags c) KMC_SLAB" using assms(1) by (simp add: good_def cfg_ok_def)
  show ?thesis
  proof (cases "mag_objs c (cpu i) = []")
    case True
    obtain d where d: "cache_alloc_pass fuel color (G (Suc i)) (\<lambda>_. False) jiffies flags (cpu i) c = Some (Inl (), d)"
      "good V ?S ?S d" "mag_objs d (cpu i) \<noteq> []"
      using empty_pass [where G = "G (Suc i)" and color = color and j = jiffies and flags = flags, OF assms(1-4,6,7) True] assms(5) by auto
    note P = fin [OF pop_given [OF d(2,3) refl, of jiffies]]
    have "spl_kmem_cache_alloc (Suc (Suc i)) fuel slc color G (\<lambda>_ _. False) jiffies flags cpu c =
        cache_alloc_restart (Suc i) fuel color G (\<lambda>_ _. False) jiffies flags cpu d"
      using sl d(1) by (simp add: spl_kmem_cache_alloc_def assms(8) cache_alloc_restart.simps(2) [of "Suc i"] del: cache_alloc_restart.simps(2))
    then show ?thesis unfolding restart_Suc_pop [where cpu = cpu and i = i, OF d(3)] using P by blast
  next
    case False
    then have ne: "mag_objs c (cpu (Suc i)) \<noteq> []" using assms(8) by simp
    note P = fin [OF pop_given [OF assms(1) ne refl, of jiffies]]
    have "spl_kmem_cache_alloc (Suc (Suc i)) fuel slc color G (\<lambda>_ _. False) jiffies flags cpu c =
        cache_alloc_restart (Suc (Suc i)) fuel color G (\<lambda>_ _. False) jiffies flags cpu c" using sl by (simp add: spl_kmem_cache_alloc_def)
    then show ?thesis unfolding restart_Suc_pop [where cpu = cpu and i = "Suc i", OF ne] using P by blast
  qed
qed

text \<open>A caller that must not sleep gets a null pointer when the magazine is empty, although the magazine was refilled.\<close>

lemma kmem_cache_nosleep_null:
  assumes "good V H U c" "\<And>i n. fresh_ok V (G i n)" "\<And>i n. grows (G i n)" "512 < fuel" "has flags KM_NOSLEEP"
    "\<not> has (skc_flags c) KMC_REAPING" "\<not> has (skc_flags c) KMC_VMEM" "mag_objs c (cpu i) = []"
  shows "\<exists>c'. spl_kmem_cache_alloc (Suc i) fuel slc color G (\<lambda>_ _. False) jiffies flags cpu c = Some (None, c') \<and> mag_objs c' (cpu i) \<noteq> []"
proof -
  have sl: "\<not> has (skc_flags c) KMC_SLAB" using assms(1) by (simp add: good_def cfg_ok_def)
  obtain d where "cache_alloc_pass fuel color (G i) (\<lambda>_. False) jiffies flags (cpu i) c = Some (Inr None, d)" "mag_objs d (cpu i) \<noteq> []"
    using empty_pass [where G = "G i" and color = color and j = jiffies and flags = flags, OF assms(1-4,6-8)] assms(5) by auto
  then show ?thesis using sl by (simp add: spl_kmem_cache_alloc_def)
qed

text \<open>An instance of \<^verbatim>\<open>get_order\<close>: the least order of pages that holds the size.\<close>

fun order_from :: "nat \<Rightarrow> nat \<Rightarrow> nat \<Rightarrow> nat" where
  "order_from 0 k sz = k"
| "order_from (Suc n) k sz = (if sz \<le> 4096 * 2 ^ k then k else order_from n (k + 1) sz)"

definition pages_order :: "u32 \<Rightarrow> nat" where
  "pages_order sz = order_from 20 0 (unat sz)"

lemma pages_order_le: "pages_order sz \<le> 20"
proof -
  have "order_from n k sz \<le> k + n" for n k sz by (induction n arbitrary: k) (auto, metis add_Suc)
  from this [of 20 0] show ?thesis by (simp add: pages_order_def)
qed

lemma order_from_num:
  "order_from (numeral v) k sz = (if sz \<le> 4096 * 2 ^ k then k else order_from (pred_numeral v) (k + 1) sz)"
  by (simp add: numeral_eq_Suc)

text \<open>A small cache: objects of 512 bytes on pages, magazines of two objects.\<close>

definition demo_tunables :: kmem_tunables where
  "demo_tunables = \<lparr>spl_kmem_cache_obj_per_slab = 8, spl_kmem_cache_max_size = 32, spl_kmem_cache_magazine_size = 2,
     spl_kmem_cache_slab_limit = 0, spl_kmem_cache_kmem_limit = 2048\<rparr>"

definition demo :: spl_kmem_cache where
  "demo = (case spl_kmem_cache_create pages_order demo_tunables True True 0 0 512 0 0 of Cache c \<Rightarrow> c | _ \<Rightarrow> new_cache 0 0 0)"

lemma demo_sizes: "spl_sks_size 8 = 64" "spl_obj_size 512 8 = 552" "pages_order 4480 = 1"
  by (simp_all add: spl_sks_size_def spl_obj_size_def P2ROUNDUP_def sizeof_slab_def sizeof_obj_def pages_order_def order_from_num)

lemma demo_slab_size: "spl_slab_size pages_order 8 32 KMC_KMEM 512 8 = Inr (14, 8192)"
proof -
  have "has KMC_KMEM KMC_KMEM" "\<not> has KMC_KMEM KMC_OFFSLAB" by (simp_all add: has_def KMC_KMEM_def KMC_OFFSLAB_def)
  then show ?thesis by (simp add: spl_slab_size_def Let_def demo_sizes SPL_MAX_ORDER_NR_PAGES_def PAGE_SIZE_def min_def)
qed

lemma demo_eq:
  "spl_kmem_cache_create pages_order demo_tunables True True 0 0 512 0 0 = Cache demo"
  "demo = spl_magazine_create demo_tunables 0 ((new_cache KMC_KMEM 512 8)\<lparr>skc_slab_objs := 14, skc_slab_size := 8192\<rparr>)"
proof -
  have k: "cache_kind demo_tunables 512 8 0 = KMC_KMEM"
    by (simp add: cache_kind_def demo_tunables_def has_def spl_obj_size_def P2ROUNDUP_def sizeof_obj_def)
  have "has KMC_KMEM (KMC_KMEM OR KMC_VMEM)" by (simp add: has_def KMC_KMEM_def KMC_VMEM_def)
  then have "spl_kmem_cache_create pages_order demo_tunables True True 0 0 512 0 0 =
      Cache (spl_magazine_create demo_tunables 0 ((new_cache KMC_KMEM 512 8)\<lparr>skc_slab_objs := 14, skc_slab_size := 8192\<rparr>))"
    using demo_slab_size k by (simp add: spl_kmem_cache_create_def Let_def SPL_KMEM_CACHE_ALIGN_def new_cache_def) (simp add: demo_tunables_def)
  then show "spl_kmem_cache_create pages_order demo_tunables True True 0 0 512 0 0 = Cache demo"
    "demo = spl_magazine_create demo_tunables 0 ((new_cache KMC_KMEM 512 8)\<lparr>skc_slab_objs := 14, skc_slab_size := 8192\<rparr>)"
    by (simp_all add: demo_def)
qed

lemma demo_flags: "skc_flags demo = KMC_KMEM" "has KMC_KMEM (KMC_KMEM OR KMC_VMEM)" "\<not> has KMC_KMEM KMC_NOMAGAZINE" "\<not> has KMC_KMEM KMC_SLAB"
  "\<not> has KMC_KMEM KMC_REAPING" "\<not> has KMC_KMEM KMC_VMEM" "\<not> has KMC_KMEM KMC_DESTROY" "\<not> has KMC_KMEM KMC_OFFSLAB"
  by (simp_all add: demo_eq(2) spl_magazine_create_def new_cache_def Let_def has_def KMC_KMEM_def KMC_VMEM_def KMC_NOMAGAZINE_def KMC_SLAB_def
      KMC_REAPING_def KMC_DESTROY_def KMC_OFFSLAB_def)

lemma demo_good: "good (\<lambda>_. False) {} {} demo" "in_use demo = {}" "mag_objs demo i = []"
proof -
  show g: "good (\<lambda>_. False) {} {} demo" using create_good [OF demo_eq(1)] demo_flags by simp
  then show "in_use demo = {}" by (simp add: good_def)
  show "mag_objs demo i = []" by (simp add: demo_eq(2) spl_magazine_create_def new_cache_def Let_def)
qed

lemma not_nosleep: "\<not> has KM_SLEEP KM_NOSLEEP"
  by (simp add: has_def KM_SLEEP_def)

lemma bump_env: "env_ok (\<lambda>_. False) H U bump"
  by (rule bump.env)

abbreviation demo_alloc :: "(addr option \<times> spl_kmem_cache) option" where
  "demo_alloc \<equiv> spl_kmem_cache_alloc 2 513 (\<lambda>_. None) (\<lambda>t. t) (\<lambda>_ _. bump) (\<lambda>_ _. False) 0 KM_SLEEP (\<lambda>_. 0) demo"

lemma demo_alloc_ok: "\<exists>a c'. demo_alloc = Some (Some a, c') \<and> in_use c' = {a} \<and> cache_inv c' \<and> cfg_ok c'"
proof -
  have "good (\<lambda>_. False) (in_use demo) (in_use demo) demo" using demo_good by simp
  from alloc_live [where G = "\<lambda>_ _. bump" and i = 0 and fuel = 513 and flags = KM_SLEEP and cpu = "\<lambda>_. 0" and color = "\<lambda>t. t" and jiffies = 0 and slc = "\<lambda>_. None",
      OF this bump_fresh bump_grows] show ?thesis
    using demo_flags not_nosleep demo_good(2) by (simp add: numeral_2_eq_2 del: cache_alloc_restart.simps)
qed






text \<open>\<^verbatim>\<open>spl_kmem_cache_free\<close> on any CPU takes exactly the freed object out of use: an object of a slab goes to the
  magazine, which is flushed first when it is full, and an emergency object back to the kernel; the
  cache stays well formed.\<close>

theorem kmem_cache_free_exact:
  assumes "good V H U c" "rb_erase_ok rb_erase" "a \<in> in_use c" "c' = spl_kmem_cache_free rb_erase V cpu a c"
  shows "in_use c' = in_use c - {a} \<and> good V (H - {a}) (U - {a}) c'"
proof -
  have F: "cache_inv c" "cfg_ok c" "\<And>x. x \<in> set_tree (skc_emergency_tree c) \<Longrightarrow> \<not> V x" "H \<subseteq> in_use c" "in_use c \<subseteq> U"
    using assms(1) by (simp_all add: good_def)
  have "c' = cache_free_obj rb_erase V cpu a c" using F(2) assms(4) by (simp add: spl_kmem_cache_free_def cfg_ok_def)
  note A = free_inv [OF F(1,2) assms(2,3) F(3) this]
  then have "cfg c' = cfg c" by simp
  from cfg_ok_cong [OF this F(2)] show ?thesis using A F(3-5) by (auto simp: good_def)
qed

theorem kmem_cache_free_exact_witness:
  "\<exists>a c'. demo_alloc = Some (Some a, c') \<and> in_use c' = {a} \<and> in_use (spl_kmem_cache_free list_erase (\<lambda>_. False) 1 a c') = {}"
proof -
  obtain a c' where a: "demo_alloc = Some (Some a, c')" "in_use c' = {a}" "cache_inv c'" "cfg_ok c'" using demo_alloc_ok by blast
  have "good (\<lambda>_. False) {} UNIV c'" "a \<in> in_use c'" using a by (simp_all add: good_def)
  from kmem_cache_free_exact [OF this(1) list_erase_ok this(2) refl, of 1] show ?thesis using a by auto
qed



text \<open>C22: \<^verbatim>\<open>spl_kmem_cache_destroy\<close> finds leaks exactly: after the magazines are flushed and the empty slabs reclaimed,
  its assertions hold if and only if no object is in use, and then all memory has gone back to the
  kernel.\<close>

theorem kmem_cache_destroy_exact:
  assumes "cache_inv c" "\<not> has (skc_flags c) KMC_DESTROY" "has (skc_flags c) (KMC_KMEM OR KMC_VMEM)" "\<not> has (skc_flags c) KMC_NOMAGAZINE"
    "\<And>k. k \<notin> set cpus \<Longrightarrow> mag_objs c k = []"
  shows "\<exists>c'. spl_kmem_cache_destroy cpus c = Some c' \<and> (destroy_asserts c' \<longleftrightarrow> in_use c = {}) \<and> (in_use c = {} \<longrightarrow> kv_live c' = {})"
  using assms by (rule destroy_spec)

theorem kmem_cache_destroy_exact_witness:
  "\<exists>c'. spl_kmem_cache_destroy [0] demo = Some c' \<and> destroy_asserts c' \<and> kv_live c' = {}"
proof -
  have "cache_inv demo" using demo_good(1) by (simp add: good_def)
  from kmem_cache_destroy_exact [OF this, of "[0]"] show ?thesis using demo_flags demo_good by simp
qed

text \<open>C23: The layout \<^verbatim>\<open>spl_slab_size\<close> chooses fits: every object of a slab on its page aligned memory starts at a
  multiple of the alignment behind the slab header, its header and all its bytes come before the next
  object, and the last one ends within the slab, whose size on pages is a power of two, as the
  allocation asserts.  Off pages this needs that the wanted size does not wrap at 32 bits.\<close>

theorem slab_layout_fits:
  assumes "\<And>s. get_order s \<le> 20"
    "spl_slab_size get_order per_slab max_mb (skc_flags c) (skc_obj_size c) (skc_obj_align c) = Inr (skc_slab_objs c, skc_slab_size c)"
    "skc_obj_align c = 2 ^ k" "k \<le> 12" "4096 dvd base" "\<not> has (skc_flags c) KMC_OFFSLAB" "skc_obj_size c \<noteq> 0" "unat (skc_obj_size c) \<le> 2 ^ 31"
    "\<not> has (skc_flags c) KMC_KMEM \<Longrightarrow> unat per_slab * unat (spl_obj_size (skc_obj_size c) (2 ^ k)) + unat (spl_sks_size (2 ^ k)) < 2 ^ 32 \<and>
       0 < max_mb \<and> unat max_mb < 4096" "i < unat (skc_slab_objs c)"
  shows "\<exists>a next. slab_objects c base off ! i = Some a \<and> 2 ^ k dvd a \<and> base + 64 \<le> a \<and> a + unat (skc_obj_size c) + 40 \<le> next \<and>
    (Suc i < unat (skc_slab_objs c) \<longrightarrow> slab_objects c base off ! Suc i = Some next) \<and> next \<le> base + unat (skc_slab_size c) \<and>
    (has (skc_flags c) KMC_KMEM \<longrightarrow> (\<exists>m. skc_slab_size c = 2 ^ m))"
proof -
  let ?s = "unat (spl_sks_size (2 ^ k))" and ?b = "unat (spl_obj_size (skc_obj_size c) (2 ^ k))" and ?n = "unat (skc_slab_objs c)"
  note F = slab_size_fits [OF assms(1) assms(2) [unfolded assms(3)] assms(4,6,7,8,9)]
  note S = sks_size_bounds [OF assms(4)] and B = obj_size_bounds [OF assms(4,7,8)]
  have "(2 :: nat) ^ k dvd 2 ^ 12" by (rule le_imp_power_dvd [OF assms(4)])
  then have "2 ^ k dvd base" using assms(5) by (auto intro: dvd_trans)
  then have al: "2 ^ k dvd base + ?s + i * ?b" using S(3) B(2) by simp
  have ob: "slab_objects c base off ! j = Some (base + ?s + j * ?b)" if "j < ?n" for j
    using that assms(3,6) by (simp add: slab_objects_def)
  have "Suc i * ?b \<le> ?n * ?b" by (rule mult_le_mono1) (use assms(10) in simp)
  then have "?s + Suc i * ?b \<le> unat (skc_slab_size c)" using F by linarith
  then show ?thesis using al ob [OF assms(10)] ob [of "Suc i"] S(1) B(1) F
    by (intro exI [of _ "base + ?s + i * ?b"] exI [of _ "base + ?s + Suc i * ?b"]) auto
qed

theorem slab_layout_fits_witness:
  "\<exists>a next. slab_objects demo 4096 (\<lambda>_. None) ! 13 = Some a \<and> 8 dvd a \<and> 552 + a \<le> next \<and> next \<le> 4096 + 8192"
proof -
  have F: "skc_obj_size demo = 512" "skc_obj_align demo = 8" "skc_slab_objs demo = 14" "skc_slab_size demo = 8192"
    by (simp_all add: demo_eq(2) spl_magazine_create_def new_cache_def Let_def)
  have k: "has KMC_KMEM KMC_KMEM" by (simp add: has_def KMC_KMEM_def)
  have "spl_slab_size pages_order 8 32 (skc_flags demo) (skc_obj_size demo) (skc_obj_align demo) = Inr (skc_slab_objs demo, skc_slab_size demo)"
    using demo_slab_size by (simp add: F demo_flags)
  from slab_layout_fits [OF pages_order_le this, of 3 4096 13 "\<lambda>_. None"]
  obtain a nx where "slab_objects demo 4096 (\<lambda>_. None) ! 13 = Some a" "8 dvd a" "552 + a \<le> nx" "nx \<le> 4096 + 8192"
    using F demo_flags k by auto
  then show ?thesis by blast
qed

text \<open>
  When it wraps the layout is wrong: for objects of 536870864 bytes on virtual memory, eight objects
  are put on a slab of size 0.
\<close>

lemma slab_size_wraps: "spl_slab_size pages_order 8 32 KMC_VMEM 536870864 8 = Inr (8, 0)"
proof -
  have s: "spl_obj_size 536870864 8 = 536870904" by (simp add: spl_obj_size_def P2ROUNDUP_def sizeof_obj_def)
  have "\<not> has KMC_VMEM KMC_KMEM" "\<not> has KMC_VMEM KMC_OFFSLAB" by (simp_all add: has_def KMC_KMEM_def KMC_VMEM_def KMC_OFFSLAB_def)
  then show ?thesis by (simp add: spl_slab_size_def Let_def demo_sizes(1) s)
qed

text \<open>The flag that disables emergency objects has no effect on whether one is handed out.\<close>

lemma noemergency_ignored:
  "fst (spl_emergency_alloc color ske pages (c\<lparr>skc_flags := f\<rparr>)) = fst (spl_emergency_alloc color ske pages c)"
  by (simp add: spl_emergency_alloc_def Let_def split: option.split)

end
