(* ===== verification/Condvar.thy ===== *)
theory Condvar
  imports Spl_Prelude
begin

text \<open>
  Condition variables and mutexes, \<^verbatim>\<open>module/spl/spl-condvar.c\<close>, \<^verbatim>\<open>include/spl/sys/condvar.h\<close> and
  \<^verbatim>\<open>include/spl/sys/mutex.h\<close>: one condition variable with the threads that use it, each atomic access to its
  fields being one step.  The program counter of a thread says which access is next.
\<close>

section \<open>State\<close>

definition CV_MAGIC :: u32 where "CV_MAGIC = 0x346545f4"
definition CV_DESTROY :: u32 where "CV_DESTROY = 0x346545f5"

text \<open>
  Where a thread is: outside, in \<^verbatim>\<open>cv_wait_common\<close> or \<^verbatim>\<open>__cv_timedwait_common\<close> with a mutex (\<open>e\<close>: it may wake early, by a
  timeout or a signal), in \<^verbatim>\<open>__cv_signal\<close> or \<^verbatim>\<open>__cv_broadcast\<close> (\<open>b\<close>: all), or in \<^verbatim>\<open>__cv_destroy\<close>.
\<close>

datatype cv_pc = Out
  | W_load nat bool | W_xchg nat bool | W_prepare nat bool | W_count nat bool | W_unlock nat bool | W_sched nat bool
  | W_uncount nat | W_clear nat | W_kick nat | W_finish nat | W_unref nat | W_lock nat
  | S_read bool | S_wake bool | S_unref
  | D_dec | D_wait | D_done

record kcondvar =
  cv_magic :: u32
  cv_event :: "nat list"
  cv_refs :: int
  cv_waiters :: int
  cv_mutex :: "nat option"

record cv_state = kcondvar +
  m_owner :: "nat \<Rightarrow> nat option"
  pc :: "nat \<Rightarrow> cv_pc"

definition goto :: "nat \<Rightarrow> cv_pc \<Rightarrow> cv_state \<Rightarrow> cv_state" where
  "goto t p s = s\<lparr>pc := (pc s)(t := p)\<rparr>"

definition cv_init :: "(nat \<Rightarrow> nat option) \<Rightarrow> cv_state" where
  "cv_init owner = \<lparr>cv_magic = CV_MAGIC, cv_event = [], cv_refs = 1, cv_waiters = 0, cv_mutex = None,
     m_owner = owner, pc = (\<lambda>_. Out)\<rparr>"

section \<open>Mutexes\<close>

definition mutex_enter :: "nat \<Rightarrow> nat \<Rightarrow> cv_state \<Rightarrow> cv_state option" where
  "mutex_enter t m s = (if m_owner s m = None then Some (s\<lparr>m_owner := (m_owner s)(m := Some t)\<rparr>) else None)"

definition mutex_exit :: "nat \<Rightarrow> nat \<Rightarrow> cv_state \<Rightarrow> cv_state option" where
  "mutex_exit t m s = (if m_owner s m = Some t then Some (s\<lparr>m_owner := (m_owner s)(m := None)\<rparr>) else None)"

definition mutex_tryenter :: "nat \<Rightarrow> nat \<Rightarrow> cv_state \<Rightarrow> bool \<times> cv_state" where
  "mutex_tryenter t m s = (case mutex_enter t m s of Some s' \<Rightarrow> (True, s') | None \<Rightarrow> (False, s))"

definition mutex_owned :: "nat \<Rightarrow> nat \<Rightarrow> cv_state \<Rightarrow> bool" where
  "mutex_owned t m s \<longleftrightarrow> m_owner s m = Some t"

section \<open>Waiting\<close>

text \<open>The entry, with the assertions of the function as guards.\<close>

definition cv_wait_start :: "nat \<Rightarrow> nat \<Rightarrow> bool \<Rightarrow> cv_state \<Rightarrow> cv_state option" where
  "cv_wait_start t m e s =
     (if pc s t = Out \<and> cv_magic s = CV_MAGIC \<and> mutex_owned t m s
      then Some (goto t (W_load m e) (s\<lparr>cv_refs := cv_refs s + 1\<rparr>)) else None)"

definition cv_wait_step :: "nat \<Rightarrow> cv_state \<Rightarrow> cv_state option" where
  "cv_wait_step t s =
     (case pc s t of
        W_load m e \<Rightarrow> Some (goto t (if cv_mutex s = None then W_xchg m e else W_prepare m e) s)
      | W_xchg m e \<Rightarrow> Some (goto t (W_prepare m e) (s\<lparr>cv_mutex := Some m\<rparr>))
      | W_prepare m e \<Rightarrow> Some (goto t (W_count m e) (s\<lparr>cv_event := cv_event s @ [t]\<rparr>))
      | W_count m e \<Rightarrow> Some (goto t (W_unlock m e) (s\<lparr>cv_waiters := cv_waiters s + 1\<rparr>))
      | W_unlock m e \<Rightarrow> map_option (goto t (W_sched m e)) (mutex_exit t m s)
      | W_sched m e \<Rightarrow> if t \<notin> set (cv_event s) \<or> e then Some (goto t (W_uncount m) s) else None
      | W_uncount m \<Rightarrow>
          Some (goto t (if cv_waiters s - 1 = 0 then W_clear m else W_finish m) (s\<lparr>cv_waiters := cv_waiters s - 1\<rparr>))
      | W_clear m \<Rightarrow> Some (goto t (W_kick m) (s\<lparr>cv_mutex := None\<rparr>))
      | W_kick m \<Rightarrow> Some (goto t (W_finish m) s)
      | W_finish m \<Rightarrow> Some (goto t (W_unref m) (s\<lparr>cv_event := filter (\<lambda>u. u \<noteq> t) (cv_event s)\<rparr>))
      | W_unref m \<Rightarrow> Some (goto t (W_lock m) (s\<lparr>cv_refs := cv_refs s - 1\<rparr>))
      | W_lock m \<Rightarrow> map_option (goto t Out) (mutex_enter t m s)
      | _ \<Rightarrow> None)"

section \<open>Waking\<close>

definition cv_signal_start :: "nat \<Rightarrow> bool \<Rightarrow> cv_state \<Rightarrow> cv_state option" where
  "cv_signal_start t b s =
     (if pc s t = Out \<and> cv_magic s = CV_MAGIC then Some (goto t (S_read b) (s\<lparr>cv_refs := cv_refs s + 1\<rparr>)) else None)"

text \<open>\<open>pick\<close> is the thread the kernel's \<^verbatim>\<open>wake_up\<close> chooses from a wait queue; the entry of a woken thread leaves it.\<close>

definition wake_up :: "(nat list \<Rightarrow> nat) \<Rightarrow> nat list \<Rightarrow> nat list" where
  "wake_up pick q = (if q = [] then [] else filter (\<lambda>u. u \<noteq> pick q) q)"

definition cv_signal_step :: "(nat list \<Rightarrow> nat) \<Rightarrow> nat \<Rightarrow> cv_state \<Rightarrow> cv_state option" where
  "cv_signal_step pick t s =
     (case pc s t of
        S_read b \<Rightarrow> Some (goto t (if cv_waiters s > 0 then S_wake b else S_unref) s)
      | S_wake b \<Rightarrow> Some (goto t S_unref (s\<lparr>cv_event := (if b then [] else wake_up pick (cv_event s))\<rparr>))
      | S_unref \<Rightarrow> Some (goto t Out (s\<lparr>cv_refs := cv_refs s - 1\<rparr>))
      | _ \<Rightarrow> None)"

section \<open>Destroying\<close>

definition cv_destroy_wakeup :: "cv_state \<Rightarrow> bool" where
  "cv_destroy_wakeup s \<longleftrightarrow> cv_waiters s = 0 \<and> cv_refs s = 0"

definition cv_destroy_start :: "nat \<Rightarrow> cv_state \<Rightarrow> cv_state option" where
  "cv_destroy_start t s =
     (if pc s t = Out \<and> cv_magic s = CV_MAGIC then Some (goto t D_dec (s\<lparr>cv_magic := CV_DESTROY\<rparr>)) else None)"

definition cv_destroy_step :: "nat \<Rightarrow> cv_state \<Rightarrow> cv_state option" where
  "cv_destroy_step t s =
     (case pc s t of
        D_dec \<Rightarrow> Some (goto t D_wait (s\<lparr>cv_refs := cv_refs s - 1\<rparr>))
      | D_wait \<Rightarrow> if cv_destroy_wakeup s then Some (goto t D_done s) else None
      | _ \<Rightarrow> None)"

definition destroy_ok :: "cv_state \<Rightarrow> bool" where
  "destroy_ok s \<longleftrightarrow> cv_mutex s = None \<and> cv_refs s = 0 \<and> cv_waiters s = 0 \<and> cv_event s = []"

section \<open>Timed waits\<close>

text \<open>Ticks are 64-bit; the first gives the time to sleep unless it is over already, the second the result.\<close>

definition cv_timedwait_enter :: "u64 \<Rightarrow> u64 \<Rightarrow> u64 option" where
  "cv_timedwait_enter expire_time jiffies = (let left = expire_time - jiffies in if sint left \<le> 0 then None else Some left)"

definition cv_timedwait_result :: "u64 \<Rightarrow> u64" where
  "cv_timedwait_result time_left = (if sint time_left > 0 then time_left else - 1)"

definition CALLOUT_FLAG_ROUNDUP :: u32 where "CALLOUT_FLAG_ROUNDUP = 0x1"
definition CALLOUT_FLAG_ABSOLUTE :: u32 where "CALLOUT_FLAG_ABSOLUTE = 0x2"

text \<open>The expiry time in nanoseconds, rounded to the resolution; signed division rounds towards zero.\<close>

definition hires_expiry :: "int \<Rightarrow> int \<Rightarrow> u32 \<Rightarrow> int \<Rightarrow> int" where
  "hires_expiry tim res flag now =
     (let t1 = (if res > 1 then
                  let t0 = (if flag AND CALLOUT_FLAG_ROUNDUP \<noteq> 0 then tim + res - 1 else tim)
                  in (if t0 < 0 then - ((- t0) div res) else t0 div res) * res
                else tim)
      in if flag AND CALLOUT_FLAG_ABSOLUTE = 0 then t1 + now else t1)"

text \<open>\<^verbatim>\<open>usecs_to_jiffies\<close> of the kernel takes a 32-bit number of microseconds.\<close>

definition NSEC_TO_TICK :: "(u32 \<Rightarrow> u64) \<Rightarrow> int \<Rightarrow> u64" where
  "NSEC_TO_TICK usecs_to_jiffies ns = usecs_to_jiffies (word_of_int (ns div 1000))"

definition hires_result :: "(u32 \<Rightarrow> u64) \<Rightarrow> int \<Rightarrow> int \<Rightarrow> u64" where
  "hires_result usecs_to_jiffies expire_time now = (let left = expire_time - now in if left > 0 then NSEC_TO_TICK usecs_to_jiffies left else - 1)"

section \<open>Steps\<close>

inductive cv_step :: "(nat list \<Rightarrow> nat) \<Rightarrow> cv_state \<Rightarrow> cv_state \<Rightarrow> bool" for pick where
  step_wait: "cv_wait_step t s = Some s' \<Longrightarrow> cv_step pick s s'"
| step_signal: "cv_signal_step pick t s = Some s' \<Longrightarrow> cv_step pick s s'"
| step_destroy: "cv_destroy_step t s = Some s' \<Longrightarrow> cv_step pick s s'"
| start_wait: "cv_wait_start t m e s = Some s' \<Longrightarrow> cv_step pick s s'"
| start_signal: "cv_signal_start t b s = Some s' \<Longrightarrow> cv_step pick s s'"
| start_destroy: "cv_destroy_start t s = Some s' \<Longrightarrow> cv_step pick s s'"
| enter: "pc s t = Out \<Longrightarrow> mutex_enter t m s = Some s' \<Longrightarrow> cv_step pick s s'"
| leave: "pc s t = Out \<Longrightarrow> mutex_exit t m s = Some s' \<Longrightarrow> cv_step pick s s'"

inductive cv_reach :: "(nat list \<Rightarrow> nat) \<Rightarrow> cv_state \<Rightarrow> bool" for pick where
  cv_reach_init: "cv_reach pick (cv_init owner)"
| cv_reach_step: "cv_reach pick s \<Longrightarrow> cv_step pick s s' \<Longrightarrow> cv_reach pick s'"

end
