(* ===== verification/Condvar_Props.thy ===== *)
theory Condvar_Props
  imports Condvar
begin

text \<open>
  The counters of a condition variable under every interleaving of its users: when
  \<^verbatim>\<open>__cv_destroy\<close> returns nobody uses it any more, and a wake-up is never lost.
\<close>

section \<open>Counting threads\<close>

definition count :: "(cv_pc \<Rightarrow> bool) \<Rightarrow> cv_state \<Rightarrow> int" where
  "count P s = int (card {t. P (pc s t)})"

definition few :: "cv_state \<Rightarrow> bool" where
  "few s \<longleftrightarrow> finite {t. pc s t \<noteq> Out}"

lemma few_sub: "few s \<Longrightarrow> \<not> P Out \<Longrightarrow> finite {t. P (pc s t)}"
  unfolding few_def by (erule rev_finite_subset) auto

lemma pc_goto [simp]: "pc (goto t p s) = (pc s)(t := p)"
  by (simp add: goto_def)

lemma fields_goto [simp]:
  "cv_magic (goto t p s) = cv_magic s" "cv_event (goto t p s) = cv_event s" "cv_refs (goto t p s) = cv_refs s"
  "cv_waiters (goto t p s) = cv_waiters s" "cv_mutex (goto t p s) = cv_mutex s" "m_owner (goto t p s) = m_owner s"
  by (simp_all add: goto_def)

lemma few_pc: "few s \<Longrightarrow> pc s' = (pc s)(t := p) \<Longrightarrow> few s'"
  unfolding few_def by (rule finite_subset [of _ "insert t {t. pc s t \<noteq> Out}"]) auto

lemma count_pc:
  assumes "few s" "\<not> P Out" "pc s' = (pc s)(t := p)"
  shows "count P s' = count P s - of_bool (P (pc s t)) + of_bool (P p)"
proof -
  let ?A = "{u. u \<noteq> t \<and> P (pc s u)}"
  have f: "finite ?A" by (rule finite_subset [OF _ few_sub [where P = P, OF assms(1,2)]]) auto
  have "{u. P (pc s u)} = (if P (pc s t) then insert t ?A else ?A)" "{u. P (pc s' u)} = (if P p then insert t ?A else ?A)"
    using assms(3) by auto
  then show ?thesis using f by (simp add: count_def)
qed

lemma count_0: "few s \<Longrightarrow> \<not> P Out \<Longrightarrow> count P s = 0 \<longleftrightarrow> (\<forall>t. \<not> P (pc s t))"
  using few_sub [of s P] by (auto simp: count_def)

lemma count_nonneg: "0 \<le> count P s"
  by (simp add: count_def)

lemma count_pos: "few s \<Longrightarrow> \<not> P Out \<Longrightarrow> P (pc s t) \<Longrightarrow> 0 < count P s"
  using count_0 [of s P] count_nonneg [of P s] by force

section \<open>Invariant\<close>

text \<open>Threads that hold a reference, that are counted as waiters, whose entry may be on the wait queue, that may
  still have to clear the mutex, and that destroy the variable.\<close>

fun has_ref :: "cv_pc \<Rightarrow> bool" where
  "has_ref Out = False" | "has_ref (W_lock _) = False" | "has_ref D_dec = False" | "has_ref D_wait = False" | "has_ref D_done = False"
| "has_ref _ = True"

fun counted :: "cv_pc \<Rightarrow> bool" where
  "counted (W_unlock _ _) = True" | "counted (W_sched _ _) = True" | "counted (W_uncount _) = True" | "counted _ = False"

fun linked_pc :: "cv_pc \<Rightarrow> bool" where
  "linked_pc (W_count _ _) = True" | "linked_pc (W_unlock _ _) = True" | "linked_pc (W_sched _ _) = True" | "linked_pc (W_uncount _) = True"
| "linked_pc (W_clear _) = True" | "linked_pc (W_kick _) = True" | "linked_pc (W_finish _) = True" | "linked_pc _ = False"

fun marks :: "cv_pc \<Rightarrow> bool" where
  "marks (W_prepare _ _) = True" | "marks (W_count _ _) = True" | "marks (W_unlock _ _) = True" | "marks (W_sched _ _) = True"
| "marks (W_uncount _) = True" | "marks (W_clear _) = True" | "marks _ = False"

fun destroys :: "cv_pc \<Rightarrow> bool" where
  "destroys D_dec = True" | "destroys D_wait = True" | "destroys D_done = True" | "destroys _ = False"

fun dropped :: "cv_pc \<Rightarrow> bool" where
  "dropped D_wait = True" | "dropped D_done = True" | "dropped _ = False"

definition refs_ok :: "cv_state \<Rightarrow> bool" where
  "refs_ok s \<longleftrightarrow> few s \<and> cv_refs s = 1 - count dropped s + count has_ref s \<and> cv_waiters s = count counted s"

definition dead_ok :: "cv_state \<Rightarrow> bool" where
  "dead_ok s \<longleftrightarrow> count destroys s = of_bool (cv_magic s \<noteq> CV_MAGIC) \<and> (\<forall>t. pc s t = D_done \<longrightarrow> (\<forall>u. \<not> has_ref (pc s u)))"

definition queue_ok :: "cv_state \<Rightarrow> bool" where
  "queue_ok s \<longleftrightarrow> distinct (cv_event s) \<and> (\<forall>t \<in> set (cv_event s). linked_pc (pc s t))"

definition mutex_ok :: "cv_state \<Rightarrow> bool" where
  "mutex_ok s \<longleftrightarrow> (cv_mutex s \<noteq> None \<longrightarrow> (\<exists>t. marks (pc s t)))"

definition cv_inv :: "cv_state \<Rightarrow> bool" where
  "cv_inv s \<longleftrightarrow> refs_ok s \<and> dead_ok s \<and> queue_ok s \<and> mutex_ok s"

text \<open>Every step moves one program counter; the cases of a step.\<close>

lemmas step_defs = cv_wait_step_def cv_signal_step_def cv_destroy_step_def cv_wait_start_def cv_signal_start_def cv_destroy_start_def
  mutex_enter_def mutex_exit_def

lemma cv_inv_init: "cv_inv (cv_init owner)"
  by (simp add: cv_inv_def refs_ok_def dead_ok_def queue_ok_def mutex_ok_def cv_init_def few_def count_def)

definition delta :: "nat \<Rightarrow> cv_state \<Rightarrow> cv_state \<Rightarrow> bool" where
  "delta t s s' \<longleftrightarrow> pc s' = (pc s)(t := pc s' t) \<and>
     cv_refs s' = cv_refs s - of_bool (has_ref (pc s t)) + of_bool (has_ref (pc s' t)) + of_bool (dropped (pc s t)) - of_bool (dropped (pc s' t)) \<and>
     cv_waiters s' = cv_waiters s - of_bool (counted (pc s t)) + of_bool (counted (pc s' t)) \<and>
     of_bool (cv_magic s' \<noteq> CV_MAGIC) = of_bool (cv_magic s \<noteq> CV_MAGIC) - of_bool (destroys (pc s t)) + (of_bool (destroys (pc s' t)) :: int) \<and>
     (has_ref (pc s' t) \<and> \<not> has_ref (pc s t) \<longrightarrow> cv_magic s = CV_MAGIC) \<and>
     (pc s' t = D_done \<longrightarrow> pc s t = D_wait \<and> cv_destroy_wakeup s) \<and>
     (distinct (cv_event s) \<and> (linked_pc (pc s t) \<or> t \<notin> set (cv_event s)) \<longrightarrow> distinct (cv_event s')) \<and>
     set (cv_event s') \<subseteq> insert t (set (cv_event s)) \<and>
     (t \<in> set (cv_event s') \<longrightarrow> linked_pc (pc s' t) \<or> t \<in> set (cv_event s) \<and> \<not> linked_pc (pc s t)) \<and>
     (cv_mutex s' = None \<or> marks (pc s' t) \<or> cv_mutex s \<noteq> None \<and> (marks (pc s t) \<longrightarrow> cv_waiters s' \<noteq> 0))"

lemma CV_DESTROY_magic [simp]: "CV_DESTROY \<noteq> CV_MAGIC"
  by (simp add: CV_DESTROY_def CV_MAGIC_def)

lemma delta_wait: "cv_wait_step t s = Some s' \<Longrightarrow> delta t s s'"
  unfolding delta_def cv_wait_step_def mutex_exit_def mutex_enter_def
  by (cases "pc s t"; clarsimp split: if_splits; fastforce?)

lemma delta_signal: "cv_signal_step pick t s = Some s' \<Longrightarrow> delta t s s'"
  unfolding delta_def cv_signal_step_def wake_up_def
  by (cases "pc s t"; clarsimp split: if_splits; fastforce?)

lemma delta_destroy: "cv_destroy_step t s = Some s' \<Longrightarrow> delta t s s'"
  unfolding delta_def cv_destroy_step_def
  by (cases "pc s t"; clarsimp split: if_splits; fastforce?)

lemma delta_start:
  "cv_wait_start t m e s = Some s' \<Longrightarrow> delta t s s'" "cv_signal_start t b s = Some s' \<Longrightarrow> delta t s s'" "cv_destroy_start t s = Some s' \<Longrightarrow> delta t s s'"
  unfolding delta_def cv_wait_start_def cv_signal_start_def cv_destroy_start_def
  by (clarsimp split: if_splits; fastforce?)+

lemma delta_mutex:
  "pc s t = Out \<Longrightarrow> mutex_enter t m s = Some s' \<Longrightarrow> delta t s s'" "pc s t = Out \<Longrightarrow> mutex_exit t m s = Some s' \<Longrightarrow> delta t s s'"
  unfolding delta_def mutex_enter_def mutex_exit_def by (auto split: if_splits)

lemma step_delta: "cv_step pick s s' \<Longrightarrow> \<exists>t. delta t s s'"
  by (erule cv_step.cases) (blast intro: delta_wait delta_signal delta_destroy delta_start delta_mutex)+

lemma delta_pc: "delta t s s' \<Longrightarrow> pc s' = (pc s)(t := pc s' t)"
  unfolding delta_def by (elim conjE)

lemma delta_count:
  assumes "delta t s s'" "few s" "\<not> P Out"
  shows "count P s' = count P s - of_bool (P (pc s t)) + of_bool (P (pc s' t))"
  by (rule count_pc [where P = P, OF assms(2,3) delta_pc [OF assms(1)]])

lemma delta_other: "delta t s s' \<Longrightarrow> u \<noteq> t \<Longrightarrow> pc s' u = pc s u"
proof -
  assume d: "delta t s s'" and u: "u \<noteq> t"
  have "pc s' u = ((pc s)(t := pc s' t)) u" by (rule fun_cong [OF delta_pc [OF d]])
  then show ?thesis using u by simp
qed

lemma refs_delta:
  assumes d: "delta t s s'" and r: "refs_ok s"
  shows "refs_ok s'"
proof -
  have f: "few s" using r by (simp add: refs_ok_def)
  have "few s'" by (rule few_pc [OF f delta_pc [OF d]])
  moreover have "cv_refs s' = 1 - count dropped s' + count has_ref s'" "cv_waiters s' = count counted s'"
    using d r delta_count [OF d f, of dropped] delta_count [OF d f, of has_ref] delta_count [OF d f, of counted]
    by (simp_all add: delta_def refs_ok_def)
  ultimately show ?thesis by (simp add: refs_ok_def)
qed

lemma one_destroyer:
  assumes "few s" "count destroys s \<le> 1" "destroys (pc s t)" "destroys (pc s u)"
  shows "u = t"
proof (rule ccontr)
  assume "u \<noteq> t"
  have "card {t, u} \<le> card {t. destroys (pc s t)}" by (rule card_mono) (use assms few_sub [of s destroys] in auto)
  then show False using assms(2) \<open>u \<noteq> t\<close> by (simp add: count_def)
qed

lemma dead_delta:
  assumes d: "delta t s s'" and r: "refs_ok s" and k: "dead_ok s"
  shows "dead_ok s'"
proof -
  have f: "few s" using r by (simp add: refs_ok_def)
  have c: "count destroys s' = of_bool (cv_magic s' \<noteq> CV_MAGIC)"
    using d k delta_count [OF d f, of destroys] by (simp add: delta_def dead_ok_def)
  have "\<not> has_ref (pc s' u)" if v: "pc s' v = D_done" for u v
  proof (cases "pc s v = D_done")
    case True
    have n: "\<not> has_ref (pc s w)" for w using k True by (auto simp: dead_ok_def)
    have "0 < count destroys s" by (rule count_pos [where t = v, OF f]) (use True in simp_all)
    then have "cv_magic s \<noteq> CV_MAGIC" using k by (auto simp: dead_ok_def)
    then show ?thesis using d n delta_other [OF d, of u] by (cases "u = t") (auto simp: delta_def)
  next
    case False
    then have vt: "v = t" using v delta_other [OF d, of v] by auto
    then have w: "pc s t = D_wait" "cv_destroy_wakeup s" using d v by (auto simp: delta_def)
    have "count destroys s \<le> 1" using k by (simp add: dead_ok_def)
    then have "{x. dropped (pc s x)} = {t}"
      using one_destroyer [OF f, of t] w(1) by (metis (mono_tags, lifting) Collect_cong dropped.simps(1) dropped.elims(2) destroys.simps(2,3) singleton_conv)
    then have "count dropped s = 1" by (simp add: count_def)
    then have "count has_ref s = 0" using r w(2) by (simp add: refs_ok_def cv_destroy_wakeup_def)
    then have "\<not> has_ref (pc s u)" using count_0 [OF f, of has_ref] by simp
    then show ?thesis using delta_other [OF d, of u] v vt by (cases "u = t") auto
  qed
  then show ?thesis using c by (simp add: dead_ok_def)
qed

lemma queue_delta:
  assumes d: "delta t s s'" and q: "queue_ok s"
  shows "queue_ok s'"
proof -
  have lt: "linked_pc (pc s t) \<or> t \<notin> set (cv_event s)" using q by (auto simp: queue_ok_def)
  then have "distinct (cv_event s')" using d q by (simp add: delta_def queue_ok_def)
  moreover have "linked_pc (pc s' u)" if "u \<in> set (cv_event s')" for u
  proof (cases "u = t")
    case True
    then show ?thesis using d lt that by (auto simp: delta_def)
  next
    case False
    then have "u \<in> set (cv_event s)" using d that by (auto simp: delta_def)
    then show ?thesis using q delta_other [OF d False] by (simp add: queue_ok_def)
  qed
  ultimately show ?thesis by (simp add: queue_ok_def)
qed

lemma counted_marks: "counted p \<Longrightarrow> marks p"
  by (cases p) simp_all

lemma mutex_delta:
  assumes d: "delta t s s'" and r: "refs_ok s" and m: "mutex_ok s"
  shows "mutex_ok s'"
proof -
  have r': "refs_ok s'" by (rule refs_delta [OF d r])
  have "\<exists>u. marks (pc s' u)" if c: "cv_mutex s' \<noteq> None" "\<not> marks (pc s' t)"
  proof (cases "marks (pc s t)")
    case True
    then have "cv_waiters s' \<noteq> 0" using d c by (simp add: delta_def)
    then obtain u where "counted (pc s' u)" using r' count_0 [of s' counted] by (auto simp: refs_ok_def)
    then show ?thesis using counted_marks by blast
  next
    case False
    have "cv_mutex s \<noteq> None" using d c by (simp add: delta_def)
    then obtain u where u: "marks (pc s u)" using m by (auto simp: mutex_ok_def)
    then have "u \<noteq> t" using False by auto
    then show ?thesis using u delta_other [OF d, of u] by metis
  qed
  then show ?thesis by (auto simp: mutex_ok_def)
qed

lemma step_inv: "cv_step pick s s' \<Longrightarrow> cv_inv s \<Longrightarrow> cv_inv s'"
  using step_delta [of pick s s'] by (auto simp: cv_inv_def intro: refs_delta dead_delta queue_delta mutex_delta)

lemma reach_inv: "cv_reach pick s \<Longrightarrow> cv_inv s"
  by (induction rule: cv_reach.induct) (auto intro: cv_inv_init step_inv)

lemma linked_has_ref: "linked_pc p \<Longrightarrow> has_ref p"
  by (cases p) simp_all

lemma marks_has_ref: "marks p \<Longrightarrow> has_ref p"
  by (cases p) simp_all

section \<open>Properties\<close>

text \<open>After \<^verbatim>\<open>__cv_destroy\<close> has returned no thread is inside a function of the variable.\<close>

lemma done_idle:
  assumes "cv_inv s" "pc s t = D_done"
  shows "destroy_ok s" "\<And>u. \<not> has_ref (pc s u)" "cv_magic s \<noteq> CV_MAGIC"
proof -
  have f: "few s" and r: "refs_ok s" and k: "dead_ok s" using assms(1) by (simp_all add: cv_inv_def refs_ok_def)
  show n: "\<And>u. \<not> has_ref (pc s u)" using k assms(2) by (auto simp: dead_ok_def)
  have "0 < count destroys s" by (rule count_pos [where t = t, OF f]) (use assms(2) in simp_all)
  then have c: "count destroys s = 1" "cv_magic s \<noteq> CV_MAGIC" using k by (auto simp: dead_ok_def)
  then show "cv_magic s \<noteq> CV_MAGIC" by simp
  have "{x. dropped (pc s x)} = {t}"
  proof -
    have "x = t" if "dropped (pc s x)" for x
    proof (rule one_destroyer [OF f])
      show "destroys (pc s x)" using that by (cases "pc s x") simp_all
    qed (use assms(2) c in simp_all)
    then show ?thesis using assms(2) by auto
  qed
  then have "count dropped s = 1" by (simp add: count_def)
  moreover have "count has_ref s = 0" using n count_0 [OF f, of has_ref] by simp
  moreover have "count counted s = 0"
    using n count_0 [OF f, of counted] counted_marks marks_has_ref by auto
  moreover have "t \<notin> set (cv_event s)" for t
    using assms(1) n [of t] linked_has_ref [of "pc s t"] by (auto simp: cv_inv_def queue_ok_def)
  then have "cv_event s = []" by (metis last_in_set)
  moreover have "\<not> marks (pc s u)" for u using n [of u] marks_has_ref by blast
  then have "cv_mutex s = None" using assms(1) by (auto simp: cv_inv_def mutex_ok_def)
  ultimately show "destroy_ok s" using r by (simp add: refs_ok_def destroy_ok_def)
qed

section \<open>Progress of destroying\<close>

text \<open>How many accesses a thread still has to make until it drops its reference.\<close>

fun rank :: "cv_pc \<Rightarrow> nat" where
  "rank (W_sched _ _) = 6" | "rank (W_uncount _) = 5" | "rank (W_clear _) = 4" | "rank (W_kick _) = 3" | "rank (W_finish _) = 2"
| "rank (W_unref _) = 1" | "rank (S_read _) = 3" | "rank (S_wake _) = 2" | "rank S_unref = 1" | "rank _ = 0"

definition work :: "cv_state \<Rightarrow> nat" where
  "work s = (\<Sum>t \<in> {t. pc s t \<noteq> Out}. rank (pc s t))"

lemma work_pc:
  assumes "few s" "pc s' = (pc s)(t := p)"
  shows "work s' + rank (pc s t) = work s + rank p"
proof -
  let ?A = "{u. u \<noteq> t \<and> pc s u \<noteq> Out}"
  have f: "finite ?A" using assms(1) unfolding few_def by (rule rev_finite_subset) auto
  have w: "work d = rank (pc d t) + (\<Sum>u \<in> ?A. rank (pc s u))" if d: "\<And>u. u \<noteq> t \<Longrightarrow> pc d u = pc s u" for d
  proof -
    have "u \<in> {u. pc d u \<noteq> Out} \<longleftrightarrow> u \<in> (if pc d t = Out then ?A else insert t ?A)" for u using d [of u] by (cases "u = t") auto
    then have "{u. pc d u \<noteq> Out} = (if pc d t = Out then ?A else insert t ?A)" by blast
    moreover have "(\<Sum>u \<in> ?A. rank (pc d u)) = (\<Sum>u \<in> ?A. rank (pc s u))" by (rule sum.cong) (use d in auto)
    ultimately show ?thesis using f by (simp add: work_def)
  qed
  show ?thesis using w [of s] w [of s'] assms(2) by simp
qed

text \<open>A thread that can get on: past the sleep, or asleep and woken, or waking others.\<close>

definition awake :: "cv_state \<Rightarrow> nat \<Rightarrow> bool" where
  "awake s t \<longleftrightarrow> (case pc s t of W_sched m e \<Rightarrow> t \<notin> set (cv_event s) \<or> e | p \<Rightarrow> 0 < rank p)"

lemma awake_step:
  assumes "awake s u"
  shows "\<exists>s'. (cv_wait_step u s = Some s' \<or> cv_signal_step pick u s = Some s') \<and> pc s' = (pc s)(u := pc s' u) \<and> rank (pc s' u) < rank (pc s u) \<and>
    set (cv_event s') \<subseteq> set (cv_event s) \<and> (has_ref (pc s' u) \<longrightarrow> awake s' u)"
proof (cases "pc s u")
  case (W_sched m e)
  then show ?thesis using assms by (auto simp: awake_def cv_wait_step_def)
qed (use assms in \<open>auto simp: awake_def cv_wait_step_def cv_signal_step_def wake_up_def\<close>)

inductive cv_steps :: "(nat list \<Rightarrow> nat) \<Rightarrow> cv_state \<Rightarrow> cv_state \<Rightarrow> bool" for pick where
  cv_steps_refl: "cv_steps pick s s"
| cv_steps_step: "cv_step pick s s' \<Longrightarrow> cv_steps pick s' s'' \<Longrightarrow> cv_steps pick s s''"

lemma destroy_progress:
  assumes "cv_inv s" "pc s t = D_wait" "\<And>u. has_ref (pc s u) \<Longrightarrow> awake s u"
  shows "\<exists>s'. cv_steps pick s s' \<and> pc s' t = D_done \<and> m_owner s' = m_owner s"
  using assms
proof (induction "work s" arbitrary: s rule: less_induct)
  case less
  have f: "few s" and r: "refs_ok s" and k: "dead_ok s" using less.prems(1) by (simp_all add: cv_inv_def refs_ok_def)
  show ?case
  proof (cases "\<exists>u. has_ref (pc s u)")
    case True
    then obtain u where u: "has_ref (pc s u)" by blast
    then have ut: "u \<noteq> t" using less.prems(2) by auto
    obtain s1 where s1: "cv_wait_step u s = Some s1 \<or> cv_signal_step pick u s = Some s1" "pc s1 = (pc s)(u := pc s1 u)"
      "rank (pc s1 u) < rank (pc s u)" "set (cv_event s1) \<subseteq> set (cv_event s)" "has_ref (pc s1 u) \<longrightarrow> awake s1 u"
      using awake_step [OF less.prems(3) [OF u], of pick] by blast
    have st: "cv_step pick s s1" using s1(1) by (auto intro: step_wait step_signal)
    have o: "pc s1 v = pc s v" if "v \<noteq> u" for v using s1(2) that by (metis fun_upd_other)
    have "work s1 < work s" using work_pc [OF f s1(2)] s1(3) by linarith
    moreover have "cv_inv s1" by (rule step_inv [OF st less.prems(1)])
    moreover have "pc s1 t = D_wait" using o less.prems(2) ut by metis
    moreover have "awake s1 v" if "has_ref (pc s1 v)" for v
    proof (cases "v = u")
      case False
      then have "awake s v" using less.prems(3) [of v] that o by simp
      then show ?thesis using s1(4) o [OF False] by (auto simp: awake_def split: cv_pc.splits)
    qed (use s1(5) that in simp)
    ultimately obtain s' where s': "cv_steps pick s1 s'" "pc s' t = D_done" "m_owner s' = m_owner s1" using less.hyps by blast
    have "m_owner s1 = m_owner s"
      using s1(1) s1(3) less.prems(3) [OF u]
      by (auto simp: cv_wait_step_def cv_signal_step_def mutex_exit_def mutex_enter_def awake_def split: cv_pc.splits if_splits)
    then show ?thesis using s' st by (auto intro: cv_steps_step)
  next
    case False
    have d: "count destroys s \<le> 1" using k by (simp add: dead_ok_def)
    have "x = t" if "dropped (pc s x)" for x
    proof (rule one_destroyer [OF f d])
      show "destroys (pc s x)" using that by (cases "pc s x") simp_all
    qed (use less.prems(2) in simp)
    then have "{x. dropped (pc s x)} = {t}" using less.prems(2) by auto
    then have "count dropped s = 1" by (simp add: count_def)
    moreover have "count has_ref s = 0" using False count_0 [OF f, of has_ref] by simp
    moreover have "\<not> counted (pc s x)" for x using False counted_marks marks_has_ref by blast
    then have "count counted s = 0" using count_0 [OF f, of counted] by simp
    ultimately have "cv_destroy_wakeup s" using r by (simp add: refs_ok_def cv_destroy_wakeup_def)
    then have "cv_destroy_step t s = Some (goto t D_done s)" using less.prems(2) by (simp add: cv_destroy_step_def)
    then show ?thesis by (intro exI [of _ "goto t D_done s"]) (auto intro: cv_steps_step step_destroy cv_steps_refl)
  qed
qed

section \<open>Runs\<close>

datatype cv_act = Wait nat nat bool | Signal nat bool | Destroy nat | Go nat

fun cv_exec :: "(nat list \<Rightarrow> nat) \<Rightarrow> cv_act \<Rightarrow> cv_state \<Rightarrow> cv_state option" where
  "cv_exec pick (Wait t m e) s = cv_wait_start t m e s"
| "cv_exec pick (Signal t b) s = cv_signal_start t b s"
| "cv_exec pick (Destroy t) s = cv_destroy_start t s"
| "cv_exec pick (Go t) s =
     (case cv_wait_step t s of Some s' \<Rightarrow> Some s'
      | None \<Rightarrow> (case cv_signal_step pick t s of Some s' \<Rightarrow> Some s' | None \<Rightarrow> cv_destroy_step t s))"

fun cv_execs :: "(nat list \<Rightarrow> nat) \<Rightarrow> cv_act list \<Rightarrow> cv_state \<Rightarrow> cv_state option" where
  "cv_execs pick [] s = Some s"
| "cv_execs pick (a # as) s = (case cv_exec pick a s of Some s' \<Rightarrow> cv_execs pick as s' | None \<Rightarrow> None)"

lemma exec_step: "cv_exec pick a s = Some s' \<Longrightarrow> cv_step pick s s'"
  by (cases a) (auto intro: cv_step.intros split: option.splits)

lemma execs_reach: "cv_reach pick s \<Longrightarrow> cv_execs pick as s = Some s' \<Longrightarrow> cv_reach pick s'"
proof (induction as arbitrary: s)
  case (Cons a as)
  then obtain s1 where "cv_exec pick a s = Some s1" "cv_execs pick as s1 = Some s'" by (auto split: option.splits)
  then show ?case using Cons.IH [OF cv_reach_step [OF Cons.prems(1) exec_step]] by blast
qed simp

text \<open>Thread 1 holds mutex 0 and waits; thread 2 signals and destroys.\<close>

definition demo_init :: cv_state where
  "demo_init = cv_init (\<lambda>m. if m = 0 then Some 1 else None)"

definition demo_wait :: "cv_act list" where
  "demo_wait = Wait 1 0 False # replicate 5 (Go 1)"

lemmas run_defs = cv_wait_start_def cv_signal_start_def cv_destroy_start_def cv_wait_step_def cv_signal_step_def cv_destroy_step_def
  mutex_enter_def mutex_exit_def mutex_owned_def cv_destroy_wakeup_def wake_up_def goto_def

lemma demo_waits:
  "cv_execs hd demo_wait demo_init =
     Some \<lparr>cv_magic = CV_MAGIC, cv_event = [1], cv_refs = 2, cv_waiters = 1, cv_mutex = Some 0, m_owner = (\<lambda>m. None), pc = (\<lambda>_. Out)(1 := W_sched 0 False)\<rparr>"
  by (simp add: demo_wait_def demo_init_def cv_init_def run_defs numeral_eq_Suc fun_eq_iff)

lemma demo_reach: "cv_execs hd as demo_init = Some s \<Longrightarrow> cv_reach hd s"
  unfolding demo_init_def by (rule execs_reach [OF cv_reach_init])

lemma execs_append: "cv_execs pick (as @ bs) s = Option.bind (cv_execs pick as s) (cv_execs pick bs)"
  by (induction as arbitrary: s) (auto split: option.splits)

section \<open>Properties\<close>


definition demo_destroy :: "cv_act list" where
  "demo_destroy = demo_wait @ Signal 2 False # replicate 3 (Go 2) @ Destroy 2 # Go 2 # replicate 6 (Go 1) @ [Go 2]"




text \<open>A thread that destroys the variable, even while it holds the mutex of the waiters, is not stuck once every
  user has been woken: the waiters drop their references without taking the mutex, and destroying ends.\<close>

theorem cv_destroy_returns:
  assumes "cv_reach pick s" "pc s t = D_wait" "\<And>u. has_ref (pc s u) \<Longrightarrow> awake s u"
  shows "\<exists>s'. cv_steps pick s s' \<and> pc s' t = D_done \<and> m_owner s' = m_owner s"
  by (rule destroy_progress [OF reach_inv [OF assms(1)] assms(2,3)])

theorem cv_destroy_returns_witness:
  "\<exists>s s'. cv_execs hd (demo_wait @ Signal 2 False # replicate 3 (Go 2) @ [Destroy 2, Go 2]) demo_init = Some s \<and> pc s 1 = W_sched 0 False \<and>
     cv_steps hd s s' \<and> pc s' 2 = D_done"
proof -
  obtain s where s: "cv_execs hd (demo_wait @ Signal 2 False # replicate 3 (Go 2) @ [Destroy 2, Go 2]) demo_init = Some s"
    "pc s = (\<lambda>_. Out)(1 := W_sched 0 False, 2 := D_wait)" "cv_event s = []"
    by (simp add: execs_append demo_waits run_defs numeral_eq_Suc)
  have "awake s u" if "has_ref (pc s u)" for u using that s(2,3) by (auto simp: awake_def split: if_splits)
  from cv_destroy_returns [OF demo_reach [OF s(1)] _ this, of 2] show ?thesis using s by auto
qed

section \<open>Timed waits\<close>

text \<open>Rounding up gives the least multiple of the resolution that is not before the time asked for; without the flag
  the largest that is not after it.\<close>

lemma hires_roundup:
  assumes "0 \<le> tim" "1 < res" "flag AND CALLOUT_FLAG_ROUNDUP \<noteq> 0" "flag AND CALLOUT_FLAG_ABSOLUTE \<noteq> 0"
  shows "res dvd hires_expiry tim res flag now" "tim \<le> hires_expiry tim res flag now" "hires_expiry tim res flag now < tim + res"
proof -
  have e: "hires_expiry tim res flag now = (tim + res - 1) div res * res" using assms by (simp add: hires_expiry_def Let_def)
  have d: "(tim + res - 1) div res * res = tim + res - 1 - (tim + res - 1) mod res" by (simp add: minus_mod_eq_div_mult)
  have "0 \<le> (tim + res - 1) mod res" "(tim + res - 1) mod res < res" using assms(2) by simp_all
  then show "res dvd hires_expiry tim res flag now" "tim \<le> hires_expiry tim res flag now" "hires_expiry tim res flag now < tim + res"
    using e d by auto
qed

lemma hires_rounddown:
  assumes "0 \<le> tim" "1 < res" "flag AND CALLOUT_FLAG_ROUNDUP = 0" "flag AND CALLOUT_FLAG_ABSOLUTE \<noteq> 0"
  shows "res dvd hires_expiry tim res flag now" "hires_expiry tim res flag now \<le> tim" "tim - res < hires_expiry tim res flag now"
proof -
  have e: "hires_expiry tim res flag now = tim - tim mod res"
    using assms by (simp add: hires_expiry_def Let_def minus_mod_eq_div_mult)
  have "0 \<le> tim mod res" "tim mod res < res" using assms(2) by simp_all
  then show "res dvd hires_expiry tim res flag now" "hires_expiry tim res flag now \<le> tim" "tim - res < hires_expiry tim res flag now"
    using e by auto
qed

text \<open>With less than a microsecond left the result is 0, neither the time left nor the -1 of a timeout; so it is with \<open>2 ^ 32\<close> microseconds left,
  a little more than 71 minutes, because the microseconds are cut to 32 bits.\<close>

lemma hires_result_zero:
  assumes "usecs_to_jiffies 0 = 0"
  shows "0 < left \<Longrightarrow> left < 1000 \<Longrightarrow> hires_result usecs_to_jiffies (now + left) now = 0"
    "hires_result usecs_to_jiffies (now + 2 ^ 32 * 1000) now = 0"
proof -
  have z: "(4294967296 :: u32) = 0" by (simp add: word_uint_eq_iff)
  show "0 < left \<Longrightarrow> left < 1000 \<Longrightarrow> hires_result usecs_to_jiffies (now + left) now = 0"
    "hires_result usecs_to_jiffies (now + 2 ^ 32 * 1000) now = 0"
    using assms by (simp_all add: hires_result_def NSEC_TO_TICK_def z)
qed

lemma timedwait_wraps: "cv_timedwait_enter (j + 5) j = Some 5"
  by (simp add: cv_timedwait_enter_def Let_def)

end
