(* ===== verification/Condvar_Timed.thy ===== *)
theory Condvar_Timed
  imports Condvar
begin

text \<open>
  The functions of \<^verbatim>\<open>module/spl/spl-condvar.c\<close> that callers use to wait, as whole calls: from the assertions at the entry through the
  steps of \<open>Condvar\<close>, with other threads in between, to the value they return.
\<close>

section \<open>A call and the other threads\<close>

text \<open>Each element of the list is what the other threads do before the next attempt of thread \<open>t\<close> to make a step; \<open>None\<close>: the thread is still
  inside when the list is used up.\<close>

fun cv_run :: "nat \<Rightarrow> (cv_state \<Rightarrow> cv_state) list \<Rightarrow> cv_state \<Rightarrow> cv_state option" where
  "cv_run t [] s = None"
| "cv_run t (e # es) s =
     (case cv_wait_step t (e s) of
        None \<Rightarrow> cv_run t es (e s)
      | Some s' \<Rightarrow> if pc s' t = Out then Some s' else cv_run t es s')"

definition cv_wait :: "nat \<Rightarrow> nat \<Rightarrow> (cv_state \<Rightarrow> cv_state) list \<Rightarrow> cv_state \<Rightarrow> cv_state option" where
  "cv_wait t m es s = Option.bind (cv_wait_start t m False s) (cv_run t es)"

definition cv_wait_io :: "nat \<Rightarrow> nat \<Rightarrow> (cv_state \<Rightarrow> cv_state) list \<Rightarrow> cv_state \<Rightarrow> cv_state option" where
  "cv_wait_io t m es s = Option.bind (cv_wait_start t m False s) (cv_run t es)"

text \<open>An interruptible sleep ends early if a signal is pending.\<close>

definition cv_wait_sig :: "bool \<Rightarrow> nat \<Rightarrow> nat \<Rightarrow> (cv_state \<Rightarrow> cv_state) list \<Rightarrow> cv_state \<Rightarrow> cv_state option" where
  "cv_wait_sig pending t m es s = Option.bind (cv_wait_start t m pending s) (cv_run t es)"

section \<open>Timed calls\<close>

text \<open>Without \<^verbatim>\<open>io_schedule_timeout\<close>: a timer wakes the thread, and the time left is computed from the clock after it woke.\<close>

definition spl_io_schedule_timeout :: "u64 \<Rightarrow> u64 \<Rightarrow> u64 \<Rightarrow> u64" where
  "spl_io_schedule_timeout jiffies woken time_left =
     (let expire_time = jiffies + time_left; l = expire_time - woken in if sint l < 0 then 0 else l)"

text \<open>\<open>sleep\<close> is what the sleep returns for the time it is given.  The assertions come first, then the test of the time, which leaves
  the condition variable alone if the time is over.\<close>

definition cv_timedwait_common ::
  "(u64 \<Rightarrow> u64) \<Rightarrow> nat \<Rightarrow> nat \<Rightarrow> u64 \<Rightarrow> u64 \<Rightarrow> (cv_state \<Rightarrow> cv_state) list \<Rightarrow> cv_state \<Rightarrow> (u64 \<times> cv_state) option" where
  "cv_timedwait_common sleep t m expire_time jiffies es s =
     (if cv_magic s \<noteq> CV_MAGIC \<or> \<not> mutex_owned t m s then None
      else case cv_timedwait_enter expire_time jiffies of
             None \<Rightarrow> Some (- 1, s)
           | Some left \<Rightarrow> map_option (\<lambda>s'. (cv_timedwait_result (sleep left), s')) (Option.bind (cv_wait_start t m True s) (cv_run t es)))"

definition cv_timedwait ::
  "(u64 \<Rightarrow> u64) \<Rightarrow> nat \<Rightarrow> nat \<Rightarrow> u64 \<Rightarrow> u64 \<Rightarrow> (cv_state \<Rightarrow> cv_state) list \<Rightarrow> cv_state \<Rightarrow> (u64 \<times> cv_state) option" where
  "cv_timedwait schedule_timeout = cv_timedwait_common schedule_timeout"

definition cv_timedwait_sig ::
  "(u64 \<Rightarrow> u64) \<Rightarrow> nat \<Rightarrow> nat \<Rightarrow> u64 \<Rightarrow> u64 \<Rightarrow> (cv_state \<Rightarrow> cv_state) list \<Rightarrow> cv_state \<Rightarrow> (u64 \<times> cv_state) option" where
  "cv_timedwait_sig schedule_timeout = cv_timedwait_common schedule_timeout"

definition cv_timedwait_io :: "u64 \<Rightarrow> nat \<Rightarrow> nat \<Rightarrow> u64 \<Rightarrow> u64 \<Rightarrow> (cv_state \<Rightarrow> cv_state) list \<Rightarrow> cv_state \<Rightarrow> (u64 \<times> cv_state) option" where
  "cv_timedwait_io woken t m expire_time jiffies = cv_timedwait_common (spl_io_schedule_timeout jiffies woken) t m expire_time jiffies"

text \<open>The times of the high resolution functions are nanoseconds; \<open>now1\<close> and \<open>now2\<close> is the clock before the sleep and after the mutex is entered again.\<close>

definition cv_timedwait_hires ::
  "(u32 \<Rightarrow> u64) \<Rightarrow> nat \<Rightarrow> nat \<Rightarrow> int \<Rightarrow> int \<Rightarrow> int \<Rightarrow> (cv_state \<Rightarrow> cv_state) list \<Rightarrow> cv_state \<Rightarrow> (u64 \<times> cv_state) option" where
  "cv_timedwait_hires usecs_to_jiffies t m expire_time now1 now2 es s =
     (if cv_magic s \<noteq> CV_MAGIC \<or> \<not> mutex_owned t m s then None
      else if expire_time - now1 \<le> 0 then Some (- 1, s)
      else map_option (\<lambda>s'. (hires_result usecs_to_jiffies expire_time now2, s')) (Option.bind (cv_wait_start t m True s) (cv_run t es)))"

definition cv_timedwait_hires_common ::
  "(u32 \<Rightarrow> u64) \<Rightarrow> nat \<Rightarrow> nat \<Rightarrow> int \<Rightarrow> int \<Rightarrow> u32 \<Rightarrow> int \<Rightarrow> int \<Rightarrow> int \<Rightarrow> (cv_state \<Rightarrow> cv_state) list \<Rightarrow> cv_state \<Rightarrow> (u64 \<times> cv_state) option" where
  "cv_timedwait_hires_common usecs_to_jiffies t m tim res flag now0 now1 now2 es s =
     cv_timedwait_hires usecs_to_jiffies t m (hires_expiry tim res flag now0) now1 now2 es s"

section \<open>Timed calls return\<close>

text \<open>What other threads cannot do: move the thread, or take from it or give to it the mutex.\<close>

definition others_ok :: "nat \<Rightarrow> nat \<Rightarrow> (cv_state \<Rightarrow> cv_state) \<Rightarrow> bool" where
  "others_ok t m e \<longleftrightarrow> (\<forall>s. pc (e s) t = pc s t \<and> (m_owner (e s) m = Some t \<longleftrightarrow> m_owner s m = Some t))"

text \<open>The rounds of a run at whose end another thread has the mutex.\<close>

fun taken :: "nat \<Rightarrow> nat \<Rightarrow> (cv_state \<Rightarrow> cv_state) list \<Rightarrow> cv_state \<Rightarrow> nat" where
  "taken t m [] s = 0"
| "taken t m (e # es) s =
     (if m_owner (e s) m \<in> {None, Some t} then 0 else 1) +
     (case cv_wait_step t (e s) of None \<Rightarrow> taken t m es (e s) | Some s' \<Rightarrow> if pc s' t = Out then 0 else taken t m es s')"

fun left_to_do :: "nat \<Rightarrow> cv_pc \<Rightarrow> nat" where
  "left_to_do m (W_load n e) = (if n = m \<and> e then 12 else 0)"
| "left_to_do m (W_xchg n e) = (if n = m \<and> e then 11 else 0)"
| "left_to_do m (W_prepare n e) = (if n = m \<and> e then 10 else 0)"
| "left_to_do m (W_count n e) = (if n = m \<and> e then 9 else 0)"
| "left_to_do m (W_unlock n e) = (if n = m \<and> e then 8 else 0)"
| "left_to_do m (W_sched n e) = (if n = m \<and> e then 7 else 0)"
| "left_to_do m (W_uncount n) = (if n = m then 6 else 0)"
| "left_to_do m (W_clear n) = (if n = m then 5 else 0)"
| "left_to_do m (W_kick n) = (if n = m then 4 else 0)"
| "left_to_do m (W_finish n) = (if n = m then 3 else 0)"
| "left_to_do m (W_unref n) = (if n = m then 2 else 0)"
| "left_to_do m (W_lock n) = (if n = m then 1 else 0)"
| "left_to_do m _ = 0"

text \<open>A thread in a timed call: it has the mutex up to the step that releases it, and then not.\<close>

definition in_call :: "nat \<Rightarrow> nat \<Rightarrow> cv_state \<Rightarrow> bool" where
  "in_call t m s \<longleftrightarrow> left_to_do m (pc s t) \<noteq> 0 \<and> (m_owner s m = Some t \<longleftrightarrow> 8 \<le> left_to_do m (pc s t))"

lemma call_step:
  assumes "in_call t m s" "cv_wait_step t s = Some s'"
  shows "pc s' t = Out \<and> m_owner s' m = Some t \<or> in_call t m s' \<and> left_to_do m (pc s' t) < left_to_do m (pc s t)"
  using assms unfolding in_call_def cv_wait_step_def
  by (cases "pc s t") (auto simp: goto_def mutex_exit_def mutex_enter_def split: if_splits)

lemma call_blocked:
  assumes "in_call t m s" "cv_wait_step t s = None"
  shows "m_owner s m \<notin> {None, Some t}"
  using assms unfolding in_call_def cv_wait_step_def
  by (cases "pc s t") (auto simp: goto_def mutex_exit_def mutex_enter_def split: if_splits)

lemma call_others: "others_ok t m e \<Longrightarrow> in_call t m s \<Longrightarrow> in_call t m (e s) \<and> pc (e s) t = pc s t"
  by (simp add: others_ok_def in_call_def)

lemma run_returns:
  assumes "\<forall>e \<in> set es. others_ok t m e" "in_call t m s"
    "left_to_do m (pc s t) + taken t m es s \<le> length es"
  shows "\<exists>s'. cv_run t es s = Some s' \<and> pc s' t = Out \<and> m_owner s' m = Some t"
  using assms
proof (induction es arbitrary: s)
  case Nil
  then show ?case by (simp add: in_call_def)
next
  case (Cons e es)
  have i: "in_call t m (e s)" "pc (e s) t = pc s t" using call_others Cons.prems(1,2) by auto
  show ?case
  proof (cases "cv_wait_step t (e s)")
    case None
    then have "m_owner (e s) m \<notin> {None, Some t}" by (rule call_blocked [OF i(1)])
    then show ?thesis using Cons.IH [of "e s"] Cons.prems(1,3) i None by (auto split: if_splits)
  next
    case (Some s')
    from call_step [OF i(1) this] show ?thesis
    proof
      assume "in_call t m s' \<and> left_to_do m (pc s' t) < left_to_do m (pc (e s) t)"
      moreover from this have "pc s' t \<noteq> Out" by (auto simp: in_call_def)
      ultimately show ?thesis using Cons.IH [of s'] Cons.prems(1,3) i Some by simp
    qed (use Some in simp)
  qed
qed

lemma start_in_call: "cv_wait_start t m True s = Some s' \<Longrightarrow> in_call t m s' \<and> left_to_do m (pc s' t) = 12"
  by (auto simp: cv_wait_start_def in_call_def goto_def mutex_owned_def split: if_splits)


definition demo_round :: "cv_state \<Rightarrow> cv_state" where
  "demo_round s = (if m_owner s 7 = None then s\<lparr>m_owner := (m_owner s)(7 := Some 2)\<rparr>
                   else if m_owner s 7 = Some 2 then s\<lparr>m_owner := (m_owner s)(7 := None)\<rparr> else s)"

definition demo_rounds :: "(cv_state \<Rightarrow> cv_state) list" where
  "demo_rounds = [id, id, id, id, id, id, id, id, id, id, demo_round, id, demo_round, id]"

lemma demo_taken: "taken 1 7 demo_rounds ((cv_init (\<lambda>_. Some 1))\<lparr>cv_refs := 2, pc := (\<lambda>_. Out)(1 := W_load 7 True)\<rparr>) = 2"
  by (simp add: demo_rounds_def demo_round_def cv_init_def cv_wait_step_def goto_def mutex_exit_def mutex_enter_def)


end
