(* ===== verification/Spl_Cred.thy ===== *)
theory Spl_Cred
  imports Spl_Prelude
begin

text \<open>
  Credentials, \<^verbatim>\<open>module/spl/spl-cred.c\<close>: the binary search in the supplementary groups and the accessors.  The
  kernel keeps the groups of a credential sorted.  Group ids are 32-bit and unsigned.
\<close>

type_synonym gid = u32
type_synonym uid = u32

record cred =
  cr_uid :: uid
  cr_euid :: uid
  cr_suid :: uid
  cr_fsuid :: uid
  cr_gid :: gid
  cr_egid :: gid
  cr_sgid :: gid
  cr_fsgid :: gid
  group_info :: "gid list option"
  cr_usage :: int

section \<open>Operations\<close>

text \<open>The loop; the difference of two ids is read as a signed \<^verbatim>\<open>int\<close>.  The kernel's limit of 65536 groups keeps the sum of
  two indices far below \<open>2 ^ 32\<close>.\<close>

function groups_loop :: "gid list \<Rightarrow> gid \<Rightarrow> nat \<Rightarrow> nat \<Rightarrow> bool" where
  "groups_loop gs grp left right =
     (if left < right then
        let mid = (left + right) div 2; cmp = sint (grp - gs ! mid)
        in if cmp > 0 then groups_loop gs grp (mid + 1) right
           else if cmp < 0 then groups_loop gs grp left mid
           else True
      else False)"
  by auto
termination by (relation "measure (\<lambda>(gs, grp, left, right). right - left)") auto

declare groups_loop.simps [simp del]

definition cr_groups_search :: "gid list option \<Rightarrow> gid \<Rightarrow> bool" where
  "cr_groups_search gi grp = (case gi of None \<Rightarrow> False | Some gs \<Rightarrow> groups_loop gs grp 0 (length gs))"

definition groupmember :: "gid \<Rightarrow> cred \<Rightarrow> bool" where
  "groupmember g cr = cr_groups_search (group_info cr) g"

definition crhold :: "cred \<Rightarrow> cred" where "crhold cr = cr\<lparr>cr_usage := cr_usage cr + 1\<rparr>"
definition crfree :: "cred \<Rightarrow> cred" where "crfree cr = cr\<lparr>cr_usage := cr_usage cr - 1\<rparr>"

text \<open>Before Linux 4.9 the groups are in blocks and only the first one is visible (\<open>blocks\<close>: its size).\<close>

definition crgetngroups :: "nat option \<Rightarrow> gid list \<Rightarrow> nat" where
  "crgetngroups blocks gs = (case blocks of None \<Rightarrow> length gs | Some n \<Rightarrow> if length gs > n then n else length gs)"

definition crgetgroups :: "nat option \<Rightarrow> gid list \<Rightarrow> gid list option" where
  "crgetgroups blocks gs = (case blocks of None \<Rightarrow> Some gs | Some n \<Rightarrow> if gs = [] then None else Some (take n gs))"

definition crgetuid :: "cred \<Rightarrow> uid" where "crgetuid cr = cr_euid cr"
definition crgetruid :: "cred \<Rightarrow> uid" where "crgetruid cr = cr_uid cr"
definition crgetsuid :: "cred \<Rightarrow> uid" where "crgetsuid cr = cr_suid cr"
definition crgetfsuid :: "cred \<Rightarrow> uid" where "crgetfsuid cr = cr_fsuid cr"
definition crgetgid :: "cred \<Rightarrow> gid" where "crgetgid cr = cr_egid cr"
definition crgetrgid :: "cred \<Rightarrow> gid" where "crgetrgid cr = cr_gid cr"
definition crgetsgid :: "cred \<Rightarrow> gid" where "crgetsgid cr = cr_sgid cr"
definition crgetfsgid :: "cred \<Rightarrow> gid" where "crgetfsgid cr = cr_fsgid cr"

section \<open>The search\<close>

text \<open>Two ids closer than \<open>2 ^ 31\<close> compare as their values do.\<close>

definition near :: "gid \<Rightarrow> gid \<Rightarrow> bool" where
  "near a b \<longleftrightarrow> \<bar>uint a - uint b\<bar> < 2 ^ 31"

lemma sint_diff:
  assumes "near a b"
  shows "sint (a - b) = uint a - uint b"
proof -
  have "- (2 ^ 31) \<le> uint a - uint b" "uint a - uint b < 2 ^ 31" using assms by (auto simp: near_def)
  then have "signed_take_bit 31 (uint a - uint b) = uint a - uint b" by (simp add: signed_take_bit_int_eq_self)
  moreover have s: "sint (word_of_int k :: u32) = signed_take_bit 31 k" for k by transfer simp
  have "sint (a - b) = sint (word_of_int (uint a - uint b) :: u32)" by simp
  ultimately show ?thesis unfolding s by simp
qed

lemma groups_loop_sound: "groups_loop gs g l r \<Longrightarrow> r \<le> length gs \<Longrightarrow> g \<in> set gs"
proof (induction gs g l r rule: groups_loop.induct)
  case (1 gs g l r)
  let ?m = "(l + r) div 2"
  have lr: "l < r" using "1.prems"(1) by (subst (asm) groups_loop.simps) (auto split: if_splits)
  have m: "?m < r" "?m < length gs" using lr "1.prems"(2) by auto
  consider "sint (g - gs ! ?m) > 0" "groups_loop gs g (?m + 1) r" | "\<not> sint (g - gs ! ?m) > 0" "sint (g - gs ! ?m) < 0" "groups_loop gs g l ?m"
    | "sint (g - gs ! ?m) = 0"
    using "1.prems"(1) lr by (subst (asm) groups_loop.simps) (auto simp: Let_def split: if_splits)
  then show ?case
  proof cases
    case 1
    then show ?thesis using "1.IH"(1) [OF lr refl refl] "1.prems"(2) by simp
  next
    case 2
    then show ?thesis using "1.IH"(2) [OF lr refl refl] m by simp
  next
    case 3
    then have "g - gs ! ?m = 0" by (metis signed_0 word_eq_iff_signed)
    then have "g = gs ! ?m" by simp
    then show ?thesis using m(2) by simp
  qed
qed

lemma groups_loop_complete:
  assumes "sorted gs" "\<And>x. x \<in> set gs \<Longrightarrow> near g x" "r \<le> length gs" "l \<le> i" "i < r" "gs ! i = g"
  shows "groups_loop gs g l r"
  using assms
proof (induction gs g l r rule: groups_loop.induct)
  case (1 gs g l r)
  let ?m = "(l + r) div 2"
  have lr: "l < r" using "1.prems"(4,5) by simp
  have m: "?m < length gs" "l \<le> ?m" "?m < r" using lr "1.prems"(3) by auto
  have c: "sint (g - gs ! ?m) = uint g - uint (gs ! ?m)" by (rule sint_diff) (use "1.prems"(2) m in simp)
  have up: "gs ! j \<le> gs ! k" if "j \<le> k" "k < length gs" for j k using "1.prems"(1) that by (rule sorted_nth_mono)
  show ?case
  proof (cases "sint (g - gs ! ?m) > 0")
    case True
    then have "gs ! ?m < g" unfolding c by (simp add: word_less_def)
    then have "?m < i" using up [of i ?m] "1.prems"(6) m(1) by (metis leD not_le_imp_less)
    then have "groups_loop gs g (?m + 1) r" using "1.IH"(1) [OF lr refl refl True] "1.prems" by simp
    then show ?thesis using lr True by (subst groups_loop.simps) (simp add: Let_def)
  next
    case False
    show ?thesis
    proof (cases "sint (g - gs ! ?m) < 0")
      case True
      then have "g < gs ! ?m" unfolding c by (simp add: word_less_def)
      then have "i < ?m" using up [of ?m i] "1.prems"(3,5,6) by (metis leD less_le_trans not_le_imp_less)
      then have "groups_loop gs g l ?m" using "1.IH"(2) [OF lr refl refl False True] "1.prems" m by simp
      then show ?thesis using lr False True by (subst groups_loop.simps) (simp add: Let_def)
    qed (use lr False in \<open>subst groups_loop.simps, simp add: Let_def\<close>)
  qed
qed

section \<open>Properties\<close>

text \<open>C29: \<^verbatim>\<open>groupmember\<close> is membership in the list of supplementary groups: what it finds is always there, and it
  finds every group of a sorted list whose ids are closer than 2^31 to the one searched.\<close>

theorem groupmember_exact:
  assumes "group_info cr = Some gs" "sorted gs" "\<And>x. x \<in> set gs \<Longrightarrow> near g x"
  shows "groupmember g cr \<longleftrightarrow> g \<in> set gs"
proof
  assume "groupmember g cr"
  then show "g \<in> set gs" using assms(1) groups_loop_sound [of gs g 0 "length gs"] by (simp add: groupmember_def cr_groups_search_def)
next
  assume "g \<in> set gs"
  then obtain i where "i < length gs" "gs ! i = g" by (auto simp: in_set_conv_nth)
  then show "groupmember g cr" using assms groups_loop_complete [of gs g "length gs" 0 i] by (simp add: groupmember_def cr_groups_search_def)
qed

definition demo_cred :: cred where
  "demo_cred = \<lparr>cr_uid = 0, cr_euid = 0, cr_suid = 0, cr_fsuid = 0, cr_gid = 0, cr_egid = 0, cr_sgid = 0, cr_fsgid = 0,
     group_info = Some [4, 20, 24, 100], cr_usage = 1\<rparr>"

theorem groupmember_exact_witness: "groupmember 20 demo_cred \<and> \<not> groupmember 21 demo_cred"
proof -
  have "group_info demo_cred = Some [4, 20, 24, 100]" "sorted [4, 20, 24, 100 :: gid]"
    "\<And>x. x \<in> set [4, 20, 24, 100] \<Longrightarrow> near 20 x" "\<And>x. x \<in> set [4, 20, 24, 100] \<Longrightarrow> near 21 x"
    by (auto simp: demo_cred_def near_def)
  then show ?thesis using groupmember_exact [of demo_cred "[4, 20, 24, 100]" 20] groupmember_exact [of demo_cred "[4, 20, 24, 100]" 21] by simp
qed

text \<open>Farther apart the sign of the difference is wrong: group 1 of a sorted list is not found.\<close>

lemma groupmember_misses: "\<not> groupmember 1 (demo_cred\<lparr>group_info := Some [1, 0xC0000000]\<rparr>)" "sorted [1, 0xC0000000 :: gid]"
proof -
  have "\<not> groups_loop [1, 0xC0000000] 1 0 2" by (subst groups_loop.simps, simp add: Let_def, subst groups_loop.simps, simp)
  then show "\<not> groupmember 1 (demo_cred\<lparr>group_info := Some [1, 0xC0000000]\<rparr>)"
    by (simp add: groupmember_def cr_groups_search_def numeral_2_eq_2)
  show "sorted [1, 0xC0000000 :: gid]" by simp
qed

lemma crhold_crfree: "crfree (crhold cr) = cr"
  by (simp add: crhold_def crfree_def)

section \<open>Domains of security ids\<close>

text \<open>\<^verbatim>\<open>include/spl/sys/sid.h\<close>: a domain is its name, in memory of its own.  The memory is a map from addresses to sizes; freeing checks that the
  size is the one allocated, as the debug build of the allocator does.\<close>

record ksiddomain =
  kd_name :: addr

record sid_memory =
  blocks :: "addr \<rightharpoonup> nat"
  names :: "addr \<Rightarrow> string"

definition sid_free :: "addr \<Rightarrow> nat \<Rightarrow> sid_memory \<Rightarrow> sid_memory option" where
  "sid_free a n m = (if blocks m a = Some n then Some (m\<lparr>blocks := (blocks m)(a := None)\<rparr>) else None)"

text \<open>\<open>kd\<close> and \<open>nm\<close> are the two addresses the allocator gives, \<open>sz\<close> is the size of the structure; \<^verbatim>\<open>strlen\<close> stops at the first zero byte.\<close>

definition strlen :: "string \<Rightarrow> nat" where
  "strlen s = length (takeWhile (\<lambda>c. c \<noteq> CHR 0x00) s)"

definition ksid_lookupdomain :: "nat \<Rightarrow> addr \<Rightarrow> addr \<Rightarrow> string \<Rightarrow> sid_memory \<Rightarrow> ksiddomain \<times> sid_memory" where
  "ksid_lookupdomain sz kd nm domain m =
     (let len = strlen domain
      in (\<lparr>kd_name = nm\<rparr>, m\<lparr>blocks := (blocks m)(kd \<mapsto> sz, nm \<mapsto> len + 1), names := (names m)(nm := take len domain @ [CHR 0x00])\<rparr>))"

definition ksiddomain_rele :: "nat \<Rightarrow> addr \<Rightarrow> ksiddomain \<Rightarrow> sid_memory \<Rightarrow> sid_memory option" where
  "ksiddomain_rele sz kd ksid m = Option.bind (sid_free (kd_name ksid) (strlen (names m (kd_name ksid)) + 1) m) (sid_free kd sz)"

text \<open>Releasing a domain frees both blocks with the sizes they have, and nothing else.\<close>

theorem ksid_balanced:
  assumes "ksid_lookupdomain sz kd nm domain m = (k, m1)" "blocks m kd = None" "blocks m nm = None" "kd \<noteq> nm"
  shows "\<exists>m2. ksiddomain_rele sz kd k m1 = Some m2 \<and> blocks m2 = blocks m \<and> names m1 nm = takeWhile (\<lambda>c. c \<noteq> CHR 0x00) domain @ [CHR 0x00]"
proof -
  have t: "take (strlen domain) domain = takeWhile (\<lambda>c. c \<noteq> CHR 0x00) domain" unfolding strlen_def by (rule takeWhile_eq_take [symmetric])
  have "takeWhile (\<lambda>c. c \<noteq> CHR 0x00) (takeWhile (\<lambda>c. c \<noteq> CHR 0x00) domain @ [CHR 0x00]) = takeWhile (\<lambda>c. c \<noteq> CHR 0x00) domain"
    by (subst takeWhile_append2) (auto dest: set_takeWhileD)
  then have l: "strlen (takeWhile (\<lambda>c. c \<noteq> CHR 0x00) domain @ [CHR 0x00]) = strlen domain" by (simp add: strlen_def)
  show ?thesis using assms t l by (auto simp: ksid_lookupdomain_def ksiddomain_rele_def sid_free_def Let_def fun_eq_iff)
qed

end
