(* ===== verification/Spl_Kstat.thy ===== *)
theory Spl_Kstat
  imports Spl_Prelude
begin

text \<open>
  Kernel statistics, \<^verbatim>\<open>module/spl/spl-kstat.c\<close> and \<^verbatim>\<open>include/spl/sys/kstat.h\<close>: the queue accounting of I/O
  statistics, the records of a statistic as its proc file shows them, and the registry of modules and statistics.
  Structure sizes are those of a 64-bit machine.
\<close>

section \<open>Constants\<close>

definition KSTAT_STRLEN :: nat where "KSTAT_STRLEN = 255"
definition KSTAT_RAW_MAX :: u64 where "KSTAT_RAW_MAX = 128 * 1024"
definition KSTAT_TYPE_RAW :: u8 where "KSTAT_TYPE_RAW = 0"
definition KSTAT_TYPE_NAMED :: u8 where "KSTAT_TYPE_NAMED = 1"
definition KSTAT_TYPE_INTR :: u8 where "KSTAT_TYPE_INTR = 2"
definition KSTAT_TYPE_IO :: u8 where "KSTAT_TYPE_IO = 3"
definition KSTAT_TYPE_TIMER :: u8 where "KSTAT_TYPE_TIMER = 4"
definition KSTAT_FLAG_VIRTUAL :: u8 where "KSTAT_FLAG_VIRTUAL = 0x01"
definition KS_MAGIC :: u32 where "KS_MAGIC = 0x9d9d9d9d"

lemmas ks_type_defs = KSTAT_TYPE_RAW_def KSTAT_TYPE_NAMED_def KSTAT_TYPE_INTR_def KSTAT_TYPE_IO_def KSTAT_TYPE_TIMER_def

datatype kstat_rw = KSTAT_READ | KSTAT_WRITE

section \<open>Queue accounting\<close>

text \<open>\<^verbatim>\<open>hrtime_t\<close> is a signed 64-bit number of nanoseconds; sums and products are the same on unsigned words.\<close>

record kstat_io =
  nread :: u64
  nwritten :: u64
  reads :: u32
  writes :: u32
  wtime :: u64
  wlentime :: u64
  wlastupdate :: u64
  rtime :: u64
  rlentime :: u64
  rlastupdate :: u64
  wcnt :: u32
  rcnt :: u32

definition kstat_waitq_enter :: "u64 \<Rightarrow> kstat_io \<Rightarrow> kstat_io" where
  "kstat_waitq_enter new kiop =
     (let delta = new - wlastupdate kiop; cnt = wcnt kiop;
          k = kiop\<lparr>wlastupdate := new, wcnt := cnt + 1\<rparr>
      in if cnt \<noteq> 0 then k\<lparr>wlentime := wlentime k + delta * ucast cnt, wtime := wtime k + delta\<rparr> else k)"

definition kstat_waitq_exit :: "u64 \<Rightarrow> kstat_io \<Rightarrow> kstat_io" where
  "kstat_waitq_exit new kiop =
     (let delta = new - wlastupdate kiop; cnt = wcnt kiop
      in kiop\<lparr>wlastupdate := new, wcnt := cnt - 1, wlentime := wlentime kiop + delta * ucast cnt,
              wtime := wtime kiop + delta\<rparr>)"

definition kstat_runq_enter :: "u64 \<Rightarrow> kstat_io \<Rightarrow> kstat_io" where
  "kstat_runq_enter new kiop =
     (let delta = new - rlastupdate kiop; cnt = rcnt kiop;
          k = kiop\<lparr>rlastupdate := new, rcnt := cnt + 1\<rparr>
      in if cnt \<noteq> 0 then k\<lparr>rlentime := rlentime k + delta * ucast cnt, rtime := rtime k + delta\<rparr> else k)"

definition kstat_runq_exit :: "u64 \<Rightarrow> kstat_io \<Rightarrow> kstat_io" where
  "kstat_runq_exit new kiop =
     (let delta = new - rlastupdate kiop; cnt = rcnt kiop
      in kiop\<lparr>rlastupdate := new, rcnt := cnt - 1, rlentime := rlentime kiop + delta * ucast cnt,
              rtime := rtime kiop + delta\<rparr>)"

section \<open>A statistic\<close>

text \<open>
  The callbacks of the client: the raw operations fill a buffer of the given size with a text or fail, the update
  is either the default or the client's (\<open>upd\<close> below).  \<open>None\<close> in \<open>ks_proc\<close> and \<open>ks_owner\<close> is the null pointer.
\<close>

datatype kstat_update = Default_update | Client_update

record kstat =
  ks_magic :: u32
  ks_kid :: u32
  ks_crtime :: u64
  ks_snaptime :: u64
  ks_module :: string
  ks_instance :: int
  ks_name :: string
  ks_class :: string
  ks_type :: u8
  ks_flags :: u8
  ks_data :: addr
  ks_ndata :: u32
  ks_data_size :: u64
  ks_proc :: "addr option"
  ks_update :: kstat_update
  ks_owner :: "addr option"
  raw_headers :: "(u64 \<Rightarrow> errno + string) option"
  raw_data :: "(u64 \<Rightarrow> addr \<Rightarrow> errno + string) option"
  raw_addr :: "(nat \<Rightarrow> addr) option"
  ks_raw_bufsize :: u64

section \<open>Showing a statistic\<close>

text \<open>What the \<^verbatim>\<open>seq_file\<close> receives: a format with its arguments; \<^verbatim>\<open>seq_puts\<close> is the format \<open>%s\<close>.\<close>

datatype farg = Num int | Str string
type_synonym seq_out = "(string \<times> farg list) list"

text \<open>Freeing and allocating the buffer of raw operations; the log pairs each size with whether it is an allocation.\<close>

type_synonym raw_log = "(bool \<times> u64) list"

definition kstat_resize_raw :: "kstat \<Rightarrow> raw_log \<Rightarrow> errno option \<times> kstat \<times> raw_log" where
  "kstat_resize_raw ksp lg =
     (if ks_raw_bufsize ksp = KSTAT_RAW_MAX then (Some ENOMEM, ksp, lg)
      else let n = min (ks_raw_bufsize ksp * 2) KSTAT_RAW_MAX
           in (None, ksp\<lparr>ks_raw_bufsize := n\<rparr>, lg @ [(False, ks_raw_bufsize ksp), (True, n)]))"

text \<open>The two \<^verbatim>\<open>restart\<close> loops: the operation is called again with a larger buffer while it reports that there is
  no room and the buffer can grow.  An empty buffer would never grow, so the loop is partial.\<close>

partial_function (option) raw_loop ::
  "(u64 \<Rightarrow> errno + string) \<Rightarrow> kstat \<Rightarrow> raw_log \<Rightarrow> ((errno + string) \<times> kstat \<times> raw_log) option" where
  "raw_loop cb ksp lg =
     (let r = cb (ks_raw_bufsize ksp)
      in if r = Inl ENOMEM then
           case kstat_resize_raw ksp lg of
             (None, ksp', lg') \<Rightarrow> raw_loop cb ksp' lg'
           | (Some _, ksp', lg') \<Rightarrow> Some (r, ksp', lg')
         else Some (r, ksp, lg))"

definition puts_raw :: "errno + string \<Rightarrow> seq_out" where
  "puts_raw r = (case r of Inl _ \<Rightarrow> [] | Inr s \<Rightarrow> [(''%s'', [Str s])])"

definition rc_raw :: "errno + string \<Rightarrow> errno option" where
  "rc_raw r = (case r of Inl e \<Rightarrow> Some e | Inr _ \<Rightarrow> None)"

text \<open>\<open>None\<close>: the function panics, or does not return.  A newline in a format is the character \<open>NL\<close>.\<close>

definition NL :: string where "NL = [CHR 0x0A]"

definition kstat_seq_show_headers :: "kstat \<Rightarrow> raw_log \<Rightarrow> (errno option \<times> seq_out \<times> kstat \<times> raw_log) option" where
  "kstat_seq_show_headers ksp lg =
     (let h = (''%d %d 0x%02x %d %d %lld %lld'' @ NL,
               [Num (sint (ks_kid ksp)), Num (uint (ks_type ksp)), Num (uint (ks_flags ksp)), Num (sint (ks_ndata ksp)),
                Num (sint (ucast (ks_data_size ksp) :: u32)), Num (sint (ks_crtime ksp)), Num (sint (ks_snaptime ksp))])
      in if ks_type ksp = KSTAT_TYPE_RAW then
           case raw_headers ksp of
             Some cb \<Rightarrow> map_option (\<lambda>(r, ksp', lg'). (rc_raw r, h # puts_raw r, ksp', lg')) (raw_loop cb ksp lg)
           | None \<Rightarrow> Some (None, [h, (''raw data'' @ NL, [])], ksp, lg)
         else if ks_type ksp = KSTAT_TYPE_NAMED then
           Some (None, [h, (''%-31s %-4s %s'' @ NL, map Str [''name'', ''type'', ''data''])], ksp, lg)
         else if ks_type ksp = KSTAT_TYPE_INTR then
           Some (None, [h, (''%-8s %-8s %-8s %-8s %-8s'' @ NL,
             map Str [''hard'', ''soft'', ''watchdog'', ''spurious'', ''multsvc''])], ksp, lg)
         else if ks_type ksp = KSTAT_TYPE_IO then
           Some (None, [h, (''%-8s %-8s %-8s %-8s %-8s %-8s %-8s %-8s %-8s %-8s %-8s %-8s'' @ NL,
             map Str [''nread'', ''nwritten'', ''reads'', ''writes'', ''wtime'', ''wlentime'', ''wupdate'',
               ''rtime'', ''rlentime'', ''rupdate'', ''wcnt'', ''rcnt''])], ksp, lg)
         else if ks_type ksp = KSTAT_TYPE_TIMER then
           Some (None, [h, (''%-31s %-8s %-8s %-8s %-8s %-8s %-8s'' @ NL,
             map Str [''name'', ''events'', ''elapsed'', ''min'', ''max'', ''start'', ''stop''])], ksp, lg)
         else None)"

text \<open>The dump of raw data \<open>p\<close> of length \<open>l\<close>, the inner loop first; it says whether the outer loop is left.\<close>

function raw_line :: "(nat \<Rightarrow> u8) \<Rightarrow> int \<Rightarrow> nat \<Rightarrow> nat \<Rightarrow> seq_out \<Rightarrow> bool \<times> seq_out" where
  "raw_line p l i j out =
     (if j < 16 then
        if int (i * 16 + j) \<ge> l then (True, out @ [(NL, [])])
        else raw_line p l i (j + 1) (out @ [('' %02x'', [Num (uint (p (i * 16 + j)))])])
      else (False, out @ [(NL, [])]))"
  by auto
termination by (relation "measure (\<lambda>(p, l, i, j, out). 16 - j)") auto

declare raw_line.simps [simp del]

lemma raw_line_left: "\<not> fst (raw_line p l i j out) \<Longrightarrow> j < 16 \<Longrightarrow> int (i * 16 + 15) < l"
proof (induction p l i j out rule: raw_line.induct)
  case (1 p l i j out)
  have c: "\<not> l \<le> int (i * 16 + j)" "\<not> fst (raw_line p l i (j + 1) (out @ [('' %02x'', [Num (uint (p (i * 16 + j)))])]))"
    using "1.prems" by (simp_all add: raw_line.simps [of p l i j out] split: if_splits)
  show ?case
  proof (cases "j = 15")
    case True
    then show ?thesis using c(1) by simp
  next
    case False
    then show ?thesis using "1.IH" [OF "1.prems"(2) c] "1.prems"(2) by simp
  qed
qed

function raw_lines :: "(nat \<Rightarrow> u8) \<Rightarrow> int \<Rightarrow> nat \<Rightarrow> seq_out \<Rightarrow> seq_out" where
  "raw_lines p l i out =
     (case raw_line p l i 0 (out @ [(''%03x:'', [Num (int i)])]) of
        (True, out') \<Rightarrow> out'
      | (False, out') \<Rightarrow> raw_lines p l (i + 1) out')"
  by auto
termination
proof (relation "measure (\<lambda>(p, l, i, out). nat (l - int (i * 16)))", goal_cases)
  case (2 p l i out b out')
  then have "\<not> fst (raw_line p l i 0 (out @ [(''%03x:'', [Num (int i)])]))" by (metis fst_conv)
  from raw_line_left [OF this] show ?case by simp
qed simp

declare raw_lines.simps [simp del]

definition kstat_seq_show_raw :: "(nat \<Rightarrow> u8) \<Rightarrow> u32 \<Rightarrow> seq_out" where
  "kstat_seq_show_raw p l = raw_lines p (sint l) 0 []"

section \<open>Named, interrupt, I/O and timer records\<close>

definition KSTAT_DATA_CHAR :: u8 where "KSTAT_DATA_CHAR = 0"
definition KSTAT_DATA_INT32 :: u8 where "KSTAT_DATA_INT32 = 1"
definition KSTAT_DATA_UINT32 :: u8 where "KSTAT_DATA_UINT32 = 2"
definition KSTAT_DATA_INT64 :: u8 where "KSTAT_DATA_INT64 = 3"
definition KSTAT_DATA_UINT64 :: u8 where "KSTAT_DATA_UINT64 = 4"
definition KSTAT_DATA_LONG :: u8 where "KSTAT_DATA_LONG = 5"
definition KSTAT_DATA_ULONG :: u8 where "KSTAT_DATA_ULONG = 6"
definition KSTAT_DATA_STRING :: u8 where "KSTAT_DATA_STRING = 7"

lemmas ks_data_defs = KSTAT_DATA_CHAR_def KSTAT_DATA_INT32_def KSTAT_DATA_UINT32_def KSTAT_DATA_INT64_def
  KSTAT_DATA_UINT64_def KSTAT_DATA_LONG_def KSTAT_DATA_ULONG_def KSTAT_DATA_STRING_def

text \<open>The value of a named record is a union of 16 bytes, read in little endian order.\<close>

record kstat_named =
  kn_name :: string
  data_type :: u8
  kn_value :: "u8 list"

record kstat_intr =
  intr_hard :: u32
  intr_soft :: u32
  intr_watchdog :: u32
  intr_spurious :: u32
  intr_multsvc :: u32

record kstat_timer =
  kt_name :: string
  num_events :: u64
  elapsed_time :: u64
  min_time :: u64
  max_time :: u64
  start_time :: u64
  stop_time :: u64

definition le_nat :: "u8 list \<Rightarrow> nat" where
  "le_nat bs = foldr (\<lambda>b n. unat b + 256 * n) bs 0"

definition v_u32 :: "u8 list \<Rightarrow> u32" where "v_u32 v = of_nat (le_nat (take 4 v))"
definition v_u64 :: "u8 list \<Rightarrow> u64" where "v_u64 v = of_nat (le_nat (take 8 v))"

definition KSTAT_NAMED_STR_PTR :: "kstat_named \<Rightarrow> addr" where
  "KSTAT_NAMED_STR_PTR knp = unat (v_u64 (kn_value knp))"

definition KSTAT_NAMED_STR_BUFLEN :: "kstat_named \<Rightarrow> u32" where
  "KSTAT_NAMED_STR_BUFLEN knp = v_u32 (drop 8 (kn_value knp))"

definition cstring :: "u8 list \<Rightarrow> string" where
  "cstring bs = map (\<lambda>b. char_of (unat b)) (takeWhile (\<lambda>b. b \<noteq> 0) bs)"

text \<open>The string is ended by a zero byte in its last place first; its length is unsigned.\<close>

definition kstat_seq_show_named :: "(addr \<Rightarrow> u8) \<Rightarrow> kstat_named \<Rightarrow> (seq_out \<times> (addr \<Rightarrow> u8) \<times> kstat_named) option" where
  "kstat_seq_show_named mem knp =
     (let h = (''%-31s %-4d '', [Str (kn_name knp), Num (uint (data_type knp))]);
          v = kn_value knp;
          show = (\<lambda>fmt a. Some ([h, (fmt, [a]), (NL, [])], mem, knp))
      in if data_type knp = KSTAT_DATA_CHAR then
           let v' = v[15 := 0] in Some ([h, (''%-16s'', [Str (cstring v')]), (NL, [])], mem, knp\<lparr>kn_value := v'\<rparr>)
         else if data_type knp = KSTAT_DATA_INT32 then show ''%d'' (Num (sint (v_u32 v)))
         else if data_type knp = KSTAT_DATA_UINT32 then show ''%u'' (Num (uint (v_u32 v)))
         else if data_type knp = KSTAT_DATA_INT64 then show ''%lld'' (Num (sint (v_u64 v)))
         else if data_type knp = KSTAT_DATA_UINT64 then show ''%llu'' (Num (uint (v_u64 v)))
         else if data_type knp = KSTAT_DATA_LONG then show ''%ld'' (Num (sint (v_u64 v)))
         else if data_type knp = KSTAT_DATA_ULONG then show ''%lu'' (Num (uint (v_u64 v)))
         else if data_type knp = KSTAT_DATA_STRING then
           let p = KSTAT_NAMED_STR_PTR knp; last = unat (KSTAT_NAMED_STR_BUFLEN knp - 1); mem' = mem(p + last := 0)
           in Some ([h, (''%s'', [Str (cstring (map (\<lambda>i. mem' (p + i)) [0..<last + 1]))]), (NL, [])], mem', knp)
         else None)"

definition kstat_seq_show_intr :: "kstat_intr \<Rightarrow> seq_out" where
  "kstat_seq_show_intr kip = [(''%-8u %-8u %-8u %-8u %-8u'' @ NL,
     map (\<lambda>f. Num (uint (f kip))) [intr_hard, intr_soft, intr_watchdog, intr_spurious, intr_multsvc])]"

definition kstat_seq_show_io :: "kstat_io \<Rightarrow> seq_out" where
  "kstat_seq_show_io kip = [(''%-8llu %-8llu %-8u %-8u %-8lld %-8lld %-8lld %-8lld %-8lld %-8lld %-8u %-8u'' @ NL,
     map Num [uint (nread kip), uint (nwritten kip), uint (reads kip), uint (writes kip),
       sint (wtime kip), sint (wlentime kip), sint (wlastupdate kip), sint (rtime kip), sint (rlentime kip),
       sint (rlastupdate kip), uint (wcnt kip), uint (rcnt kip)])]"

definition kstat_seq_show_timer :: "kstat_timer \<Rightarrow> seq_out" where
  "kstat_seq_show_timer ktp = [(''%-31s %-8llu %-8lld %-8lld %-8lld %-8lld %-8lld'' @ NL,
     Str (kt_name ktp) # Num (uint (num_events ktp)) #
     map (\<lambda>f. Num (sint (f ktp))) [elapsed_time, min_time, max_time, start_time, stop_time])]"

text \<open>The memory a statistic points to, read at the type of its records.\<close>

record kstat_view =
  bytes_at :: "addr \<Rightarrow> u8"
  named_at :: "addr \<Rightarrow> kstat_named"
  intr_at :: "addr \<Rightarrow> kstat_intr"
  io_at :: "addr \<Rightarrow> kstat_io"
  timer_at :: "addr \<Rightarrow> kstat_timer"

definition kstat_seq_show ::
  "kstat \<Rightarrow> addr \<Rightarrow> kstat_view \<Rightarrow> raw_log \<Rightarrow> (errno option \<times> seq_out \<times> kstat \<times> kstat_view \<times> raw_log) option" where
  "kstat_seq_show ksp p v lg =
     (if ks_type ksp = KSTAT_TYPE_RAW then
        case raw_data ksp of
          Some cb \<Rightarrow> map_option (\<lambda>(r, ksp', lg'). (rc_raw r, puts_raw r, ksp', v, lg')) (raw_loop (\<lambda>n. cb n p) ksp lg)
        | None \<Rightarrow> Some (None, kstat_seq_show_raw (\<lambda>k. bytes_at v (ks_data ksp + k)) (ucast (ks_data_size ksp)), ksp, v, lg)
      else if ks_type ksp = KSTAT_TYPE_NAMED then
        map_option (\<lambda>(out, mem, knp). (None, out, ksp, v\<lparr>bytes_at := mem, named_at := (named_at v)(p := knp)\<rparr>, lg))
          (kstat_seq_show_named (bytes_at v) (named_at v p))
      else if ks_type ksp = KSTAT_TYPE_INTR then Some (None, kstat_seq_show_intr (intr_at v p), ksp, v, lg)
      else if ks_type ksp = KSTAT_TYPE_IO then Some (None, kstat_seq_show_io (io_at v p), ksp, v, lg)
      else if ks_type ksp = KSTAT_TYPE_TIMER then Some (None, kstat_seq_show_timer (timer_at v p), ksp, v, lg)
      else None)"

section \<open>The records of a statistic\<close>

definition kstat_default_update :: "kstat_rw \<Rightarrow> errno option" where
  "kstat_default_update rw = (if rw = KSTAT_WRITE then Some EACCES else None)"

definition kstat_do_update :: "(kstat \<Rightarrow> kstat_rw \<Rightarrow> errno option \<times> kstat) \<Rightarrow> kstat \<Rightarrow> kstat_rw \<Rightarrow> errno option \<times> kstat" where
  "kstat_do_update upd ksp rw =
     (case ks_update ksp of Default_update \<Rightarrow> (kstat_default_update rw, ksp) | Client_update \<Rightarrow> upd ksp rw)"

definition sizeof_named :: nat where "sizeof_named = 272"
definition sizeof_intr :: nat where "sizeof_intr = 20"
definition sizeof_io :: nat where "sizeof_io = 80"
definition sizeof_timer :: nat where "sizeof_timer = 304"

lemmas sizeof_defs = sizeof_named_def sizeof_intr_def sizeof_io_def sizeof_timer_def

definition kstat_seq_data_addr :: "kstat \<Rightarrow> nat \<Rightarrow> addr option" where
  "kstat_seq_data_addr ksp n =
     (if ks_type ksp = KSTAT_TYPE_RAW then Some (case raw_addr ksp of Some f \<Rightarrow> f n | None \<Rightarrow> ks_data ksp)
      else if ks_type ksp = KSTAT_TYPE_NAMED then Some (ks_data ksp + n * sizeof_named)
      else if ks_type ksp = KSTAT_TYPE_INTR then Some (ks_data ksp + n * sizeof_intr)
      else if ks_type ksp = KSTAT_TYPE_IO then Some (ks_data ksp + n * sizeof_io)
      else if ks_type ksp = KSTAT_TYPE_TIMER then Some (ks_data ksp + n * sizeof_timer)
      else None)"

text \<open>The result of the positioning functions: \<open>None\<close> a panic, \<open>Some None\<close> the null pointer.\<close>

definition at_index :: "kstat \<Rightarrow> nat \<Rightarrow> addr option option" where
  "at_index ksp n = (if n \<ge> unat (ks_ndata ksp) then Some None else map_option Some (kstat_seq_data_addr ksp n))"

definition kstat_seq_start ::
  "(kstat \<Rightarrow> kstat_rw \<Rightarrow> errno option \<times> kstat) \<Rightarrow> u64 \<Rightarrow> u64 \<Rightarrow> nat \<Rightarrow> kstat \<Rightarrow> raw_log \<Rightarrow>
     (addr option \<times> seq_out \<times> kstat \<times> raw_log) option" where
  "kstat_seq_start upd PAGE_SIZE now n ksp lg =
     (let (ksp1, lg1) = (if ks_type ksp = KSTAT_TYPE_RAW then (ksp\<lparr>ks_raw_bufsize := PAGE_SIZE\<rparr>, lg @ [(True, PAGE_SIZE)]) else (ksp, lg));
          ksp2 = (snd (kstat_do_update upd ksp1 KSTAT_READ))\<lparr>ks_snaptime := now\<rparr>
      in case (if n = 0 then kstat_seq_show_headers ksp2 lg1 else Some (None, [], ksp2, lg1)) of
           None \<Rightarrow> None
         | Some (Some _, out, ksp3, lg3) \<Rightarrow> Some (None, out, ksp3, lg3)
         | Some (None, out, ksp3, lg3) \<Rightarrow> map_option (\<lambda>p. (p, out, ksp3, lg3)) (at_index ksp3 n))"

definition kstat_seq_next :: "kstat \<Rightarrow> nat \<Rightarrow> nat \<times> addr option option" where
  "kstat_seq_next ksp pos = (pos + 1, at_index ksp (pos + 1))"

definition kstat_seq_stop :: "kstat \<Rightarrow> raw_log \<Rightarrow> raw_log" where
  "kstat_seq_stop ksp lg = (if ks_type ksp = KSTAT_TYPE_RAW then lg @ [(False, ks_raw_bufsize ksp)] else lg)"

definition proc_kstat_write ::
  "(kstat \<Rightarrow> kstat_rw \<Rightarrow> errno option \<times> kstat) \<Rightarrow> nat \<Rightarrow> nat \<Rightarrow> kstat \<Rightarrow> (errno + nat) \<times> nat \<times> kstat" where
  "proc_kstat_write upd len pos ksp =
     (case kstat_do_update upd ksp KSTAT_WRITE of
        (Some e, ksp') \<Rightarrow> (Inl e, pos, ksp')
      | (None, ksp') \<Rightarrow> (Inr len, pos + len, ksp'))"

text \<open>The records that the rest of a sequential read shows, from record \<open>p\<close> at \<open>pos\<close> until the null pointer.\<close>

function kstat_read_rest ::
  "kstat \<Rightarrow> addr \<Rightarrow> nat \<Rightarrow> addr list option" where
  "kstat_read_rest ksp p pos =
     (case kstat_seq_next ksp pos of
        (pos', Some (Some q)) \<Rightarrow> map_option ((#) p) (kstat_read_rest ksp q pos')
      | (_, Some None) \<Rightarrow> Some [p]
      | (_, None) \<Rightarrow> None)"
  by pat_completeness auto
termination
  by (relation "measure (\<lambda>(ksp, p, pos). unat (ks_ndata ksp) - pos)")
    (auto simp: kstat_seq_next_def at_index_def split: if_splits)

declare kstat_read_rest.simps [simp del]

text \<open>The records a whole read of the file shows, from the first position on.\<close>

definition kstat_read_all :: "kstat \<Rightarrow> addr list option" where
  "kstat_read_all ksp =
     (case at_index ksp 0 of None \<Rightarrow> None | Some None \<Rightarrow> Some [] | Some (Some p) \<Rightarrow> kstat_read_rest ksp p 0)"

section \<open>The registry\<close>

text \<open>
  The modules and the statistics are heap objects; the lists of \<^verbatim>\<open>list_head\<close>s are lists of addresses (see
  \<^verbatim>\<open>Linux_List\<close> for the pointers).  An access to a freed module gives \<open>None\<close>.  The proc file system is a
  parameter: whether an entry can be made.
\<close>

record kstat_module =
  ksm_name :: string
  ksm_kstat_list :: "addr list"
  ksm_proc :: addr

record kstat_sys =
  kstat_module_list :: "addr list"
  modules :: "addr \<rightharpoonup> kstat_module"
  kstats :: "addr \<rightharpoonup> kstat"
  kstat_id :: u32

definition spl_kstat_init :: kstat_sys where
  "spl_kstat_init = \<lparr>kstat_module_list = [], modules = Map.empty, kstats = Map.empty, kstat_id = 0\<rparr>"

text \<open>The assertion at unloading.\<close>

definition spl_kstat_fini :: "kstat_sys \<Rightarrow> bool" where
  "spl_kstat_fini s \<longleftrightarrow> kstat_module_list s = []"

definition strneq :: "string \<Rightarrow> string \<Rightarrow> bool" where
  "strneq a b \<longleftrightarrow> take KSTAT_STRLEN a = take KSTAT_STRLEN b"

definition name_of :: "kstat_sys \<Rightarrow> addr \<Rightarrow> string" where
  "name_of s m = (case modules s m of Some M \<Rightarrow> ksm_name M | None \<Rightarrow> [])"

definition kstat_find_module :: "string \<Rightarrow> kstat_sys \<Rightarrow> addr option" where
  "kstat_find_module name s = List.find (\<lambda>m. strneq name (name_of s m)) (kstat_module_list s)"

definition kstat_create_module :: "addr option \<Rightarrow> addr \<Rightarrow> string \<Rightarrow> kstat_sys \<Rightarrow> addr option \<times> kstat_sys" where
  "kstat_create_module pde a name s =
     (case pde of
        None \<Rightarrow> (None, s)
      | Some pd \<Rightarrow> (Some a, s\<lparr>modules := (modules s)(a \<mapsto> \<lparr>ksm_name = take KSTAT_STRLEN name, ksm_kstat_list = [], ksm_proc = pd\<rparr>),
                          kstat_module_list := kstat_module_list s @ [a]\<rparr>))"

definition kstat_delete_module :: "addr \<Rightarrow> kstat_sys \<Rightarrow> kstat_sys option" where
  "kstat_delete_module a s =
     (case modules s a of
        None \<Rightarrow> None
      | Some M \<Rightarrow> Some (s\<lparr>kstat_module_list := removeAll a (kstat_module_list s), modules := (modules s)(a := None)\<rparr>))"

definition upd_kstat :: "addr \<Rightarrow> (kstat \<Rightarrow> kstat) \<Rightarrow> kstat_sys \<Rightarrow> kstat_sys" where
  "upd_kstat k f s = s\<lparr>kstats := (kstats s)(k := map_option f (kstats s k))\<rparr>"

definition upd_list :: "addr \<Rightarrow> (addr list \<Rightarrow> addr list) \<Rightarrow> kstat_sys \<Rightarrow> kstat_sys" where
  "upd_list m f s = s\<lparr>modules := (modules s)(m := map_option (\<lambda>M. M\<lparr>ksm_kstat_list := f (ksm_kstat_list M)\<rparr>) (modules s m))\<rparr>"

definition list_of :: "kstat_sys \<Rightarrow> addr \<Rightarrow> addr list" where
  "list_of s m = (case modules s m of Some M \<Rightarrow> ksm_kstat_list M | None \<Rightarrow> [])"

definition kname_of :: "kstat_sys \<Rightarrow> addr \<Rightarrow> string" where
  "kname_of s k = (case kstats s k of Some K \<Rightarrow> ks_name K | None \<Rightarrow> [])"

text \<open>The position of the last slash; the collision of a new directory \<open>a/b\<close> with the statistic \<open>b\<close> of module \<open>a\<close>.\<close>

fun strrchr :: "char \<Rightarrow> string \<Rightarrow> nat option" where
  "strrchr c [] = None"
| "strrchr c (x # xs) = (case strrchr c xs of Some i \<Rightarrow> Some (i + 1) | None \<Rightarrow> if x = c then Some 0 else None)"

definition kstat_detect_collision :: "kstat \<Rightarrow> kstat_sys \<Rightarrow> errno option" where
  "kstat_detect_collision ksp s =
     (case strrchr CHR ''/'' (ks_module ksp) of
        None \<Rightarrow> None
      | Some i \<Rightarrow>
          (case kstat_find_module (take i (ks_module ksp)) s of
             None \<Rightarrow> None
           | Some m \<Rightarrow> if \<exists>k \<in> set (list_of s m). strneq (kname_of s k) (drop (i + 1) (ks_module ksp)) then Some EEXIST else None))"

text \<open>\<open>mk\<close>: the entry of the directory of a new module, \<open>pe\<close>: the entry of the statistic, \<open>a\<close>: the memory of a new module.\<close>

definition kstat_link :: "addr option \<Rightarrow> addr \<Rightarrow> addr \<Rightarrow> kstat \<Rightarrow> kstat_sys \<Rightarrow> kstat_sys option" where
  "kstat_link pe m k ksp s =
     (if \<exists>j \<in> set (list_of s m). strneq (kname_of s j) (ks_name ksp) then Some s
      else let s1 = upd_kstat k (\<lambda>K. K\<lparr>ks_owner := Some m, ks_proc := pe\<rparr>) (upd_list m (\<lambda>l. l @ [k]) s)
           in if pe = None then
                let s2 = upd_list m (removeAll k) s1
                in if list_of s2 m = [] then kstat_delete_module m s2 else Some s2
              else Some s1)"

definition kstat_install :: "addr option \<Rightarrow> addr option \<Rightarrow> addr \<Rightarrow> addr \<Rightarrow> kstat_sys \<Rightarrow> kstat_sys option" where
  "kstat_install mk pe a k s =
     (case kstats s k of
        None \<Rightarrow> None
      | Some ksp \<Rightarrow>
          (case kstat_find_module (ks_module ksp) s of
             Some m \<Rightarrow> kstat_link pe m k ksp s
           | None \<Rightarrow>
               if kstat_detect_collision ksp s \<noteq> None then Some s
               else (case kstat_create_module mk a (ks_module ksp) s of
                       (None, s1) \<Rightarrow> Some s1
                     | (Some m, s1) \<Rightarrow> kstat_link pe m k ksp s1)))"

text \<open>
  Deleting: the part under the lock, which unlinks the statistic from the list it is on, and the part after the
  lock is released.
\<close>

definition kstat_delete_unlink :: "addr \<Rightarrow> kstat_sys \<Rightarrow> kstat_sys" where
  "kstat_delete_unlink k s = s\<lparr>modules := (\<lambda>m. map_option (\<lambda>M. M\<lparr>ksm_kstat_list := removeAll k (ksm_kstat_list M)\<rparr>) (modules s m))\<rparr>"

definition kstat_delete_rest :: "addr \<Rightarrow> kstat_sys \<Rightarrow> kstat_sys option" where
  "kstat_delete_rest k s =
     (case kstats s k of
        None \<Rightarrow> None
      | Some ksp \<Rightarrow>
          (let s' = s\<lparr>kstats := (kstats s)(k := None)\<rparr>
           in if ks_proc ksp \<noteq> None then
                (case ks_owner ksp of
                   None \<Rightarrow> None
                 | Some m \<Rightarrow>
                     (case modules s m of
                        None \<Rightarrow> None
                      | Some M \<Rightarrow> if ksm_kstat_list M = [] then kstat_delete_module m s' else Some s'))
              else Some s'))"

definition kstat_delete :: "addr \<Rightarrow> kstat_sys \<Rightarrow> kstat_sys option" where
  "kstat_delete k s = kstat_delete_rest k (kstat_delete_unlink k s)"

text \<open>Creating; \<open>mem\<close> and \<open>data\<close>: the memory the allocator gives.  A type out of range panics.\<close>

definition ks_sizes :: "u8 \<Rightarrow> u32 \<Rightarrow> (u32 \<times> u64) option" where
  "ks_sizes typ n =
     (if typ = KSTAT_TYPE_RAW then Some (1, ucast n)
      else if typ = KSTAT_TYPE_NAMED then Some (n, ucast n * of_nat sizeof_named)
      else if typ = KSTAT_TYPE_INTR then Some (n, ucast n * of_nat sizeof_intr)
      else if typ = KSTAT_TYPE_IO then Some (n, ucast n * of_nat sizeof_io)
      else if typ = KSTAT_TYPE_TIMER then Some (n, ucast n * of_nat sizeof_timer)
      else None)"

definition kstat_create ::
  "addr option \<Rightarrow> addr option \<Rightarrow> u64 \<Rightarrow> string \<Rightarrow> int \<Rightarrow> string \<Rightarrow> string \<Rightarrow> u8 \<Rightarrow> u32 \<Rightarrow> u8 \<Rightarrow> kstat_sys \<Rightarrow> (addr option \<times> kstat_sys) option" where
  "kstat_create mem data now module inst name cls typ n flags s =
     (case mem of
        None \<Rightarrow> Some (None, s)
      | Some k \<Rightarrow>
          (let s1 = s\<lparr>kstat_id := kstat_id s + 1\<rparr>
           in case ks_sizes typ n of
                None \<Rightarrow> None
              | Some (nd, sz) \<Rightarrow>
                  (let ksp = \<lparr>ks_magic = KS_MAGIC, ks_kid = kstat_id s, ks_crtime = now, ks_snaptime = now,
                         ks_module = take KSTAT_STRLEN module, ks_instance = inst, ks_name = take KSTAT_STRLEN name,
                         ks_class = take KSTAT_STRLEN cls, ks_type = typ, ks_flags = flags, ks_data = 0, ks_ndata = nd,
                         ks_data_size = sz, ks_proc = None, ks_update = Default_update, ks_owner = None,
                         raw_headers = None, raw_data = None, raw_addr = None, ks_raw_bufsize = 0\<rparr>
                   in if flags AND KSTAT_FLAG_VIRTUAL \<noteq> 0 then Some (Some k, s1\<lparr>kstats := (kstats s1)(k \<mapsto> ksp)\<rparr>)
                      else case data of
                             None \<Rightarrow> Some (None, s1)
                           | Some d \<Rightarrow> Some (Some k, s1\<lparr>kstats := (kstats s1)(k \<mapsto> ksp\<lparr>ks_data := d\<rparr>)\<rparr>))))"

definition kstat_set_raw_ops ::
  "(u64 \<Rightarrow> errno + string) option \<Rightarrow> (u64 \<Rightarrow> addr \<Rightarrow> errno + string) option \<Rightarrow> (nat \<Rightarrow> addr) option \<Rightarrow> kstat \<Rightarrow> kstat" where
  "kstat_set_raw_ops h d f ksp = ksp\<lparr>raw_headers := h, raw_data := d, raw_addr := f\<rparr>"

end
