(* ===== verification/Spl_Kstat_Props.thy ===== *)
theory Spl_Kstat_Props
  imports Spl_Kstat
begin

text \<open>
  The kernel statistics are exact: the accounting of a queue against its length over time, the buffer of the
  raw operations, the records of a statistic, the dump of raw data, and the registry.
\<close>

section \<open>Queue lengths over time\<close>

datatype kq = WaitQ | RunQ
datatype kop = Enter kq | Exit kq

fun kq_of :: "kop \<Rightarrow> kq" where
  "kq_of (Enter q) = q"
| "kq_of (Exit q) = q"

fun kstat_event :: "nat \<times> kop \<Rightarrow> kstat_io \<Rightarrow> kstat_io" where
  "kstat_event (t, Enter WaitQ) = kstat_waitq_enter (of_nat t)"
| "kstat_event (t, Exit WaitQ) = kstat_waitq_exit (of_nat t)"
| "kstat_event (t, Enter RunQ) = kstat_runq_enter (of_nat t)"
| "kstat_event (t, Exit RunQ) = kstat_runq_exit (of_nat t)"

definition times :: "kop \<Rightarrow> (nat \<times> kop) list \<Rightarrow> nat list" where
  "times a es = map fst (filter (\<lambda>e. snd e = a) es)"

text \<open>The length of a queue at instant \<open>\<tau>\<close>, after the events up to then, and the time of its last event.\<close>

definition upto :: "kop \<Rightarrow> (nat \<times> kop) list \<Rightarrow> nat \<Rightarrow> nat" where
  "upto a es \<tau> = length (filter (\<lambda>t. t \<le> \<tau>) (times a es))"

definition qlen :: "kq \<Rightarrow> (nat \<times> kop) list \<Rightarrow> nat \<Rightarrow> nat" where
  "qlen q es \<tau> = upto (Enter q) es \<tau> - upto (Exit q) es \<tau>"

definition qnow :: "kq \<Rightarrow> (nat \<times> kop) list \<Rightarrow> nat" where
  "qnow q es = length (times (Enter q) es) - length (times (Exit q) es)"

definition qlast :: "kq \<Rightarrow> (nat \<times> kop) list \<Rightarrow> nat" where
  "qlast q es = foldl (\<lambda>l e. if kq_of (snd e) = q then fst e else l) 0 es"

text \<open>A run of the callers: time goes on, and nothing leaves an empty queue.\<close>

definition io_run :: "(nat \<times> kop) list \<Rightarrow> bool" where
  "io_run es \<longleftrightarrow> sorted (map fst es) \<and> length es < 2 ^ 32 \<and>
     (\<forall>as t q bs. es = as @ (t, Exit q) # bs \<longrightarrow> 0 < qnow q as)"

lemma io_run_snoc:
  "io_run (es @ [(t, a)]) \<Longrightarrow> io_run es \<and> (\<forall>e \<in> set es. fst e \<le> t) \<and> (\<forall>q. a = Exit q \<longrightarrow> 0 < qnow q es) \<and> Suc (length es) < 2 ^ 32"
  by (auto simp: io_run_def sorted_append)

lemma times_snoc: "times a (es @ [(t, b)]) = times a es @ (if a = b then [t] else [])"
  by (simp add: times_def)

lemma qlast_snoc: "qlast q (es @ [(t, b)]) = (if kq_of b = q then t else qlast q es)"
  by (simp add: qlast_def)

lemma qnow_snoc:
  "qnow q (es @ [(t, Enter p)]) = (if p = q then length (times (Enter q) es) + 1 - length (times (Exit q) es) else qnow q es)"
  "qnow q (es @ [(t, Exit p)]) = (if p = q then qnow q es - 1 else qnow q es)"
  by (simp_all add: qnow_def times_snoc)

lemma balance: "io_run es \<Longrightarrow> length (times (Exit q) es) \<le> length (times (Enter q) es)"
proof (induction es rule: rev_induct)
  case (snoc e es)
  obtain t a where e: "e = (t, a)" by (cases e)
  have r: "io_run es" "a = Exit q \<longrightarrow> 0 < qnow q es" using io_run_snoc [OF snoc.prems [unfolded e]] by auto
  then show ?case using snoc.IH unfolding e by (auto simp: times_snoc qnow_def)
qed (simp add: times_def)

lemma qnow_le: "qnow q es \<le> length es"
  by (simp add: qnow_def times_def le_diff_conv trans_le_add1)

lemma qlast_le: "\<forall>e \<in> set es. fst e \<le> t \<Longrightarrow> qlast q es \<le> t"
  by (induction es rule: rev_induct) (auto simp: qlast_def)

lemma times_le_qlast: "io_run es \<Longrightarrow> kq_of a = q \<Longrightarrow> x \<in> set (times a es) \<Longrightarrow> x \<le> qlast q es"
proof (induction es rule: rev_induct)
  case (snoc e es)
  obtain t b where e: "e = (t, b)" by (cases e)
  have r: "io_run es" "\<forall>e \<in> set es. fst e \<le> t" using io_run_snoc [OF snoc.prems(1) [unfolded e]] by auto
  show ?case
  proof (cases "x \<in> set (times a es)")
    case True
    then have "x \<le> qlast q es" "x \<le> t" using snoc.IH [OF r(1) snoc.prems(2)] r(2) by (auto simp: times_def)
    then show ?thesis by (simp add: e qlast_snoc)
  next
    case False
    then have "a = b" "x = t" using snoc.prems(3) by (auto simp: e times_snoc split: if_splits)
    then show ?thesis using snoc.prems(2) by (simp add: e qlast_snoc)
  qed
qed (simp add: times_def)

lemma qlen_late: "io_run es \<Longrightarrow> qlast q es \<le> \<tau> \<Longrightarrow> qlen q es \<tau> = qnow q es"
proof -
  assume r: "io_run es" "qlast q es \<le> \<tau>"
  have "filter (\<lambda>t. t \<le> \<tau>) (times a es) = times a es" if "kq_of a = q" for a
    using times_le_qlast [OF r(1) that] r(2) by (intro filter_True) (meson le_trans)
  then show ?thesis by (simp add: qlen_def upto_def qnow_def)
qed

lemma qlen_early: "\<tau> < t \<Longrightarrow> qlen q (es @ [(t, b)]) \<tau> = qlen q es \<tau>"
  by (simp add: qlen_def upto_def times_snoc)

text \<open>The two sums of a queue: the area under its length, and the instants at which it is not empty.\<close>

definition area :: "kq \<Rightarrow> (nat \<times> kop) list \<Rightarrow> nat \<Rightarrow> nat" where
  "area q es T = (\<Sum>\<tau> < T. qlen q es \<tau>)"

definition busy :: "kq \<Rightarrow> (nat \<times> kop) list \<Rightarrow> nat \<Rightarrow> nat" where
  "busy q es T = card {\<tau>. \<tau> < T \<and> 0 < qlen q es \<tau>}"

lemma busy_sum: "busy q es T = (\<Sum>\<tau> < T. if 0 < qlen q es \<tau> then 1 else 0)"
  by (simp add: busy_def sum.If_cases Int_def lessThan_def)

lemma sum_snoc:
  assumes "io_run (es @ [(t, b)])" "f 0 = 0"
  shows "(\<Sum>\<tau> < t. f (qlen q (es @ [(t, b)]) \<tau>)) = (\<Sum>\<tau> < qlast q es. f (qlen q es \<tau>)) + (t - qlast q es) * (f (qnow q es) :: nat)"
proof -
  have r: "io_run es" "qlast q es \<le> t" using io_run_snoc [OF assms(1)] qlast_le by auto
  have "(\<Sum>\<tau> < t. f (qlen q (es @ [(t, b)]) \<tau>)) = (\<Sum>\<tau> < t. f (qlen q es \<tau>))" by (rule sum.cong) (simp_all add: qlen_early)
  also have "\<dots> = (\<Sum>\<tau> < qlast q es. f (qlen q es \<tau>)) + (\<Sum>\<tau> \<in> {qlast q es..<t}. f (qlen q es \<tau>))"
    using r(2) by (simp add: lessThan_atLeast0 sum.atLeastLessThan_concat)
  also have "(\<Sum>\<tau> \<in> {qlast q es..<t}. f (qlen q es \<tau>)) = (\<Sum>\<tau> \<in> {qlast q es..<t}. f (qnow q es))"
    by (rule sum.cong) (simp_all add: qlen_late [OF r(1)])
  finally show ?thesis by simp
qed

lemma area_snoc:
  "io_run (es @ [(t, b)]) \<Longrightarrow> area q (es @ [(t, b)]) t = area q es (qlast q es) + (t - qlast q es) * qnow q es"
  unfolding area_def by (rule sum_snoc [where f = "\<lambda>x. x"]) simp_all

lemma busy_snoc:
  "io_run (es @ [(t, b)]) \<Longrightarrow> busy q (es @ [(t, b)]) t = busy q es (qlast q es) + (t - qlast q es) * (if 0 < qnow q es then 1 else 0)"
  unfolding busy_sum by (rule sum_snoc [where f = "\<lambda>x. if 0 < x then 1 else 0"]) simp_all

lemma area_other: "kq_of b \<noteq> q \<Longrightarrow> qlen q (es @ [(t, b)]) = qlen q es"
  by (auto simp: qlen_def upto_def times_snoc fun_eq_iff)

text \<open>What the fields of one queue say of the events.\<close>

definition q_exact :: "kq \<Rightarrow> (nat \<times> kop) list \<Rightarrow> u32 \<Rightarrow> u64 \<Rightarrow> u64 \<Rightarrow> u64 \<Rightarrow> bool" where
  "q_exact q es cnt lastupdate lentime time \<longleftrightarrow>
     cnt = of_nat (qnow q es) \<and> lastupdate = of_nat (qlast q es) \<and>
     lentime = of_nat (area q es (qlast q es)) \<and> time = of_nat (busy q es (qlast q es))"

lemma q_exact_other: "kq_of b \<noteq> q \<Longrightarrow> q_exact q (es @ [(t, b)]) = q_exact q es"
  by (cases b) (auto simp: q_exact_def fun_eq_iff qnow_snoc qlast_snoc area_def busy_def area_other)

lemma ucast_count: "n < 2 ^ 32 \<Longrightarrow> ucast (of_nat n :: u32) = (of_nat n :: u64)"
  by (simp add: unsigned_of_nat take_bit_nat_eq_self)

lemma q_step:
  assumes r: "io_run (es @ [(t, b)])" and q: "kq_of b = q" and x: "q_exact q es cnt lu len tm"
  shows "cnt \<noteq> 0 \<longleftrightarrow> 0 < qnow q es" "of_nat (qlast q (es @ [(t, b)])) = (of_nat t :: u64)"
    "0 < qnow q es \<Longrightarrow> of_nat (area q (es @ [(t, b)]) t) = len + (of_nat t - lu) * ucast cnt"
    "0 < qnow q es \<Longrightarrow> of_nat (busy q (es @ [(t, b)]) t) = tm + (of_nat t - lu)"
    "qnow q es = 0 \<Longrightarrow> of_nat (area q (es @ [(t, b)]) t) = len \<and> of_nat (busy q (es @ [(t, b)]) t) = tm"
proof -
  have l: "qlast q es \<le> t" using io_run_snoc [OF r] qlast_le by auto
  have n: "qnow q es < 2 ^ 32" using io_run_snoc [OF r] qnow_le [of q es] by simp
  have c: "cnt = of_nat (qnow q es)" "ucast cnt = (of_nat (qnow q es) :: u64)" "lu = of_nat (qlast q es)"
    "len = of_nat (area q es (qlast q es))" "tm = of_nat (busy q es (qlast q es))"
    using x ucast_count [OF n] by (auto simp: q_exact_def)
  have d: "of_nat t - lu = of_nat (t - qlast q es)" using l c(3) by (simp add: of_nat_diff)
  have "of_nat (qnow q es) = (0 :: u32) \<longleftrightarrow> qnow q es = 0" using n nat_dvd_not_less [of "qnow q es" "2 ^ 32"] by (auto simp: word_of_nat_eq_0_iff)
  then show "cnt \<noteq> 0 \<longleftrightarrow> 0 < qnow q es" by (simp add: c(1))
  show "of_nat (qlast q (es @ [(t, b)])) = (of_nat t :: u64)" by (simp add: qlast_snoc q)
  show "0 < qnow q es \<Longrightarrow> of_nat (area q (es @ [(t, b)]) t) = len + (of_nat t - lu) * ucast cnt"
    unfolding area_snoc [OF r] d c(2,4) by simp
  show "0 < qnow q es \<Longrightarrow> of_nat (busy q (es @ [(t, b)]) t) = tm + (of_nat t - lu)"
    unfolding busy_snoc [OF r] d c(5) by simp
  show "qnow q es = 0 \<Longrightarrow> of_nat (area q (es @ [(t, b)]) t) = len \<and> of_nat (busy q (es @ [(t, b)]) t) = tm"
    unfolding area_snoc [OF r] busy_snoc [OF r] c(4,5) by simp
qed

lemma q_enter:
  assumes "io_run (es @ [(t, Enter q)])" "q_exact q es cnt lu len tm"
  shows "q_exact q (es @ [(t, Enter q)]) (cnt + 1) (of_nat t) (if cnt \<noteq> 0 then len + (of_nat t - lu) * ucast cnt else len)
    (if cnt \<noteq> 0 then tm + (of_nat t - lu) else tm)"
proof -
  note s = q_step [OF assms(1) _ assms(2)]
  have "qnow q (es @ [(t, Enter q)]) = qnow q es + 1"
    using balance [of es q] io_run_snoc [OF assms(1)] unfolding qnow_snoc by (auto simp: qnow_def)
  moreover have "cnt = of_nat (qnow q es)" using assms(2) by (simp add: q_exact_def)
  ultimately show ?thesis using s by (simp add: q_exact_def qlast_snoc)
qed

lemma q_exit:
  assumes "io_run (es @ [(t, Exit q)])" "q_exact q es cnt lu len tm"
  shows "q_exact q (es @ [(t, Exit q)]) (cnt - 1) (of_nat t) (len + (of_nat t - lu) * ucast cnt) (tm + (of_nat t - lu))"
proof -
  note s = q_step [OF assms(1) _ assms(2)]
  have p: "0 < qnow q es" using io_run_snoc [OF assms(1)] by auto
  then have "qnow q (es @ [(t, Exit q)]) = qnow q es - 1" by (simp add: qnow_snoc)
  moreover have "cnt = of_nat (qnow q es)" using assms(2) by (simp add: q_exact_def)
  ultimately show ?thesis using s p by (simp add: q_exact_def qlast_snoc of_nat_diff)
qed

definition io_zero :: "kstat_io \<Rightarrow> bool" where
  "io_zero k \<longleftrightarrow> wtime k = 0 \<and> wlentime k = 0 \<and> wlastupdate k = 0 \<and> rtime k = 0 \<and> rlentime k = 0 \<and> rlastupdate k = 0 \<and>
     wcnt k = 0 \<and> rcnt k = 0"

lemma io_exact:
  assumes "io_run es" "io_zero k0" "k = fold kstat_event es k0"
  shows "q_exact WaitQ es (wcnt k) (wlastupdate k) (wlentime k) (wtime k) \<and>
    q_exact RunQ es (rcnt k) (rlastupdate k) (rlentime k) (rtime k)"
  using assms(1,3)
proof (induction es arbitrary: k rule: rev_induct)
  case Nil
  then show ?case using assms(2) by (simp add: io_zero_def q_exact_def qnow_def times_def qlast_def area_def busy_def)
next
  case (snoc e es)
  obtain t b where e: "e = (t, b)" by (cases e)
  define h where "h = fold kstat_event es k0"
  have k: "k = kstat_event (t, b) h" using snoc.prems(2) by (simp add: h_def e)
  have r: "io_run (es @ [(t, b)])" using snoc.prems(1) by (simp add: e)
  have i: "q_exact WaitQ es (wcnt h) (wlastupdate h) (wlentime h) (wtime h)" "q_exact RunQ es (rcnt h) (rlastupdate h) (rlentime h) (rtime h)"
    using snoc.IH [OF _ refl] io_run_snoc [OF r] by (auto simp: h_def)
  consider "b = Enter WaitQ" | "b = Exit WaitQ" | "b = Enter RunQ" | "b = Exit RunQ" by (metis kop.exhaust kq.exhaust)
  then show ?case
  proof cases
    case 1
    then show ?thesis using q_enter [OF r [unfolded 1] i(1)] i(2) q_exact_other [of b RunQ es t]
      by (cases "wcnt h = 0") (simp_all add: e k kstat_waitq_enter_def Let_def)
  next
    case 2
    then show ?thesis using q_exit [OF r [unfolded 2] i(1)] i(2) q_exact_other [of b RunQ es t]
      by (simp add: e k kstat_waitq_exit_def Let_def)
  next
    case 3
    then show ?thesis using q_enter [OF r [unfolded 3] i(2)] i(1) q_exact_other [of b WaitQ es t]
      by (cases "rcnt h = 0") (simp_all add: e k kstat_runq_enter_def Let_def)
  next
    case 4
    then show ?thesis using q_exit [OF r [unfolded 4] i(2)] i(1) q_exact_other [of b WaitQ es t]
      by (simp add: e k kstat_runq_exit_def Let_def)
  qed
qed

text \<open>The requests' point of view: the area of a queue that is empty again is the time its requests spent in it.\<close>

lemma sum_list_upto: "\<forall>x \<in> set xs. x \<le> T \<Longrightarrow> (\<Sum>\<tau> < T. length (filter (\<lambda>t. t \<le> \<tau>) xs)) = (\<Sum>x \<leftarrow> xs. T - x)"
proof (induction xs)
  case (Cons x xs)
  have "(\<Sum>\<tau> < T. length (filter (\<lambda>t. t \<le> \<tau>) (x # xs))) = (\<Sum>\<tau> < T. (if x \<le> \<tau> then 1 else 0) + length (filter (\<lambda>t. t \<le> \<tau>) xs))"
    by (rule sum.cong) simp_all
  also have "\<dots> = (\<Sum>\<tau> < T. if x \<le> \<tau> then 1 else 0) + (\<Sum>\<tau> < T. length (filter (\<lambda>t. t \<le> \<tau>) xs))" by (rule sum.distrib)
  also have "(\<Sum>\<tau> < T. if x \<le> \<tau> then 1 else 0) = card ({..<T} \<inter> {\<tau>. x \<le> \<tau>})" by (simp add: sum.If_cases)
  also have "{..<T} \<inter> {\<tau>. x \<le> \<tau>} = {x..<T}" by auto
  finally show ?case using Cons by simp
qed simp

lemma io_run_prefix: "io_run (as @ bs) \<Longrightarrow> io_run as"
  by (induction bs rule: rev_induct) (auto dest: io_run_snoc simp flip: append_assoc)

lemma filter_sorted_prefix: "sorted (map fst es) \<Longrightarrow> filter (\<lambda>e. fst e \<le> (\<tau> :: nat)) es = takeWhile (\<lambda>e. fst e \<le> \<tau>) es"
proof (induction es)
  case (Cons e es)
  show ?case
  proof (cases "fst e \<le> \<tau>")
    case False
    then have "filter (\<lambda>e. fst e \<le> \<tau>) es = []" using Cons.prems by (auto simp: filter_empty_conv)
    then show ?thesis using False by simp
  qed (use Cons in simp)
qed simp

lemma upto_balance:
  assumes "io_run es"
  shows "upto (Exit q) es \<tau> \<le> upto (Enter q) es \<tau>"
proof -
  have "upto a es \<tau> = length (times a (takeWhile (\<lambda>e. fst e \<le> \<tau>) es))" for a
  proof -
    have "filter (\<lambda>t. t \<le> \<tau>) (times a es) = times a (filter (\<lambda>e. fst e \<le> \<tau>) es)"
      by (simp add: times_def filter_map o_def conj_commute)
    then show ?thesis using filter_sorted_prefix [of es \<tau>] assms by (simp add: upto_def io_run_def)
  qed
  moreover have "io_run (takeWhile (\<lambda>e. fst e \<le> \<tau>) es)"
    by (rule io_run_prefix [of _ "dropWhile (\<lambda>e. fst e \<le> \<tau>) es"]) (simp add: assms)
  ultimately show ?thesis using balance by simp
qed

lemma sum_list_diff_const: "\<forall>x \<in> set xs. x \<le> T \<Longrightarrow> (\<Sum>x \<leftarrow> xs. T - x) + sum_list xs = length xs * (T :: nat)"
  by (induction xs) auto

lemma area_sojourn:
  assumes "io_run es" "qnow q es = 0"
  shows "area q es (qlast q es) + sum_list (times (Enter q) es) = sum_list (times (Exit q) es)"
proof -
  let ?T = "qlast q es"
  have b: "\<forall>x \<in> set (times a es). x \<le> ?T" if "kq_of a = q" for a using times_le_qlast [OF assms(1) that] by blast
  have "area q es ?T + (\<Sum>\<tau> < ?T. upto (Exit q) es \<tau>) = (\<Sum>\<tau> < ?T. qlen q es \<tau> + upto (Exit q) es \<tau>)"
    by (simp add: area_def sum.distrib)
  also have "\<dots> = (\<Sum>\<tau> < ?T. upto (Enter q) es \<tau>)" by (rule sum.cong) (simp_all add: qlen_def upto_balance [OF assms(1)])
  finally have "area q es ?T + (\<Sum>x \<leftarrow> times (Exit q) es. ?T - x) = (\<Sum>x \<leftarrow> times (Enter q) es. ?T - x)"
    unfolding upto_def using sum_list_upto [OF b [of "Exit q"]] sum_list_upto [OF b [of "Enter q"]] by simp
  moreover have "length (times (Exit q) es) = length (times (Enter q) es)" using assms(2) balance [OF assms(1), of q] by (simp add: qnow_def)
  ultimately show ?thesis using sum_list_diff_const [OF b, of "Enter q"] sum_list_diff_const [OF b, of "Exit q"] by simp
qed

text \<open>C31: The accounting of an I/O statistic is exact for every run of arrivals and departures at its two queues: the
  counter is the length of the queue, the length-time product is the sum of the lengths over all instants up to
  the last event, the time is the number of instants at which the queue was not empty, and once a queue is
  empty the product is the total time its requests spent in it.\<close>

theorem kstat_io_exact:
  assumes "io_run es" "io_zero k0" "k = fold kstat_event es k0"
  shows "wcnt k = of_nat (qnow WaitQ es) \<and> rcnt k = of_nat (qnow RunQ es) \<and>
    wlentime k = of_nat (\<Sum>\<tau> < qlast WaitQ es. qlen WaitQ es \<tau>) \<and> rlentime k = of_nat (\<Sum>\<tau> < qlast RunQ es. qlen RunQ es \<tau>) \<and>
    wtime k = of_nat (card {\<tau>. \<tau> < qlast WaitQ es \<and> 0 < qlen WaitQ es \<tau>}) \<and>
    rtime k = of_nat (card {\<tau>. \<tau> < qlast RunQ es \<and> 0 < qlen RunQ es \<tau>}) \<and>
    (qnow WaitQ es = 0 \<longrightarrow> wlentime k = of_nat (sum_list (times (Exit WaitQ) es) - sum_list (times (Enter WaitQ) es))) \<and>
    (qnow RunQ es = 0 \<longrightarrow> rlentime k = of_nat (sum_list (times (Exit RunQ) es) - sum_list (times (Enter RunQ) es)))"
proof -
  note x = io_exact [OF assms, unfolded q_exact_def]
  have "area q es (qlast q es) = sum_list (times (Exit q) es) - sum_list (times (Enter q) es)" if "qnow q es = 0" for q
    using area_sojourn [OF assms(1) that] by simp
  then show ?thesis using x unfolding area_def [symmetric] busy_def [symmetric] by simp
qed

definition demo_io :: kstat_io where
  "demo_io = \<lparr>nread = 0, nwritten = 0, reads = 0, writes = 0, wtime = 0, wlentime = 0, wlastupdate = 0, rtime = 0,
     rlentime = 0, rlastupdate = 0, wcnt = 0, rcnt = 0\<rparr>"

definition demo_run :: "(nat \<times> kop) list" where
  "demo_run = [(100, Enter WaitQ), (130, Enter WaitQ), (150, Exit WaitQ), (150, Enter RunQ), (160, Exit RunQ), (170, Exit WaitQ)]"

fun leaves_only_full :: "(nat \<times> kop) list \<Rightarrow> (nat \<times> kop) list \<Rightarrow> bool" where
  "leaves_only_full as [] = True"
| "leaves_only_full as (e # es) =
     ((case snd e of Exit q \<Rightarrow> 0 < qnow q as | Enter q \<Rightarrow> True) \<and> leaves_only_full (as @ [e]) es)"

lemma leaves_only_full_ok: "leaves_only_full as es \<Longrightarrow> es = bs @ (t, Exit q) # cs \<Longrightarrow> 0 < qnow q (as @ bs)"
  by (induction as es arbitrary: bs rule: leaves_only_full.induct) (auto simp: Cons_eq_append_conv)

lemma io_runI: "sorted (map fst es) \<Longrightarrow> length es < 2 ^ 32 \<Longrightarrow> leaves_only_full [] es \<Longrightarrow> io_run es"
  using leaves_only_full_ok [of "[]" es] unfolding io_run_def by (metis append_Nil)

theorem kstat_io_exact_witness:
  "wlentime (fold kstat_event demo_run demo_io) = 90 \<and> wcnt (fold kstat_event demo_run demo_io) = 0"
proof -
  have r: "io_run demo_run" by (rule io_runI) (simp_all add: demo_run_def qnow_def times_def)
  have z: "io_zero demo_io" by (simp add: demo_io_def io_zero_def)
  have n: "qnow WaitQ demo_run = 0" "sum_list (times (Exit WaitQ) demo_run) - sum_list (times (Enter WaitQ) demo_run) = 90"
    by (simp_all add: demo_run_def qnow_def times_def)
  have "wlentime (fold kstat_event demo_run demo_io) = of_nat 90" "wcnt (fold kstat_event demo_run demo_io) = of_nat 0"
    using kstat_io_exact [OF r z refl, unfolded n] by blast+
  then show ?thesis by simp
qed

section \<open>The buffer of the raw operations\<close>

text \<open>The buffer that is allocated after a log; freeing must give the size of the allocation.\<close>

fun raw_held :: "raw_log \<Rightarrow> u64 option \<Rightarrow> u64 option option" where
  "raw_held [] h = Some h"
| "raw_held ((True, n) # lg) None = raw_held lg (Some n)"
| "raw_held ((False, n) # lg) (Some m) = (if n = m then raw_held lg None else None)"
| "raw_held _ _ = None"

lemma raw_held_append: "raw_held (as @ bs) h = Option.bind (raw_held as h) (raw_held bs)"
  by (induction as h rule: raw_held.induct) auto

definition buf_ok :: "kstat \<Rightarrow> raw_log \<Rightarrow> bool" where
  "buf_ok ksp lg \<longleftrightarrow> 0 < ks_raw_bufsize ksp \<and> ks_raw_bufsize ksp \<le> KSTAT_RAW_MAX \<and> raw_held lg None = Some (Some (ks_raw_bufsize ksp))"

lemma double_le:
  assumes "0 < n" "n < KSTAT_RAW_MAX"
  shows "n < min (n * 2) KSTAT_RAW_MAX" "0 < min (n * 2) KSTAT_RAW_MAX"
proof -
  have "unat n < 131072" "0 < unat n" using assms by (simp_all add: KSTAT_RAW_MAX_def word_less_nat_alt)
  then have "unat (n * 2) = 2 * unat n" by (simp add: unat_word_ariths)
  then have "n < n * 2" using \<open>0 < unat n\<close> by (simp add: word_less_nat_alt)
  then show "n < min (n * 2) KSTAT_RAW_MAX" "0 < min (n * 2) KSTAT_RAW_MAX" using assms by (auto simp: min_def)
qed

lemma raw_loop_returns:
  assumes "buf_ok ksp lg"
  shows "\<exists>r n lg'. raw_loop cb ksp lg = Some (r, ksp\<lparr>ks_raw_bufsize := n\<rparr>, lg') \<and> r = cb n \<and> buf_ok (ksp\<lparr>ks_raw_bufsize := n\<rparr>) lg' \<and>
    (r = Inl ENOMEM \<longrightarrow> n = KSTAT_RAW_MAX)"
  using assms
proof (induction "unat KSTAT_RAW_MAX - unat (ks_raw_bufsize ksp)" arbitrary: ksp lg rule: less_induct)
  case less
  let ?n = "ks_raw_bufsize ksp"
  have b: "0 < ?n" "?n \<le> KSTAT_RAW_MAX" "raw_held lg None = Some (Some ?n)" using less.prems by (simp_all add: buf_ok_def)
  consider "cb ?n \<noteq> Inl ENOMEM" | "cb ?n = Inl ENOMEM" "?n = KSTAT_RAW_MAX" | "cb ?n = Inl ENOMEM" "?n < KSTAT_RAW_MAX"
    using b(2) by fastforce
  then show ?case
  proof cases
    case 1
    then show ?thesis using less.prems by (intro exI [of _ "cb ?n"] exI [of _ ?n] exI [of _ lg]) (simp add: raw_loop.simps [of cb ksp])
  next
    case 2
    then show ?thesis using less.prems
      by (intro exI [of _ "cb ?n"] exI [of _ ?n] exI [of _ lg]) (simp add: raw_loop.simps [of cb ksp] kstat_resize_raw_def buf_ok_def)
  next
    case 3
    let ?m = "min (?n * 2) KSTAT_RAW_MAX" and ?lg = "lg @ [(False, ?n), (True, min (?n * 2) KSTAT_RAW_MAX)]"
    note d = double_le [OF b(1) 3(2)]
    have "buf_ok (ksp\<lparr>ks_raw_bufsize := ?m\<rparr>) ?lg" using b(3) d by (simp add: buf_ok_def raw_held_append)
    moreover have "unat KSTAT_RAW_MAX - unat ?m < unat KSTAT_RAW_MAX - unat ?n"
      using d(1) 3(2) by (simp add: word_less_nat_alt diff_less_mono2)
    ultimately obtain r n lg' where e: "raw_loop cb (ksp\<lparr>ks_raw_bufsize := ?m\<rparr>) ?lg = Some (r, ksp\<lparr>ks_raw_bufsize := n\<rparr>, lg')" "r = cb n"
      "buf_ok (ksp\<lparr>ks_raw_bufsize := n\<rparr>) lg'" "r = Inl ENOMEM \<longrightarrow> n = KSTAT_RAW_MAX"
      using less.hyps [of "ksp\<lparr>ks_raw_bufsize := ?m\<rparr>" ?lg] by auto
    have "raw_loop cb ksp lg = raw_loop cb (ksp\<lparr>ks_raw_bufsize := ?m\<rparr>) ?lg"
      using 3(1) less_imp_neq [OF 3(2)] by (subst raw_loop.simps) (simp add: kstat_resize_raw_def Let_def)
    then show ?thesis using e by auto
  qed
qed

lemma headers_returns:
  assumes "ks_type ksp = KSTAT_TYPE_RAW" "buf_ok ksp lg"
  shows "\<exists>rc out n lg'. kstat_seq_show_headers ksp lg = Some (rc, out, ksp\<lparr>ks_raw_bufsize := n\<rparr>, lg') \<and> buf_ok (ksp\<lparr>ks_raw_bufsize := n\<rparr>) lg'"
proof (cases "raw_headers ksp")
  case None
  then show ?thesis using assms by (simp add: kstat_seq_show_headers_def Let_def) (metis kstat.surjective kstat.update_convs(20))
next
  case (Some cb)
  then show ?thesis using assms raw_loop_returns [OF assms(2), of cb] by (auto simp: kstat_seq_show_headers_def Let_def)
qed

text \<open>C34: Reading a raw statistic always returns, whatever its operations report: an operation without room is called again
  with a larger buffer of at most 128 KiB and fails only at that size; and over start, show and stop every buffer
  is freed exactly once, with the size it was allocated with.\<close>

theorem kstat_raw_read_returns:
  assumes "ks_type ksp = KSTAT_TYPE_RAW" "0 < page" "page \<le> KSTAT_RAW_MAX" "raw_held lg None = Some None"
    "\<And>k rw. ks_type (snd (upd k rw)) = ks_type k \<and> ks_raw_bufsize (snd (upd k rw)) = ks_raw_bufsize k"
  shows "(\<exists>p out ksp' lg'. kstat_seq_start upd page now n ksp lg = Some (p, out, ksp', lg') \<and> ks_type ksp' = KSTAT_TYPE_RAW \<and> buf_ok ksp' lg') \<and>
    (\<forall>k l p v. ks_type k = KSTAT_TYPE_RAW \<and> buf_ok k l \<longrightarrow>
       (\<exists>rc out k' v' l'. kstat_seq_show k p v l = Some (rc, out, k', v', l') \<and> ks_type k' = KSTAT_TYPE_RAW \<and> buf_ok k' l' \<and>
          (\<forall>cb. raw_data k = Some cb \<and> rc = Some ENOMEM \<longrightarrow> cb KSTAT_RAW_MAX p = Inl ENOMEM)) \<and>
       raw_held (kstat_seq_stop k l) None = Some None)"
proof (intro conjI allI impI)
  let ?k = "ksp\<lparr>ks_raw_bufsize := page\<rparr>" and ?lg = "lg @ [(True, page)]"
  let ?u = "(snd (kstat_do_update upd ?k KSTAT_READ))\<lparr>ks_snaptime := now\<rparr>"
  have u: "ks_type ?u = KSTAT_TYPE_RAW" "buf_ok ?u ?lg"
    using assms by (simp_all add: kstat_do_update_def buf_ok_def raw_held_append split: kstat_update.splits)
  have i: "\<exists>p. at_index k n = Some p" if "ks_type k = KSTAT_TYPE_RAW" for k
    using that by (simp add: at_index_def kstat_seq_data_addr_def)
  from headers_returns [OF u] obtain rc out m lg' where
    h: "kstat_seq_show_headers ?u ?lg = Some (rc, out, ?u\<lparr>ks_raw_bufsize := m\<rparr>, lg')" "buf_ok (?u\<lparr>ks_raw_bufsize := m\<rparr>) lg'" by blast
  show "\<exists>p out ksp' lg'. kstat_seq_start upd page now n ksp lg = Some (p, out, ksp', lg') \<and> ks_type ksp' = KSTAT_TYPE_RAW \<and> buf_ok ksp' lg'"
    using assms(1) u h i [OF u(1)] i [of "?u\<lparr>ks_raw_bufsize := m\<rparr>"]
    by (cases "n = 0"; cases rc) (fastforce simp: kstat_seq_start_def Let_def)+
next
  fix k l p v
  assume k: "ks_type k = KSTAT_TYPE_RAW \<and> buf_ok k l"
  show "\<exists>rc out k' v' l'. kstat_seq_show k p v l = Some (rc, out, k', v', l') \<and> ks_type k' = KSTAT_TYPE_RAW \<and> buf_ok k' l' \<and>
      (\<forall>cb. raw_data k = Some cb \<and> rc = Some ENOMEM \<longrightarrow> cb KSTAT_RAW_MAX p = Inl ENOMEM)"
  proof (cases "raw_data k")
    case None
    then show ?thesis using k by (simp add: kstat_seq_show_def)
  next
    case (Some cb)
    obtain n lg' where "raw_loop (\<lambda>n. cb n p) k l = Some (cb n p, k\<lparr>ks_raw_bufsize := n\<rparr>, lg')" "buf_ok (k\<lparr>ks_raw_bufsize := n\<rparr>) lg'"
      "cb n p = Inl ENOMEM \<longrightarrow> n = KSTAT_RAW_MAX"
      using raw_loop_returns [of k l "\<lambda>n. cb n p"] k by blast
    then show ?thesis using k Some by (auto simp: kstat_seq_show_def rc_raw_def split: sum.splits)
  qed
  show "raw_held (kstat_seq_stop k l) None = Some None" using k by (simp add: kstat_seq_stop_def raw_held_append buf_ok_def)
qed

definition demo_ks :: kstat where
  "demo_ks = \<lparr>ks_magic = KS_MAGIC, ks_kid = 0, ks_crtime = 0, ks_snaptime = 0, ks_module = ''zfs'', ks_instance = 0,
     ks_name = ''dbufs'', ks_class = ''misc'', ks_type = KSTAT_TYPE_RAW, ks_flags = 0, ks_data = 0x1000, ks_ndata = 1,
     ks_data_size = 64, ks_proc = None, ks_update = Client_update, ks_owner = None,
     raw_headers = Some (\<lambda>n. if n < 20000 then Inl ENOMEM else Inr ''header''), raw_data = None, raw_addr = None, ks_raw_bufsize = 0\<rparr>"

theorem kstat_raw_read_returns_witness:
  "\<exists>p out ksp' lg'. kstat_seq_start (\<lambda>k rw. (Some EIO, k)) 4096 7 0 demo_ks [] = Some (p, out, ksp', lg') \<and> buf_ok ksp' lg'"
proof -
  have "ks_type demo_ks = KSTAT_TYPE_RAW" "(0::u64) < 4096" "4096 \<le> KSTAT_RAW_MAX" "raw_held [] None = Some None"
    by (simp_all add: demo_ks_def KSTAT_RAW_MAX_def)
  from kstat_raw_read_returns [OF this, of "\<lambda>k rw. (Some EIO, k)" 7 0] show ?thesis by auto
qed

section \<open>The records of a statistic\<close>

definition recsize :: "u8 \<Rightarrow> nat" where
  "recsize typ = (if typ = KSTAT_TYPE_NAMED then sizeof_named else if typ = KSTAT_TYPE_INTR then sizeof_intr
     else if typ = KSTAT_TYPE_IO then sizeof_io else sizeof_timer)"

definition structured :: "kstat \<Rightarrow> bool" where
  "structured ksp \<longleftrightarrow> ks_type ksp \<in> {KSTAT_TYPE_NAMED, KSTAT_TYPE_INTR, KSTAT_TYPE_IO, KSTAT_TYPE_TIMER}"

lemma structured_addr: "structured ksp \<Longrightarrow> kstat_seq_data_addr ksp n = Some (ks_data ksp + n * recsize (ks_type ksp))"
  by (auto simp: structured_def kstat_seq_data_addr_def recsize_def ks_type_defs)

lemma read_rest:
  assumes "structured ksp" "pos < unat (ks_ndata ksp)" "p = ks_data ksp + pos * recsize (ks_type ksp)"
  shows "kstat_read_rest ksp p pos = Some (map (\<lambda>i. ks_data ksp + i * recsize (ks_type ksp)) [pos..<unat (ks_ndata ksp)])"
  using assms
proof (induction ksp p pos rule: kstat_read_rest.induct)
  case (1 ksp p pos)
  show ?case
  proof (cases "pos + 1 < unat (ks_ndata ksp)")
    case True
    let ?q = "ks_data ksp + (pos + 1) * recsize (ks_type ksp)"
    have n: "kstat_seq_next ksp pos = (pos + 1, Some (Some ?q))"
      using True by (simp add: kstat_seq_next_def at_index_def structured_addr [OF "1.prems"(1)])
    have "kstat_read_rest ksp ?q (pos + 1) = Some (map (\<lambda>i. ks_data ksp + i * recsize (ks_type ksp)) [pos + 1..<unat (ks_ndata ksp)])"
      by (rule "1.IH" [OF n [symmetric] refl refl "1.prems"(1) True refl])
    then show ?thesis using "1.prems"(2,3) by (subst kstat_read_rest.simps) (simp add: n upt_conv_Cons)
  next
    case False
    then show ?thesis using "1.prems" by (subst kstat_read_rest.simps) (simp add: kstat_seq_next_def at_index_def upt_conv_Cons)
  qed
qed

lemma read_all:
  "structured ksp \<Longrightarrow> kstat_read_all ksp = Some (map (\<lambda>i. ks_data ksp + i * recsize (ks_type ksp)) [0..<unat (ks_ndata ksp)])"
  using read_rest [of ksp 0 "ks_data ksp"] by (auto simp: kstat_read_all_def at_index_def structured_addr)

lemma sizes:
  assumes "ks_sizes typ n = Some (nd, sz)" "typ \<noteq> KSTAT_TYPE_RAW"
  shows "nd = n" "unat sz = unat n * recsize typ"
proof -
  have m: "unat (ucast n * of_nat k :: u64) = unat n * k" if "k < 2 ^ 32" for k
  proof -
    have "unat n * k < 2 ^ 32 * 2 ^ 32" using that unsigned_less [of n] by (intro mult_strict_mono) simp_all
    then show ?thesis using that by (simp add: unat_word_ariths unat_of_nat unat_ucast_u32)
  qed
  show "nd = n" "unat sz = unat n * recsize typ"
    using assms m [of 272] m [of 20] m [of 80] m [of 304]
    by (auto simp: ks_sizes_def recsize_def sizeof_defs ks_type_defs split: if_splits)
qed

text \<open>Reading a created statistic of a record type shows each of its records once, in order, and the records fill its data
  section exactly: for every number of records none lies outside the memory allocated for it.\<close>

theorem kstat_records_tile:
  assumes "kstat_create mem (Some d) now m i name cls typ n flags s = Some (Some k, s')" "kstats s' k = Some ksp"
    "flags AND KSTAT_FLAG_VIRTUAL = 0" "typ \<noteq> KSTAT_TYPE_RAW"
  shows "kstat_read_all ksp = Some (map (\<lambda>i. d + i * recsize typ) [0..<unat n]) \<and> unat (ks_data_size ksp) = unat n * recsize typ"
proof -
  obtain nd sz where z: "ks_sizes typ n = Some (nd, sz)"
    using assms(1) by (auto simp: kstat_create_def Let_def split: option.splits)
  have k: "ks_type ksp = typ" "ks_ndata ksp = nd" "ks_data_size ksp = sz" "ks_data ksp = d"
    using assms(1-3) z by (auto simp: kstat_create_def Let_def split: option.splits)
  have "structured ksp" using z assms(4) k(1) by (auto simp: structured_def ks_sizes_def split: if_splits)
  from read_all [OF this] show ?thesis using sizes [OF z assms(4)] k by simp
qed

theorem kstat_records_tile_witness:
  "\<exists>s' ksp. kstat_create (Some 1) (Some 0x1000) 5 ''zfs'' 0 ''arcstats'' ''misc'' KSTAT_TYPE_NAMED 3 0 spl_kstat_init = Some (Some 1, s') \<and>
     kstats s' 1 = Some ksp \<and> kstat_read_all ksp = Some [0x1000, 0x1110, 0x1220] \<and> unat (ks_data_size ksp) = 816"
proof -
  obtain s' ksp where c: "kstat_create (Some 1) (Some 0x1000) 5 ''zfs'' 0 ''arcstats'' ''misc'' KSTAT_TYPE_NAMED 3 0 spl_kstat_init = Some (Some 1, s')"
    "kstats s' 1 = Some ksp"
    by (simp add: kstat_create_def ks_sizes_def ks_type_defs)
  from kstat_records_tile [OF c] have "kstat_read_all ksp = Some (map (\<lambda>i. 0x1000 + i * recsize KSTAT_TYPE_NAMED) [0..<3]) \<and>
      unat (ks_data_size ksp) = 3 * recsize KSTAT_TYPE_NAMED"
    by (simp add: ks_type_defs)
  then show ?thesis using c by (simp add: recsize_def sizeof_defs numeral_eq_Suc upt_rec)
qed

section \<open>The dump of raw data\<close>

definition dump_bytes :: "(nat \<Rightarrow> u8) \<Rightarrow> nat \<Rightarrow> nat \<Rightarrow> seq_out" where
  "dump_bytes p a b = map (\<lambda>k. ('' %02x'', [Num (uint (p k))])) [a..<b]"

definition dump_line :: "(nat \<Rightarrow> u8) \<Rightarrow> nat \<Rightarrow> nat \<Rightarrow> seq_out" where
  "dump_line p l i = (''%03x:'', [Num (int i)]) # dump_bytes p (i * 16) (min (i * 16 + 16) l) @ [(NL, [])]"

lemma raw_line_eq:
  "j \<le> 16 \<Longrightarrow> raw_line p (int l) i j out = (j < 16 \<and> l < i * 16 + 16, out @ dump_bytes p (i * 16 + j) (min (i * 16 + 16) l) @ [(NL, [])])"
proof (induction p "int l" i j out rule: raw_line.induct)
  case (1 p i j out)
  consider "j = 16" | "j < 16" "l \<le> i * 16 + j" | "j < 16" "i * 16 + j < l" using "1.prems" by linarith
  then show ?case
  proof cases
    case 3
    have "raw_line p (int l) i j out = raw_line p (int l) i (j + 1) (out @ [('' %02x'', [Num (uint (p (i * 16 + j)))])])"
      using 3 by (subst raw_line.simps) simp
    also have "\<dots> = (j + 1 < 16 \<and> l < i * 16 + 16, (out @ [('' %02x'', [Num (uint (p (i * 16 + j)))])]) @
        dump_bytes p (i * 16 + (j + 1)) (min (i * 16 + 16) l) @ [(NL, [])])"
      by (rule "1.hyps") (use 3 in auto)
    also have "\<dots> = (j < 16 \<and> l < i * 16 + 16, out @ dump_bytes p (i * 16 + j) (min (i * 16 + 16) l) @ [(NL, [])])"
      using 3 by (auto simp: dump_bytes_def upt_conv_Cons)
    finally show ?thesis .
  qed (subst raw_line.simps; simp add: dump_bytes_def)+
qed

lemma raw_lines_eq:
  "i * 16 \<le> l \<Longrightarrow> raw_lines p (int l) i out = out @ concat (map (dump_line p l) [i..<l div 16 + 1])"
proof (induction p "int l" i out rule: raw_lines.induct)
  case (1 p i out)
  let ?o = "out @ [(''%03x:'', [Num (int i)])]"
  have e: "raw_line p (int l) i 0 ?o = (l < i * 16 + 16, out @ dump_line p l i)" by (simp add: raw_line_eq dump_line_def)
  have i: "i < l div 16 + 1" using "1.prems" by linarith
  show ?case
  proof (cases "l < i * 16 + 16")
    case True
    then have "l div 16 = i" using "1.prems" by linarith
    then show ?thesis using True by (subst raw_lines.simps) (simp add: e)
  next
    case False
    then have "raw_lines p (int l) (i + 1) (out @ dump_line p l i) = (out @ dump_line p l i) @ concat (map (dump_line p l) [i + 1..<l div 16 + 1])"
      by (intro "1.hyps" [OF e [symmetric]]) auto
    moreover have "[i..<l div 16 + 1] = i # [i + 1..<l div 16 + 1]" using i by (simp add: upt_conv_Cons del: upt_Suc)
    ultimately show ?thesis using False by (subst raw_lines.simps) (simp add: e del: upt_Suc)
  qed
qed

text \<open>The bytes that a reader finds in an output.\<close>

definition read_dump :: "seq_out \<Rightarrow> int list" where
  "read_dump out = concat (map (\<lambda>(f, as). if f = '' %02x'' then concat (map (\<lambda>a. case a of Num n \<Rightarrow> [n] | Str _ \<Rightarrow> []) as) else []) out)"

lemma read_dump_append: "read_dump (as @ bs) = read_dump as @ read_dump bs"
  by (simp add: read_dump_def)

lemma read_dump_bytes: "read_dump (dump_bytes p a b) = map (\<lambda>k. uint (p k)) [a..<b]"
  by (simp add: read_dump_def dump_bytes_def concat_map_singleton o_def)

lemma read_dump_line: "read_dump (dump_line p l i) = map (\<lambda>k. uint (p k)) [i * 16..<min (i * 16 + 16) l]"
proof -
  have "dump_line p l i = [(''%03x:'', [Num (int i)])] @ dump_bytes p (i * 16) (min (i * 16 + 16) l) @ [(NL, [])]"
    by (simp add: dump_line_def)
  moreover have "read_dump [(''%03x:'', [Num (int i)])] = []" "read_dump [(NL, [])] = []" by (simp_all add: read_dump_def NL_def)
  ultimately show ?thesis by (simp only: read_dump_append read_dump_bytes) simp
qed

lemma upt_blocks: "n * 16 \<le> l + 16 \<Longrightarrow> concat (map (\<lambda>i. [i * 16..<min (i * 16 + 16) l]) [0..<n]) = [0..<min (n * 16) l]"
proof (induction n)
  case (Suc n)
  have "n * 16 \<le> l" using Suc.prems by simp
  then have "[0..<min (n * 16 + 16) l] = [0..<n * 16] @ [n * 16..<min (n * 16 + 16) l]"
    using upt_add_eq_append [of 0 "n * 16" "min (n * 16 + 16) l - n * 16"] by simp
  then show ?case using Suc \<open>n * 16 \<le> l\<close> by (simp add: add.commute min_absorb1)
qed simp

lemma show_raw_eq:
  assumes "l < 2 ^ 31"
  shows "kstat_seq_show_raw p (of_nat l) = concat (map (dump_line p l) [0..<l div 16 + 1])"
proof -
  have "sint (of_nat l :: u32) = int l" using assms by (simp add: signed_of_nat signed_take_bit_int_eq_self)
  then show ?thesis using raw_lines_eq [of 0 l p "[]"] by (simp add: kstat_seq_show_raw_def del: upt_Suc)
qed

text \<open>The dump of a raw statistic can be read back: it has the lines 0 to l/16, each with the number of the line and the up to
  sixteen bytes from 16 times that number on, and together they are the data.\<close>

theorem kstat_dump_roundtrip:
  assumes "l < 2 ^ 31"
  shows "kstat_seq_show_raw p (of_nat l) = concat (map (dump_line p l) [0..<l div 16 + 1]) \<and>
    read_dump (kstat_seq_show_raw p (of_nat l)) = map (\<lambda>k. uint (p k)) [0..<l]"
proof
  show e: "kstat_seq_show_raw p (of_nat l) = concat (map (dump_line p l) [0..<l div 16 + 1])" by (rule show_raw_eq [OF assms])
  have "read_dump (concat xs) = concat (map read_dump xs)" for xs
    by (induction xs) (simp_all add: read_dump_append, simp add: read_dump_def)
  then have "read_dump (kstat_seq_show_raw p (of_nat l)) =
      map (\<lambda>k. uint (p k)) (concat (map (\<lambda>i. [i * 16..<min (i * 16 + 16) l]) [0..<l div 16 + 1]))"
    unfolding e by (simp add: o_def read_dump_line map_concat del: upt_Suc)
  also have "concat (map (\<lambda>i. [i * 16..<min (i * 16 + 16) l]) [0..<l div 16 + 1]) = [0..<min ((l div 16 + 1) * 16) l]"
    by (rule upt_blocks) simp
  also have "min ((l div 16 + 1) * 16) l = l" using div_mult_mod_eq [of l 16] by (intro min_absorb2) simp
  finally show "read_dump (kstat_seq_show_raw p (of_nat l)) = map (\<lambda>k. uint (p k)) [0..<l]" .
qed

theorem kstat_dump_roundtrip_witness: "read_dump (kstat_seq_show_raw (\<lambda>k. of_nat (7 * k)) 3) = [0, 7, 14]"
proof -
  have "map (\<lambda>k. uint (of_nat (7 * k) :: u8)) [0..<3] = [0, 7, 14]" by (simp add: upt_rec)
  then show ?thesis using kstat_dump_roundtrip [of 3 "\<lambda>k. of_nat (7 * k)", THEN conjunct2] by simp
qed

end
