(* ===== verification/Spl_Kstat_Registry.thy ===== *)
theory Spl_Kstat_Registry
  imports Spl_Kstat
begin

text \<open>
  The registry of \<^verbatim>\<open>spl-kstat.c\<close> refines a set of named statistics: its invariant, the effect of installing and deleting
  on the set, runs of operations, and the race of two deletions.
\<close>

section \<open>The invariant\<close>

definition mods_ok :: "kstat_sys \<Rightarrow> bool" where
  "mods_ok s \<longleftrightarrow> distinct (kstat_module_list s) \<and> set (kstat_module_list s) = dom (modules s) \<and>
     (\<forall>m M. modules s m = Some M \<longrightarrow> length (ksm_name M) \<le> KSTAT_STRLEN) \<and>
     (\<forall>m n M N. modules s m = Some M \<and> modules s n = Some N \<and> ksm_name M = ksm_name N \<longrightarrow> m = n)"

definition lists_ok :: "kstat_sys \<Rightarrow> bool" where
  "lists_ok s \<longleftrightarrow> (\<forall>m M. modules s m = Some M \<longrightarrow> distinct (ksm_kstat_list M) \<and> inj_on (kname_of s) (set (ksm_kstat_list M)) \<and>
     (\<forall>k \<in> set (ksm_kstat_list M). \<exists>K. kstats s k = Some K \<and> ks_owner K = Some m \<and> ks_proc K \<noteq> None \<and> ks_module K = ksm_name M))"

definition stats_ok :: "kstat_sys \<Rightarrow> bool" where
  "stats_ok s \<longleftrightarrow> (\<forall>k K. kstats s k = Some K \<longrightarrow> length (ks_module K) \<le> KSTAT_STRLEN \<and> length (ks_name K) \<le> KSTAT_STRLEN \<and>
     (ks_proc K \<noteq> None \<longrightarrow> (\<exists>m M. ks_owner K = Some m \<and> modules s m = Some M \<and> k \<in> set (ksm_kstat_list M))))"

definition no_empty :: "kstat_sys \<Rightarrow> bool" where
  "no_empty s \<longleftrightarrow> (\<forall>m M. modules s m = Some M \<longrightarrow> ksm_kstat_list M \<noteq> [])"

definition kreg_inv :: "kstat_sys \<Rightarrow> bool" where
  "kreg_inv s \<longleftrightarrow> mods_ok s \<and> lists_ok s \<and> stats_ok s \<and> no_empty s"

text \<open>The abstract registry: the names of the statistics that exist, and those that are installed under their names.\<close>

definition pool :: "kstat_sys \<Rightarrow> addr \<rightharpoonup> string \<times> string" where
  "pool s = (\<lambda>k. map_option (\<lambda>K. (ks_module K, ks_name K)) (kstats s k))"

definition reg :: "kstat_sys \<Rightarrow> ((string \<times> string) \<times> addr) set" where
  "reg s = {((ks_module K, ks_name K), k) | k K. kstats s k = Some K \<and> ks_proc K \<noteq> None}"

lemma reg_iff: "(x, k) \<in> reg s \<longleftrightarrow> (\<exists>K. kstats s k = Some K \<and> ks_proc K \<noteq> None \<and> x = (ks_module K, ks_name K))"
  unfolding reg_def by blast

lemma reg_Domain:
  "(md, nm) \<in> Domain (reg s) \<longleftrightarrow> (\<exists>k K. kstats s k = Some K \<and> ks_proc K \<noteq> None \<and> ks_module K = md \<and> ks_name K = nm)"
  unfolding reg_def Domain_iff by blast

lemma mods_okD:
  assumes "mods_ok s"
  shows "distinct (kstat_module_list s)" "set (kstat_module_list s) = dom (modules s)"
    "modules s m = Some M \<Longrightarrow> length (ksm_name M) \<le> KSTAT_STRLEN"
    "modules s m = Some M \<Longrightarrow> modules s n = Some N \<Longrightarrow> ksm_name M = ksm_name N \<Longrightarrow> m = n"
  using assms by (auto simp: mods_ok_def)

lemma lists_okD:
  assumes "lists_ok s" "modules s m = Some M"
  shows "distinct (ksm_kstat_list M)" "inj_on (kname_of s) (set (ksm_kstat_list M))"
    "k \<in> set (ksm_kstat_list M) \<Longrightarrow> \<exists>K. kstats s k = Some K \<and> ks_owner K = Some m \<and> ks_proc K \<noteq> None \<and> ks_module K = ksm_name M"
  using assms by (auto simp: lists_ok_def)

lemma stats_okD:
  assumes "stats_ok s" "kstats s k = Some K"
  shows "length (ks_module K) \<le> KSTAT_STRLEN" "length (ks_name K) \<le> KSTAT_STRLEN"
    "ks_proc K \<noteq> None \<Longrightarrow> \<exists>m M. ks_owner K = Some m \<and> modules s m = Some M \<and> k \<in> set (ksm_kstat_list M)"
  using assms by (auto simp: stats_ok_def)

lemma strneq_eq: "length a \<le> KSTAT_STRLEN \<Longrightarrow> length b \<le> KSTAT_STRLEN \<Longrightarrow> strneq a b \<longleftrightarrow> a = b"
  by (simp add: strneq_def)

lemma find_None:
  "mods_ok s \<Longrightarrow> length md \<le> KSTAT_STRLEN \<Longrightarrow> kstat_find_module md s = None \<longleftrightarrow> (\<forall>m M. modules s m = Some M \<longrightarrow> ksm_name M \<noteq> md)"
  by (auto simp: kstat_find_module_def find_None_iff mods_okD(2) name_of_def dom_def strneq_eq mods_okD(3) split: option.splits)

lemma find_Some:
  assumes "mods_ok s" "length md \<le> KSTAT_STRLEN"
  shows "kstat_find_module md s = Some m \<longleftrightarrow> (\<exists>M. modules s m = Some M \<and> ksm_name M = md)"
proof
  assume "kstat_find_module md s = Some m"
  then have "m \<in> set (kstat_module_list s)" "strneq md (name_of s m)"
    by (auto simp: kstat_find_module_def find_Some_iff)
  then show "\<exists>M. modules s m = Some M \<and> ksm_name M = md" using assms mods_okD(2,3) [OF assms(1)]
    by (auto simp: name_of_def strneq_eq)
next
  assume a: "\<exists>M. modules s m = Some M \<and> ksm_name M = md"
  then obtain n where n: "kstat_find_module md s = Some n" using find_None [OF assms] by (cases "kstat_find_module md s") auto
  then have "n \<in> set (kstat_module_list s)" "strneq md (name_of s n)"
    by (auto simp: kstat_find_module_def find_Some_iff)
  then obtain N where "modules s n = Some N" "ksm_name N = md" using assms mods_okD(2,3) [OF assms(1)]
    by (auto simp: name_of_def strneq_eq)
  then show "kstat_find_module md s = Some m" using n a mods_okD(4) [OF assms(1)] by metis
qed

text \<open>A name is taken in a module exactly if it is registered.\<close>

lemma reg_in_module:
  assumes "kreg_inv s" "modules s m = Some M" "length nm \<le> KSTAT_STRLEN"
  shows "(\<exists>k \<in> set (ksm_kstat_list M). strneq (kname_of s k) nm) \<longleftrightarrow> (ksm_name M, nm) \<in> Domain (reg s)"
proof
  have i: "mods_ok s" "lists_ok s" "stats_ok s" using assms(1) by (simp_all add: kreg_inv_def)
  assume "\<exists>k \<in> set (ksm_kstat_list M). strneq (kname_of s k) nm"
  then obtain k where k: "k \<in> set (ksm_kstat_list M)" "strneq (kname_of s k) nm" by blast
  from lists_okD(3) [OF i(2) assms(2) k(1)] obtain K where K: "kstats s k = Some K" "ks_proc K \<noteq> None" "ks_module K = ksm_name M" by blast
  then have "ks_name K = nm" using k(2) stats_okD(2) [OF i(3) K(1)] assms(3) by (simp add: kname_of_def strneq_eq)
  then show "(ksm_name M, nm) \<in> Domain (reg s)" using K by (auto simp: reg_Domain)
next
  have i: "mods_ok s" "stats_ok s" "lists_ok s" using assms(1) by (simp_all add: kreg_inv_def)
  assume "(ksm_name M, nm) \<in> Domain (reg s)"
  then obtain k K where K: "kstats s k = Some K" "ks_proc K \<noteq> None" "ks_module K = ksm_name M" "ks_name K = nm" by (auto simp: reg_Domain)
  from stats_okD(3) [OF i(2) K(1,2)] obtain n N where n: "modules s n = Some N" "k \<in> set (ksm_kstat_list N)" by blast
  then have "ksm_name N = ksm_name M" using lists_okD(3) [OF i(3) n] K by auto
  then have "n = m" using mods_okD(4) [OF i(1) n(1) assms(2)] by simp
  then show "\<exists>k \<in> set (ksm_kstat_list M). strneq (kname_of s k) nm"
    using n assms(2) K by (intro bexI [of _ k]) (auto simp: kname_of_def strneq_def)
qed

lemma module_registered:
  assumes "kreg_inv s"
  shows "(\<exists>m M. modules s m = Some M \<and> ksm_name M = md) \<longleftrightarrow> md \<in> fst ` Domain (reg s)"
proof
  have i: "lists_ok s" "no_empty s" using assms by (simp_all add: kreg_inv_def)
  assume "\<exists>m M. modules s m = Some M \<and> ksm_name M = md"
  then obtain m M where m: "modules s m = Some M" "ksm_name M = md" by blast
  then obtain k where "k \<in> set (ksm_kstat_list M)" using i(2) by (auto simp: no_empty_def) (meson list.set_sel(1))
  from lists_okD(3) [OF i(1) m(1) this] show "md \<in> fst ` Domain (reg s)" using m(2) by (force simp: reg_def)
next
  have i: "lists_ok s" "stats_ok s" using assms by (simp_all add: kreg_inv_def)
  assume "md \<in> fst ` Domain (reg s)"
  then obtain k K where K: "kstats s k = Some K" "ks_proc K \<noteq> None" "ks_module K = md" by (auto simp: reg_def)
  from stats_okD(3) [OF i(2) K(1,2)] obtain n N where n: "modules s n = Some N" "k \<in> set (ksm_kstat_list N)" by blast
  then show "\<exists>m M. modules s m = Some M \<and> ksm_name M = md" using lists_okD(3) [OF i(1) n] K by auto
qed

section \<open>Installing\<close>

text \<open>A module may be empty for a moment: the rest of the invariant.\<close>

definition core :: "kstat_sys \<Rightarrow> bool" where
  "core s \<longleftrightarrow> mods_ok s \<and> lists_ok s \<and> stats_ok s"

lemma kreg_core: "kreg_inv s \<longleftrightarrow> core s \<and> no_empty s"
  by (auto simp: kreg_inv_def core_def)

lemma installed_listed:
  assumes "core s" "kstats s k = Some K" "modules s m = Some M" "ksm_name M = ks_module K" "\<not> (\<exists>j \<in> set (ksm_kstat_list M). strneq (kname_of s j) (ks_name K))"
  shows "ks_proc K = None" "modules s n = Some N \<Longrightarrow> k \<notin> set (ksm_kstat_list N)"
proof -
  have i: "mods_ok s" "lists_ok s" "stats_ok s" using assms(1) by (simp_all add: core_def)
  have nk: "strneq (kname_of s k) (ks_name K)" using assms(2) by (simp add: kname_of_def strneq_def)
  show "k \<notin> set (ksm_kstat_list N)" if n: "modules s n = Some N" for n N
  proof
    assume k: "k \<in> set (ksm_kstat_list N)"
    then have "ksm_name N = ksm_name M" using lists_okD(3) [OF i(2) n k] assms(2,4) by auto
    then have "N = M" using mods_okD(4) [OF i(1) n assms(3)] n assms(3) by simp
    then show False using k nk assms(5) by blast
  qed
  then show "ks_proc K = None" using stats_okD(3) [OF i(3) assms(2)] by blast
qed

text \<open>The states of the two outcomes: the statistic is linked, or only its owner is set.\<close>

definition linked_in :: "addr \<Rightarrow> kstat_module \<Rightarrow> addr \<Rightarrow> kstat \<Rightarrow> addr \<Rightarrow> kstat_sys \<Rightarrow> kstat_sys" where
  "linked_in m M k K p s = s\<lparr>modules := (modules s)(m \<mapsto> M\<lparr>ksm_kstat_list := ksm_kstat_list M @ [k]\<rparr>),
     kstats := (kstats s)(k \<mapsto> K\<lparr>ks_owner := Some m, ks_proc := Some p\<rparr>)\<rparr>"

definition owned_by :: "addr \<Rightarrow> addr \<Rightarrow> kstat \<Rightarrow> kstat_sys \<Rightarrow> kstat_sys" where
  "owned_by m k K s = s\<lparr>kstats := (kstats s)(k \<mapsto> K\<lparr>ks_owner := Some m, ks_proc := None\<rparr>)\<rparr>"

definition without_module :: "addr \<Rightarrow> kstat_sys \<Rightarrow> kstat_sys" where
  "without_module m s = s\<lparr>kstat_module_list := removeAll m (kstat_module_list s), modules := (modules s)(m := None)\<rparr>"

lemma kname_of_upd:
  "kstats s k = Some K \<Longrightarrow> ks_name K' = ks_name K \<Longrightarrow> kname_of (s\<lparr>kstats := (kstats s)(k \<mapsto> K')\<rparr>) = kname_of s"
  by (auto simp: kname_of_def fun_eq_iff)

lemma kname_of_modules [simp]:
  "kname_of (s\<lparr>modules := x\<rparr>) = kname_of s" "kname_of (s\<lparr>modules := x, kstats := y\<rparr>) = kname_of (s\<lparr>kstats := y\<rparr>)"
  "kname_of (s\<lparr>kstat_module_list := z, modules := x\<rparr>) = kname_of s"
  by (simp_all add: kname_of_def fun_eq_iff)

lemma link_cases:
  assumes "kstats s k = Some K" "modules s m = Some M" "k \<notin> set (ksm_kstat_list M)"
  shows "kstat_link pe m k K s =
    (if \<exists>j \<in> set (ksm_kstat_list M). strneq (kname_of s j) (ks_name K) then Some s
     else case pe of Some p \<Rightarrow> Some (linked_in m M k K p s)
       | None \<Rightarrow> Some (if ksm_kstat_list M = [] then without_module m (owned_by m k K s) else owned_by m k K s))"
proof -
  have r: "removeAll k (ksm_kstat_list M @ [k]) = ksm_kstat_list M" using assms(3) by (simp add: removeAll_id)
  have m: "(modules s)(m \<mapsto> M) = modules s" using assms(2) by (auto simp: fun_eq_iff)
  have M: "M\<lparr>ksm_kstat_list := ksm_kstat_list M\<rparr> = M" by simp
  show ?thesis using assms r m M
    by (cases pe) (auto simp: kstat_link_def list_of_def Let_def upd_kstat_def upd_list_def kstat_delete_module_def linked_in_def
        owned_by_def without_module_def)
qed

lemma core_linked_in:
  assumes "core s" "kstats s k = Some K" "modules s m = Some M" "ksm_name M = ks_module K" "\<not> (\<exists>j \<in> set (ksm_kstat_list M). strneq (kname_of s j) (ks_name K))"
  shows "core (linked_in m M k K p s)" "reg (linked_in m M k K p s) = insert ((ks_module K, ks_name K), k) (reg s)"
    "pool (linked_in m M k K p s) = pool s"
proof -
  let ?s = "linked_in m M k K p s"
  note n = installed_listed [OF assms]
  have i: "mods_ok s" "lists_ok s" "stats_ok s" using assms(1) by (simp_all add: core_def)
  have kn: "kname_of ?s = kname_of s" using kname_of_upd [OF assms(2)] by (simp add: linked_in_def)
  have "ks_name K \<noteq> kname_of s j" if "j \<in> set (ksm_kstat_list M)" for j
    using assms(5) that by (auto simp: strneq_def)
  then have nk: "kname_of s k \<notin> kname_of s ` set (ksm_kstat_list M)" using assms(2) by (auto simp: kname_of_def)
  have "mods_ok ?s" using i(1) assms(3) by (auto simp: mods_ok_def linked_in_def)
  moreover have "lists_ok ?s" unfolding lists_ok_def
  proof (intro allI impI)
    fix x X
    assume x: "modules ?s x = Some X"
    show "distinct (ksm_kstat_list X) \<and> inj_on (kname_of ?s) (set (ksm_kstat_list X)) \<and>
      (\<forall>j \<in> set (ksm_kstat_list X). \<exists>J. kstats ?s j = Some J \<and> ks_owner J = Some x \<and> ks_proc J \<noteq> None \<and> ks_module J = ksm_name X)"
    proof (cases "x = m")
      case True
      then show ?thesis using x lists_okD [OF i(2) assms(3)] n(2) [OF assms(3)] nk assms(4) kn
        by (auto simp: linked_in_def inj_on_insert)
    next
      case False
      then have "modules s x = Some X" using x by (simp add: linked_in_def)
      then show ?thesis using lists_okD [OF i(2), of x X] n(2) [of x X] kn by (auto simp: linked_in_def)
    qed
  qed
  moreover have "stats_ok ?s" unfolding stats_ok_def
  proof (intro allI impI)
    fix j J
    assume j: "kstats ?s j = Some J"
    show "length (ks_module J) \<le> KSTAT_STRLEN \<and> length (ks_name J) \<le> KSTAT_STRLEN \<and>
      (ks_proc J \<noteq> None \<longrightarrow> (\<exists>m M. ks_owner J = Some m \<and> modules ?s m = Some M \<and> j \<in> set (ksm_kstat_list M)))"
    proof (cases "j = k")
      case True
      then show ?thesis using j stats_okD(1,2) [OF i(3) assms(2)] by (auto simp: linked_in_def)
    next
      case False
      then have "kstats s j = Some J" using j by (simp add: linked_in_def)
      then show ?thesis using stats_okD [OF i(3), of j J] assms(3) by (fastforce simp: linked_in_def)
    qed
  qed
  ultimately show "core ?s" by (simp add: core_def)
  show "reg ?s = insert ((ks_module K, ks_name K), k) (reg s)"
    using assms(2) n(1) by (auto simp: set_eq_iff reg_iff linked_in_def)
  show "pool ?s = pool s" using assms(2) by (auto simp: pool_def linked_in_def fun_eq_iff)
qed

lemma core_owned_by:
  assumes "core s" "kstats s k = Some K" "ks_proc K = None"
  shows "core (owned_by m k K s)" "reg (owned_by m k K s) = reg s" "pool (owned_by m k K s) = pool s"
proof -
  let ?s = "owned_by m k K s"
  have i: "mods_ok s" "lists_ok s" "stats_ok s" using assms(1) by (simp_all add: core_def)
  have kn: "kname_of ?s = kname_of s" using kname_of_upd [OF assms(2)] by (simp add: owned_by_def)
  have "mods_ok ?s" using i(1) by (simp add: mods_ok_def owned_by_def)
  moreover have "lists_ok ?s" unfolding lists_ok_def
  proof (intro allI impI)
    fix x X
    assume "modules ?s x = Some X"
    then have x: "modules s x = Some X" by (simp add: owned_by_def)
    then show "distinct (ksm_kstat_list X) \<and> inj_on (kname_of ?s) (set (ksm_kstat_list X)) \<and>
      (\<forall>j \<in> set (ksm_kstat_list X). \<exists>J. kstats ?s j = Some J \<and> ks_owner J = Some x \<and> ks_proc J \<noteq> None \<and> ks_module J = ksm_name X)"
      using lists_okD [OF i(2) x] assms(2,3) kn by (fastforce simp: owned_by_def)
  qed
  moreover have "stats_ok ?s" using i(3) assms(2) by (auto simp: stats_ok_def owned_by_def)
  ultimately show "core ?s" by (simp add: core_def)
  show "reg ?s = reg s" using assms(2,3) by (auto simp: set_eq_iff reg_iff owned_by_def)
  show "pool ?s = pool s" using assms(2) by (auto simp: pool_def owned_by_def fun_eq_iff)
qed

lemma core_without_module:
  assumes "core s" "modules s m = Some M" "ksm_kstat_list M = []"
  shows "core (without_module m s)" "reg (without_module m s) = reg s" "pool (without_module m s) = pool s"
proof -
  let ?s = "without_module m s"
  have i: "mods_ok s" "lists_ok s" "stats_ok s" using assms(1) by (simp_all add: core_def)
  have kn: "kname_of ?s = kname_of s" by (simp add: without_module_def kname_of_def fun_eq_iff)
  have "mods_ok ?s" using i(1) by (auto simp: mods_ok_def without_module_def distinct_removeAll)
  moreover have "lists_ok ?s" using i(2) kn by (simp add: lists_ok_def without_module_def)
  moreover have "stats_ok ?s" unfolding stats_ok_def
  proof (intro allI impI)
    fix k K
    assume "kstats ?s k = Some K"
    then have k: "kstats s k = Some K" by (simp add: without_module_def)
    show "length (ks_module K) \<le> KSTAT_STRLEN \<and> length (ks_name K) \<le> KSTAT_STRLEN \<and>
      (ks_proc K \<noteq> None \<longrightarrow> (\<exists>m M. ks_owner K = Some m \<and> modules ?s m = Some M \<and> k \<in> set (ksm_kstat_list M)))"
      using stats_okD [OF i(3) k] assms(2,3) by (fastforce simp: without_module_def)
  qed
  ultimately show "core ?s" by (simp add: core_def)
  show "reg ?s = reg s" "pool ?s = pool s" by (simp_all add: reg_def pool_def without_module_def)
qed

lemma core_create_module:
  assumes "core s" "modules s a = None" "length md \<le> KSTAT_STRLEN" "\<forall>m M. modules s m = Some M \<longrightarrow> ksm_name M \<noteq> md"
    "s' = s\<lparr>modules := (modules s)(a \<mapsto> \<lparr>ksm_name = md, ksm_kstat_list = [], ksm_proc = pd\<rparr>), kstat_module_list := kstat_module_list s @ [a]\<rparr>"
  shows "core s'" "reg s' = reg s" "pool s' = pool s"
proof -
  have i: "mods_ok s" "lists_ok s" "stats_ok s" using assms(1) by (simp_all add: core_def)
  have kn: "kname_of s' = kname_of s" by (simp add: assms(5) kname_of_def fun_eq_iff)
  have "mods_ok s'" using i(1) assms(2-4) by (auto simp: mods_ok_def assms(5))
  moreover have "lists_ok s'" using i(2) kn by (simp add: lists_ok_def assms(5))
  moreover have "stats_ok s'" unfolding stats_ok_def
  proof (intro allI impI)
    fix k K
    assume "kstats s' k = Some K"
    then have k: "kstats s k = Some K" by (simp add: assms(5))
    show "length (ks_module K) \<le> KSTAT_STRLEN \<and> length (ks_name K) \<le> KSTAT_STRLEN \<and>
      (ks_proc K \<noteq> None \<longrightarrow> (\<exists>m M. ks_owner K = Some m \<and> modules s' m = Some M \<and> k \<in> set (ksm_kstat_list M)))"
      using stats_okD [OF i(3) k] assms(2) by (fastforce simp: assms(5))
  qed
  ultimately show "core s'" by (simp add: core_def)
  show "reg s' = reg s" "pool s' = pool s" by (simp_all add: reg_def pool_def assms(5))
qed

lemma link_spec:
  assumes c: "core s" and k: "kstats s k = Some K" and m: "modules s m = Some M" "ksm_name M = ks_module K"
    and ne: "\<And>n N. modules s n = Some N \<Longrightarrow> n \<noteq> m \<Longrightarrow> ksm_kstat_list N \<noteq> []"
  shows "\<exists>s'. kstat_link pe m k K s = Some s' \<and> kreg_inv s' \<and> pool s' = pool s \<and>
    reg s' = (if (\<exists>j \<in> set (ksm_kstat_list M). strneq (kname_of s j) (ks_name K)) \<or> pe = None then reg s
              else insert ((ks_module K, ks_name K), k) (reg s))"
proof (cases "\<exists>j \<in> set (ksm_kstat_list M). strneq (kname_of s j) (ks_name K)")
  case True
  then have "no_empty s" unfolding no_empty_def using ne m(1) by force
  then show ?thesis using c True m(1) by (auto simp: kreg_core kstat_link_def list_of_def)
next
  case False
  note n = installed_listed [OF c k m False]
  note e = link_cases [OF k m(1) n(2) [OF m(1)], of pe]
  show ?thesis
  proof (cases pe)
    case (Some p)
    have "no_empty (linked_in m M k K p s)" unfolding no_empty_def using ne by (auto simp: linked_in_def)
    moreover have "kstat_link pe m k K s = Some (linked_in m M k K p s)" using e False Some by simp
    ultimately show ?thesis using core_linked_in [OF c k m False, of p] False Some by (simp add: kreg_core)
  next
    case None
    note o = core_owned_by [OF c k n(1), of m]
    have mo: "modules (owned_by m k K s) = modules s" by (simp add: owned_by_def)
    show ?thesis
    proof (cases "ksm_kstat_list M = []")
      case True
      have "no_empty (without_module m (owned_by m k K s))" unfolding no_empty_def using ne by (auto simp: without_module_def mo)
      moreover have "kstat_link pe m k K s = Some (without_module m (owned_by m k K s))" using e False None True by simp
      ultimately show ?thesis using core_without_module [OF o(1), of m M] m(1) True None o(2,3) by (simp add: kreg_core mo)
    next
      case False
      then have "no_empty (owned_by m k K s)" unfolding no_empty_def mo using ne m(1) by force
      moreover have "kstat_link pe m k K s = Some (owned_by m k K s)"
        using e \<open>\<not> (\<exists>j \<in> set (ksm_kstat_list M). strneq (kname_of s j) (ks_name K))\<close> None False by simp
      ultimately show ?thesis using o None by (simp add: kreg_core)
    qed
  qed
qed

text \<open>What the registry rejects: a name that is taken, and a new module whose name is that of a statistic.\<close>

definition collides :: "((string \<times> string) \<times> addr) set \<Rightarrow> string \<Rightarrow> bool" where
  "collides r md \<longleftrightarrow> (case strrchr CHR ''/'' md of None \<Rightarrow> False | Some i \<Rightarrow> (take i md, drop (i + 1) md) \<in> Domain r)"

lemma collision_iff:
  assumes i: "kreg_inv s" and l: "length (ks_module K) \<le> KSTAT_STRLEN"
  shows "kstat_detect_collision K s \<noteq> None \<longleftrightarrow> collides (reg s) (ks_module K)"
proof (cases "strrchr CHR ''/'' (ks_module K)")
  case (Some n)
  let ?a = "take n (ks_module K)" and ?b = "drop (n + 1) (ks_module K)"
  have la: "length ?a \<le> KSTAT_STRLEN" "length ?b \<le> KSTAT_STRLEN" using l by simp_all
  have mo: "mods_ok s" using i by (simp add: kreg_inv_def)
  show ?thesis
  proof (cases "kstat_find_module ?a s")
    case None
    then have "?a \<notin> fst ` Domain (reg s)" using find_None [OF mo la(1)] module_registered [OF i, of ?a] by blast
    then have "(?a, ?b) \<notin> Domain (reg s)" by force
    then show ?thesis using None Some by (simp add: kstat_detect_collision_def collides_def)
  next
    case (Some m)
    then obtain M where m: "modules s m = Some M" "ksm_name M = ?a" using find_Some [OF mo la(1)] by blast
    show ?thesis using reg_in_module [OF i m(1) la(2)] m Some \<open>strrchr CHR ''/'' (ks_module K) = Some n\<close>
      by (simp add: kstat_detect_collision_def collides_def list_of_def)
  qed
qed (simp add: kstat_detect_collision_def collides_def)

definition rejects :: "addr option \<Rightarrow> addr option \<Rightarrow> ((string \<times> string) \<times> addr) set \<Rightarrow> string \<Rightarrow> string \<Rightarrow> bool" where
  "rejects mk pe r md nm \<longleftrightarrow> (md, nm) \<in> Domain r \<or> pe = None \<or> md \<notin> fst ` Domain r \<and> (collides r md \<or> mk = None)"

lemma install_spec:
  assumes i: "kreg_inv s" and k: "kstats s k = Some K" and a: "modules s a = None"
  shows "\<exists>s'. kstat_install mk pe a k s = Some s' \<and> kreg_inv s' \<and> pool s' = pool s \<and>
    reg s' = (if rejects mk pe (reg s) (ks_module K) (ks_name K) then reg s else insert ((ks_module K, ks_name K), k) (reg s))"
proof -
  have c: "core s" "no_empty s" and mo: "mods_ok s" and st: "stats_ok s" using i by (simp_all add: kreg_core core_def)
  note l = stats_okD(1,2) [OF st k]
  show ?thesis
  proof (cases "kstat_find_module (ks_module K) s")
    case (Some m)
    then obtain M where m: "modules s m = Some M" "ksm_name M = ks_module K" using find_Some [OF mo l(1)] by blast
    have "ks_module K \<in> fst ` Domain (reg s)" using module_registered [OF i] m by blast
    moreover have "\<exists>s'. kstat_link pe m k K s = Some s' \<and> kreg_inv s' \<and> pool s' = pool s \<and>
        reg s' = (if (\<exists>j \<in> set (ksm_kstat_list M). strneq (kname_of s j) (ks_name K)) \<or> pe = None then reg s
                  else insert ((ks_module K, ks_name K), k) (reg s))"
      by (rule link_spec [OF c(1) k m]) (use c(2) in \<open>auto simp: no_empty_def\<close>)
    ultimately show ?thesis using reg_in_module [OF i m(1) l(2)] m k Some by (simp add: kstat_install_def rejects_def)
  next
    case None
    then have f: "\<forall>m M. modules s m = Some M \<longrightarrow> ksm_name M \<noteq> ks_module K" using find_None [OF mo l(1)] by blast
    then have nm: "ks_module K \<notin> fst ` Domain (reg s)" using module_registered [OF i] by blast
    then have nr: "(ks_module K, ks_name K) \<notin> Domain (reg s)" by force
    show ?thesis
    proof (cases "kstat_detect_collision K s \<noteq> None \<or> mk = None")
      case True
      then show ?thesis using i k None nm collision_iff [OF i l(1)]
        by (auto simp: kstat_install_def rejects_def kstat_create_module_def)
    next
      case False
      then obtain pd where pd: "mk = Some pd" by auto
      let ?M = "\<lparr>ksm_name = ks_module K, ksm_kstat_list = [], ksm_proc = pd\<rparr>"
      let ?s = "s\<lparr>modules := (modules s)(a \<mapsto> ?M), kstat_module_list := kstat_module_list s @ [a]\<rparr>"
      note n = core_create_module [OF c(1) a l(1) f, of ?s pd, OF refl]
      have e: "kstat_install mk pe a k s = kstat_link pe a k K ?s"
        using False k None pd l(1) by (simp add: kstat_install_def kstat_create_module_def)
      have "\<exists>s'. kstat_link pe a k K ?s = Some s' \<and> kreg_inv s' \<and> pool s' = pool ?s \<and>
        reg s' = (if (\<exists>j \<in> set (ksm_kstat_list ?M). strneq (kname_of ?s j) (ks_name K)) \<or> pe = None then reg ?s
                  else insert ((ks_module K, ks_name K), k) (reg ?s))"
        by (rule link_spec [OF n(1)]) (use c(2) k in \<open>auto simp: no_empty_def split: if_splits\<close>)
      then show ?thesis unfolding e n(2,3) using False nr nm collision_iff [OF i l(1)] by (cases pe) (auto simp: rejects_def)
    qed
  qed
qed

section \<open>Deleting\<close>

definition gone :: "addr \<Rightarrow> kstat_sys \<Rightarrow> kstat_sys" where
  "gone k s = (kstat_delete_unlink k s)\<lparr>kstats := (kstats s)(k := None)\<rparr>"

lemma modules_gone: "modules (gone k s) m = map_option (\<lambda>M. M\<lparr>ksm_kstat_list := removeAll k (ksm_kstat_list M)\<rparr>) (modules s m)"
  by (simp add: gone_def kstat_delete_unlink_def)

lemma core_gone:
  assumes "core s"
  shows "core (gone k s)" "reg (gone k s) = {x \<in> reg s. snd x \<noteq> k}" "pool (gone k s) = (pool s)(k := None)"
proof -
  let ?s = "gone k s"
  have i: "mods_ok s" "lists_ok s" "stats_ok s" using assms by (simp_all add: core_def)
  have ks: "kstats ?s = (kstats s)(k := None)" by (simp add: gone_def kstat_delete_unlink_def)
  have kn: "kname_of ?s j = kname_of s j" if "j \<noteq> k" for j using that by (simp add: kname_of_def ks)
  have "mods_ok ?s" using i(1) by (auto simp: mods_ok_def modules_gone gone_def kstat_delete_unlink_def dom_def)
  moreover have "lists_ok ?s" unfolding lists_ok_def
  proof (intro allI impI)
    fix m X
    assume "modules ?s m = Some X"
    then obtain M where m: "modules s m = Some M" and X: "X = M\<lparr>ksm_kstat_list := removeAll k (ksm_kstat_list M)\<rparr>" by (auto simp: modules_gone)
    have "inj_on (kname_of ?s) (set (ksm_kstat_list M) - {k})"
      using lists_okD(2) [OF i(2) m] kn by (auto simp: inj_on_def)
    then show "distinct (ksm_kstat_list X) \<and> inj_on (kname_of ?s) (set (ksm_kstat_list X)) \<and>
      (\<forall>j \<in> set (ksm_kstat_list X). \<exists>J. kstats ?s j = Some J \<and> ks_owner J = Some m \<and> ks_proc J \<noteq> None \<and> ks_module J = ksm_name X)"
      using lists_okD(1,3) [OF i(2) m] by (auto simp: X ks distinct_removeAll)
  qed
  moreover have "stats_ok ?s" unfolding stats_ok_def
  proof (intro allI impI)
    fix j J
    assume "kstats ?s j = Some J"
    then have j: "kstats s j = Some J" "j \<noteq> k" by (auto simp: ks split: if_splits)
    show "length (ks_module J) \<le> KSTAT_STRLEN \<and> length (ks_name J) \<le> KSTAT_STRLEN \<and>
      (ks_proc J \<noteq> None \<longrightarrow> (\<exists>m M. ks_owner J = Some m \<and> modules ?s m = Some M \<and> j \<in> set (ksm_kstat_list M)))"
      using stats_okD [OF i(3) j(1)] j(2) by (fastforce simp: modules_gone)
  qed
  ultimately show "core ?s" by (simp add: core_def)
  show "reg ?s = {x \<in> reg s. snd x \<noteq> k}" by (auto simp: set_eq_iff reg_iff ks)
  show "pool ?s = (pool s)(k := None)" by (auto simp: pool_def ks fun_eq_iff)
qed

lemma delete_spec:
  assumes i: "kreg_inv s" and k: "kstats s k = Some K"
  shows "\<exists>s'. kstat_delete k s = Some s' \<and> kreg_inv s' \<and> pool s' = (pool s)(k := None) \<and> reg s' = {x \<in> reg s. snd x \<noteq> k}"
proof -
  have c: "core s" "no_empty s" and lo: "lists_ok s" and st: "stats_ok s" using i by (simp_all add: kreg_core core_def)
  note g = core_gone [OF c(1), of k]
  have ku: "kstats (kstat_delete_unlink k s) = kstats s" by (simp add: kstat_delete_unlink_def)
  have mu: "modules (kstat_delete_unlink k s) = modules (gone k s)" by (simp add: gone_def)
  have keep: "ksm_kstat_list N \<noteq> []" if h: "modules (gone k s) n = Some N" "ks_proc K = None \<or> ks_owner K \<noteq> Some n" for n N
  proof -
    obtain M where M: "modules s n = Some M" "N = M\<lparr>ksm_kstat_list := removeAll k (ksm_kstat_list M)\<rparr>" using h(1) by (auto simp: modules_gone)
    have "k \<notin> set (ksm_kstat_list M)" using lists_okD(3) [OF lo M(1), of k] h(2) k by auto
    then show ?thesis using c(2) M by (auto simp: no_empty_def removeAll_id)
  qed
  show ?thesis
  proof (cases "ks_proc K = None")
    case True
    then have "kstat_delete k s = Some (gone k s)" using k by (simp add: kstat_delete_def kstat_delete_rest_def ku gone_def)
    moreover have "no_empty (gone k s)" using keep True by (auto simp: no_empty_def)
    ultimately show ?thesis using g by (simp add: kreg_core)
  next
    case False
    then obtain m M where m: "ks_owner K = Some m" "modules s m = Some M" using stats_okD(3) [OF st k] by blast
    define N where "N = M\<lparr>ksm_kstat_list := removeAll k (ksm_kstat_list M)\<rparr>"
    have N: "modules (gone k s) m = Some N" by (simp add: modules_gone m(2) N_def)
    show ?thesis
    proof (cases "ksm_kstat_list N = []")
      case True
      then have "kstat_delete k s = Some (without_module m (gone k s))" using k False m(1) N
        by (auto simp: kstat_delete_def kstat_delete_rest_def kstat_delete_module_def ku mu without_module_def Let_def)
          (simp_all add: gone_def kstat_delete_unlink_def)
      moreover have "no_empty (without_module m (gone k s))" using keep m(1) by (auto simp: no_empty_def without_module_def)
      ultimately show ?thesis using core_without_module [OF g(1) N True] g(2,3) by (simp add: kreg_core)
    next
      case False
      then have "kstat_delete k s = Some (gone k s)" using k \<open>ks_proc K \<noteq> None\<close> m(1) N
        by (simp add: kstat_delete_def kstat_delete_rest_def ku mu) (simp add: gone_def)
      moreover have "no_empty (gone k s)" unfolding no_empty_def using keep m(1) N False by (metis option.inject)
      ultimately show ?thesis using g by (simp add: kreg_core)
    qed
  qed
qed

section \<open>Runs\<close>

datatype kstat_op =
    Create addr addr u64 string int string string u8 u32 u8
  | Install "addr option" "addr option" addr addr
  | Delete addr

fun kstat_op_step :: "kstat_op \<Rightarrow> kstat_sys \<Rightarrow> kstat_sys option" where
  "kstat_op_step (Create k d now md i nm cls typ n fl) s = map_option snd (kstat_create (Some k) (Some d) now md i nm cls typ n fl s)"
| "kstat_op_step (Install mk pe a k) s = kstat_install mk pe a k s"
| "kstat_op_step (Delete k) s = kstat_delete k s"

text \<open>The allocator gives memory that is not in use, the type is one of the five, and callers pass statistics that exist.\<close>

fun op_allowed :: "kstat_op \<Rightarrow> kstat_sys \<Rightarrow> bool" where
  "op_allowed (Create k d now md i nm cls typ n fl) s \<longleftrightarrow> kstats s k = None \<and> typ \<le> KSTAT_TYPE_TIMER"
| "op_allowed (Install mk pe a k) s \<longleftrightarrow> kstats s k \<noteq> None \<and> modules s a = None"
| "op_allowed (Delete k) s \<longleftrightarrow> kstats s k \<noteq> None"

type_synonym aregistry = "(addr \<rightharpoonup> string \<times> string) \<times> ((string \<times> string) \<times> addr) set"

fun abstract_op :: "kstat_op \<Rightarrow> aregistry \<Rightarrow> aregistry" where
  "abstract_op (Create k d now md i nm cls typ n fl) (p, r) = (p(k \<mapsto> (take KSTAT_STRLEN md, take KSTAT_STRLEN nm)), r)"
| "abstract_op (Install mk pe a k) (p, r) =
     (case p k of
        None \<Rightarrow> (p, r)
      | Some (md, nm) \<Rightarrow> if rejects mk pe r md nm then (p, r) else (p, insert ((md, nm), k) r))"
| "abstract_op (Delete k) (p, r) = (p(k := None), {x \<in> r. snd x \<noteq> k})"

fun kstat_run :: "kstat_op list \<Rightarrow> kstat_sys \<Rightarrow> kstat_sys option" where
  "kstat_run [] s = Some s"
| "kstat_run (x # xs) s = (if op_allowed x s then Option.bind (kstat_op_step x s) (kstat_run xs) else None)"

lemma sizes_known: "typ \<le> KSTAT_TYPE_TIMER \<Longrightarrow> \<exists>nd sz. ks_sizes typ n = Some (nd, sz)"
proof -
  assume "typ \<le> KSTAT_TYPE_TIMER"
  then have "unat typ \<le> 4" by (simp add: ks_type_defs word_le_nat_alt)
  then have "unat typ \<in> {0, 1, 2, 3, 4}" by auto
  then have "typ \<in> of_nat ` {0, 1, 2, 3, 4}" by (intro image_eqI [of _ _ "unat typ"]) simp_all
  then have "typ \<in> {0, 1, 2, 3, 4}" by simp
  then show ?thesis by (auto simp: ks_sizes_def ks_type_defs)
qed

lemma create_spec:
  assumes i: "kreg_inv s" and k: "kstats s k = None" and t: "typ \<le> KSTAT_TYPE_TIMER"
  shows "\<exists>s'. kstat_create (Some k) (Some d) now md inst nm cls typ n fl s = Some (Some k, s') \<and> kreg_inv s' \<and> reg s' = reg s \<and>
    pool s' = (pool s)(k \<mapsto> (take KSTAT_STRLEN md, take KSTAT_STRLEN nm))"
proof -
  have o: "mods_ok s" "lists_ok s" "stats_ok s" "no_empty s" using i by (simp_all add: kreg_inv_def)
  obtain nd sz where z: "ks_sizes typ n = Some (nd, sz)" using sizes_known [OF t] by blast
  obtain K where c: "kstat_create (Some k) (Some d) now md inst nm cls typ n fl s = Some (Some k, s\<lparr>kstat_id := kstat_id s + 1, kstats := (kstats s)(k \<mapsto> K)\<rparr>)"
    "ks_module K = take KSTAT_STRLEN md" "ks_name K = take KSTAT_STRLEN nm" "ks_proc K = None"
    using z by (cases "fl AND KSTAT_FLAG_VIRTUAL = 0") (auto simp: kstat_create_def)
  let ?s = "s\<lparr>kstat_id := kstat_id s + 1, kstats := (kstats s)(k \<mapsto> K)\<rparr>"
  have kn: "kname_of ?s j = kname_of s j" if "j \<noteq> k" for j using that by (simp add: kname_of_def)
  have nk: "k \<notin> set (ksm_kstat_list M)" if m: "modules s m = Some M" for m M using lists_okD(3) [OF o(2) m, of k] k by auto
  have "mods_ok ?s" "no_empty ?s" using o(1,4) by (simp_all add: mods_ok_def no_empty_def)
  moreover have "lists_ok ?s" unfolding lists_ok_def
  proof (intro allI impI)
    fix m M
    assume "modules ?s m = Some M"
    then have m: "modules s m = Some M" by simp
    have "inj_on (kname_of ?s) (set (ksm_kstat_list M)) = inj_on (kname_of s) (set (ksm_kstat_list M))"
      by (rule inj_on_cong) (use nk [OF m] kn in metis)
    then show "distinct (ksm_kstat_list M) \<and> inj_on (kname_of ?s) (set (ksm_kstat_list M)) \<and>
      (\<forall>j \<in> set (ksm_kstat_list M). \<exists>J. kstats ?s j = Some J \<and> ks_owner J = Some m \<and> ks_proc J \<noteq> None \<and> ks_module J = ksm_name M)"
      using lists_okD [OF o(2) m] nk [OF m] by auto
  qed
  moreover have "stats_ok ?s" using o(3) c(2-4) by (simp add: stats_ok_def)
  ultimately have "kreg_inv ?s" by (simp add: kreg_inv_def)
  moreover have "reg ?s = reg s" using k c(4) by (auto simp: set_eq_iff reg_iff)
  moreover have "pool ?s = (pool s)(k \<mapsto> (take KSTAT_STRLEN md, take KSTAT_STRLEN nm))" using c(2,3) by (auto simp: pool_def fun_eq_iff)
  ultimately show ?thesis using c(1) by blast
qed

interpretation kr: stepwise_refinement kreg_inv "\<lambda>s. (pool s, reg s)" kstat_op_step abstract_op op_allowed
proof unfold_locales
  fix s x
  assume i: "kreg_inv s" and al: "op_allowed x s"
  show "\<exists>s'. kstat_op_step x s = Some s' \<and> kreg_inv s' \<and> (pool s', reg s') = abstract_op x (pool s, reg s)"
  proof (cases x)
    case (Create k d now md ins nm cls ty n fl)
    then show ?thesis using create_spec [OF i, of k ty d now md ins nm cls n fl] al by auto
  next
    case (Install mk pe a k)
    then obtain K where K: "kstats s k = Some K" "modules s a = None" using al by auto
    then show ?thesis using install_spec [OF i K, of mk pe] Install by (auto simp: pool_def)
  next
    case (Delete k)
    then obtain K where K: "kstats s k = Some K" using al by auto
    then show ?thesis using delete_spec [OF i K] Delete by auto
  qed
qed

lemma kstat_run_run: "kstat_run xs s = Some s' \<Longrightarrow> kr.run s xs s'"
  by (induction xs arbitrary: s) (auto intro: kr.run_Nil kr.run_Cons split: if_splits bind_splits)

lemma kreg_init: "kreg_inv spl_kstat_init" "pool spl_kstat_init = Map.empty" "reg spl_kstat_init = {}"
  by (auto simp: spl_kstat_init_def kreg_inv_def mods_ok_def lists_ok_def stats_ok_def no_empty_def pool_def reg_def)

lemma reg_unique:
  assumes "kreg_inv s" "(x, j) \<in> reg s" "(x, k) \<in> reg s"
  shows "j = k"
proof -
  have o: "mods_ok s" "lists_ok s" "stats_ok s" using assms(1) by (simp_all add: kreg_inv_def)
  obtain J K where J: "kstats s j = Some J" "ks_proc J \<noteq> None" "x = (ks_module J, ks_name J)"
    and K: "kstats s k = Some K" "ks_proc K \<noteq> None" "x = (ks_module K, ks_name K)" using assms(2,3) by (auto simp: reg_iff)
  obtain m M n N where m: "modules s m = Some M" "j \<in> set (ksm_kstat_list M)" and n: "modules s n = Some N" "k \<in> set (ksm_kstat_list N)"
    using stats_okD(3) [OF o(3) J(1,2)] stats_okD(3) [OF o(3) K(1,2)] by blast
  have "ksm_name M = ksm_name N" using lists_okD(3) [OF o(2) m] lists_okD(3) [OF o(2) n] J K by auto
  then have "M = N" using mods_okD(4) [OF o(1) m(1) n(1)] m n by simp
  then show ?thesis using lists_okD(2) [OF o(2) m(1)] m n J K by (auto simp: inj_on_def kname_of_def)
qed

lemma fini_ok:
  assumes "kreg_inv s" "reg s = {}"
  shows "spl_kstat_fini s"
proof -
  have "modules s m = None" for m using module_registered [OF assms(1)] assms(2) by (cases "modules s m") auto
  then have "set (kstat_module_list s) = {}" using mods_okD(2) [of s] assms(1) by (auto simp: kreg_inv_def)
  then show ?thesis by (simp add: spl_kstat_fini_def)
qed

section \<open>Properties\<close>

text \<open>C32: The registry implements a set of named statistics: after any run of creating, installing and deleting, whether
  or not proc entries can be made, the installed statistics are those of the abstract registry, where installing
  rejects a name that is taken and a module that would hide a statistic; no name is installed twice, no operation
  touches freed memory, and once nothing is installed no module is left, as unloading asserts.\<close>

theorem kstat_registry_refines:
  assumes "kstat_run xs spl_kstat_init = Some s"
  shows "(pool s, reg s) = fold abstract_op xs (Map.empty, {}) \<and> (\<forall>x j k. (x, j) \<in> reg s \<and> (x, k) \<in> reg s \<longrightarrow> j = k) \<and>
    (\<forall>x. op_allowed x s \<longrightarrow> kstat_op_step x s \<noteq> None) \<and> (reg s = {} \<longrightarrow> spl_kstat_fini s)"
proof -
  note r = kstat_run_run [OF assms]
  note i = kr.run_refines [OF r kreg_init(1), unfolded kreg_init(2,3)]
  show ?thesis using i reg_unique [of s] fini_ok [of s] kr.never_stuck [OF r kreg_init(1)] by auto
qed

definition demo_ops :: "kstat_op list" where
  "demo_ops = [Create 1 0x1000 5 ''zfs'' 0 ''arcstats'' ''misc'' KSTAT_TYPE_NAMED 3 0,
     Create 2 0x2000 6 ''zfs'' 0 ''zil'' ''misc'' KSTAT_TYPE_NAMED 4 0, Create 3 0x3000 7 ''zfs'' 0 ''zil'' ''misc'' KSTAT_TYPE_IO 1 0,
     Install (Some 100) (Some 101) 50 1, Install None (Some 102) 51 2, Install None (Some 103) 52 3]"

lemmas op_defs = kstat_create_def kstat_install_def kstat_link_def kstat_find_module_def kstat_detect_collision_def kstat_create_module_def
  upd_kstat_def upd_list_def list_of_def kname_of_def name_of_def strneq_def KSTAT_STRLEN_def spl_kstat_init_def ks_sizes_def ks_type_defs
  KSTAT_FLAG_VIRTUAL_def

lemma demo_ops_run:
  "\<exists>s M. kstat_run demo_ops spl_kstat_init = Some s \<and> modules s 50 = Some M \<and> ksm_kstat_list M = [1, 2]"
  by (simp add: demo_ops_def op_defs)

theorem kstat_registry_refines_witness:
  "\<exists>s. kstat_run demo_ops spl_kstat_init = Some s \<and> reg s = {((''zfs'', ''arcstats''), 1), ((''zfs'', ''zil''), 2)}"
proof -
  obtain s where s: "kstat_run demo_ops spl_kstat_init = Some s" using demo_ops_run by blast
  have "snd (fold abstract_op demo_ops (Map.empty, {})) = {((''zfs'', ''arcstats''), 1), ((''zfs'', ''zil''), 2)}"
    by (auto simp: demo_ops_def rejects_def collides_def KSTAT_STRLEN_def)
  then show ?thesis using kstat_registry_refines [OF s] s by (metis snd_conv)
qed

text \<open>C33: Deleting is safe only one at a time: when two threads delete the last two statistics of a module, and both unlink
  theirs before either goes on, the first frees the module and the second uses and frees it again, although the two
  deletions one after the other succeed.  The list of modules is changed outside the lock.\<close>

theorem kstat_delete_race:
  assumes "kstat_run xs spl_kstat_init = Some s" "modules s m = Some M" "ksm_kstat_list M = [j, k]"
  shows "(\<exists>s'. kstat_delete_rest j (kstat_delete_unlink k (kstat_delete_unlink j s)) = Some s' \<and> kstat_delete_rest k s' = None) \<and>
    (\<exists>s'. Option.bind (kstat_delete j s) (kstat_delete k) = Some s')"
proof -
  have i: "kreg_inv s" using kr.run_refines [OF kstat_run_run [OF assms(1)] kreg_init(1)] by blast
  then have lo: "lists_ok s" by (simp add: kreg_inv_def)
  obtain J K where J: "kstats s j = Some J" "ks_owner J = Some m" "ks_proc J \<noteq> None"
    and K: "kstats s k = Some K" "ks_owner K = Some m" "ks_proc K \<noteq> None"
    using lists_okD(3) [OF lo assms(2), of j] lists_okD(3) [OF lo assms(2), of k] assms(3) by auto
  have d: "j \<noteq> k" using lists_okD(1) [OF lo assms(2)] assms(3) by auto
  obtain s1 where s1: "kstat_delete j s = Some s1" "kreg_inv s1" "pool s1 = (pool s)(j := None)" using delete_spec [OF i J(1)] by blast
  then have "pool s1 k \<noteq> None" using K(1) d by (simp add: pool_def)
  then obtain K' where "kstats s1 k = Some K'" by (auto simp: pool_def)
  from delete_spec [OF s1(2) this] have "\<exists>s'. Option.bind (kstat_delete j s) (kstat_delete k) = Some s'" using s1(1) by auto
  moreover have "\<exists>s'. kstat_delete_rest j (kstat_delete_unlink k (kstat_delete_unlink j s)) = Some s' \<and> kstat_delete_rest k s' = None"
    using J K d assms(2,3) by (auto simp: kstat_delete_rest_def kstat_delete_unlink_def kstat_delete_module_def)
  ultimately show ?thesis by blast
qed

theorem kstat_delete_race_witness:
  "\<exists>s s'. kstat_run demo_ops spl_kstat_init = Some s \<and>
     kstat_delete_rest 1 (kstat_delete_unlink 2 (kstat_delete_unlink 1 s)) = Some s' \<and> kstat_delete_rest 2 s' = None"
proof -
  obtain s M where s: "kstat_run demo_ops spl_kstat_init = Some s" "modules s 50 = Some M" "ksm_kstat_list M = [1, 2]" using demo_ops_run by blast
  then show ?thesis using kstat_delete_race [OF s] by blast
qed

text \<open>A string of length 0 is ended 4 GiB behind its start: the length is unsigned.\<close>

lemma empty_string_write:
  assumes "data_type knp = KSTAT_DATA_STRING" "KSTAT_NAMED_STR_BUFLEN knp = 0"
  shows "\<exists>out. kstat_seq_show_named mem knp = Some (out, mem(KSTAT_NAMED_STR_PTR knp + (2 ^ 32 - 1) := 0), knp)"
proof -
  have "unat (- 1 :: u32) = 2 ^ 32 - 1" by (simp add: unsigned_minus_1_eq_mask mask_eq_exp_minus_1)
  then show ?thesis using assms by (simp add: kstat_seq_show_named_def ks_data_defs Let_def del: upt_Suc)
qed

end
