(* ===== verification/Spl_Proc.thy ===== *)
theory Spl_Proc
  imports Linux_List Taskq Kmem_Cache Spl_Kstat
begin

text \<open>
  The proc files and sysctl entries, \<^verbatim>\<open>module/spl/spl-proc.c\<close>: copying strings from and to user memory, the slab
  totals, the host id, the listings of task queues and caches, and making and removing the entries.  The kernel's
  user memory copies, number parser and proc file system are parameters.
\<close>

section \<open>Copying strings\<close>

text \<open>
  The buffer is memory around address 0 with a log of the indices that are read and written one by one; a fault of
  the copy is \<open>None\<close>.  The loop \<^verbatim>\<open>while (size-- >= 0)\<close> looks at \<open>size - 1\<close> first and leaves with the index of the last
  character that is no space.
\<close>

function strip_loop :: "(u8 \<Rightarrow> bool) \<Rightarrow> (int \<Rightarrow> u8) \<Rightarrow> int \<Rightarrow> int \<times> int list" where
  "strip_loop isspace kb sz =
     (if sz \<ge> 0 then
        if \<not> isspace (kb (sz - 1)) then (sz - 1, [sz - 1])
        else (case strip_loop isspace kb (sz - 1) of (n, rs) \<Rightarrow> (n, (sz - 1) # rs))
      else (sz - 1, []))"
  by auto
termination by (relation "measure (\<lambda>(f, kb, sz). nat (sz + 1))") auto

declare strip_loop.simps [simp del]

definition fill :: "(int \<Rightarrow> u8) \<Rightarrow> u8 list \<Rightarrow> int \<Rightarrow> u8" where
  "fill kb bs = (\<lambda>i. if 0 \<le> i \<and> nat i < length bs then bs ! nat i else kb i)"

record copyin =
  ci_rc :: "errno option"
  ci_buf :: "int \<Rightarrow> u8"
  ci_reads :: "int list"
  ci_writes :: "int list"

definition proc_copyin_string :: "(u8 \<Rightarrow> bool) \<Rightarrow> (int \<Rightarrow> u8) \<Rightarrow> nat \<Rightarrow> u8 list option \<Rightarrow> nat \<Rightarrow> copyin" where
  "proc_copyin_string isspace kb kbuffer_size ubuffer ubuffer_size =
     (if ubuffer_size > kbuffer_size then \<lparr>ci_rc = Some EOVERFLOW, ci_buf = kb, ci_reads = [], ci_writes = []\<rparr>
      else case ubuffer of
        None \<Rightarrow> \<lparr>ci_rc = Some EFAULT, ci_buf = kb, ci_reads = [], ci_writes = []\<rparr>
      | Some bs \<Rightarrow>
          let kb1 = fill kb bs;
              (sz, rs) = strip_loop isspace kb1 (int (length (takeWhile (\<lambda>c. c \<noteq> 0) bs)))
          in if sz < 0 then \<lparr>ci_rc = Some EINVAL, ci_buf = kb1, ci_reads = rs, ci_writes = []\<rparr>
             else if sz = int kbuffer_size then \<lparr>ci_rc = Some EOVERFLOW, ci_buf = kb1, ci_reads = rs, ci_writes = []\<rparr>
             else \<lparr>ci_rc = None, ci_buf = kb1(sz + 1 := 0), ci_reads = rs, ci_writes = [sz + 1]\<rparr>)"

text \<open>\<open>ok\<close> says whether user memory of a length can be written; the result is what arrived there.\<close>

definition proc_copyout_string :: "(nat \<Rightarrow> bool) \<Rightarrow> nat \<Rightarrow> u8 list \<Rightarrow> u8 option \<Rightarrow> errno + u8 list" where
  "proc_copyout_string ok ubuffer_size kbuffer app =
     (let s = take ubuffer_size kbuffer
      in if \<not> ok (length s) then Inl EFAULT
         else case app of
           Some c \<Rightarrow> if length s < ubuffer_size then (if \<not> ok (length s + 1) then Inl EFAULT else Inr (s @ [c])) else Inr s
         | None \<Rightarrow> Inr s)"

section \<open>The host id\<close>

fun hex_digits :: "nat \<Rightarrow> u8 list" where
  "hex_digits n = (if n < 16 then [] else hex_digits (n div 16)) @ [of_nat (if n mod 16 < 10 then 48 + n mod 16 else 87 + n mod 16)]"

declare hex_digits.simps [simp del]

text \<open>Writing: \<open>simple_strtoul\<close> gives the value and the length of the number at the start of the string.\<close>

definition proc_dohostid_write ::
  "(u8 list \<Rightarrow> u64 \<times> nat) \<Rightarrow> (u8 \<Rightarrow> bool) \<Rightarrow> (int \<Rightarrow> u8) \<Rightarrow> u8 list option \<Rightarrow> nat \<Rightarrow> u64 \<Rightarrow> errno option \<times> u64" where
  "proc_dohostid_write strtoul isspace str buffer lenp spl_hostid =
     (let c = proc_copyin_string isspace str 32 buffer lenp
      in if ci_rc c \<noteq> None then (ci_rc c, spl_hostid)
         else let s = takeWhile (\<lambda>b. b \<noteq> 0) (map (\<lambda>i. ci_buf c (int i)) [0..<33]); (v, n) = strtoul s
              in if n = 0 then (Some EINVAL, v) else (None, v))"

definition proc_dohostid_read :: "(nat \<Rightarrow> bool) \<Rightarrow> u32 \<Rightarrow> nat \<Rightarrow> nat \<Rightarrow> (errno + u8 list) \<times> nat" where
  "proc_dohostid_read ok hostid lenp ppos =
     (let str = hex_digits (unat hostid)
      in if ppos \<ge> length str then (Inr [], ppos)
         else case proc_copyout_string ok lenp (drop ppos str) (Some 10) of
           Inl e \<Rightarrow> (Inl e, ppos)
         | Inr out \<Rightarrow> (Inr out, ppos + length out))"

section \<open>Slab totals\<close>

definition KMC_TOTAL :: u64 where "KMC_TOTAL = push_bit 18 1"
definition KMC_ALLOC :: u64 where "KMC_ALLOC = push_bit 19 1"
definition KMC_MAX :: u64 where "KMC_MAX = push_bit 20 1"

text \<open>The value a read shows; a write only moves the position.\<close>

definition proc_doslab_val :: "u64 \<Rightarrow> spl_kmem_cache list \<Rightarrow> u64" where
  "proc_doslab_val msk caches = fold (\<lambda>skc val.
     if skc_flags skc AND msk = 0 then val
     else let sel = msk AND (KMC_TOTAL OR KMC_ALLOC OR KMC_MAX)
          in if sel = KMC_TOTAL then val + ucast (skc_slab_size skc) * of_int (skc_slab_total skc)
             else if sel = KMC_ALLOC then val + ucast (skc_obj_size skc) * of_int (skc_obj_alloc skc)
             else if sel = KMC_MAX then val + ucast (skc_obj_size skc) * of_int (skc_obj_max skc)
             else val) caches 0"

datatype ctl_result = Ctl_written nat | Ctl_value u64

definition proc_doslab :: "bool \<Rightarrow> u64 \<Rightarrow> spl_kmem_cache list \<Rightarrow> nat \<Rightarrow> nat \<Rightarrow> ctl_result" where
  "proc_doslab write msk caches lenp ppos = (if write then Ctl_written (ppos + lenp) else Ctl_value (proc_doslab_val msk caches))"

definition proc_domemused :: "bool \<Rightarrow> kmem_state \<Rightarrow> nat \<Rightarrow> nat \<Rightarrow> ctl_result" where
  "proc_domemused write s lenp ppos = (if write then Ctl_written (ppos + lenp) else Ctl_value (kmem_alloc_used s))"

section \<open>Listing the task queues\<close>

definition TAB :: string where "TAB = [CHR 0x09]"

definition taskq_seq_show_headers :: seq_out where
  "taskq_seq_show_headers = [(''%-25s %5s %5s %5s %5s %5s %5s %12s %5s %10s'' @ NL,
     map Str [''taskq'', ''act'', ''nthr'', ''spwn'', ''maxt'', ''pri'', ''mina'', ''maxa'', ''cura'', ''flags''])]"

fun show_active :: "nat \<Rightarrow> taskq_thread list \<Rightarrow> seq_out" where
  "show_active j [] = []"
| "show_active j (t # ts) =
     (if j = 0 then [(TAB @ ''%s:'', [Str ''active''])] else if j = 2 then [(NL @ TAB @ ''       '', [])] else []) @
     [('' [%d]%pf(%ps)'', [Num (int (tqt_thread t)), Num (case tqent_func (tqt_task t) of None \<Rightarrow> 0 | Some f \<Rightarrow> int f),
        Num (uint (tqent_arg (tqt_task t)))])] @
     show_active (if j = 2 then 1 else j + 1) ts"

text \<open>One of the lists \<open>pend\<close>, \<open>prio\<close>, \<open>delay\<close> and \<open>wait\<close>; \<open>w\<close> is the number of items on a line.\<close>

fun show_list :: "nat \<Rightarrow> string \<Rightarrow> nat \<Rightarrow> ('a \<Rightarrow> string \<times> farg list) \<Rightarrow> nat \<Rightarrow> 'a list \<Rightarrow> seq_out" where
  "show_list spl_max_show_tasks nm w item j [] = []"
| "show_list spl_max_show_tasks nm w item j (x # xs) =
     (if spl_max_show_tasks \<noteq> 0 \<and> j \<ge> spl_max_show_tasks then [(NL @ TAB @ ''(truncated)'', [])]
      else (if j = 0 then [(TAB @ ''%s:'', [Str nm])] else if j mod w = 0 then [(NL @ TAB @ ''     '', [])] else []) @
        [item x] @ show_list spl_max_show_tasks nm w item (j + 1) xs)"

definition show_lhead :: "nat \<Rightarrow> string \<Rightarrow> nat \<Rightarrow> ('a \<Rightarrow> string \<times> farg list) \<Rightarrow> 'a list \<Rightarrow> seq_out" where
  "show_lhead mx nm w item xs = (if xs = [] then [] else show_list mx nm w item 0 xs @ [(NL, [])])"

definition show_task :: "taskq_ent \<Rightarrow> string \<times> farg list" where
  "show_task t = ('' %pf(%ps)'', [Num (case tqent_func t of None \<Rightarrow> 0 | Some f \<Rightarrow> int f), Num (uint (tqent_arg t))])"

definition show_waiter :: "nat \<Rightarrow> string \<times> farg list" where
  "show_waiter pid = ('' %d'', [Num (int pid)])"

text \<open>\<open>waiters\<close>: the threads on the wait queue, \<open>pri\<close>: the priority.\<close>

definition taskq_seq_show_impl :: "nat \<Rightarrow> bool \<Rightarrow> int \<Rightarrow> nat list \<Rightarrow> taskq \<Rightarrow> seq_out" where
  "taskq_seq_show_impl mx allflag pri waiters tq =
     (if \<not> allflag \<and> tq_pend_list tq = [] \<and> tq_prio_list tq = [] \<and> tq_delay_list tq = [] \<and> waiters = [] \<and> tq_active_list tq = []
      then []
      else [(''%-25s '', [Str (tq_name tq), Num (tq_instance tq)]),
            (''%5d %5d %5d %5d %5d %5d %12d %5d %10x'' @ NL,
             map Num [tq_nactive tq, tq_nthreads tq, tq_nspawn tq, tq_maxthreads tq, pri, tq_minalloc tq, tq_maxalloc tq,
               tq_nalloc tq, uint (tq_flags tq)])] @
           (if tq_active_list tq = [] then [] else show_active 0 (tq_active_list tq) @ [(NL, [])]) @
           show_lhead mx ''pend'' 2 show_task (tq_pend_list tq) @ show_lhead mx ''prio'' 2 show_task (tq_prio_list tq) @
           show_lhead mx ''delay'' 2 show_task (tq_delay_list tq) @ show_lhead mx ''wait'' 8 show_waiter waiters)"

section \<open>Walking the lists\<close>

text \<open>\<^verbatim>\<open>taskq_seq_start\<close> and \<^verbatim>\<open>slab_seq_start\<close> are the same walk over a different list, so are the two \<^verbatim>\<open>next\<close>
  functions; a node stands for the object it is in.\<close>

fun seq_walk :: "ring_heap \<Rightarrow> addr \<Rightarrow> nat \<Rightarrow> addr \<Rightarrow> addr option" where
  "seq_walk h head 0 p = Some p"
| "seq_walk h head (Suc n) p = (let p' = nxt h p in if p' = head then None else seq_walk h head n p')"

definition taskq_seq_start :: "ring_heap \<Rightarrow> addr \<Rightarrow> nat \<Rightarrow> seq_out \<times> addr option" where
  "taskq_seq_start h tq_list n = (if n = 0 then taskq_seq_show_headers else [], seq_walk h tq_list n (nxt h tq_list))"

definition taskq_seq_next :: "ring_heap \<Rightarrow> addr \<Rightarrow> addr \<Rightarrow> nat \<Rightarrow> addr option \<times> nat" where
  "taskq_seq_next h tq_list p pos = (if nxt h p = tq_list then None else Some (nxt h p), pos + 1)"

definition slab_seq_show_headers :: seq_out where
  "slab_seq_show_headers =
     [(''--------------------- cache -------------------------------------------------------  ----- slab ------  ---- object -----  --- emergency ---'' @ NL, []),
      (''name                                    flags      size     alloc slabsize  objsize  total alloc   max  total alloc   max  dlock alloc   max'' @ NL, [])]"

definition slab_seq_start :: "ring_heap \<Rightarrow> addr \<Rightarrow> nat \<Rightarrow> seq_out \<times> addr option" where
  "slab_seq_start h spl_kmem_cache_list n =
     (if n = 0 then slab_seq_show_headers else [], seq_walk h spl_kmem_cache_list n (nxt h spl_kmem_cache_list))"

definition slab_seq_next :: "ring_heap \<Rightarrow> addr \<Rightarrow> addr \<Rightarrow> nat \<Rightarrow> addr option \<times> nat" where
  "slab_seq_next h spl_kmem_cache_list p pos =
     (if nxt h p = spl_kmem_cache_list then None else Some (nxt h p), pos + 1)"

definition slab_seq_show :: "string \<Rightarrow> spl_kmem_cache \<Rightarrow> seq_out" where
  "slab_seq_show skc_name skc =
     (if has (skc_flags skc) KMC_SLAB then []
      else [(''%-36s  '', [Str skc_name]),
            (''0x%05lx %9lu %9lu %8u %8u  %5lu %5lu %5lu  %5lu %5lu %5lu  %5lu %5lu %5lu'' @ NL,
             map Num ([uint (skc_flags skc), uint (ucast (skc_slab_size skc) * of_int (skc_slab_total skc) :: u64),
               uint (ucast (skc_obj_size skc) * of_int (skc_obj_alloc skc) :: u64), uint (skc_slab_size skc), uint (skc_obj_size skc)] @
               map (\<lambda>v. uint (of_int v :: u64)) [skc_slab_total skc, skc_slab_alloc skc, skc_slab_max skc, skc_obj_total skc,
                 skc_obj_alloc skc, skc_obj_max skc, skc_obj_deadlock skc, skc_obj_emergency skc, skc_obj_emergency_max skc]))])"

section \<open>Making and removing the entries\<close>

text \<open>
  The proc file system as the set of its paths; the sysctl table is registered or not.  A null parent is the root.
  Removing an entry that is not there only prints a warning.  \<open>ok\<close> says whether an entry can be made.
\<close>

record proc_state =
  entries :: "string list set"
  sysctl :: bool
  proc_spl :: "string list option"
  proc_spl_kmem :: "string list option"

definition proc_dir :: "string list option \<Rightarrow> string list" where
  "proc_dir p = (case p of None \<Rightarrow> [] | Some d \<Rightarrow> d)"

definition proc_make :: "(string list \<Rightarrow> bool) \<Rightarrow> string \<Rightarrow> string list option \<Rightarrow> proc_state \<Rightarrow> string list option \<times> proc_state" where
  "proc_make ok nm parent s =
     (let path = proc_dir parent @ [nm] in if ok path then (Some path, s\<lparr>entries := insert path (entries s)\<rparr>) else (None, s))"

definition remove_proc_entry :: "string \<Rightarrow> string list option \<Rightarrow> proc_state \<Rightarrow> proc_state" where
  "remove_proc_entry nm parent s = s\<lparr>entries := entries s - {proc_dir parent @ [nm]}\<rparr>"

definition proc_remove_all :: "proc_state \<Rightarrow> proc_state" where
  "proc_remove_all s =
     (remove_proc_entry ''spl'' None (remove_proc_entry ''taskq'' (proc_spl s) (remove_proc_entry ''taskq-all'' (proc_spl s)
        (remove_proc_entry ''kmem'' (proc_spl s) (remove_proc_entry ''slab'' (proc_spl_kmem s) (remove_proc_entry ''kstat'' (proc_spl s) s))))))
     \<lparr>sysctl := False\<rparr>"

definition proc_fail :: "proc_state \<Rightarrow> errno option \<times> proc_state" where
  "proc_fail s = (Some EUNATCH, proc_remove_all s)"

definition spl_proc_init :: "bool \<Rightarrow> (string list \<Rightarrow> bool) \<Rightarrow> proc_state \<Rightarrow> errno option \<times> proc_state" where
  "spl_proc_init reg_ok ok s0 =
     (if \<not> reg_ok then (Some EUNATCH, s0)
      else case proc_make ok ''spl'' None (s0\<lparr>sysctl := True\<rparr>) of (spl, s1) \<Rightarrow>
      let s1 = s1\<lparr>proc_spl := spl\<rparr> in if spl = None then proc_fail s1
      else case proc_make ok ''taskq-all'' spl s1 of (ta, s2) \<Rightarrow> if ta = None then proc_fail s2
      else case proc_make ok ''taskq'' spl s2 of (tq, s3) \<Rightarrow> if tq = None then proc_fail s3
      else case proc_make ok ''kmem'' spl s3 of (km, s4) \<Rightarrow>
      let s4 = s4\<lparr>proc_spl_kmem := km\<rparr> in if km = None then proc_fail s4
      else case proc_make ok ''slab'' km s4 of (sl, s5) \<Rightarrow> if sl = None then proc_fail s5
      else case proc_make ok ''kstat'' spl s5 of (ks, s6) \<Rightarrow> if ks = None then proc_fail s6
      else (None, s6))"

definition spl_proc_fini :: "proc_state \<Rightarrow> proc_state" where
  "spl_proc_fini s = proc_remove_all s"

section \<open>Stripping a string\<close>

definition strip :: "(u8 \<Rightarrow> bool) \<Rightarrow> u8 list \<Rightarrow> u8 list" where
  "strip f s = rev (dropWhile f (rev s))"

lemma strip_snoc: "strip f (s @ [c]) = (if f c then strip f s else s @ [c])"
  by (simp add: strip_def)

lemma strip_prefix: "take (length (strip f s)) s = strip f s" "length (strip f s) \<le> length s"
  by (induction s rule: rev_induct) (auto simp: strip_snoc, simp_all add: strip_def)

lemma strip_loop_simps:
  "strip_loop f kb (int (Suc n)) = (if \<not> f (kb (int n)) then (int n, [int n]) else (case strip_loop f kb (int n) of (m, rs) \<Rightarrow> (m, int n # rs)))"
  "strip_loop f kb 0 = (if \<not> f (kb (- 1)) then (- 1, [- 1]) else (- 2, [- 1]))"
  by (subst strip_loop.simps, simp) (subst strip_loop.simps, simp add: strip_loop.simps [of f kb "- 1"])

lemma strip_loop_eq:
  assumes "strip_loop f kb (int n) = (m, rs)" "s = strip f (map (\<lambda>i. kb (int i)) [0..<n])"
  shows "if s = [] then m < 0 \<and> - 1 \<in> set rs else m = int (length s) - 1 \<and> set rs \<subseteq> {0..<int n}"
  using assms
proof (induction n arbitrary: m rs s)
  case 0
  then show ?case by (auto simp: strip_def strip_loop_simps split: if_splits)
next
  case (Suc n)
  show ?case
  proof (cases "f (kb (int n))")
    case True
    obtain rs' where r: "strip_loop f kb (int n) = (m, rs')" "rs = int n # rs'"
      using Suc.prems(1) True unfolding strip_loop_simps by (auto split: prod.splits)
    have "s = strip f (map (\<lambda>i. kb (int i)) [0..<n])" using Suc.prems(2) True by (simp add: strip_snoc)
    from Suc.IH [OF r(1) this] show ?thesis using r(2) by (auto split: if_splits)
  next
    case False
    then show ?thesis using Suc.prems unfolding strip_loop_simps by (auto simp: strip_snoc)
  qed
qed

lemma fill_map: "n \<le> length bs \<Longrightarrow> map (\<lambda>i. fill kb bs (int i)) [0..<n] = take n bs"
  by (rule nth_equalityI) (auto simp: fill_def)

text \<open>C35: \<^verbatim>\<open>proc_copyin_string\<close> leaves in the buffer the user's string without its trailing white space, ended by a zero
  byte, and rejects a blank string.  Its accesses stay in the buffer exactly if the string is not blank and is
  shorter than the buffer: a blank string makes it read the byte before the buffer, and a string as long as the
  buffer makes it write the byte behind it, since the test for room compares with the wrong index.\<close>

theorem proc_copyin_exact:
  assumes "length bs \<le> ksize" "c = proc_copyin_string isspace kb ksize (Some bs) (length bs)"
    "s = strip isspace (takeWhile (\<lambda>b. b \<noteq> 0) bs)"
  shows "(if s = [] then ci_rc c = Some EINVAL \<and> ci_writes c = []
      else ci_rc c = None \<and> (\<forall>i < length s. ci_buf c (int i) = s ! i) \<and> ci_buf c (int (length s)) = 0) \<and>
    ((\<forall>i \<in> set (ci_reads c) \<union> set (ci_writes c). 0 \<le> i \<and> i < int ksize) \<longleftrightarrow> s \<noteq> [] \<and> length s < ksize)"
proof -
  let ?t = "takeWhile (\<lambda>b. b \<noteq> 0) bs" and ?kb = "fill kb bs"
  have l: "length ?t \<le> length bs" by (simp add: length_takeWhile_le)
  obtain m rs where r: "strip_loop isspace ?kb (int (length ?t)) = (m, rs)" by fastforce
  have t: "map (\<lambda>i. ?kb (int i)) [0..<length ?t] = ?t" using fill_map [OF l] by (simp add: takeWhile_eq_take [symmetric])
  note e = strip_loop_eq [OF r, unfolded t, OF assms(3)]
  have ls: "length s \<le> length ?t" unfolding assms(3) by (rule strip_prefix(2))
  have nth: "?kb (int i) = s ! i" if "i < length s" for i
  proof -
    have "?kb (int i) = ?t ! i" using that ls l by (simp add: fill_def takeWhile_nth)
    also have "\<dots> = s ! i" using strip_prefix(1) [of isspace ?t] that by (metis assms(3) nth_take)
    finally show ?thesis .
  qed
  have c: "c = (if m < 0 then \<lparr>ci_rc = Some EINVAL, ci_buf = ?kb, ci_reads = rs, ci_writes = []\<rparr>
      else if m = int ksize then \<lparr>ci_rc = Some EOVERFLOW, ci_buf = ?kb, ci_reads = rs, ci_writes = []\<rparr>
      else \<lparr>ci_rc = None, ci_buf = ?kb(m + 1 := 0), ci_reads = rs, ci_writes = [m + 1]\<rparr>)"
    unfolding assms(2) proc_copyin_string_def using assms(1) r by simp
  show ?thesis
  proof (cases "s = []")
    case True
    then show ?thesis using e by (auto simp: c intro!: bexI [of _ "- 1"])
  next
    case False
    then have m: "m = int (length s) - 1" "set rs \<subseteq> {0..<int (length ?t)}" "0 \<le> m" using e by (auto simp: Suc_le_eq)
    have b: "m \<noteq> int ksize" using m(1) ls l assms(1) by simp
    have "set rs \<subseteq> {0..<int ksize}" using m(2) l assms(1) by fastforce
    then show ?thesis using False m(1,3) b nth by (auto simp: c)
  qed
qed

definition demo_copyin :: copyin where
  "demo_copyin = proc_copyin_string (\<lambda>b. b = 32) (\<lambda>_. 0) 4 (Some [97, 98, 99, 100]) 4"

theorem proc_copyin_exact_witness:
  "ci_rc demo_copyin = None \<and> \<not> (\<forall>i \<in> set (ci_reads demo_copyin) \<union> set (ci_writes demo_copyin). 0 \<le> i \<and> i < 4)"
proof -
  let ?b = "[97, 98, 99, 100 :: u8]"
  have l: "length ?b = 4" by simp
  have s: "?b = strip (\<lambda>b. b = 32) (takeWhile (\<lambda>b. b \<noteq> 0) ?b)" by (simp add: strip_def)
  have "demo_copyin = proc_copyin_string (\<lambda>b. b = 32) (\<lambda>_. 0) 4 (Some ?b) (length ?b)" by (simp only: demo_copyin_def l)
  from proc_copyin_exact [OF _ this s] l show ?thesis by simp
qed

section \<open>The listings\<close>

lemma seq_walk_nth: "linked h p xs head \<Longrightarrow> head \<notin> set xs \<Longrightarrow> p \<noteq> head \<Longrightarrow> seq_walk h head n p = (if n \<le> length xs then Some ((p # xs) ! n) else None)"
proof (induction n arbitrary: p xs)
  case (Suc n)
  show ?case
  proof (cases xs)
    case (Cons y ys)
    then show ?thesis using Suc.prems Suc.IH [of y ys] by auto
  qed (use Suc.prems in simp)
qed simp

lemma ring_next: "ring h a (xs @ x # ys) \<Longrightarrow> nxt h x = hd (ys @ [a])"
  unfolding ring_def by (cases ys) (auto simp: ring_simps)

lemma walk_all:
  assumes "ring h a xs" "xs \<noteq> []"
  shows "seq_walk h a n (nxt h a) = (if n < length xs then Some (xs ! n) else None)"
    "i < length xs \<Longrightarrow> nxt h (xs ! i) = (if i + 1 < length xs then xs ! (i + 1) else a)"
proof -
  obtain y ys where x: "xs = y # ys" using assms(2) by (cases xs) auto
  then show "seq_walk h a n (nxt h a) = (if n < length xs then Some (xs ! n) else None)"
    using seq_walk_nth [of h y ys a n] assms(1) by (auto simp: ring_def)
  assume i: "i < length xs"
  then have "xs = take i xs @ xs ! i # drop (i + 1) xs" by (simp add: id_take_nth_drop)
  then have "nxt h (xs ! i) = hd (drop (i + 1) xs @ [a])" using ring_next assms(1) by metis
  then show "nxt h (xs ! i) = (if i + 1 < length xs then xs ! (i + 1) else a)" by (auto simp: hd_append hd_drop_conv_nth)
qed

text \<open>A read of the task queue file or the slab file at any position starts at the object of that position of a list
  that is not empty, or at the end, and each step goes to the next object and to the end after the last, so
  that every object is listed exactly once; the headers come first.\<close>

theorem seq_files_list_all:
  assumes "ring h a xs" "xs \<noteq> []"
  shows "snd (taskq_seq_start h a n) = (if n < length xs then Some (xs ! n) else None) \<and>
    snd (slab_seq_start h a n) = (if n < length xs then Some (xs ! n) else None) \<and>
    (\<forall>i < length xs. taskq_seq_next h a (xs ! i) i = (if i + 1 < length xs then Some (xs ! (i + 1)) else None, i + 1) \<and>
       slab_seq_next h a (xs ! i) i = (if i + 1 < length xs then Some (xs ! (i + 1)) else None, i + 1)) \<and>
    (n = 0 \<longleftrightarrow> fst (taskq_seq_start h a n) \<noteq> []) \<and> (n = 0 \<longleftrightarrow> fst (slab_seq_start h a n) \<noteq> [])"
proof -
  have "a \<notin> set xs" using assms(1) by (simp add: ring_def)
  then have "xs ! i \<noteq> a" if "i < length xs" for i using that by auto
  then show ?thesis using walk_all [OF assms]
    by (simp add: taskq_seq_start_def slab_seq_start_def taskq_seq_next_def slab_seq_next_def taskq_seq_show_headers_def slab_seq_show_headers_def)
qed

definition demo_ring :: ring_heap where
  "demo_ring = list_add_tail 30 10 (list_add_tail 20 10 (INIT_LIST_HEAD 10 \<lparr>nxt = (\<lambda>a. a), prv = (\<lambda>a. a)\<rparr>))"

theorem seq_files_list_all_witness:
  "snd (taskq_seq_start demo_ring 10 0) = Some 20 \<and> taskq_seq_next demo_ring 10 20 0 = (Some 30, 1) \<and> slab_seq_next demo_ring 10 30 1 = (None, 2)"
proof -
  have "ring demo_ring 10 [20, 30]" "[20, 30 :: addr] \<noteq> []" by (simp_all add: demo_ring_def ring_def list_head_defs)
  from seq_files_list_all [OF this, of 0] show ?thesis by (auto simp: less_Suc_eq)
qed

text \<open>On an empty list the first position is the head of the list itself, taken for an object.\<close>

lemma seq_start_empty: "ring h a [] \<Longrightarrow> snd (slab_seq_start h a 0) = Some a \<and> snd (taskq_seq_start h a 0) = Some a"
  by (simp add: ring_def slab_seq_start_def taskq_seq_start_def)

text \<open>The tasks shown of a list are its first \<^verbatim>\<open>spl_max_show_tasks\<close>, in order, and all if that is 0.\<close>

definition items :: "string \<Rightarrow> seq_out \<Rightarrow> seq_out" where
  "items f out = filter (\<lambda>x. fst x = f) out"

lemma show_list_items:
  assumes "\<And>x. fst (item x) = f" "f \<noteq> NL @ TAB @ ''(truncated)''" "f \<noteq> NL @ TAB @ ''     ''" "f \<noteq> TAB @ ''%s:''"
  shows "items f (show_list mx nm w item j xs) = map item (if mx = 0 then xs else take (mx - j) xs)"
  using assms by (induction mx nm w item j xs rule: show_list.induct) (auto simp: items_def take_Cons' split: if_splits)

lemma taskq_pending_shown:
  "items '' %pf(%ps)'' (show_lhead mx nm 2 show_task xs) = map show_task (if mx = 0 then xs else take mx xs)"
proof -
  have "items '' %pf(%ps)'' (show_list mx nm 2 show_task 0 xs) = map show_task (if mx = 0 then xs else take (mx - 0) xs)"
    by (rule show_list_items) (simp_all add: show_task_def NL_def TAB_def)
  then show ?thesis by (cases "mx = 0") (auto simp: show_lhead_def items_def NL_def)
qed

section \<open>Slab totals\<close>

lemma doslab_fold:
  assumes "\<And>c. c \<in> set cs \<Longrightarrow> skc_flags c AND KMC_TOTAL = 0" "kind = KMC_KMEM \<or> kind = KMC_VMEM"
  shows "proc_doslab_val (kind OR KMC_TOTAL) cs =
    (\<Sum>c \<leftarrow> filter (\<lambda>c. has (skc_flags c) kind) cs. ucast (skc_slab_size c) * of_int (skc_slab_total c))"
proof -
  let ?m = "kind OR KMC_TOTAL"
  have sel: "?m AND (KMC_TOTAL OR KMC_ALLOC OR KMC_MAX) = KMC_TOTAL"
    using assms(2) by (auto simp: KMC_TOTAL_def KMC_ALLOC_def KMC_MAX_def KMC_KMEM_def KMC_VMEM_def)
  have z: "skc_flags c AND ?m = 0 \<longleftrightarrow> \<not> has (skc_flags c) kind" if "c \<in> set cs" for c
    using assms(1) [OF that] by (simp add: bit.conj_disj_distrib has_def)
  let ?f = "\<lambda>c. ucast (skc_slab_size c) * of_int (skc_slab_total c) :: u64"
  have "fold (\<lambda>skc val. if skc_flags skc AND ?m = 0 then val
        else let sel = ?m AND (KMC_TOTAL OR KMC_ALLOC OR KMC_MAX)
          in if sel = KMC_TOTAL then val + ?f skc
             else if sel = KMC_ALLOC then val + ucast (skc_obj_size skc) * of_int (skc_obj_alloc skc)
             else if sel = KMC_MAX then val + ucast (skc_obj_size skc) * of_int (skc_obj_max skc)
             else val) cs v = v + (\<Sum>c \<leftarrow> filter (\<lambda>c. has (skc_flags c) kind) cs. ?f c)" for v
    using z by (induction cs arbitrary: v) (auto simp: sel)
  then show ?thesis by (simp add: proc_doslab_val_def)
qed

section \<open>The entries\<close>

definition spl_entries :: "string list set" where
  "spl_entries = {[''spl''], [''spl'', ''taskq-all''], [''spl'', ''taskq''], [''spl'', ''kmem''], [''spl'', ''kmem'', ''slab''], [''spl'', ''kstat'']}"

definition root_names :: "string list set" where
  "root_names = {[''kstat''], [''slab''], [''kmem''], [''taskq-all''], [''taskq'']}"

text \<open>Loading makes all entries or none, and unloading removes them all, unless the root of the proc file system
  has an entry with one of their names: a null directory stands for the root when the failed initialisation cleans up.\<close>

theorem spl_proc_init_clean:
  assumes "entries s0 \<inter> (spl_entries \<union> root_names) = {}" "\<not> sysctl s0" "proc_spl s0 = None" "proc_spl_kmem s0 = None"
    "spl_proc_init reg_ok ok s0 = (rc, s)"
  shows "(rc = None \<longrightarrow> entries s = entries s0 \<union> spl_entries \<and> sysctl s \<and> entries (spl_proc_fini s) = entries s0 \<and> \<not> sysctl (spl_proc_fini s)) \<and>
    (rc \<noteq> None \<longrightarrow> rc = Some EUNATCH \<and> entries s = entries s0 \<and> \<not> sysctl s)"
  using assms
  by (auto simp: spl_proc_init_def proc_make_def proc_dir_def proc_fail_def proc_remove_all_def remove_proc_entry_def spl_proc_fini_def
      spl_entries_def root_names_def Let_def split: if_splits)

lemma proc_init_removes_foreign:
  "snd (spl_proc_init True (\<lambda>_. False) \<lparr>entries = {[''slab'']}, sysctl = False, proc_spl = None, proc_spl_kmem = None\<rparr>) =
     \<lparr>entries = {}, sysctl = False, proc_spl = None, proc_spl_kmem = None\<rparr>"
  by (simp add: spl_proc_init_def proc_make_def proc_dir_def proc_fail_def proc_remove_all_def remove_proc_entry_def)

text \<open>A rejected write of the host id has already overwritten it.\<close>

lemma hostid_clobbered:
  "proc_dohostid_write (\<lambda>s. (0, 0)) (\<lambda>b. b = 10) (\<lambda>_. 0) (Some [120, 10]) 2 0x1234 = (Some EINVAL, 0)"
  by (simp add: proc_dohostid_write_def proc_copyin_string_def fill_def strip_loop.simps)

end
