(* ===== verification/Spl_Sysctl.thy ===== *)
theory Spl_Sysctl
  imports Spl_Proc
begin

text \<open>
  The files of \<^verbatim>\<open>module/spl/spl-proc.c\<close> as users see them: the tables of \<^verbatim>\<open>/proc/sys/kernel/spl\<close> with their handlers, and the sequential
  files \<^verbatim>\<open>taskq\<close>, \<^verbatim>\<open>taskq-all\<close> and \<^verbatim>\<open>slab\<close> below \<^verbatim>\<open>/proc/spl\<close>.  How the kernel looks up an entry and reads a sequential file is its documented behaviour.
\<close>

section \<open>The sysctl tables\<close>

datatype ctl_handler = Domemused | Doulongvec_minmax | Doslab u64 | Dostring | Dohostid

datatype ctl_table = Entry string u32 ctl_handler | Directory string u32 "ctl_table list"

fun procname :: "ctl_table \<Rightarrow> string" where
  "procname (Entry n _ _) = n"
| "procname (Directory n _ _) = n"

definition spl_kmem_table :: "bool \<Rightarrow> ctl_table list" where
  "spl_kmem_table DEBUG_KMEM =
     (if DEBUG_KMEM then [Entry ''kmem_used'' 0x124 Domemused, Entry ''kmem_max'' 0x124 Doulongvec_minmax] else []) @
     [Entry ''slab_kmem_total'' 0x124 (Doslab (KMC_KMEM OR KMC_TOTAL)),
      Entry ''slab_kmem_alloc'' 0x124 (Doslab (KMC_KMEM OR KMC_ALLOC)),
      Entry ''slab_kmem_max'' 0x124 (Doslab (KMC_KMEM OR KMC_MAX)),
      Entry ''slab_vmem_total'' 0x124 (Doslab (KMC_VMEM OR KMC_TOTAL)),
      Entry ''slab_vmem_alloc'' 0x124 (Doslab (KMC_VMEM OR KMC_ALLOC)),
      Entry ''slab_vmem_max'' 0x124 (Doslab (KMC_VMEM OR KMC_MAX))]"

definition spl_kstat_table :: "ctl_table list" where
  "spl_kstat_table = []"

definition spl_table :: "bool \<Rightarrow> ctl_table list" where
  "spl_table DEBUG_KMEM =
     [Entry ''version'' 0x124 Dostring, Entry ''hostid'' 0x1A4 Dohostid, Directory ''kmem'' 0x16D (spl_kmem_table DEBUG_KMEM), Directory ''kstat'' 0x16D spl_kstat_table]"

definition spl_dir :: "bool \<Rightarrow> ctl_table list" where
  "spl_dir DEBUG_KMEM = [Directory ''spl'' 0x16D (spl_table DEBUG_KMEM)]"

definition spl_root :: "bool \<Rightarrow> ctl_table list" where
  "spl_root DEBUG_KMEM = [Directory ''kernel'' 0x16D (spl_dir DEBUG_KMEM)]"

text \<open>The modes are 0444, 0644 and 0555 in octal.\<close>

lemmas spl_tables = spl_kmem_table_def spl_kstat_table_def spl_table_def spl_dir_def spl_root_def

section \<open>Reading and writing an entry\<close>

text \<open>The kernel's lookup of a path.\<close>

fun ctl_find :: "string list \<Rightarrow> ctl_table list \<Rightarrow> (u32 \<times> ctl_handler) option" where
  "ctl_find [] ts = None"
| "ctl_find (p # ps) ts =
     (case List.find (\<lambda>t. procname t = p) ts of
        None \<Rightarrow> None
      | Some (Entry _ md h) \<Rightarrow> if ps = [] then Some (md, h) else None
      | Some (Directory _ _ ts') \<Rightarrow> ctl_find ps ts')"

text \<open>All entries of a table with their paths.\<close>

fun ctl_entries :: "ctl_table \<Rightarrow> (string list \<times> u32 \<times> ctl_handler) list" where
  "ctl_entries (Entry n md h) = [([n], md, h)]"
| "ctl_entries (Directory n _ ts) = map (\<lambda>(p, e). (n # p, e)) (concat (map ctl_entries ts))"

text \<open>The data the handlers show.\<close>

record sysctl_data =
  caches :: "spl_kmem_cache list"
  kmem :: kmem_state
  kmem_max :: u64
  spl_version :: string
  hostid :: u64

datatype shown = Shown_number u64 | Shown_string string | Shown_bytes "u8 list" | Shown_error errno

definition proc_dohostid ::
  "(u8 list \<Rightarrow> u64 \<times> nat) \<Rightarrow> (u8 \<Rightarrow> bool) \<Rightarrow> (int \<Rightarrow> u8) \<Rightarrow> (nat \<Rightarrow> bool) \<Rightarrow> bool \<Rightarrow> u8 list option \<Rightarrow> nat \<Rightarrow> nat \<Rightarrow> u32 \<Rightarrow> u64
     \<Rightarrow> ((errno option \<times> u64) + ((errno + u8 list) \<times> nat))" where
  "proc_dohostid strtoul isspace str ok write buffer lenp ppos zone_hostid spl_hostid =
     (if write then Inl (proc_dohostid_write strtoul isspace str buffer lenp spl_hostid)
      else Inr (proc_dohostid_read ok zone_hostid lenp ppos))"

text \<open>Reading the first \<open>len\<close> bytes of an entry; \<^verbatim>\<open>zone_get_hostid\<close> is the host id, cut to 32 bits.\<close>

definition sysctl_read :: "bool \<Rightarrow> sysctl_data \<Rightarrow> string list \<Rightarrow> nat \<Rightarrow> shown option" where
  "sysctl_read DEBUG_KMEM d path len =
     (case ctl_find path (spl_root DEBUG_KMEM) of
        None \<Rightarrow> None
      | Some (md, h) \<Rightarrow>
          if md AND 0x124 = 0 then None
          else Some (case h of
              Domemused \<Rightarrow> (case proc_domemused False (kmem d) len 0 of Ctl_value v \<Rightarrow> Shown_number v | Ctl_written _ \<Rightarrow> Shown_error EINVAL)
            | Doulongvec_minmax \<Rightarrow> Shown_number (kmem_max d)
            | Doslab m \<Rightarrow> (case proc_doslab False m (caches d) len 0 of Ctl_value v \<Rightarrow> Shown_number v | Ctl_written _ \<Rightarrow> Shown_error EINVAL)
            | Dostring \<Rightarrow> Shown_string (spl_version d)
            | Dohostid \<Rightarrow>
                (case proc_dohostid (\<lambda>_. (0, 0)) (\<lambda>_. False) (\<lambda>_. 0) (\<lambda>_. True) False None len 0 (ucast (hostid d)) (hostid d) of
                   Inr (Inr out, _) \<Rightarrow> Shown_bytes out
                 | Inr (Inl e, _) \<Rightarrow> Shown_error e
                 | Inl _ \<Rightarrow> Shown_error EINVAL)))"

text \<open>Only the host id may be written.\<close>

lemma sysctl_only_hostid_writable:
  "(p, md, h) \<in> set (concat (map ctl_entries (spl_root dbg))) \<Longrightarrow> md AND 0x92 \<noteq> 0 \<Longrightarrow> p = [''kernel'', ''spl'', ''hostid''] \<and> h = Dohostid"
  by (cases dbg) (auto simp: spl_tables)

text \<open>Every entry is found under its path, with the handler of its line in the tables, so no name hides another.\<close>

lemma sysctl_find_all:
  "(p, md, h) \<in> set (concat (map ctl_entries (spl_root dbg))) \<Longrightarrow> ctl_find p (spl_root dbg) = Some (md, h)"
  by (cases dbg) (auto simp: spl_tables)

section \<open>What the slab entries show\<close>

definition shows_sum :: "spl_kmem_cache list \<Rightarrow> u64 \<Rightarrow> (spl_kmem_cache \<Rightarrow> u64) \<Rightarrow> u64" where
  "shows_sum cs kind f = (\<Sum>c \<leftarrow> filter (\<lambda>c. has (skc_flags c) kind) cs. f c)"

lemma doslab_sum:
  assumes sel: "(kind OR what) AND (KMC_TOTAL OR KMC_ALLOC OR KMC_MAX) = what"
    and z: "\<And>c. c \<in> set cs \<Longrightarrow> skc_flags c AND what = 0"
  shows "proc_doslab_val (kind OR what) cs = shows_sum cs kind (\<lambda>c.
    if what = KMC_TOTAL then ucast (skc_slab_size c) * of_int (skc_slab_total c)
    else if what = KMC_ALLOC then ucast (skc_obj_size c) * of_int (skc_obj_alloc c)
    else if what = KMC_MAX then ucast (skc_obj_size c) * of_int (skc_obj_max c) else 0)"
proof -
  let ?m = "kind OR what"
  let ?f = "\<lambda>c. if what = KMC_TOTAL then ucast (skc_slab_size c) * of_int (skc_slab_total c)
    else if what = KMC_ALLOC then ucast (skc_obj_size c) * of_int (skc_obj_alloc c)
    else if what = KMC_MAX then ucast (skc_obj_size c) * of_int (skc_obj_max c) else 0 :: u64"
  have h: "skc_flags c AND ?m = 0 \<longleftrightarrow> \<not> has (skc_flags c) kind" if "c \<in> set cs" for c
    using z [OF that] by (simp add: bit.conj_disj_distrib has_def)
  have "fold (\<lambda>skc val. if skc_flags skc AND ?m = 0 then val
        else let sel = ?m AND (KMC_TOTAL OR KMC_ALLOC OR KMC_MAX)
          in if sel = KMC_TOTAL then val + ucast (skc_slab_size skc) * of_int (skc_slab_total skc)
             else if sel = KMC_ALLOC then val + ucast (skc_obj_size skc) * of_int (skc_obj_alloc skc)
             else if sel = KMC_MAX then val + ucast (skc_obj_size skc) * of_int (skc_obj_max skc)
             else val) cs v = v + shows_sum cs kind ?f" for v
    using h unfolding shows_sum_def sel Let_def
    by (induction cs arbitrary: v) auto
  then show ?thesis by (simp add: proc_doslab_val_def)
qed

text \<open>The six files of the slab allocator show the memory of the slabs, the objects in use and the most objects ever in use, in bytes, summed
  over all caches of their kind and over no others; \<^verbatim>\<open>kmem_used\<close> is there in debug builds only and shows the bytes in use.\<close>

theorem sysctl_slab_exact:
  assumes "\<And>c. c \<in> set (caches d) \<Longrightarrow> skc_flags c AND (KMC_TOTAL OR KMC_ALLOC OR KMC_MAX) = 0"
    and "(nm, kind) \<in> {(''kmem'', KMC_KMEM), (''vmem'', KMC_VMEM)}"
  shows "sysctl_read dbg d [''kernel'', ''spl'', ''kmem'', ''slab_'' @ nm @ ''_total''] len =
      Some (Shown_number (shows_sum (caches d) kind (\<lambda>c. ucast (skc_slab_size c) * of_int (skc_slab_total c))))"
    "sysctl_read dbg d [''kernel'', ''spl'', ''kmem'', ''slab_'' @ nm @ ''_alloc''] len =
      Some (Shown_number (shows_sum (caches d) kind (\<lambda>c. ucast (skc_obj_size c) * of_int (skc_obj_alloc c))))"
    "sysctl_read dbg d [''kernel'', ''spl'', ''kmem'', ''slab_'' @ nm @ ''_max''] len =
      Some (Shown_number (shows_sum (caches d) kind (\<lambda>c. ucast (skc_obj_size c) * of_int (skc_obj_max c))))"
    "sysctl_read dbg d [''kernel'', ''spl'', ''kmem'', ''kmem_used''] len = (if dbg then Some (Shown_number (kmem_alloc_used (kmem d))) else None)"
proof -
  have z: "skc_flags c AND KMC_TOTAL = 0" "skc_flags c AND KMC_ALLOC = 0" "skc_flags c AND KMC_MAX = 0" if "c \<in> set (caches d)" for c
    using assms(1) [OF that] by (simp_all add: bit.conj_disj_distrib or_eq_0_iff)
  have s: "(kind OR w) AND (KMC_TOTAL OR KMC_ALLOC OR KMC_MAX) = w" if "w \<in> {KMC_TOTAL, KMC_ALLOC, KMC_MAX}" for w
    using assms(2) that by (auto simp: KMC_TOTAL_def KMC_ALLOC_def KMC_MAX_def KMC_KMEM_def KMC_VMEM_def)
  have ne: "KMC_ALLOC \<noteq> KMC_TOTAL" "KMC_MAX \<noteq> KMC_TOTAL" "KMC_MAX \<noteq> KMC_ALLOC" by (simp_all add: KMC_TOTAL_def KMC_ALLOC_def KMC_MAX_def)
  have sums: "proc_doslab_val (kind OR KMC_TOTAL) (caches d) = shows_sum (caches d) kind (\<lambda>c. ucast (skc_slab_size c) * of_int (skc_slab_total c))"
    "proc_doslab_val (kind OR KMC_ALLOC) (caches d) = shows_sum (caches d) kind (\<lambda>c. ucast (skc_obj_size c) * of_int (skc_obj_alloc c))"
    "proc_doslab_val (kind OR KMC_MAX) (caches d) = shows_sum (caches d) kind (\<lambda>c. ucast (skc_obj_size c) * of_int (skc_obj_max c))"
    using doslab_sum [OF s z(1)] doslab_sum [OF s z(2)] doslab_sum [OF s z(3)] by (simp_all add: ne)
  show "sysctl_read dbg d [''kernel'', ''spl'', ''kmem'', ''slab_'' @ nm @ ''_total''] len =
      Some (Shown_number (shows_sum (caches d) kind (\<lambda>c. ucast (skc_slab_size c) * of_int (skc_slab_total c))))"
    using assms(2) sums(1) by (cases dbg) (auto simp: sysctl_read_def spl_tables proc_doslab_def)
  show "sysctl_read dbg d [''kernel'', ''spl'', ''kmem'', ''slab_'' @ nm @ ''_alloc''] len =
      Some (Shown_number (shows_sum (caches d) kind (\<lambda>c. ucast (skc_obj_size c) * of_int (skc_obj_alloc c))))"
    using assms(2) sums(2) by (cases dbg) (auto simp: sysctl_read_def spl_tables proc_doslab_def)
  show "sysctl_read dbg d [''kernel'', ''spl'', ''kmem'', ''slab_'' @ nm @ ''_max''] len =
      Some (Shown_number (shows_sum (caches d) kind (\<lambda>c. ucast (skc_obj_size c) * of_int (skc_obj_max c))))"
    using assms(2) sums(3) by (cases dbg) (auto simp: sysctl_read_def spl_tables proc_doslab_def)
  show "sysctl_read dbg d [''kernel'', ''spl'', ''kmem'', ''kmem_used''] len = (if dbg then Some (Shown_number (kmem_alloc_used (kmem d))) else None)"
    by (cases dbg) (auto simp: sysctl_read_def spl_tables proc_domemused_def)
qed

section \<open>The sequential files\<close>

text \<open>The functions behind an open file; the semaphore of the list is counted by its readers.\<close>

record seq_operations =
  so_start :: "nat \<Rightarrow> nat \<Rightarrow> (seq_out \<times> addr option) \<times> nat"
  so_next :: "addr \<Rightarrow> nat \<Rightarrow> addr option \<times> nat"
  so_show :: "addr \<Rightarrow> seq_out"
  so_stop :: "nat \<Rightarrow> nat"

definition taskq_seq_stop :: "nat \<Rightarrow> nat" where
  "taskq_seq_stop tq_list_sem = tq_list_sem - 1"

definition slab_seq_stop :: "nat \<Rightarrow> nat" where
  "slab_seq_stop spl_kmem_cache_sem = spl_kmem_cache_sem - 1"

text \<open>\<open>queue\<close> gives the priority, the waiting threads and the queue at an address.\<close>

type_synonym queues = "addr \<Rightarrow> int \<times> nat list \<times> taskq"

definition taskq_all_seq_show :: "nat \<Rightarrow> queues \<Rightarrow> addr \<Rightarrow> seq_out" where
  "taskq_all_seq_show mx queue p = (case queue p of (pri, ws, tq) \<Rightarrow> taskq_seq_show_impl mx True pri ws tq)"

definition taskq_seq_show :: "nat \<Rightarrow> queues \<Rightarrow> addr \<Rightarrow> seq_out" where
  "taskq_seq_show mx queue p = (case queue p of (pri, ws, tq) \<Rightarrow> taskq_seq_show_impl mx False pri ws tq)"

definition slab_seq_ops :: "ring_heap \<Rightarrow> addr \<Rightarrow> (addr \<Rightarrow> string \<times> spl_kmem_cache) \<Rightarrow> seq_operations" where
  "slab_seq_ops h head cache = \<lparr>so_start = (\<lambda>n sem. (slab_seq_start h head n, sem + 1)), so_next = slab_seq_next h head,
     so_show = (\<lambda>p. slab_seq_show (fst (cache p)) (snd (cache p))), so_stop = slab_seq_stop\<rparr>"

definition taskq_all_seq_ops :: "nat \<Rightarrow> ring_heap \<Rightarrow> addr \<Rightarrow> queues \<Rightarrow> seq_operations" where
  "taskq_all_seq_ops mx h head queue = \<lparr>so_start = (\<lambda>n sem. (taskq_seq_start h head n, sem + 1)), so_next = taskq_seq_next h head,
     so_show = taskq_all_seq_show mx queue, so_stop = taskq_seq_stop\<rparr>"

definition taskq_seq_ops :: "nat \<Rightarrow> ring_heap \<Rightarrow> addr \<Rightarrow> queues \<Rightarrow> seq_operations" where
  "taskq_seq_ops mx h head queue = \<lparr>so_start = (\<lambda>n sem. (taskq_seq_start h head n, sem + 1)), so_next = taskq_seq_next h head,
     so_show = taskq_seq_show mx queue, so_stop = taskq_seq_stop\<rparr>"

definition spl_max_show_tasks :: nat where "spl_max_show_tasks = 512"

text \<open>What \<^verbatim>\<open>seq_read\<close> of the kernel does with a buffer that is large enough: start at 0, show and go on, at most \<open>n\<close> times, then stop.\<close>

fun seq_traverse :: "nat \<Rightarrow> seq_operations \<Rightarrow> addr option \<Rightarrow> nat \<Rightarrow> seq_out" where
  "seq_traverse 0 ops p i = []"
| "seq_traverse (Suc n) ops p i =
     (case p of None \<Rightarrow> [] | Some a \<Rightarrow> so_show ops a @ (case so_next ops a i of (p', i') \<Rightarrow> seq_traverse n ops p' i'))"

definition seq_read :: "nat \<Rightarrow> seq_operations \<Rightarrow> nat \<Rightarrow> seq_out \<times> nat" where
  "seq_read n ops sem = (case so_start ops 0 sem of ((hdr, p), sem') \<Rightarrow> (hdr @ seq_traverse n ops p 0, so_stop ops sem'))"

lemma traverse_all:
  assumes "\<And>i. i < length xs \<Longrightarrow> so_next ops (xs ! i) i = (if i + 1 < length xs then Some (xs ! (i + 1)) else None, i + 1)"
  shows "length xs \<le> n + i \<Longrightarrow> i < length xs \<Longrightarrow> seq_traverse n ops (Some (xs ! i)) i = concat (map (so_show ops) (drop i xs))"
proof (induction n arbitrary: i)
  case (Suc n)
  have d: "drop i xs = xs ! i # drop (i + 1) xs" using Suc.prems(2) by (simp add: Cons_nth_drop_Suc)
  show ?case
  proof (cases "i + 1 < length xs")
    case True
    then show ?thesis using Suc.IH [of "i + 1"] Suc.prems assms [of i] by (simp add: d)
  next
    case False
    then show ?thesis using Suc.prems assms [of i] by (cases n) (simp_all add: d)
  qed
qed simp

lemma seq_read_all:
  assumes "\<And>i. i < length xs \<Longrightarrow> so_next ops (xs ! i) i = (if i + 1 < length xs then Some (xs ! (i + 1)) else None, i + 1)"
    "so_start ops 0 sem = ((hdr, Some (xs ! 0)), sem + 1)" "xs \<noteq> []" "length xs \<le> n" "so_stop ops (sem + 1) = sem"
  shows "seq_read n ops sem = (hdr @ concat (map (so_show ops) xs), sem)"
  using traverse_all [where ops = ops and xs = xs and n = n and i = 0, OF assms(1)] assms(2-5) by (simp add: seq_read_def)

definition has_work :: "nat list \<Rightarrow> taskq \<Rightarrow> bool" where
  "has_work ws tq \<longleftrightarrow> tq_pend_list tq \<noteq> [] \<or> tq_prio_list tq \<noteq> [] \<or> tq_delay_list tq \<noteq> [] \<or> ws \<noteq> [] \<or> tq_active_list tq \<noteq> []"

text \<open>Reading one of the sequential files gives its headers and then every object of the list exactly once, in the order of the list: the file \<^verbatim>\<open>taskq-all\<close>
  all queues, the file \<^verbatim>\<open>taskq\<close> those with a task or a waiting thread, the file \<^verbatim>\<open>slab\<close> all caches but those that the kernel's own allocator backs; the semaphore
  of the list is released as often as it is taken.\<close>

theorem seq_files_content:
  assumes "ring h a xs" "xs \<noteq> []" "length xs \<le> n"
  shows "seq_read n (taskq_all_seq_ops mx h a queue) sem = (taskq_seq_show_headers @ concat (map (taskq_all_seq_show mx queue) xs), sem) \<and>
    seq_read n (taskq_seq_ops mx h a queue) sem =
      (taskq_seq_show_headers @ concat (map (taskq_all_seq_show mx queue) (filter (\<lambda>p. has_work (fst (snd (queue p))) (snd (snd (queue p)))) xs)), sem) \<and>
    seq_read n (slab_seq_ops h a cache) sem =
      (slab_seq_show_headers @ concat (map (\<lambda>p. slab_seq_show (fst (cache p)) (snd (cache p))) (filter (\<lambda>p. \<not> has (skc_flags (snd (cache p))) KMC_SLAB) xs)), sem)"
proof -
  have "a \<notin> set xs" using assms(1) by (simp add: ring_def)
  then have na: "xs ! i \<noteq> a" if "i < length xs" for i using that by auto
  note w = walk_all [OF assms(1,2)]
  have nx: "taskq_seq_next h a (xs ! i) i = (if i + 1 < length xs then Some (xs ! (i + 1)) else None, i + 1)"
    "slab_seq_next h a (xs ! i) i = (if i + 1 < length xs then Some (xs ! (i + 1)) else None, i + 1)" if "i < length xs" for i
    using w(2) [OF that] na by (simp_all add: taskq_seq_next_def slab_seq_next_def)
  have st: "taskq_seq_start h a 0 = (taskq_seq_show_headers, Some (xs ! 0))" "slab_seq_start h a 0 = (slab_seq_show_headers, Some (xs ! 0))"
    using w(1) [of 0] assms(2) by (simp_all add: taskq_seq_start_def slab_seq_start_def)
  have idle: "taskq_seq_show mx queue p = (if has_work (fst (snd (queue p))) (snd (snd (queue p))) then taskq_all_seq_show mx queue p else [])" for p
    by (cases "queue p") (auto simp: taskq_seq_show_def taskq_all_seq_show_def taskq_seq_show_impl_def has_work_def)
  have slab: "slab_seq_show (fst (cache p)) (snd (cache p)) =
      (if \<not> has (skc_flags (snd (cache p))) KMC_SLAB then slab_seq_show (fst (cache p)) (snd (cache p)) else [])" for p by (simp add: slab_seq_show_def)
  have filt: "concat (map f ys) = concat (map g (filter P ys))" if "\<And>p. f p = (if P p then g p else [])" for f g :: "addr \<Rightarrow> seq_out" and P ys
    using that by (induction ys) auto
  have 1: "seq_read n (taskq_all_seq_ops mx h a queue) sem = (taskq_seq_show_headers @ concat (map (taskq_all_seq_show mx queue) xs), sem)"
    using seq_read_all [where ops = "taskq_all_seq_ops mx h a queue" and xs = xs and hdr = taskq_seq_show_headers] nx st assms(2,3)
    by (simp add: taskq_all_seq_ops_def taskq_seq_stop_def)
  have 2: "seq_read n (taskq_seq_ops mx h a queue) sem = (taskq_seq_show_headers @ concat (map (taskq_seq_show mx queue) xs), sem)"
    using seq_read_all [where ops = "taskq_seq_ops mx h a queue" and xs = xs and hdr = taskq_seq_show_headers] nx st assms(2,3)
    by (simp add: taskq_seq_ops_def taskq_seq_stop_def)
  have 3: "seq_read n (slab_seq_ops h a cache) sem = (slab_seq_show_headers @ concat (map (\<lambda>p. slab_seq_show (fst (cache p)) (snd (cache p))) xs), sem)"
    using seq_read_all [where ops = "slab_seq_ops h a cache" and xs = xs and hdr = slab_seq_show_headers] nx st assms(2,3)
    by (simp add: slab_seq_ops_def slab_seq_stop_def)
  show ?thesis unfolding 1 2 3
    by (intro conjI prod.inject [THEN iffD2] arg_cong [where f = "append _"] refl filt [OF idle] filt [OF slab])
qed

theorem seq_files_content_witness:
  "\<forall>cache. seq_read 2 (slab_seq_ops demo_ring 10 cache) 0 =
     (slab_seq_show_headers @ concat (map (\<lambda>p. slab_seq_show (fst (cache p)) (snd (cache p))) (filter (\<lambda>p. \<not> has (skc_flags (snd (cache p))) KMC_SLAB) [20, 30])), 0)"
proof -
  have "ring demo_ring 10 [20, 30]" "[20, 30 :: addr] \<noteq> []" "length [20, 30 :: addr] \<le> 2" by (simp_all add: demo_ring_def ring_def list_head_defs)
  from seq_files_content [OF this] show ?thesis by blast
qed

end
