(* ===== verification/Vnode.thy ===== *)
theory Vnode
  imports Kmem
begin

text \<open>
  Vnodes over Linux files, \<^verbatim>\<open>module/spl/spl-vnode.c\<close> and \<^verbatim>\<open>include/spl/sys/vnode.h\<close>: types and modes, opening, reading,
  writing and closing, attributes, freeing space, the table of referenced file descriptors, and the working
  directory.  What the kernel's file functions answer is a parameter of each operation; the state has the
  references the module holds on files and paths.
\<close>

section \<open>Types and modes\<close>

datatype vtype = VNON | VREG | VDIR | VBLK | VCHR | VLNK | VFIFO | VDOOR | VPROC | VSOCK | VPORT | VBAD

definition S_IFMT :: u32 where "S_IFMT = 0xF000"
definition S_IFSOCK :: u32 where "S_IFSOCK = 0xC000"
definition S_IFLNK :: u32 where "S_IFLNK = 0xA000"
definition S_IFREG :: u32 where "S_IFREG = 0x8000"
definition S_IFBLK :: u32 where "S_IFBLK = 0x6000"
definition S_IFDIR :: u32 where "S_IFDIR = 0x4000"
definition S_IFCHR :: u32 where "S_IFCHR = 0x2000"
definition S_IFIFO :: u32 where "S_IFIFO = 0x1000"

lemmas s_if_defs = S_IFMT_def S_IFSOCK_def S_IFLNK_def S_IFREG_def S_IFBLK_def S_IFDIR_def S_IFCHR_def S_IFIFO_def

definition vn_mode_to_vtype :: "u32 \<Rightarrow> vtype" where
  "vn_mode_to_vtype mode =
     (let m = mode AND S_IFMT in
      if m = S_IFREG then VREG else if m = S_IFDIR then VDIR else if m = S_IFCHR then VCHR else if m = S_IFBLK then VBLK
      else if m = S_IFIFO then VFIFO else if m = S_IFLNK then VLNK else if m = S_IFSOCK then VSOCK else VNON)"

definition vn_vtype_to_mode :: "vtype \<Rightarrow> u32" where
  "vn_vtype_to_mode vtype =
     (if vtype = VREG then S_IFREG else if vtype = VDIR then S_IFDIR else if vtype = VCHR then S_IFCHR else if vtype = VBLK then S_IFBLK
      else if vtype = VFIFO then S_IFIFO else if vtype = VLNK then S_IFLNK else if vtype = VSOCK then S_IFSOCK else 0)"

section \<open>State\<close>

text \<open>A null file is \<open>None\<close>.  \<open>file_refs\<close> and \<open>path_refs\<close> count the references held here, \<open>gfp_of\<close> is the allocation mask of the
  page cache of a file, \<open>f_pos\<close> its position.\<close>

record vnode =
  v_file :: "nat option"
  v_type :: vtype
  v_gfp_mask :: u32

record vn_file =
  f_fd :: int
  f_task :: nat
  f_file :: "nat option"
  f_ref :: int
  f_offset :: int
  f_vnode :: addr

record vn_state =
  vn_file_list :: "addr list"
  vn_files :: "addr \<rightharpoonup> vn_file"
  vnodes :: "addr \<rightharpoonup> vnode"
  file_refs :: "nat \<Rightarrow> int"
  f_pos :: "nat \<Rightarrow> int"
  gfp_of :: "nat \<Rightarrow> u32"
  umask :: u32
  pwd :: "nat option"
  path_refs :: "nat \<Rightarrow> int"

definition fget_ref :: "nat \<Rightarrow> vn_state \<Rightarrow> vn_state" where
  "fget_ref f s = s\<lparr>file_refs := (file_refs s)(f := file_refs s f + 1)\<rparr>"

definition fput_ref :: "nat \<Rightarrow> vn_state \<Rightarrow> vn_state" where
  "fput_ref f s = s\<lparr>file_refs := (file_refs s)(f := file_refs s f - 1)\<rparr>"

text \<open>\<^verbatim>\<open>fput\<close> of the null pointer crashes.\<close>

definition fput :: "nat option \<Rightarrow> vn_state \<Rightarrow> vn_state option" where
  "fput f s = (case f of None \<Rightarrow> None | Some g \<Rightarrow> Some (fput_ref g s))"

section \<open>Vnodes\<close>

text \<open>The memory comes with what it last held; only two fields are set.\<close>

definition vn_alloc :: "(addr \<times> vnode) option \<Rightarrow> vn_state \<Rightarrow> addr option \<times> vn_state" where
  "vn_alloc mem s =
     (case mem of None \<Rightarrow> (None, s)
      | Some (a, old) \<Rightarrow> (Some a, s\<lparr>vnodes := (vnodes s)(a \<mapsto> old\<lparr>v_file := None, v_type := VNON\<rparr>)\<rparr>))"

definition vn_free :: "addr \<Rightarrow> vn_state \<Rightarrow> vn_state" where
  "vn_free a s = s\<lparr>vnodes := (vnodes s)(a := None)\<rparr>"

definition FREAD :: u32 where "FREAD = 1"
definition FWRITE :: u32 where "FWRITE = 2"
definition FCREAT :: u32 where "FCREAT = 0x40"
definition FEXCL :: u32 where "FEXCL = 0x80"
definition FAPPEND :: u32 where "FAPPEND = 0x400"
definition FDSYNC :: u32 where "FDSYNC = 0x1000"

definition open_flags :: "u32 \<Rightarrow> u32" where
  "open_flags flags = (if flags AND FCREAT = 0 \<and> flags AND FWRITE \<noteq> 0 then flags OR FEXCL else flags) - 1"

text \<open>\<open>filp\<close> answers \<^verbatim>\<open>filp_open\<close> for the flags and the mask that is in force, \<open>getattr\<close> gives the mode of a file, and
  \<open>iofs\<close> is \<^verbatim>\<open>__GFP_IO | __GFP_FS\<close>.\<close>

definition vn_open ::
  "(u32 \<Rightarrow> u32 \<Rightarrow> errno + nat) \<Rightarrow> (nat \<Rightarrow> errno + u32) \<Rightarrow> (addr \<times> vnode) option \<Rightarrow> u32 \<Rightarrow> u32 \<Rightarrow> vn_state \<Rightarrow> (errno + addr) \<times> vn_state" where
  "vn_open filp getattr mem iofs flags s =
     (let fl = open_flags flags;
          s1 = (if fl AND FCREAT \<noteq> 0 then s\<lparr>umask := 0\<rparr> else s);
          r = filp fl (umask s1);
          s2 = (if fl AND FCREAT \<noteq> 0 then s1\<lparr>umask := umask s\<rparr> else s1)
      in case r of
           Inl e \<Rightarrow> (Inl e, s2)
         | Inr fp \<Rightarrow>
             let s3 = fget_ref fp s2
             in case getattr fp of
                  Inl e \<Rightarrow> (Inl e, fput_ref fp s3)
                | Inr mode \<Rightarrow>
                    (case vn_alloc mem s3 of
                       (None, s4) \<Rightarrow> (Inl ENOMEM, fput_ref fp s4)
                     | (Some a, s4) \<Rightarrow>
                         let gfp = gfp_of s4 fp;
                             s5 = s4\<lparr>gfp_of := (gfp_of s4)(fp := gfp AND NOT iofs)\<rparr>
                         in (Inr a, s5\<lparr>vnodes := (vnodes s5)(a \<mapsto> \<lparr>v_file = Some fp, v_type = vn_mode_to_vtype mode, v_gfp_mask = gfp\<rparr>)\<rparr>)))"

text \<open>The path relative to the root directory; \<open>mem\<close>: the copy could be allocated.\<close>

definition vn_openat :: "bool \<Rightarrow> (string \<Rightarrow> vn_state \<Rightarrow> (errno + addr) \<times> vn_state) \<Rightarrow> string \<Rightarrow> vn_state \<Rightarrow> (errno + addr) \<times> vn_state" where
  "vn_openat mem open_path path s = (if \<not> mem then (Inl ENOMEM, s) else open_path (CHR ''/'' # path) s)"

definition vn_close :: "errno option \<Rightarrow> addr \<Rightarrow> vn_state \<Rightarrow> (errno option \<times> vn_state) option" where
  "vn_close rc a s =
     (case vnodes s a of
        None \<Rightarrow> None
      | Some vp \<Rightarrow>
          (case v_file vp of
             None \<Rightarrow> None
           | Some fp \<Rightarrow> Some (rc, vn_free a (fput_ref fp (s\<lparr>gfp_of := (gfp_of s)(fp := v_gfp_mask vp)\<rparr>)))))"

text \<open>\<open>rw\<close> is \<^verbatim>\<open>vfs_read\<close> or \<^verbatim>\<open>vfs_write\<close> at an offset: an error or the number of bytes, and the new offset.  The result is
  the error, or the number of bytes left.\<close>

definition vn_rdwr ::
  "(nat \<Rightarrow> nat \<Rightarrow> int \<Rightarrow> (errno + nat) \<times> int) \<Rightarrow> (nat \<Rightarrow> nat \<Rightarrow> int \<Rightarrow> (errno + nat) \<times> int) \<Rightarrow> bool \<Rightarrow> nat \<Rightarrow> nat \<Rightarrow> int \<Rightarrow> u32 \<Rightarrow> bool \<Rightarrow> vn_state
     \<Rightarrow> (errno + nat) \<times> vn_state" where
  "vn_rdwr rd wr write fp len off ioflag residp s =
     (let offset = (if ioflag AND FAPPEND \<noteq> 0 then f_pos s fp else off);
          (rc, offset') = (if write then wr fp len offset else rd fp len offset);
          s' = s\<lparr>f_pos := (f_pos s)(fp := offset')\<rparr>
      in case rc of
           Inl e \<Rightarrow> (Inl e, s')
         | Inr n \<Rightarrow> if residp then (Inr (len - n), s') else if n \<noteq> len then (Inl EIO, s') else (Inr 0, s'))"

definition MAXOFFSET_T :: int where "MAXOFFSET_T = 0x7fffffffffffffff"

definition vn_seek :: "int \<Rightarrow> errno option" where
  "vn_seek noff = (if noff < 0 \<or> noff > MAXOFFSET_T then Some EINVAL else None)"

record kstat_attr =
  st_mode :: u32
  st_uid :: u32
  st_gid :: u32
  st_ino :: u64
  st_nlink :: u32
  st_size :: u64
  st_blksize :: u32
  st_blocks :: u64
  st_rdev :: u32

record vattr =
  va_type :: vtype
  va_mode :: u16
  va_uid :: u32
  va_gid :: u32
  va_fsid :: int
  va_nodeid :: u64
  va_nlink :: u32
  va_size :: u64
  va_blksize :: u32
  va_nblocks :: u64
  va_rdev :: u32

definition vn_getattr :: "errno + kstat_attr \<Rightarrow> errno + vattr" where
  "vn_getattr r = map_sum id (\<lambda>stat. \<lparr>va_type = vn_mode_to_vtype (st_mode stat), va_mode = ucast (st_mode stat), va_uid = st_uid stat,
     va_gid = st_gid stat, va_fsid = 0, va_nodeid = st_ino stat, va_nlink = st_nlink stat, va_size = st_size stat,
     va_blksize = st_blksize stat, va_nblocks = st_blocks stat, va_rdev = st_rdev stat\<rparr>) r"

text \<open>A call into another file system with the transaction mark of the thread cleared; \<open>pf\<close> are its flags.\<close>

definition without_fstrans :: "u32 \<Rightarrow> (u32 \<Rightarrow> 'a) \<Rightarrow> u32 \<Rightarrow> 'a \<times> u32" where
  "without_fstrans PF_FSTRANS call pf =
     (let fstrans = (pf AND PF_FSTRANS \<noteq> 0);
          pf1 = (if fstrans then pf AND NOT PF_FSTRANS else pf);
          r = call pf1
      in (r, if fstrans then pf1 OR PF_FSTRANS else pf1))"

definition vn_fsync :: "u32 \<Rightarrow> (bool \<Rightarrow> u32 \<Rightarrow> errno option) \<Rightarrow> u32 \<Rightarrow> u32 \<Rightarrow> errno option \<times> u32" where
  "vn_fsync PF_FSTRANS fsync flags pf = without_fstrans PF_FSTRANS (fsync (flags AND FDSYNC \<noteq> 0)) pf"

definition F_FREESP :: int where "F_FREESP = 11"

text \<open>Freeing a range: by a hole, else by the file system's truncation of whole pages; \<open>Some (start, end)\<close> is the range,
  inclusive, that is truncated.\<close>

definition truncate_end :: "int \<Rightarrow> int \<Rightarrow> int \<Rightarrow> int option" where
  "truncate_end page l_start l_len =
     (let en = l_start + l_len
      in if en mod page \<noteq> 0 then let e = en - en mod page in if e \<le> l_start then None else Some (e - 1) else Some (en - 1))"

definition vn_space ::
  "u32 \<Rightarrow> (int \<Rightarrow> int \<Rightarrow> u32 \<Rightarrow> errno option) option \<Rightarrow> bool \<Rightarrow> int \<Rightarrow> int \<Rightarrow> int \<Rightarrow> int \<Rightarrow> int \<Rightarrow> u32 \<Rightarrow> (errno option \<times> (int \<times> int) option) \<times> u32" where
  "vn_space PF_FSTRANS fallocate trunc page cmd l_whence l_start l_len pf =
     (if cmd \<noteq> F_FREESP \<or> l_whence \<noteq> 0 then ((Some EOPNOTSUPP, None), pf)
      else let (error, pf') = without_fstrans PF_FSTRANS (case fallocate of Some f \<Rightarrow> f l_start l_len | None \<Rightarrow> (\<lambda>_. Some EOPNOTSUPP)) pf
           in if error = None then ((None, None), pf')
              else if trunc then ((None, map_option (\<lambda>e. (l_start, e)) (truncate_end page l_start l_len)), pf')
              else ((error, None), pf'))"

section \<open>The table of file descriptors\<close>

definition file_find :: "int \<Rightarrow> nat \<Rightarrow> vn_state \<Rightarrow> addr option" where
  "file_find fd task s = List.find (\<lambda>a. case vn_files s a of Some fp \<Rightarrow> fd = f_fd fp \<and> f_task fp = task | None \<Rightarrow> False) (vn_file_list s)"

text \<open>\<open>lf\<close> is what \<^verbatim>\<open>fget\<close> gives for the descriptor, with a new reference; \<open>fmem\<close> and \<open>vmem\<close> the memory.  Outer \<open>None\<close>: a crash.\<close>

definition vn_getf ::
  "nat option \<Rightarrow> (nat \<Rightarrow> errno + u32) \<Rightarrow> addr option \<Rightarrow> (addr \<times> vnode) option \<Rightarrow> int \<Rightarrow> nat \<Rightarrow> vn_state \<Rightarrow> (addr option \<times> vn_state) option" where
  "vn_getf lf getattr fmem vmem fd task s =
     (if fd < 0 then Some (None, s)
      else case file_find fd task s of
        Some a \<Rightarrow>
          (case vn_files s a of
             None \<Rightarrow> None
           | Some fp \<Rightarrow>
               let s1 = (case lf of None \<Rightarrow> s | Some g \<Rightarrow> fget_ref g s)
               in case fput (f_file fp) s1 of
                    None \<Rightarrow> None
                  | Some s2 \<Rightarrow>
                      let fp1 = (if lf \<noteq> f_file fp then fp\<lparr>f_file := lf\<rparr> else fp);
                          s3 = (if lf \<noteq> f_file fp then s2\<lparr>vnodes := (vnodes s2)(f_vnode fp := map_option (\<lambda>v. v\<lparr>v_file := lf\<rparr>) (vnodes s2 (f_vnode fp)))\<rparr> else s2)
                      in Some (Some a, s3\<lparr>vn_files := (vn_files s3)(a \<mapsto> fp1\<lparr>f_ref := f_ref fp + 1\<rparr>)\<rparr>))
      | None \<Rightarrow>
          (case fmem of
             None \<Rightarrow> Some (None, s)
           | Some a \<Rightarrow>
               (case lf of
                  None \<Rightarrow> Some (None, s)
                | Some g \<Rightarrow>
                    let s1 = fget_ref g s
                    in case vn_alloc vmem s1 of
                         (None, s2) \<Rightarrow> Some (None, fput_ref g s2)
                       | (Some v, s2) \<Rightarrow>
                           (case getattr g of
                              Inl _ \<Rightarrow> Some (None, fput_ref g (vn_free v s2))
                            | Inr mode \<Rightarrow>
                                let s3 = s2\<lparr>vnodes := (vnodes s2)(v := map_option (\<lambda>x. x\<lparr>v_type := vn_mode_to_vtype mode, v_file := Some g\<rparr>) (vnodes s2 v)),
                                      vn_files := (vn_files s2)(a \<mapsto> \<lparr>f_fd = fd, f_task = task, f_file = Some g, f_ref = 1, f_offset = 0, f_vnode = v\<rparr>),
                                      vn_file_list := a # vn_file_list s2\<rparr>
                                in Some (Some a, s3)))))"

definition releasef_locked :: "addr \<Rightarrow> vn_file \<Rightarrow> vn_state \<Rightarrow> vn_state option" where
  "releasef_locked a fp s =
     map_option (\<lambda>s1. (vn_free (f_vnode fp) s1)\<lparr>vn_files := (vn_files s1)(a := None)\<rparr>) (fput (f_file fp) s)"

definition vn_areleasef :: "int \<Rightarrow> nat \<Rightarrow> vn_state \<Rightarrow> vn_state option" where
  "vn_areleasef fd task s =
     (if fd < 0 then Some s
      else case file_find fd task s of
        None \<Rightarrow> Some s
      | Some a \<Rightarrow>
          (case vn_files s a of
             None \<Rightarrow> None
           | Some fp \<Rightarrow>
               let fp1 = fp\<lparr>f_ref := f_ref fp - 1\<rparr>; s1 = s\<lparr>vn_files := (vn_files s)(a \<mapsto> fp1)\<rparr>
               in if f_ref fp1 > 0 then Some s1
                  else releasef_locked a fp1 (s1\<lparr>vn_file_list := removeAll a (vn_file_list s1)\<rparr>)))"

definition vn_releasef :: "int \<Rightarrow> nat \<Rightarrow> vn_state \<Rightarrow> vn_state option" where
  "vn_releasef fd current s = vn_areleasef fd current s"

text \<open>Unloading releases what is left and counts it.\<close>

fun vn_fini_loop :: "addr list \<Rightarrow> nat \<Rightarrow> vn_state \<Rightarrow> (nat \<times> vn_state) option" where
  "vn_fini_loop [] n s = Some (n, s)"
| "vn_fini_loop (a # as) n s =
     (case vn_files s a of
        None \<Rightarrow> None
      | Some fp \<Rightarrow>
          (case releasef_locked a fp (s\<lparr>vn_file_list := removeAll a (vn_file_list s)\<rparr>) of
             None \<Rightarrow> None
           | Some s1 \<Rightarrow> vn_fini_loop as (n + 1) s1))"

definition spl_vn_fini :: "vn_state \<Rightarrow> (nat \<times> vn_state) option" where
  "spl_vn_fini s = vn_fini_loop (vn_file_list s) 0 s"

section \<open>The working directory\<close>

definition path_get :: "nat \<Rightarrow> vn_state \<Rightarrow> vn_state" where
  "path_get p s = s\<lparr>path_refs := (path_refs s)(p := path_refs s p + 1)\<rparr>"

definition path_put :: "nat \<Rightarrow> vn_state \<Rightarrow> vn_state" where
  "path_put p s = s\<lparr>path_refs := (path_refs s)(p := path_refs s p - 1)\<rparr>"

definition vn_set_fs_pwd :: "nat \<Rightarrow> vn_state \<Rightarrow> vn_state" where
  "vn_set_fs_pwd path s =
     (let s1 = path_get path (s\<lparr>pwd := Some path\<rparr>) in case pwd s of None \<Rightarrow> s1 | Some old \<Rightarrow> path_put old s1)"

text \<open>\<open>lookup\<close> is \<^verbatim>\<open>user_path_dir\<close>, which gives a path with a reference, \<open>perm\<close> is \<^verbatim>\<open>inode_permission\<close>.\<close>

definition vn_set_pwd :: "(string \<Rightarrow> errno + nat) \<Rightarrow> (nat \<Rightarrow> errno option) \<Rightarrow> string \<Rightarrow> vn_state \<Rightarrow> errno option \<times> vn_state" where
  "vn_set_pwd lookup perm filename s =
     (case lookup filename of
        Inl e \<Rightarrow> (Some e, s)
      | Inr path \<Rightarrow>
          let s1 = path_get path s
          in case perm path of
               Some e \<Rightarrow> (Some e, path_put path s1)
             | None \<Rightarrow> (None, path_put path (vn_set_fs_pwd path s1)))"

section \<open>Types and modes\<close>

lemma vtype_mode_roundtrip:
  "t \<in> {VREG, VDIR, VCHR, VBLK, VFIFO, VLNK, VSOCK} \<Longrightarrow> vn_mode_to_vtype (vn_vtype_to_mode t) = t"
  by (auto simp: vn_mode_to_vtype_def vn_vtype_to_mode_def s_if_defs)

lemma vtype_ignores_permissions: "perm AND S_IFMT = 0 \<Longrightarrow> vn_mode_to_vtype (vn_vtype_to_mode t OR perm) = vn_mode_to_vtype (vn_vtype_to_mode t)"
  by (simp add: vn_mode_to_vtype_def bit.conj_disj_distrib2)

section \<open>Opening and closing\<close>

text \<open>The transaction mark is back after a call into another file system.\<close>

lemma fstrans_kept:
  assumes "without_fstrans PF call pf = (r, pf')" "pf AND PF = PF \<or> pf AND PF = 0"
  shows "pf' = pf"
proof (cases "pf AND PF = 0")
  case False
  then have "pf AND PF = PF" using assms(2) by blast
  then have "bit PF n \<Longrightarrow> bit pf n" for n by (metis bit_and_iff)
  then have "pf AND NOT PF OR PF = pf" by (intro bit_word_eqI) (auto simp: bit_simps)
  then show ?thesis using assms(1) False by (auto simp: without_fstrans_def Let_def)
qed (use assms(1) in \<open>simp add: without_fstrans_def Let_def\<close>)

text \<open>The range that is truncated lies in the range to free and ends with a page.\<close>

lemma truncate_inside:
  assumes "truncate_end page l_start l_len = Some e" "0 < page" "0 \<le> l_start" "0 < l_len"
  shows "l_start \<le> e" "e < l_start + l_len" "(e + 1) mod page = 0"
proof -
  define n where "n = l_start + l_len"
  define r where "r = n mod page"
  have r: "0 \<le> r" "(n - r) mod page = 0" using assms(2) by (simp_all add: r_def minus_mod_eq_mult_div)
  have "e = n - 1 \<and> r = 0 \<or> e = n - r - 1 \<and> l_start < n - r"
    using assms(1) unfolding truncate_end_def Let_def n_def [symmetric] r_def [symmetric] by (auto split: if_splits)
  then show "l_start \<le> e" "e < l_start + l_len" "(e + 1) mod page = 0" using r assms(4) by (auto simp: n_def)
qed

text \<open>Decrementing the flags remaps the access mode in the low two bits and keeps the others.\<close>

lemma div_mod_pred:
  fixes n :: nat
  assumes "n mod 4 \<noteq> 0"
  shows "(n - 1) div 4 = n div 4" "(n - 1) mod 4 = n mod 4 - 1"
proof -
  obtain r where r: "n mod 4 = Suc r" using assms not0_implies_Suc by blast
  then have "r < 4" using mod_less_divisor [of 4 n] by simp
  have "n = n div 4 * 4 + Suc r" using div_mult_mod_eq [of n 4] r by simp
  then have n: "n - 1 = r + n div 4 * 4" by simp
  show "(n - 1) div 4 = n div 4" "(n - 1) mod 4 = n mod 4 - 1" unfolding n using \<open>r < 4\<close> r by simp_all
qed

lemma decrement_flags:
  fixes x :: u32
  assumes "x AND 3 \<noteq> 0"
  shows "drop_bit 2 (x - 1) = drop_bit 2 x" "(x - 1) AND 3 = (x AND 3) - 1"
proof -
  have m: "unat (y AND 3) = unat y mod 4" for y :: u32
  proof -
    have "y AND 3 = take_bit 2 y" by (simp add: take_bit_eq_mask mask_eq_exp_minus_1)
    then have "y AND 3 = y mod 4" by (simp add: take_bit_eq_mod)
    then show ?thesis by (simp add: unat_mod_distrib)
  qed
  have p: "unat x mod 4 \<noteq> 0" using assms m [of x] by (metis unsigned_eq_0_iff)
  then have "x \<noteq> 0" by (metis mod_0 unsigned_0)
  then have u: "unat (x - 1) = unat x - 1" by (rule unat_minus_one)
  note d = div_mod_pred [OF p]
  have "unat (drop_bit 2 y) = unat y div 4" for y :: u32 by (simp add: drop_bit_eq_div unat_div_distrib)
  then show "drop_bit 2 (x - 1) = drop_bit 2 x" unfolding word_unat_eq_iff using d(1) u by simp
  have "unat ((x AND 3) - 1) = unat (x AND 3) - 1" by (rule unat_minus_one) (use assms in simp)
  then show "(x - 1) AND 3 = (x AND 3) - 1" unfolding word_unat_eq_iff m u using d(2) m [of x] by simp
qed

lemma ref_simps:
  "(fget_ref f s)\<lparr>vnodes := v\<rparr> = fget_ref f (s\<lparr>vnodes := v\<rparr>)" "fput_ref f (fget_ref f s) = s" "umask (fget_ref f s) = umask s"
  "vnodes (fget_ref f s) = vnodes s" "gfp_of (fget_ref f s) = gfp_of s"
  by (simp_all add: fget_ref_def fput_ref_def)

lemma vn_open_fail: "vn_open filp getattr mem iofs flags s = (Inl e, s1) \<Longrightarrow> s1 = s"
  by (auto simp: vn_open_def vn_alloc_def Let_def ref_simps split: if_splits sum.splits option.splits)

lemma vn_open_success:
  assumes "vn_open filp getattr mem iofs flags s = (Inr a, s1)" "\<And>a old. mem = Some (a, old) \<Longrightarrow> vnodes s a = None"
  shows "\<exists>fp mode. filp (open_flags flags) (if open_flags flags AND FCREAT \<noteq> 0 then 0 else umask s) = Inr fp \<and> getattr fp = Inr mode \<and>
    vnodes s1 a = Some \<lparr>v_file = Some fp, v_type = vn_mode_to_vtype mode, v_gfp_mask = gfp_of s fp\<rparr> \<and>
    gfp_of s1 fp AND iofs = 0 \<and> umask s1 = umask s \<and> vn_close rc a s1 = Some (rc, s)"
proof -
  have z: "(g AND NOT iofs) AND iofs = 0" for g :: u32 by (simp add: and.assoc)
  let ?m = "if open_flags flags AND FCREAT \<noteq> 0 then 0 else umask s"
  obtain fp where fp: "filp (open_flags flags) ?m = Inr fp"
    using assms(1) by (cases "filp (open_flags flags) ?m") (auto simp: vn_open_def Let_def split: if_splits)
  obtain mode where mode: "getattr fp = Inr mode"
    using assms(1) fp by (cases "getattr fp") (auto simp: vn_open_def Let_def split: if_splits)
  obtain b old where p: "mem = Some (b, old)"
    using assms(1) fp mode by (cases mem) (auto simp: vn_open_def vn_alloc_def Let_def split: if_splits)
  have f: "vnodes s b = None" by (rule assms(2) [OF p])
  have n: "(vnodes s)(b := None) = vnodes s" using f by auto
  have r: "a = b" "s1 = (fget_ref fp s)\<lparr>gfp_of := (gfp_of s)(fp := gfp_of s fp AND NOT iofs),
      vnodes := (vnodes s)(b \<mapsto> \<lparr>v_file = Some fp, v_type = vn_mode_to_vtype mode, v_gfp_mask = gfp_of s fp\<rparr>)\<rparr>"
    using assms(1) fp mode by (auto simp: vn_open_def vn_alloc_def Let_def p fget_ref_def split: if_splits)
  show ?thesis using fp mode z by (auto simp: r vn_close_def vn_free_def fget_ref_def fput_ref_def n)
qed

text \<open>C37: Opening a vnode changes nothing when it fails, whichever step fails: no file is left open, and the file creation mask of
  the thread is back.  After it succeeds the vnode has the type of the file, the file's allocation mask has no I/O and file system
  bits, and closing the vnode restores the state exactly.\<close>

theorem vn_open_close:
  assumes "vn_open filp getattr mem iofs flags s = (r, s1)" "\<And>a old. mem = Some (a, old) \<Longrightarrow> vnodes s a = None"
  shows "case r of
      Inl e \<Rightarrow> s1 = s
    | Inr a \<Rightarrow> \<exists>fp mode. filp (open_flags flags) (if open_flags flags AND FCREAT \<noteq> 0 then 0 else umask s) = Inr fp \<and> getattr fp = Inr mode \<and>
        vnodes s1 a = Some \<lparr>v_file = Some fp, v_type = vn_mode_to_vtype mode, v_gfp_mask = gfp_of s fp\<rparr> \<and>
        gfp_of s1 fp AND iofs = 0 \<and> umask s1 = umask s \<and> vn_close rc a s1 = Some (rc, s)"
proof (cases r)
  case (Inl e)
  then show ?thesis using vn_open_fail assms(1) by simp
next
  case (Inr a)
  then show ?thesis using vn_open_success [of filp getattr mem iofs flags s a s1 rc] assms by simp
qed

definition demo_vn :: vn_state where
  "demo_vn = \<lparr>vn_file_list = [], vn_files = Map.empty, vnodes = Map.empty, file_refs = (\<lambda>_. 0), f_pos = (\<lambda>_. 0), gfp_of = (\<lambda>_. 0xD0),
     umask = 18, pwd = None, path_refs = (\<lambda>_. 0)\<rparr>"

definition demo_vnode :: vnode where
  "demo_vnode = \<lparr>v_file = None, v_type = VBAD, v_gfp_mask = 0\<rparr>"

theorem vn_open_close_witness:
  "\<exists>s1. vn_open (\<lambda>fl m. if m = 0 then Inr 7 else Inl EACCES) (\<lambda>_. Inr 0x81A4) (Some (64, demo_vnode)) 0xC0 (FCREAT OR FWRITE) demo_vn = (Inr 64, s1) \<and>
     vn_close None 64 s1 = Some (None, demo_vn)"
proof -
  obtain s1 where o: "vn_open (\<lambda>fl m. if m = 0 then Inr 7 else Inl EACCES) (\<lambda>_. Inr 0x81A4) (Some (64, demo_vnode)) 0xC0 (FCREAT OR FWRITE) demo_vn = (Inr 64, s1)"
    by (simp add: vn_open_def open_flags_def FCREAT_def FWRITE_def FEXCL_def demo_vn_def vn_alloc_def fget_ref_def Let_def)
  have "vnodes demo_vn a = None" for a by (simp add: demo_vn_def)
  with vn_open_close [OF o, of None] show ?thesis using o by auto
qed

section \<open>The table of file descriptors\<close>

text \<open>The references on a file that entries of the table account for.\<close>

definition heldm :: "(addr \<rightharpoonup> vn_file) \<Rightarrow> nat \<Rightarrow> int" where
  "heldm m f = int (card {a. \<exists>fp. m a = Some fp \<and> f_file fp = Some f})"

lemma heldm_upd:
  assumes "finite (dom m)"
  shows "heldm (m(a \<mapsto> fp)) f = heldm (m(a := None)) f + (if f_file fp = Some f then 1 else 0)"
proof -
  let ?A = "{x. \<exists>y. (m(a := None)) x = Some y \<and> f_file y = Some f}"
  have "finite ?A" by (rule finite_subset [OF _ assms]) (auto split: if_splits)
  moreover have "{x. \<exists>y. (m(a \<mapsto> fp)) x = Some y \<and> f_file y = Some f} = (if f_file fp = Some f then insert a ?A else ?A)"
    by (auto split: if_splits)
  moreover have "a \<notin> ?A" by simp
  ultimately show ?thesis by (simp add: heldm_def)
qed

lemma heldm_remove: "finite (dom m) \<Longrightarrow> m a = Some fp \<Longrightarrow> heldm m f = heldm (m(a := None)) f + (if f_file fp = Some f then 1 else 0)"
  using heldm_upd [of m a fp f] by (simp add: fun_upd_idem)

definition entry_ok :: "vn_state \<Rightarrow> vn_file \<Rightarrow> bool" where
  "entry_ok s fp \<longleftrightarrow> 0 \<le> f_fd fp \<and> 0 < f_ref fp \<and> f_file fp \<noteq> None \<and> (\<exists>v. vnodes s (f_vnode fp) = Some v \<and> v_file v = f_file fp)"

definition apart :: "vn_file \<Rightarrow> vn_file \<Rightarrow> bool" where
  "apart fp fq \<longleftrightarrow> (f_fd fp, f_task fp) \<noteq> (f_fd fq, f_task fq) \<and> f_vnode fp \<noteq> f_vnode fq"

definition vn_inv :: "vn_state \<Rightarrow> bool" where
  "vn_inv s \<longleftrightarrow> distinct (vn_file_list s) \<and> set (vn_file_list s) = dom (vn_files s) \<and>
     (\<forall>a fp. vn_files s a = Some fp \<longrightarrow> entry_ok s fp) \<and>
     (\<forall>a b fp fq. vn_files s a = Some fp \<and> vn_files s b = Some fq \<and> a \<noteq> b \<longrightarrow> apart fp fq)"

lemma vn_invD:
  assumes "vn_inv s"
  shows "distinct (vn_file_list s)" "set (vn_file_list s) = dom (vn_files s)" "finite (dom (vn_files s))"
    "vn_files s a = Some fp \<Longrightarrow> entry_ok s fp" "vn_files s a = Some fp \<Longrightarrow> vn_files s b = Some fq \<Longrightarrow> a \<noteq> b \<Longrightarrow> apart fp fq"
proof -
  show "distinct (vn_file_list s)" "set (vn_file_list s) = dom (vn_files s)"
    "vn_files s a = Some fp \<Longrightarrow> entry_ok s fp" "vn_files s a = Some fp \<Longrightarrow> vn_files s b = Some fq \<Longrightarrow> a \<noteq> b \<Longrightarrow> apart fp fq"
    using assms by (auto simp: vn_inv_def)
  show "finite (dom (vn_files s))" using assms by (metis List.finite_set vn_inv_def)
qed

lemma file_find_Some:
  assumes "vn_inv s"
  shows "file_find fd t s = Some a \<longleftrightarrow> (\<exists>fp. vn_files s a = Some fp \<and> f_fd fp = fd \<and> f_task fp = t)"
proof
  assume "file_find fd t s = Some a"
  then show "\<exists>fp. vn_files s a = Some fp \<and> f_fd fp = fd \<and> f_task fp = t"
    by (auto simp: file_find_def find_Some_iff split: option.splits)
next
  assume e: "\<exists>fp. vn_files s a = Some fp \<and> f_fd fp = fd \<and> f_task fp = t"
  then have "a \<in> set (vn_file_list s)" using vn_invD(2) [OF assms] by auto
  with e obtain b where b: "file_find fd t s = Some b" by (cases "file_find fd t s") (auto simp: file_find_def find_None_iff)
  then obtain fq where "vn_files s b = Some fq" "f_fd fq = fd" "f_task fq = t" by (auto simp: file_find_def find_Some_iff split: option.splits)
  then have "b = a" using e vn_invD(5) [OF assms] by (auto simp: apart_def)
  then show "file_find fd t s = Some a" using b by simp
qed

lemma file_find_None:
  "vn_inv s \<Longrightarrow> file_find fd t s = None \<longleftrightarrow> (\<forall>a fp. vn_files s a = Some fp \<longrightarrow> \<not> (f_fd fp = fd \<and> f_task fp = t))"
  by (metis (no_types, lifting) file_find_Some not_None_eq)

text \<open>The abstraction: how often a descriptor of a thread is held, and the references on each file that are not those of entries.\<close>

definition holds :: "vn_state \<Rightarrow> int \<times> nat \<Rightarrow> nat" where
  "holds s = (\<lambda>(fd, t). case file_find fd t s of None \<Rightarrow> 0 | Some a \<Rightarrow> (case vn_files s a of None \<Rightarrow> 0 | Some fp \<Rightarrow> nat (f_ref fp)))"

definition others :: "vn_state \<Rightarrow> nat \<Rightarrow> int" where
  "others s f = file_refs s f - heldm (vn_files s) f"

lemma holds_entry: "vn_inv s \<Longrightarrow> vn_files s a = Some fp \<Longrightarrow> holds s (f_fd fp, f_task fp) = nat (f_ref fp)"
  using file_find_Some [of s "f_fd fp" "f_task fp" a] by (auto simp: holds_def)

lemma holds_pos: "vn_inv s \<Longrightarrow> 0 < holds s (fd, t) \<longleftrightarrow> (\<exists>a fp. vn_files s a = Some fp \<and> f_fd fp = fd \<and> f_task fp = t)"
  using file_find_Some [of s fd t] vn_invD(4) [of s] by (fastforce simp: holds_def entry_ok_def split: option.splits)

text \<open>Replacing the entry at \<open>a\<close>, whose descriptor stays the same, changes the abstraction there only.\<close>

lemma holds_upd:
  assumes i: "vn_inv s" and j: "vn_inv s'" and m: "vn_files s' = (vn_files s)(a := x)"
    and k: "vn_files s a = Some fp \<or> vn_files s a = None \<and> holds s (f_fd fp, f_task fp) = 0"
    and x: "\<And>fq. x = Some fq \<Longrightarrow> f_fd fq = f_fd fp \<and> f_task fq = f_task fp"
  shows "holds s' = (holds s)((f_fd fp, f_task fp) := (case x of None \<Rightarrow> 0 | Some fq \<Rightarrow> nat (f_ref fq)))"
proof
  fix q :: "int \<times> nat"
  obtain fd t where q: "q = (fd, t)" by (cases q)
  show "holds s' q = ((holds s)((f_fd fp, f_task fp) := (case x of None \<Rightarrow> 0 | Some fq \<Rightarrow> nat (f_ref fq)))) q"
  proof (cases "q = (f_fd fp, f_task fp)")
    case True
    show ?thesis
    proof (cases x)
      case None
      have "\<not> 0 < holds s' q" unfolding q holds_pos [OF j] m
        using None True q k vn_invD(5) [OF i] holds_pos [OF i, of fd t] by (fastforce simp: apart_def split: if_splits)
      then show ?thesis using True None by simp
    next
      case (Some fq)
      then have "vn_files s' a = Some fq" by (simp add: m)
      from holds_entry [OF j this] show ?thesis using x [OF Some] True Some by simp
    qed
  next
    case False
    have e: "vn_files s' b = Some fr \<and> (f_fd fr, f_task fr) = q \<longleftrightarrow> vn_files s b = Some fr \<and> (f_fd fr, f_task fr) = q" for b fr
      using False k x by (auto simp: m)
    show ?thesis
    proof (cases "file_find fd t s")
      case None
      then have "file_find fd t s' = None" using e unfolding file_find_None [OF i] file_find_None [OF j] q by auto
      then show ?thesis using None False by (auto simp: holds_def q)
    next
      case (Some b)
      then obtain fr where "vn_files s b = Some fr" "(f_fd fr, f_task fr) = q" using file_find_Some [OF i] q by auto
      then show ?thesis using e [of b fr] holds_entry [OF i, of b fr] holds_entry [OF j, of b fr] False by auto
    qed
  qed
qed

lemma apart_sym: "apart fp fq \<longleftrightarrow> apart fq fp"
  by (auto simp: apart_def)

lemma apart_upd:
  assumes i: "vn_inv s" and a: "vn_files s a = Some fp" and f: "f_fd fp' = f_fd fp" "f_task fp' = f_task fp" "f_vnode fp' = f_vnode fp"
    and b: "((vn_files s)(a \<mapsto> fp')) b = Some fq" and c: "((vn_files s)(a \<mapsto> fp')) c = Some fr" and ne: "b \<noteq> c"
  shows "apart fq fr"
proof -
  have k: "apart fp' x = apart fp x" for x using f by (simp add: apart_def)
  consider "b = a" | "c = a" | "b \<noteq> a" "c \<noteq> a" by blast
  then show ?thesis
  proof cases
    case 1
    then show ?thesis using vn_invD(5) [OF i a, of c fr] b c ne k by simp
  next
    case 2
    then show ?thesis using vn_invD(5) [OF i a, of b fq] b c ne k apart_sym by simp
  next
    case 3
    then show ?thesis using vn_invD(5) [OF i, of b fq c fr] b c ne by simp
  qed
qed

lemma getf_found:
  assumes i: "vn_inv s" and a: "vn_files s a = Some fp"
    and s': "s' = s\<lparr>file_refs := fr, vnodes := (vnodes s)(f_vnode fp := map_option (\<lambda>v. v\<lparr>v_file := Some g\<rparr>) (vnodes s (f_vnode fp))),
      vn_files := (vn_files s)(a \<mapsto> fp\<lparr>f_file := Some g, f_ref := f_ref fp + 1\<rparr>)\<rparr>"
    and fr: "\<And>f. fr f = file_refs s f + (if f = g then 1 else 0) - (if f_file fp = Some f then 1 else 0)"
  shows "vn_inv s'" "holds s' = (holds s)((f_fd fp, f_task fp) := holds s (f_fd fp, f_task fp) + 1)" "others s' = others s"
proof -
  note e = vn_invD(4) [OF i a, unfolded entry_ok_def]
  show j: "vn_inv s'" unfolding vn_inv_def
  proof (intro conjI allI impI)
    show "distinct (vn_file_list s')" "set (vn_file_list s') = dom (vn_files s')"
      using vn_invD(1,2) [OF i] a by (auto simp: s')
  next
    fix b fq
    assume b: "vn_files s' b = Some fq"
    show "entry_ok s' fq"
    proof (cases "b = a")
      case True
      then show ?thesis using b e by (auto simp: s' entry_ok_def)
    next
      case False
      then have "vn_files s b = Some fq" using b by (simp add: s')
      then show ?thesis using vn_invD(4) [OF i, of b fq] vn_invD(5) [OF i a, of b fq] False by (auto simp: s' entry_ok_def apart_def)
    qed
  next
    fix b c fq fr
    assume h: "vn_files s' b = Some fq \<and> vn_files s' c = Some fr \<and> b \<noteq> c"
    have m: "vn_files s' = (vn_files s)(a \<mapsto> fp\<lparr>f_file := Some g, f_ref := f_ref fp + 1\<rparr>)" by (simp add: s')
    show "apart fq fr"
      by (rule apart_upd [OF i a _ _ _ h [unfolded m, THEN conjunct1] h [unfolded m, THEN conjunct2, THEN conjunct1] h [THEN conjunct2, THEN conjunct2]]) simp_all
  qed
  have m: "vn_files s' = (vn_files s)(a \<mapsto> fp\<lparr>f_file := Some g, f_ref := f_ref fp + 1\<rparr>)" by (simp add: s')
  have "holds s' = (holds s)((f_fd fp, f_task fp) := nat (f_ref fp + 1))"
    using holds_upd [OF i j m disjI1 [OF a]] by simp
  then show "holds s' = (holds s)((f_fd fp, f_task fp) := holds s (f_fd fp, f_task fp) + 1)"
    using holds_entry [OF i a] e by (simp add: nat_add_distrib)
  show "others s' = others s"
  proof
    fix f
    show "others s' f = others s f"
      using heldm_upd [OF vn_invD(3) [OF i], of a "fp\<lparr>f_file := Some g, f_ref := f_ref fp + 1\<rparr>" f] heldm_remove [OF vn_invD(3) [OF i] a, of f]
      by (auto simp: others_def s' fr)
  qed
qed

lemma getf_new:
  assumes i: "vn_inv s" and a: "vn_files s a = None" and v: "vnodes s v = None" and z: "holds s (fd, t) = 0" and fd: "0 \<le> fd"
    and s': "s' = s\<lparr>file_refs := (file_refs s)(g := file_refs s g + 1), vnodes := (vnodes s)(v \<mapsto> vn), vn_files := (vn_files s)(a \<mapsto> fp), vn_file_list := a # vn_file_list s\<rparr>"
    and fp: "fp = \<lparr>f_fd = fd, f_task = t, f_file = Some g, f_ref = 1, f_offset = 0, f_vnode = v\<rparr>" and vn: "v_file vn = Some g"
  shows "vn_inv s'" "holds s' = (holds s)((fd, t) := 1)" "others s' = others s"
proof -
  have u: "apart fp fq" "apart fq fp" "f_vnode fq \<noteq> v" if b: "vn_files s b = Some fq" for b fq
  proof -
    have "(f_fd fq, f_task fq) \<noteq> (fd, t)" using holds_pos [OF i, of fd t] z b by auto
    moreover show "f_vnode fq \<noteq> v" using vn_invD(4) [OF i b] v by (auto simp: entry_ok_def)
    ultimately show "apart fp fq" "apart fq fp" by (auto simp: apart_def fp)
  qed
  show j: "vn_inv s'" unfolding vn_inv_def
  proof (intro conjI allI impI)
    show "distinct (vn_file_list s')" "set (vn_file_list s') = dom (vn_files s')" using vn_invD(1,2) [OF i] a by (auto simp: s')
  next
    fix b fq
    assume b: "vn_files s' b = Some fq"
    then show "entry_ok s' fq" using vn_invD(4) [OF i, of b fq] u(3) [of b fq] vn fd by (auto simp: s' entry_ok_def fp split: if_splits)
  next
    fix b c fq fr
    assume "vn_files s' b = Some fq \<and> vn_files s' c = Some fr \<and> b \<noteq> c"
    then show "apart fq fr" using vn_invD(5) [OF i] u by (auto simp: s' split: if_splits)
  qed
  show "holds s' = (holds s)((fd, t) := 1)"
    using holds_upd [OF i j, of a "Some fp" fp] a z by (simp add: s' fp)
  show "others s' = others s"
  proof
    fix f
    show "others s' f = others s f"
      using heldm_upd [OF vn_invD(3) [OF i], of a fp f] a by (simp add: others_def s' fp fun_upd_idem)
  qed
qed

lemma releasef_last:
  assumes i: "vn_inv s" and a: "vn_files s a = Some fp" and g: "f_file fp = Some g"
    and s': "s' = s\<lparr>file_refs := (file_refs s)(g := file_refs s g - 1), vnodes := (vnodes s)(f_vnode fp := None), vn_files := (vn_files s)(a := None),
      vn_file_list := removeAll a (vn_file_list s)\<rparr>"
  shows "vn_inv s'" "holds s' = (holds s)((f_fd fp, f_task fp) := 0)" "others s' = others s"
proof -
  show j: "vn_inv s'" unfolding vn_inv_def
  proof (intro conjI allI impI)
    show "distinct (vn_file_list s')" "set (vn_file_list s') = dom (vn_files s')"
      using vn_invD(1,2) [OF i] by (auto simp: s' distinct_removeAll)
  next
    fix b fq
    assume "vn_files s' b = Some fq"
    then have b: "vn_files s b = Some fq" "b \<noteq> a" by (auto simp: s' split: if_splits)
    then show "entry_ok s' fq" using vn_invD(4) [OF i b(1)] vn_invD(5) [OF i a b(1)] by (auto simp: s' entry_ok_def apart_def)
  next
    fix b c fq fr
    assume "vn_files s' b = Some fq \<and> vn_files s' c = Some fr \<and> b \<noteq> c"
    then show "apart fq fr" using vn_invD(5) [OF i] by (auto simp: s' split: if_splits)
  qed
  show "holds s' = (holds s)((f_fd fp, f_task fp) := 0)" using holds_upd [OF i j, of a None fp] a by (simp add: s')
  show "others s' = others s"
  proof
    fix f
    show "others s' f = others s f" using heldm_remove [OF vn_invD(3) [OF i] a, of f] g by (auto simp: others_def s')
  qed
qed

lemma releasef_more:
  assumes i: "vn_inv s" and a: "vn_files s a = Some fp" and r: "1 < f_ref fp"
    and s': "s' = s\<lparr>vn_files := (vn_files s)(a \<mapsto> fp\<lparr>f_ref := f_ref fp - 1\<rparr>)\<rparr>"
  shows "vn_inv s'" "holds s' = (holds s)((f_fd fp, f_task fp) := holds s (f_fd fp, f_task fp) - 1)" "others s' = others s"
proof -
  show j: "vn_inv s'" unfolding vn_inv_def
  proof (intro conjI allI impI)
    show "distinct (vn_file_list s')" "set (vn_file_list s') = dom (vn_files s')" using vn_invD(1,2) [OF i] a by (auto simp: s')
  next
    fix b fq
    assume b: "vn_files s' b = Some fq"
    show "entry_ok s' fq"
    proof (cases "b = a")
      case True
      then show ?thesis using b vn_invD(4) [OF i a] r by (auto simp: s' entry_ok_def)
    next
      case False
      then show ?thesis using b vn_invD(4) [OF i, of b fq] by (simp add: s' entry_ok_def)
    qed
  next
    fix b c fq fr
    assume h: "vn_files s' b = Some fq \<and> vn_files s' c = Some fr \<and> b \<noteq> c"
    have m: "vn_files s' = (vn_files s)(a \<mapsto> fp\<lparr>f_ref := f_ref fp - 1\<rparr>)" by (simp add: s')
    show "apart fq fr"
      by (rule apart_upd [OF i a _ _ _ h [unfolded m, THEN conjunct1] h [unfolded m, THEN conjunct2, THEN conjunct1] h [THEN conjunct2, THEN conjunct2]]) simp_all
  qed
  have m: "vn_files s' = (vn_files s)(a \<mapsto> fp\<lparr>f_ref := f_ref fp - 1\<rparr>)" by (simp add: s')
  have "holds s' = (holds s)((f_fd fp, f_task fp) := nat (f_ref fp - 1))"
    using holds_upd [OF i j m disjI1 [OF a]] by simp
  then show "holds s' = (holds s)((f_fd fp, f_task fp) := holds s (f_fd fp, f_task fp) - 1)"
    using holds_entry [OF i a] r by (simp add: nat_diff_distrib)
  show "others s' = others s"
  proof
    fix f
    show "others s' f = others s f"
      using heldm_upd [OF vn_invD(3) [OF i], of a "fp\<lparr>f_ref := f_ref fp - 1\<rparr>" f] heldm_remove [OF vn_invD(3) [OF i] a, of f]
      by (simp add: others_def s')
  qed
qed

datatype vn_op =
    Getf "nat option" "nat \<Rightarrow> errno + u32" "addr option" "(addr \<times> vnode) option" int nat
  | Releasef int nat

fun vn_op_step :: "vn_op \<Rightarrow> vn_state \<Rightarrow> vn_state option" where
  "vn_op_step (Getf lf ga fm vm fd t) s = map_option snd (vn_getf lf ga fm vm fd t s)"
| "vn_op_step (Releasef fd t) s = vn_areleasef fd t s"

text \<open>The allocators give memory that is not in use, and a descriptor that is held is still open.\<close>

fun vn_op_allowed :: "vn_op \<Rightarrow> vn_state \<Rightarrow> bool" where
  "vn_op_allowed (Getf lf ga fm vm fd t) s \<longleftrightarrow> (0 < holds s (fd, t) \<longrightarrow> lf \<noteq> None) \<and>
     (\<forall>a. fm = Some a \<longrightarrow> vn_files s a = None) \<and> (\<forall>v old. vm = Some (v, old) \<longrightarrow> vnodes s v = None)"
| "vn_op_allowed (Releasef fd t) s \<longleftrightarrow> True"

definition getf_works :: "nat option \<Rightarrow> (nat \<Rightarrow> errno + u32) \<Rightarrow> addr option \<Rightarrow> (addr \<times> vnode) option \<Rightarrow> bool" where
  "getf_works lf ga fm vm \<longleftrightarrow> fm \<noteq> None \<and> vm \<noteq> None \<and> (case lf of None \<Rightarrow> False | Some g \<Rightarrow> (case ga g of Inl _ \<Rightarrow> False | Inr _ \<Rightarrow> True))"

fun vn_abstract :: "vn_op \<Rightarrow> (int \<times> nat \<Rightarrow> nat) \<times> (nat \<Rightarrow> int) \<Rightarrow> (int \<times> nat \<Rightarrow> nat) \<times> (nat \<Rightarrow> int)" where
  "vn_abstract (Getf lf ga fm vm fd t) (h, r) =
     (if fd < 0 \<or> h (fd, t) = 0 \<and> \<not> getf_works lf ga fm vm then (h, r) else (h((fd, t) := h (fd, t) + 1), r))"
| "vn_abstract (Releasef fd t) (h, r) = (h((fd, t) := h (fd, t) - 1), r)"

lemma holds_neg: "vn_inv s \<Longrightarrow> fd < 0 \<Longrightarrow> holds s (fd, t) = 0"
  using holds_pos [of s fd t] vn_invD(4) [of s] by (fastforce simp: entry_ok_def)

lemma getf_refines:
  assumes i: "vn_inv s" and al: "vn_op_allowed (Getf lf ga fm vm fd t) s"
  shows "\<exists>r s'. vn_getf lf ga fm vm fd t s = Some (r, s') \<and> vn_inv s' \<and> (holds s', others s') = vn_abstract (Getf lf ga fm vm fd t) (holds s, others s)"
proof (cases "fd < 0")
  case True
  then show ?thesis using i by (simp add: vn_getf_def)
next
  case nonneg: False
  show ?thesis
  proof (cases "file_find fd t s")
    case (Some a)
    then obtain fp where a: "vn_files s a = Some fp" "f_fd fp = fd" "f_task fp = t" using file_find_Some [OF i] by blast
    then have h: "0 < holds s (fd, t)" using holds_pos [OF i] by blast
    then obtain g where g: "lf = Some g" using al by auto
    obtain k v where k: "f_file fp = Some k" "vnodes s (f_vnode fp) = Some v" "v_file v = f_file fp" using vn_invD(4) [OF i a(1)] by (auto simp: entry_ok_def)
    let ?fr = "\<lambda>f. file_refs s f + (if f = g then 1 else 0) - (if f_file fp = Some f then 1 else (0::int))"
    let ?s = "s\<lparr>file_refs := ?fr, vnodes := (vnodes s)(f_vnode fp := map_option (\<lambda>v. v\<lparr>v_file := Some g\<rparr>) (vnodes s (f_vnode fp))),
      vn_files := (vn_files s)(a \<mapsto> fp\<lparr>f_file := Some g, f_ref := f_ref fp + 1\<rparr>)\<rparr>"
    have fr: "(file_refs s)(g := file_refs s g + 1, k := ((file_refs s)(g := file_refs s g + 1)) k - 1) = ?fr" by (auto simp: k(1) fun_eq_iff)
    have same: "fp\<lparr>f_file := Some k\<rparr> = fp" "v\<lparr>v_file := Some k\<rparr> = v" using k by simp_all
    have "(vnodes s)(f_vnode fp \<mapsto> v) = vnodes s" using k(2) by auto
    then have "vn_getf lf ga fm vm fd t s = Some (Some a, ?s)"
      using nonneg Some a(1) g fr k by (cases "g = k") (simp_all add: vn_getf_def fput_def fget_ref_def fput_ref_def Let_def same)
    then show ?thesis using getf_found [OF i a(1) refl refl] h nonneg a by auto
  next
    case None
    have h: "holds s (fd, t) = 0" using None by (simp add: holds_def)
    show ?thesis
    proof (cases "getf_works lf ga fm vm")
      case True
      then obtain a v old g mode where w: "fm = Some a" "vm = Some (v, old)" "lf = Some g" "ga g = Inr mode"
        by (auto simp: getf_works_def split: option.splits sum.splits)
      have fresh: "vn_files s a = None" "vnodes s v = None" using al w by auto
      let ?vn = "old\<lparr>v_type := vn_mode_to_vtype mode, v_file := Some g\<rparr>" and ?fp = "\<lparr>f_fd = fd, f_task = t, f_file = Some g, f_ref = 1, f_offset = 0, f_vnode = v\<rparr>"
      let ?s = "s\<lparr>file_refs := (file_refs s)(g := file_refs s g + 1), vnodes := (vnodes s)(v \<mapsto> ?vn), vn_files := (vn_files s)(a \<mapsto> ?fp), vn_file_list := a # vn_file_list s\<rparr>"
      have "vn_getf lf ga fm vm fd t s = Some (Some a, ?s)"
        using nonneg None w by (simp add: vn_getf_def vn_alloc_def fget_ref_def Let_def)
      moreover have "0 \<le> fd" using nonneg by simp
      ultimately show ?thesis using getf_new [OF i fresh h _ refl refl, where g = g and vn = "?vn"] True nonneg h by auto
    next
      case False
      have put_get: "fput_ref g (fget_ref g s) = s" for g by (simp add: fget_ref_def fput_ref_def)
      have "\<exists>r. vn_getf lf ga fm vm fd t s = Some (r, s)"
      proof (cases "\<exists>a v old g e. fm = Some a \<and> vm = Some (v, old) \<and> lf = Some g \<and> ga g = Inl e")
        case True
        then obtain a v old g e where w: "fm = Some a" "vm = Some (v, old)" "lf = Some g" "ga g = Inl e" by blast
        then have "vnodes s v = None" using al by auto
        then have "(vnodes s)(v := None) = vnodes s" by auto
        then show ?thesis using nonneg None w by (simp add: vn_getf_def vn_alloc_def vn_free_def fget_ref_def fput_ref_def Let_def)
      next
        case False
        then show ?thesis using nonneg None \<open>\<not> getf_works lf ga fm vm\<close>
          by (auto simp: vn_getf_def vn_alloc_def getf_works_def put_get Let_def split: option.splits sum.splits)
      qed
      then show ?thesis using i False h by auto
    qed
  qed
qed

lemma areleasef_refines:
  assumes i: "vn_inv s"
  shows "\<exists>s'. vn_areleasef fd t s = Some s' \<and> vn_inv s' \<and> (holds s', others s') = vn_abstract (Releasef fd t) (holds s, others s)"
proof (cases "fd < 0 \<or> file_find fd t s = None")
  case True
  then have "holds s (fd, t) = 0" using holds_neg [OF i] by (auto simp: holds_def)
  then have "(holds s)((fd, t) := holds s (fd, t) - 1) = holds s" by auto
  then show ?thesis using True i by (auto simp: vn_areleasef_def)
next
  case False
  then obtain a where a: "file_find fd t s = Some a" "\<not> fd < 0" by auto
  then obtain fp where f: "vn_files s a = Some fp" "f_fd fp = fd" "f_task fp = t" using file_find_Some [OF i] by blast
  have e: "entry_ok s fp" by (rule vn_invD(4) [OF i f(1)])
  then obtain g where g: "f_file fp = Some g" by (auto simp: entry_ok_def)
  have h: "holds s (fd, t) = nat (f_ref fp)" using holds_entry [OF i f(1)] f by simp
  show ?thesis
  proof (cases "f_ref fp = 1")
    case True
    let ?s = "s\<lparr>file_refs := (file_refs s)(g := file_refs s g - 1), vnodes := (vnodes s)(f_vnode fp := None), vn_files := (vn_files s)(a := None),
      vn_file_list := removeAll a (vn_file_list s)\<rparr>"
    have "vn_areleasef fd t s = Some ?s"
      using a f True g by (simp add: vn_areleasef_def releasef_locked_def fput_def fput_ref_def vn_free_def Let_def)
    then show ?thesis using releasef_last [OF i f(1) g refl] h True f by simp
  next
    case False
    then have r: "1 < f_ref fp" using e by (simp add: entry_ok_def)
    then have "vn_areleasef fd t s = Some (s\<lparr>vn_files := (vn_files s)(a \<mapsto> fp\<lparr>f_ref := f_ref fp - 1\<rparr>)\<rparr>)"
      using a f by (simp add: vn_areleasef_def Let_def)
    then show ?thesis using releasef_more [OF i f(1) r refl] f by simp
  qed
qed

interpretation vt: stepwise_refinement vn_inv "\<lambda>s. (holds s, others s)" vn_op_step vn_abstract vn_op_allowed
proof unfold_locales
  fix s x
  assume i: "vn_inv s" and al: "vn_op_allowed x s"
  show "\<exists>s'. vn_op_step x s = Some s' \<and> vn_inv s' \<and> (holds s', others s') = vn_abstract x (holds s, others s)"
  proof (cases x)
    case (Getf lf ga fm vm fd t)
    then show ?thesis using getf_refines [OF i, of lf ga fm vm fd t] al by auto
  next
    case (Releasef fd t)
    then show ?thesis using areleasef_refines [OF i, of fd t] by simp
  qed
qed

fun vn_run :: "vn_op list \<Rightarrow> vn_state \<Rightarrow> vn_state option" where
  "vn_run [] s = Some s"
| "vn_run (x # xs) s = (if vn_op_allowed x s then Option.bind (vn_op_step x s) (vn_run xs) else None)"

lemma vn_run_run: "vn_run xs s = Some s' \<Longrightarrow> vt.run s xs s'"
  by (induction xs arbitrary: s) (auto intro: vt.run_Nil vt.run_Cons split: if_splits bind_splits)

lemma vn_empty: "vn_file_list s = [] \<Longrightarrow> vn_files s = Map.empty \<Longrightarrow> vn_inv s \<and> holds s = (\<lambda>_. 0) \<and> others s = file_refs s"
  by (auto simp: vn_inv_def holds_def others_def heldm_def file_find_def fun_eq_iff)

lemma none_held:
  assumes "vn_inv s" "holds s = (\<lambda>_. 0)"
  shows "vn_files s = Map.empty" "vn_file_list s = []" "others s = file_refs s"
proof -
  show m: "vn_files s = Map.empty"
  proof
    fix a
    show "vn_files s a = None"
    proof (rule ccontr)
      assume "vn_files s a \<noteq> None"
      then obtain fp where "vn_files s a = Some fp" by blast
      then have "0 < holds s (f_fd fp, f_task fp)" using holds_pos [OF assms(1)] by blast
      then show False using assms(2) by simp
    qed
  qed
  show "vn_file_list s = []" using vn_invD(2) [OF assms(1)] m by simp
  show "others s = file_refs s" by (simp add: others_def heldm_def m fun_eq_iff)
qed


definition demo_calls :: "vn_op list" where
  "demo_calls = [Getf (Some 7) (\<lambda>_. Inr 0x81A4) (Some 1) (Some (64, demo_vnode)) 3 100,
     Getf (Some 8) (\<lambda>_. Inr 0x81A4) None None 3 100, Releasef 3 100]"


text \<open>When the descriptor of an entry has been closed, \<^verbatim>\<open>getf\<close> stores the null pointer in the entry and returns it; releasing it crashes.\<close>

lemma getf_closed_crashes:
  assumes "vn_inv s" "vn_files s a = Some fp"
  shows "\<exists>s'. vn_getf None ga fm vm (f_fd fp) (f_task fp) s = Some (Some a, s') \<and> (\<exists>fq. vn_files s' a = Some fq \<and> f_file fq = None \<and> releasef_locked a fq s'' = None)"
proof -
  have "file_find (f_fd fp) (f_task fp) s = Some a" using file_find_Some [OF assms(1)] assms(2) by blast
  then show ?thesis using vn_invD(4) [OF assms] assms(2)
    by (auto simp: vn_getf_def fput_def fput_ref_def Let_def releasef_locked_def entry_ok_def)
qed

text \<open>Changing the working directory keeps one reference on it and drops that on the old one; failing changes nothing.\<close>

lemma set_pwd_refs:
  assumes "vn_set_pwd lookup perm name s = (rc, s')"
  shows "rc \<noteq> None \<Longrightarrow> s' = s" "rc = None \<Longrightarrow> \<exists>p. lookup name = Inr p \<and> pwd s' = Some p \<and>
    (\<forall>q. path_refs s' q = path_refs s q + (if q = p then 1 else 0) - (if pwd s = Some q then 1 else 0))"
  using assms by (auto simp: vn_set_pwd_def vn_set_fs_pwd_def path_get_def path_put_def Let_def split: sum.splits option.splits)

end
