(* ===== verification/Spl_Kobj.thy ===== *)
theory Spl_Kobj
  imports Vnode
begin

text \<open>
  Files that the module reads itself, \<^verbatim>\<open>module/spl/spl-kobj.c\<close>: four functions over the vnodes of \<open>Vnode\<close>.  The memory of open files is a map from the
  address of a \<^verbatim>\<open>_buf_t\<close> to its vnode; the functions of the kernel are parameters as there.
\<close>

record kobj_state =
  vns :: vn_state
  bufs :: "addr \<rightharpoonup> addr"

text \<open>\<open>None\<close> is the value -1; \<open>bmem\<close> and \<open>vmem\<close> the memory.\<close>

definition kobj_open_file ::
  "addr option \<Rightarrow> (u32 \<Rightarrow> u32 \<Rightarrow> errno + nat) \<Rightarrow> (nat \<Rightarrow> errno + u32) \<Rightarrow> (addr \<times> vnode) option \<Rightarrow> u32 \<Rightarrow> kobj_state \<Rightarrow> addr option \<times> kobj_state" where
  "kobj_open_file bmem filp getattr vmem iofs k =
     (case bmem of
        None \<Rightarrow> (None, k)
      | Some file \<Rightarrow>
          (case vn_open filp getattr vmem iofs FREAD (vns k) of
             (Inl e, s) \<Rightarrow> (None, k\<lparr>vns := s, bufs := (bufs k)(file := None)\<rparr>)
           | (Inr vp, s) \<Rightarrow> (Some file, k\<lparr>vns := s, bufs := (bufs k)(file \<mapsto> vp)\<rparr>)))"

definition kobj_close_file :: "errno option \<Rightarrow> addr \<Rightarrow> kobj_state \<Rightarrow> kobj_state option" where
  "kobj_close_file rc file k =
     (case bufs k file of
        None \<Rightarrow> None
      | Some vp \<Rightarrow> map_option (\<lambda>(_, s). k\<lparr>vns := s, bufs := (bufs k)(file := None)\<rparr>) (vn_close rc vp (vns k)))"

text \<open>The file of an open buffer.\<close>

definition kobj_fp :: "addr \<Rightarrow> kobj_state \<Rightarrow> nat option" where
  "kobj_fp file k = Option.bind (bufs k file) (\<lambda>vp. Option.bind (vnodes (vns k) vp) v_file)"

text \<open>Sizes and offsets are 32-bit; the result is an \<^verbatim>\<open>int\<close>, -1 for an error.\<close>

definition kobj_read_file ::
  "(nat \<Rightarrow> nat \<Rightarrow> int \<Rightarrow> (errno + nat) \<times> int) \<Rightarrow> addr \<Rightarrow> u32 \<Rightarrow> u32 \<Rightarrow> kobj_state \<Rightarrow> (int \<times> kobj_state) option" where
  "kobj_read_file rd file sz off k =
     (case kobj_fp file k of
        None \<Rightarrow> None
      | Some fp \<Rightarrow>
          (case vn_rdwr rd (\<lambda>_ _ _. (Inl EINVAL, 0)) False fp (unat sz) (uint off) 0 True (vns k) of
             (Inl e, s) \<Rightarrow> Some (- 1, k\<lparr>vns := s\<rparr>)
           | (Inr resid, s) \<Rightarrow> Some (sint (sz - of_nat resid), k\<lparr>vns := s\<rparr>)))"

definition kobj_get_filesize :: "(nat \<Rightarrow> errno + kstat_attr) \<Rightarrow> addr \<Rightarrow> kobj_state \<Rightarrow> (errno + u64) option" where
  "kobj_get_filesize getattr file k = map_option (\<lambda>fp. map_sum id va_size (vn_getattr (getattr fp))) (kobj_fp file k)"

section \<open>Opening, reading, closing\<close>

lemma sint_small: "unat (w :: u32) < 2 ^ 31 \<Longrightarrow> sint w = int (unat w)"
proof -
  assume "unat w < 2 ^ 31"
  then have "nat (uint w) < nat 2147483648" by (simp only: nat_uint_eq) simp
  then have "uint w < 2147483648" by (subst (asm) nat_less_eq_zless) simp_all
  moreover have "(- 2147483648 :: int) \<le> 0" by simp
  ultimately have "- 2147483648 \<le> uint w \<and> uint w < 2147483648" using uint_ge_0 [of w] by linarith
  then show ?thesis by (simp add: sint_uint signed_take_bit_int_eq_self_iff)
qed

text \<open>Reading moves the position of the file and changes nothing else, and returns the number of bytes read, or -1 for an error; the number is right
  as long as it fits into an \<^verbatim>\<open>int\<close>.\<close>

lemma kobj_read_exact:
  assumes "kobj_fp file k = Some fp" "rd fp (unat sz) (uint off) = (r, off')" "\<And>n. r = Inr n \<Longrightarrow> n \<le> unat sz \<and> n < 2 ^ 31"
  shows "kobj_read_file rd file sz off k =
    Some (case r of Inl e \<Rightarrow> - 1 | Inr n \<Rightarrow> int n, k\<lparr>vns := (vns k)\<lparr>f_pos := (f_pos (vns k))(fp := off')\<rparr>\<rparr>)"
proof (cases r)
  case (Inl e)
  then show ?thesis using assms by (simp add: kobj_read_file_def vn_rdwr_def FAPPEND_def)
next
  case (Inr n)
  have n: "n \<le> unat sz" "n < 2 ^ 31" using assms(3) Inr by auto
  have "word_of_nat (unat sz - n) = sz - word_of_nat n" using n(1) by (simp add: of_nat_diff)
  then have "sz - word_of_nat (unat sz - n) = word_of_nat n" by (simp only: diff_diff_eq2 add_diff_cancel_left')
  moreover have "unat (word_of_nat n :: u32) = n" using n(2) by (simp add: unat_of_nat take_bit_nat_eq_self)
  ultimately have "sint (sz - of_nat (unat sz - n)) = int n" using sint_small [of "word_of_nat n"] n(2) by simp
  then show ?thesis using assms(1,2) Inr by (simp add: kobj_read_file_def vn_rdwr_def FAPPEND_def)
qed

text \<open>A read of 2 GiB or more comes back as a negative number, like an error.\<close>

lemma kobj_read_overflows:
  assumes "kobj_fp file k = Some fp" "rd fp (unat (0xC0000000 :: u32)) 0 = (Inr (unat (0xC0000000 :: u32)), off')"
  shows "\<exists>k'. kobj_read_file rd file 0xC0000000 0 k = Some (- 0x40000000, k')"
  using assms by (simp add: kobj_read_file_def vn_rdwr_def FAPPEND_def)

text \<open>A file that cannot be opened leaves nothing behind, whichever step fails; after one that can, reading and closing give everything back: the state is
  as before but for the position of the file.\<close>

theorem kobj_file_balanced:
  assumes "kobj_open_file bmem filp getattr vmem iofs k = (r, k1)"
    "\<And>f. bmem = Some f \<Longrightarrow> bufs k f = None" "\<And>a old. vmem = Some (a, old) \<Longrightarrow> vnodes (vns k) a = None"
  shows "case r of
      None \<Rightarrow> k1 = k
    | Some file \<Rightarrow> (\<exists>fp. filp (FREAD - 1) (umask (vns k)) = Inr fp \<and> kobj_fp file k1 = Some fp) \<and> kobj_close_file rc file k1 = Some k"
proof (cases bmem)
  case None
  then show ?thesis using assms(1) by (simp add: kobj_open_file_def)
next
  case (Some f)
  obtain q s where o: "vn_open filp getattr vmem iofs FREAD (vns k) = (q, s)" by (cases "vn_open filp getattr vmem iofs FREAD (vns k)")
  have fl: "open_flags FREAD = 0" by (simp add: open_flags_def FREAD_def FCREAT_def FWRITE_def)
  have b: "bufs k f = None" using assms(2) Some by simp
  show ?thesis
  proof (cases q)
    case (Inl e)
    then have "s = vns k" using vn_open_fail o by simp
    then have "k1 = k" "r = None" using assms(1) Some o Inl b by (auto simp: kobj_open_file_def fun_upd_idem)
    then show ?thesis by simp
  next
    case (Inr vp)
    then have k1: "k1 = k\<lparr>vns := s, bufs := (bufs k)(f \<mapsto> vp)\<rparr>" "r = Some f" using assms(1) Some o by (auto simp: kobj_open_file_def)
    obtain fp mode where v: "filp 0 (umask (vns k)) = Inr fp" "vnodes s vp = Some \<lparr>v_file = Some fp, v_type = vn_mode_to_vtype mode, v_gfp_mask = gfp_of (vns k) fp\<rparr>"
      "vn_close rc vp s = Some (rc, vns k)"
      using vn_open_success [of filp getattr vmem iofs FREAD "vns k" vp s rc] o Inr assms(3) fl by auto
    have "(bufs k)(f := None) = bufs k" using b by (simp add: fun_upd_idem)
    then show ?thesis using v by (simp add: k1 kobj_fp_def kobj_close_file_def FREAD_def)
  qed
qed

end
