(* ===== verification/Spl_Rwlock.thy ===== *)
theory Spl_Rwlock
  imports Spl_Prelude "HOL-Library.Multiset"
begin

text \<open>
  Reader/writer locks, \<^verbatim>\<open>include/spl/sys/rwlock.h\<close> and \<^verbatim>\<open>module/spl/spl-rwlock.c\<close>: one lock with the threads that use it,
  each access to its fields being one step.  The lock is a kernel semaphore, with the count of the variant that
  \<^verbatim>\<open>CONFIG_RWSEM_GENERIC_SPINLOCK\<close> selects (the number of readers, or -1), and the owner field that the layer adds.
\<close>

section \<open>State\<close>

datatype krw = RW_NONE | RW_WRITER | RW_READER

definition SPL_RWSEM_SINGLE_READER_VALUE :: int where "SPL_RWSEM_SINGLE_READER_VALUE = 1"
definition SPL_RWSEM_SINGLE_WRITER_VALUE :: int where "SPL_RWSEM_SINGLE_WRITER_VALUE = - 1"

lemmas rwsem_values = SPL_RWSEM_SINGLE_READER_VALUE_def SPL_RWSEM_SINGLE_WRITER_VALUE_def

text \<open>The next access of a thread that is inside a call.\<close>

datatype rw_pc = Idle
  | Enter_set_owner | Exit_clear_owner | Exit_up_write | Exit_up_read | Downgrade_sem | Upgrade_sem | Upgrade_set_owner

record krwlock =
  rw_count :: int
  rw_owner :: "nat option"

text \<open>The threads and, as the semaphore grants them, who holds the lock: a reader once per grant.\<close>

record rw_state = krwlock +
  rw_pc :: "nat \<Rightarrow> rw_pc"
  readers :: "nat multiset"
  writer :: "nat option"

definition at :: "nat \<Rightarrow> rw_pc \<Rightarrow> rw_state \<Rightarrow> rw_state" where
  "at t p s = s\<lparr>rw_pc := (rw_pc s)(t := p)\<rparr>"

definition rw_init :: rw_state where
  "rw_init = \<lparr>rw_count = 0, rw_owner = None, rw_pc = (\<lambda>_. Idle), readers = {#}, writer = None\<rparr>"

definition spl_rw_set_owner :: "nat \<Rightarrow> rw_state \<Rightarrow> rw_state" where
  "spl_rw_set_owner t s = s\<lparr>rw_owner := Some t\<rparr>"

definition spl_rw_clear_owner :: "rw_state \<Rightarrow> rw_state" where
  "spl_rw_clear_owner s = s\<lparr>rw_owner := None\<rparr>"

definition RW_LOCK_HELD :: "rw_state \<Rightarrow> bool" where
  "RW_LOCK_HELD s \<longleftrightarrow> rw_count s \<noteq> 0"

definition RW_READ_HELD :: "rw_state \<Rightarrow> bool" where
  "RW_READ_HELD s \<longleftrightarrow> rw_count s \<noteq> 0 \<and> rw_owner s = None"

definition RW_WRITE_HELD :: "nat \<Rightarrow> rw_state \<Rightarrow> bool" where
  "RW_WRITE_HELD t s \<longleftrightarrow> rw_owner s = Some t"

definition rw_destroy :: "rw_state \<Rightarrow> rw_state option" where
  "rw_destroy s = (if RW_LOCK_HELD s then None else Some s)"

section \<open>The semaphore of the kernel\<close>

text \<open>Its operations as they are documented: readers share, a writer excludes; \<open>None\<close> blocks.\<close>

definition down_read :: "nat \<Rightarrow> rw_state \<Rightarrow> rw_state option" where
  "down_read t s = (if rw_count s \<ge> 0 then Some (s\<lparr>rw_count := rw_count s + 1, readers := add_mset t (readers s)\<rparr>) else None)"

definition down_write :: "nat \<Rightarrow> rw_state \<Rightarrow> rw_state option" where
  "down_write t s = (if rw_count s = 0 then Some (s\<lparr>rw_count := - 1, writer := Some t\<rparr>) else None)"

definition up_read :: "nat \<Rightarrow> rw_state \<Rightarrow> rw_state" where
  "up_read t s = s\<lparr>rw_count := rw_count s - 1, readers := readers s - {#t#}\<rparr>"

definition up_write :: "rw_state \<Rightarrow> rw_state" where
  "up_write s = s\<lparr>rw_count := 0, writer := None\<rparr>"

definition downgrade_write :: "nat \<Rightarrow> rw_state \<Rightarrow> rw_state" where
  "downgrade_write t s = s\<lparr>rw_count := 1, writer := None, readers := {#t#}\<rparr>"

text \<open>The operation the layer adds to it; \<open>waiting\<close> says whether its wait list is nonempty.\<close>

definition rwsem_tryupgrade :: "bool \<Rightarrow> nat \<Rightarrow> rw_state \<Rightarrow> bool \<times> rw_state" where
  "rwsem_tryupgrade waiting t s =
     (if rw_count s = SPL_RWSEM_SINGLE_READER_VALUE \<and> \<not> waiting
      then (True, s\<lparr>rw_count := SPL_RWSEM_SINGLE_WRITER_VALUE, readers := readers s - {#t#}, writer := Some t\<rparr>)
      else (False, s))"

section \<open>Entering and leaving\<close>

text \<open>The first access of each call.  \<open>RW_NONE\<close> is caught by an assertion.\<close>

definition rw_enter :: "krw \<Rightarrow> nat \<Rightarrow> rw_state \<Rightarrow> rw_state option" where
  "rw_enter rw t s =
     (case rw of
        RW_READER \<Rightarrow> down_read t s
      | RW_WRITER \<Rightarrow> map_option (at t Enter_set_owner) (down_write t s)
      | RW_NONE \<Rightarrow> None)"

text \<open>Trying: the semaphore may refuse although it is free (\<open>luck\<close> is false), but never blocks.\<close>

definition rw_tryenter :: "bool \<Rightarrow> krw \<Rightarrow> nat \<Rightarrow> rw_state \<Rightarrow> (bool \<times> rw_state) option" where
  "rw_tryenter luck rw t s =
     (if rw = RW_NONE then None
      else case rw_enter rw t s of Some s' \<Rightarrow> if luck then Some (True, s') else Some (False, s) | None \<Rightarrow> Some (False, s))"

definition rw_exit :: "nat \<Rightarrow> rw_state \<Rightarrow> rw_state option" where
  "rw_exit t s =
     (if RW_WRITE_HELD t s then Some (at t Exit_clear_owner s)
      else if RW_READ_HELD s then Some (at t Exit_up_read s) else None)"

definition rw_downgrade :: "nat \<Rightarrow> rw_state \<Rightarrow> rw_state" where
  "rw_downgrade t s = at t Downgrade_sem (spl_rw_clear_owner s)"

text \<open>Upgrading a lock that is held for writing succeeds at once.\<close>

definition rw_tryupgrade :: "nat \<Rightarrow> rw_state \<Rightarrow> bool \<times> rw_state" where
  "rw_tryupgrade t s = (if RW_WRITE_HELD t s then (True, s) else (False, at t Upgrade_sem s))"

text \<open>The accesses after the first.\<close>

definition rw_continue :: "bool \<Rightarrow> nat \<Rightarrow> rw_state \<Rightarrow> rw_state option" where
  "rw_continue waiting t s =
     (case rw_pc s t of
        Idle \<Rightarrow> None
      | Enter_set_owner \<Rightarrow> Some (at t Idle (spl_rw_set_owner t s))
      | Exit_clear_owner \<Rightarrow> Some (at t Exit_up_write (spl_rw_clear_owner s))
      | Exit_up_write \<Rightarrow> Some (at t Idle (up_write s))
      | Exit_up_read \<Rightarrow> Some (at t Idle (up_read t s))
      | Downgrade_sem \<Rightarrow> Some (at t Idle (downgrade_write t s))
      | Upgrade_sem \<Rightarrow> (case rwsem_tryupgrade waiting t s of (rc, s') \<Rightarrow> Some (at t (if rc then Upgrade_set_owner else Idle) s'))
      | Upgrade_set_owner \<Rightarrow> Some (at t Idle (spl_rw_set_owner t s)))"

section \<open>Steps\<close>

text \<open>What callers must respect: a thread leaves, downgrades or upgrades only a lock it holds, and one at a time.\<close>

inductive rw_step :: "rw_state \<Rightarrow> rw_state \<Rightarrow> bool" where
  rw_continue: "rw_continue waiting t s = Some s' \<Longrightarrow> rw_step s s'"
| rw_enter: "rw_pc s t = Idle \<Longrightarrow> rw_enter rw t s = Some s' \<Longrightarrow> rw_step s s'"
| rw_tryenter: "rw_pc s t = Idle \<Longrightarrow> rw_tryenter luck rw t s = Some (rc, s') \<Longrightarrow> rw_step s s'"
| rw_exit: "rw_pc s t = Idle \<Longrightarrow> t \<in># readers s \<or> writer s = Some t \<Longrightarrow> rw_exit t s = Some s' \<Longrightarrow> rw_step s s'"
| rw_downgrade: "rw_pc s t = Idle \<Longrightarrow> writer s = Some t \<Longrightarrow> rw_step s (rw_downgrade t s)"
| rw_tryupgrade: "rw_pc s t = Idle \<Longrightarrow> t \<in># readers s \<or> writer s = Some t \<Longrightarrow> rw_tryupgrade t s = (rc, s') \<Longrightarrow> rw_step s s'"

inductive rw_reach :: "rw_state \<Rightarrow> bool" where
  rw_reach_init: "rw_reach rw_init"
| rw_reach_step: "rw_reach s \<Longrightarrow> rw_step s s' \<Longrightarrow> rw_reach s'"

lemmas rw_defs = at_def spl_rw_set_owner_def spl_rw_clear_owner_def RW_WRITE_HELD_def RW_READ_HELD_def RW_LOCK_HELD_def
  down_read_def down_write_def up_read_def up_write_def downgrade_write_def rwsem_tryupgrade_def rwsem_values

section \<open>The invariant\<close>

text \<open>What the program counters say of who holds the lock, and how the count and the owner field relate to it.\<close>

definition pc_ok :: "rw_state \<Rightarrow> nat \<Rightarrow> bool" where
  "pc_ok s t \<longleftrightarrow>
     (case rw_pc s t of
        Idle \<Rightarrow> True
      | Exit_up_read \<Rightarrow> t \<in># readers s
      | Upgrade_sem \<Rightarrow> t \<in># readers s
      | _ \<Rightarrow> writer s = Some t)"

definition rw_inv :: "rw_state \<Rightarrow> bool" where
  "rw_inv s \<longleftrightarrow>
     (case writer s of
        None \<Rightarrow> rw_count s = int (size (readers s)) \<and> rw_owner s = None
      | Some t \<Rightarrow> rw_count s = - 1 \<and> readers s = {#} \<and>
          rw_owner s = (if rw_pc s t \<in> {Idle, Exit_clear_owner} then Some t else None)) \<and>
     (\<forall>t. pc_ok s t)"

lemma rw_inv_init: "rw_inv rw_init"
  by (simp add: rw_inv_def rw_init_def pc_ok_def)

lemma rw_invD:
  assumes "rw_inv s"
  shows "writer s = None \<Longrightarrow> rw_count s = int (size (readers s)) \<and> rw_owner s = None"
    and "writer s = Some t \<Longrightarrow> rw_count s = - 1 \<and> readers s = {#}"
    and "writer s = Some t \<Longrightarrow> rw_owner s = (if rw_pc s t \<in> {Idle, Exit_clear_owner} then Some t else None)"
    and "pc_ok s t"
  using assms by (auto simp: rw_inv_def)

lemma readers_count_nonneg: "rw_inv s \<Longrightarrow> rw_count s \<ge> 0 \<longleftrightarrow> writer s = None"
  by (cases "writer s") (auto dest: rw_invD)

section \<open>Every access keeps it\<close>

lemma enter_inv:
  assumes "rw_inv s" "rw_pc s t = Idle" "rw_enter rw t s = Some s'"
  shows "rw_inv s'"
proof (cases rw)
  case RW_READER
  then have c: "rw_count s \<ge> 0" and s': "s' = s\<lparr>rw_count := rw_count s + 1, readers := add_mset t (readers s)\<rparr>"
    using assms(3) by (auto simp: rw_enter_def rw_defs split: if_splits)
  have w: "writer s = None" using c readers_count_nonneg [OF assms(1)] by simp
  have "pc_ok s' u" for u using rw_invD(4) [OF assms(1), of u] by (auto simp: s' pc_ok_def split: rw_pc.splits)
  then show ?thesis using rw_invD(1) [OF assms(1) w] w by (simp add: rw_inv_def s')
next
  case RW_WRITER
  then have c: "rw_count s = 0" and s': "s' = at t Enter_set_owner (s\<lparr>rw_count := - 1, writer := Some t\<rparr>)"
    using assms(3) by (auto simp: rw_enter_def rw_defs split: if_splits)
  have w: "writer s = None" using c readers_count_nonneg [OF assms(1)] by simp
  then have "readers s = {#}" "rw_owner s = None" using rw_invD(1) [OF assms(1)] c by auto
  moreover have "pc_ok s' u" for u
    using rw_invD(4) [OF assms(1), of u] w \<open>readers s = {#}\<close> by (auto simp: s' at_def pc_ok_def split: rw_pc.splits)
  ultimately show ?thesis by (simp add: rw_inv_def s' at_def)
qed (use assms in \<open>simp add: rw_enter_def\<close>)

text \<open>Accesses of the writer to the owner field, and its two ways to give the lock up.\<close>

lemma writer_moves:
  assumes "rw_inv s" "writer s = Some t" "p \<notin> {Exit_up_read, Upgrade_sem}"
  shows "rw_inv (at t p (s\<lparr>rw_owner := (if p \<in> {Idle, Exit_clear_owner} then Some t else None)\<rparr>))"
proof -
  have "pc_ok (at t p (s\<lparr>rw_owner := w\<rparr>)) u" for u w
    using rw_invD(4) [OF assms(1), of u] assms(2,3) by (cases p) (auto simp: at_def pc_ok_def split: rw_pc.splits)
  then show ?thesis using rw_invD(2) [OF assms(1,2)] assms(2) by (simp add: rw_inv_def at_def)
qed

lemma writer_leaves:
  assumes "rw_inv s" "writer s = Some t" "rw_pc s t \<notin> {Idle, Exit_clear_owner}" "r = {#} \<or> r = {#t#}"
  shows "rw_inv (at t Idle (s\<lparr>rw_count := int (size r), writer := None, readers := r\<rparr>))"
proof -
  have "pc_ok (at t Idle (s\<lparr>rw_count := int (size r), writer := None, readers := r\<rparr>)) u" for u
    using rw_invD(4) [OF assms(1), of u] rw_invD(2) [OF assms(1,2)] assms(2) by (auto simp: at_def pc_ok_def split: rw_pc.splits)
  then show ?thesis using rw_invD(3) [OF assms(1,2)] assms(3) by (simp add: rw_inv_def at_def)
qed

lemma reader_no_writer: "rw_inv s \<Longrightarrow> t \<in># readers s \<Longrightarrow> writer s = None"
  by (cases "writer s") (auto dest: rw_invD(2))

lemma reader_moves:
  assumes "rw_inv s" "t \<in># readers s" "p \<in> {Idle, Exit_up_read, Upgrade_sem}"
  shows "rw_inv (at t p s)"
proof -
  have w: "writer s = None" using assms(1,2) by (rule reader_no_writer)
  have "pc_ok (at t p s) u" for u using rw_invD(4) [OF assms(1), of u] assms(2,3) by (auto simp: at_def pc_ok_def split: rw_pc.splits)
  then show ?thesis using rw_invD(1) [OF assms(1) w] w by (simp add: rw_inv_def at_def)
qed

lemma reader_leaves:
  assumes "rw_inv s" "t \<in># readers s"
  shows "rw_inv (at t Idle (up_read t s))"
proof -
  have w: "writer s = None" using assms by (rule reader_no_writer)
  have "pc_ok (at t Idle (up_read t s)) u" for u
    using rw_invD(4) [OF assms(1), of u] w by (auto simp: at_def up_read_def pc_ok_def in_diff_count split: rw_pc.splits)
  moreover have "int (size (readers s - {#t#})) = int (size (readers s)) - 1"
    using assms(2) by (auto dest: multi_member_split)
  ultimately show ?thesis using rw_invD(1) [OF assms(1) w] w by (simp add: rw_inv_def at_def up_read_def)
qed

lemma single_reader:
  assumes "rw_inv s" "t \<in># readers s" "rw_count s = 1"
  shows "readers s = {#t#}"
proof -
  have "size (readers s) = 1" using rw_invD(1) [OF assms(1) reader_no_writer [OF assms(1,2)]] assms(3) by simp
  then obtain u where "readers s = {#u#}" by (metis size_1_singleton_mset One_nat_def)
  then show ?thesis using assms(2) by simp
qed

lemma upgrade_inv:
  assumes "rw_inv s" "t \<in># readers s" "rw_pc s t = Upgrade_sem" "rwsem_tryupgrade waiting t s = (rc, s')"
  shows "rw_inv (at t (if rc then Upgrade_set_owner else Idle) s')"
proof (cases "rw_count s = 1 \<and> \<not> waiting")
  case True
  then have r: "readers s = {#t#}" using single_reader assms(1,2) by blast
  have w: "writer s = None" using reader_no_writer assms(1,2) by blast
  have s': "rc" "s' = s\<lparr>rw_count := - 1, readers := {#}, writer := Some t\<rparr>" using True assms(4) r by (auto simp: rw_defs)
  have "pc_ok (at t Upgrade_set_owner s') u" for u
    using rw_invD(4) [OF assms(1), of u] r w by (auto simp: s' at_def pc_ok_def split: rw_pc.splits)
  then show ?thesis using rw_invD(1) [OF assms(1) w] s' by (simp add: rw_inv_def at_def)
next
  case False
  then have "\<not> rc" "s' = s" using assms(4) by (auto simp: rw_defs split: if_splits)
  then show ?thesis using reader_moves [OF assms(1,2), of Idle] by simp
qed

lemma continue_inv:
  assumes "rw_inv s" "rw_continue waiting t s = Some s'"
  shows "rw_inv s'"
proof (cases "rw_pc s t")
  case Enter_set_owner
  then have "writer s = Some t" using rw_invD(4) [OF assms(1), of t] by (simp add: pc_ok_def)
  then show ?thesis using writer_moves [OF assms(1), of t Idle] assms(2) Enter_set_owner by (auto simp: rw_continue_def spl_rw_set_owner_def)
next
  case Exit_clear_owner
  then have "writer s = Some t" using rw_invD(4) [OF assms(1), of t] by (simp add: pc_ok_def)
  then show ?thesis using writer_moves [OF assms(1), of t Exit_up_write] assms(2) Exit_clear_owner by (auto simp: rw_continue_def spl_rw_clear_owner_def)
next
  case Exit_up_write
  then have w: "writer s = Some t" using rw_invD(4) [OF assms(1), of t] by (simp add: pc_ok_def)
  have "up_write s = s\<lparr>rw_count := int (size ({#} :: nat multiset)), writer := None, readers := {#}\<rparr>" using rw_invD(2) [OF assms(1) w] by (simp add: up_write_def)
  then show ?thesis using writer_leaves [OF assms(1) w, of "{#}"] assms(2) Exit_up_write by (simp add: rw_continue_def)
next
  case Exit_up_read
  then have "t \<in># readers s" using rw_invD(4) [OF assms(1), of t] by (simp add: pc_ok_def)
  then show ?thesis using reader_leaves [OF assms(1)] assms(2) Exit_up_read by (auto simp: rw_continue_def)
next
  case Downgrade_sem
  then have w: "writer s = Some t" using rw_invD(4) [OF assms(1), of t] by (simp add: pc_ok_def)
  then show ?thesis using writer_leaves [OF assms(1) w, of "{#t#}"] assms(2) Downgrade_sem by (simp add: rw_continue_def downgrade_write_def)
next
  case Upgrade_sem
  then have "t \<in># readers s" using rw_invD(4) [OF assms(1), of t] by (simp add: pc_ok_def)
  then show ?thesis using upgrade_inv [OF assms(1)] assms(2) Upgrade_sem by (auto simp: rw_continue_def split: prod.splits)
next
  case Upgrade_set_owner
  then have "writer s = Some t" using rw_invD(4) [OF assms(1), of t] by (simp add: pc_ok_def)
  then show ?thesis using writer_moves [OF assms(1), of t Idle] assms(2) Upgrade_set_owner by (auto simp: rw_continue_def spl_rw_set_owner_def)
qed (use assms in \<open>simp add: rw_continue_def\<close>)

text \<open>The owner field tells a thread outside of a call whether it is the writer.\<close>

lemma owner_exact:
  assumes "rw_inv s" "rw_pc s t = Idle"
  shows "RW_WRITE_HELD t s \<longleftrightarrow> writer s = Some t"
  using rw_invD(1,3) [OF assms(1)] assms(2) by (cases "writer s") (auto simp: RW_WRITE_HELD_def split: if_splits)

lemma owner_self:
  assumes "rw_inv s" "writer s = Some t" "rw_pc s t = Idle"
  shows "s\<lparr>rw_owner := Some t\<rparr> = s"
  using rw_invD(3) [OF assms(1,2)] assms(3) by simp

lemma exit_inv:
  assumes "rw_inv s" "rw_pc s t = Idle" "t \<in># readers s \<or> writer s = Some t" "rw_exit t s = Some s'"
  shows "rw_inv s'"
proof (cases "writer s = Some t")
  case True
  then have "s' = at t Exit_clear_owner s" using assms(4) owner_exact [OF assms(1,2)] by (simp add: rw_exit_def)
  then show ?thesis using writer_moves [OF assms(1) True, of Exit_clear_owner] owner_self [OF assms(1) True assms(2)] by simp
next
  case False
  then have "s' = at t Exit_up_read s" using assms(4) owner_exact [OF assms(1,2)] by (simp add: rw_exit_def split: if_splits)
  then show ?thesis using reader_moves [OF assms(1), of t Exit_up_read] assms(3) False by simp
qed

lemma tryupgrade_inv:
  assumes "rw_inv s" "rw_pc s t = Idle" "t \<in># readers s \<or> writer s = Some t" "rw_tryupgrade t s = (rc, s')"
  shows "rw_inv s'"
  using assms reader_moves [OF assms(1), of t Upgrade_sem] owner_exact [OF assms(1,2)]
  by (auto simp: rw_tryupgrade_def split: if_splits)

lemma rw_step_inv:
  assumes "rw_step s s'" "rw_inv s"
  shows "rw_inv s'"
  using assms
proof (induction rule: rw_step.induct)
  case (rw_tryenter s t luck rw rc s')
  then show ?case using enter_inv by (auto simp: rw_tryenter_def split: if_splits option.splits)
next
  case (rw_downgrade s t)
  then show ?case using writer_moves [of s t Downgrade_sem] by (simp add: rw_downgrade_def spl_rw_clear_owner_def)
qed (auto intro: continue_inv enter_inv exit_inv tryupgrade_inv)

lemma rw_reach_inv: "rw_reach s \<Longrightarrow> rw_inv s"
  by (induction rule: rw_reach.induct) (auto intro: rw_inv_init rw_step_inv)

section \<open>Exclusion and the owner field\<close>

lemma lock_held_exact:
  assumes "rw_inv s"
  shows "RW_LOCK_HELD s \<longleftrightarrow> readers s \<noteq> {#} \<or> writer s \<noteq> None"
proof (cases "writer s")
  case None
  then show ?thesis using rw_invD(1) [OF assms] by (simp add: RW_LOCK_HELD_def)
next
  case (Some t)
  then show ?thesis using rw_invD(2) [OF assms Some] by (simp add: RW_LOCK_HELD_def)
qed

lemma reader_reads:
  assumes "rw_inv s" "t \<in># readers s"
  shows "RW_READ_HELD s" "rw_owner s = None"
proof -
  have "rw_count s = int (size (readers s)) \<and> rw_owner s = None" using rw_invD(1) [OF assms(1) reader_no_writer [OF assms]] .
  then show "rw_owner s = None" "RW_READ_HELD s" using assms(2) by (auto simp: RW_READ_HELD_def)
qed

lemma idle_exact:
  assumes "rw_inv s" "rw_pc s t = Idle"
  shows "(RW_WRITE_HELD t s \<longleftrightarrow> writer s = Some t) \<and>
    (t \<in># readers s \<longrightarrow> RW_READ_HELD s \<and> rw_exit t s = Some (at t Exit_up_read s)) \<and>
    (writer s = Some t \<longrightarrow> rw_exit t s = Some (at t Exit_clear_owner s))"
proof (intro conjI impI)
  show o: "RW_WRITE_HELD t s \<longleftrightarrow> writer s = Some t" using owner_exact [OF assms] .
  show "rw_exit t s = Some (at t Exit_clear_owner s)" if "writer s = Some t" using o that by (simp add: rw_exit_def)
  assume t: "t \<in># readers s"
  show r: "RW_READ_HELD s" using reader_reads(1) [OF assms(1) t] .
  show "rw_exit t s = Some (at t Exit_up_read s)" using r reader_reads(2) [OF assms(1) t] by (simp add: rw_exit_def RW_WRITE_HELD_def)
qed

lemma upgrade_exact:
  assumes "rw_inv s" "t \<in># readers s"
  shows "fst (rwsem_tryupgrade waiting t s) \<longleftrightarrow> readers s = {#t#} \<and> \<not> waiting"
    and "fst (rwsem_tryupgrade waiting t s) \<Longrightarrow>
      writer (snd (rwsem_tryupgrade waiting t s)) = Some t \<and> readers (snd (rwsem_tryupgrade waiting t s)) = {#} \<and>
      rw_count (snd (rwsem_tryupgrade waiting t s)) = - 1"
proof -
  have "rw_count s = int (size (readers s))" using rw_invD(1) [OF assms(1) reader_no_writer [OF assms]] by simp
  then have c: "rw_count s = 1 \<longleftrightarrow> readers s = {#t#}" using single_reader [OF assms] by fastforce
  then show e: "fst (rwsem_tryupgrade waiting t s) \<longleftrightarrow> readers s = {#t#} \<and> \<not> waiting"
    by (simp add: rwsem_tryupgrade_def rwsem_values)
  assume "fst (rwsem_tryupgrade waiting t s)"
  then have "readers s = {#t#} \<and> \<not> waiting" using e by simp
  then show "writer (snd (rwsem_tryupgrade waiting t s)) = Some t \<and> readers (snd (rwsem_tryupgrade waiting t s)) = {#} \<and>
      rw_count (snd (rwsem_tryupgrade waiting t s)) = - 1"
    using c by (simp add: rwsem_tryupgrade_def rwsem_values)
qed

lemma leaving_holds:
  assumes "rw_inv s"
  shows "rw_pc s t \<in> {Exit_clear_owner, Exit_up_write, Downgrade_sem} \<Longrightarrow> writer s = Some t"
    and "rw_pc s t \<in> {Exit_up_read, Upgrade_sem} \<Longrightarrow> t \<in># readers s"
  using rw_invD(4) [OF assms, of t] by (auto simp: pc_ok_def)

text \<open>C38: However entering, leaving, upgrading and downgrading of any threads interleave: a writer is the only holder; the
  lock reads as held exactly if someone holds it; outside of a call a thread reads the lock as held for writing by itself exactly if it
  is the writer, and a reader reads it as held for reading; leaving therefore passes its assertion and
  releases it in the mode in which it is held; and an upgrade that gets to the semaphore succeeds exactly
  if no other reader is there and none waits, giving the lock to that thread without letting it go.\<close>

theorem rw_lock_exact:
  assumes "rw_reach s"
  shows "(writer s = Some t \<longrightarrow> readers s = {#}) \<and>
    (RW_LOCK_HELD s \<longleftrightarrow> readers s \<noteq> {#} \<or> writer s \<noteq> None) \<and>
    (rw_pc s t = Idle \<longrightarrow> (RW_WRITE_HELD t s \<longleftrightarrow> writer s = Some t) \<and>
       (t \<in># readers s \<longrightarrow> RW_READ_HELD s \<and> rw_exit t s = Some (at t Exit_up_read s)) \<and>
       (writer s = Some t \<longrightarrow> rw_exit t s = Some (at t Exit_clear_owner s))) \<and>
    (rw_pc s t \<in> {Exit_clear_owner, Exit_up_write, Downgrade_sem} \<longrightarrow> writer s = Some t) \<and>
    (rw_pc s t = Exit_up_read \<longrightarrow> t \<in># readers s) \<and>
    (rw_pc s t = Upgrade_sem \<longrightarrow>
       (fst (rwsem_tryupgrade waiting t s) \<longleftrightarrow> readers s = {#t#} \<and> \<not> waiting) \<and>
       (fst (rwsem_tryupgrade waiting t s) \<longrightarrow>
          writer (snd (rwsem_tryupgrade waiting t s)) = Some t \<and> readers (snd (rwsem_tryupgrade waiting t s)) = {#} \<and>
          rw_count (snd (rwsem_tryupgrade waiting t s)) = - 1))"
proof -
  have i: "rw_inv s" using assms by (rule rw_reach_inv)
  have t: "t \<in># readers s" if "rw_pc s t = Upgrade_sem" using leaving_holds(2) [OF i, of t] that by simp
  show ?thesis
    using rw_invD(2) [OF i, of t] lock_held_exact [OF i] idle_exact [OF i, of t] leaving_holds [OF i, of t]
      upgrade_exact [OF i t, of waiting]
    by (intro conjI impI; simp)
qed

text \<open>A reader about to upgrade.\<close>

definition demo_rw :: rw_state where
  "demo_rw = \<lparr>rw_count = 1, rw_owner = None, rw_pc = (\<lambda>_. Idle)(7 := Upgrade_sem), readers = {#7#}, writer = None\<rparr>"

lemma demo_rw_reach: "rw_reach demo_rw"
proof -
  let ?s = "rw_init\<lparr>rw_count := 1, readers := {#7#}\<rparr>"
  have "rw_step rw_init ?s" by (rule rw_step.rw_enter [where t = 7 and rw = RW_READER]) (simp_all add: rw_init_def rw_enter_def down_read_def)
  then have "rw_reach ?s" using rw_reach_init rw_reach_step by blast
  moreover have "rw_step ?s demo_rw"
    by (rule rw_step.rw_tryupgrade [where t = 7 and rc = False])
      (simp_all add: rw_init_def rw_tryupgrade_def RW_WRITE_HELD_def at_def demo_rw_def)
  ultimately show ?thesis by (rule rw_reach_step)
qed

theorem rw_lock_exact_witness: "rw_pc demo_rw 7 = Upgrade_sem \<and> fst (rwsem_tryupgrade False 7 demo_rw) \<and> RW_LOCK_HELD demo_rw"
  using rw_lock_exact [OF demo_rw_reach, of 7 False] by (simp add: demo_rw_def)

text \<open>Undisturbed calls: entering and leaving restores the lock, upgrading a single reader and downgrading it are
  inverse, and destroying a free lock succeeds.\<close>

lemma rw_write_roundtrip:
  assumes "rw_inv s" "rw_pc s t = Idle" "rw_enter RW_WRITER t s = Some s1" "rw_continue w t s1 = Some s2" "rw_exit t s2 = Some s3"
    "rw_continue w t s3 = Some s4" "rw_continue w t s4 = Some s5"
  shows "s5 = s" "rw_destroy s5 = Some s5"
proof -
  have c: "rw_count s = 0" and s1: "s1 = at t Enter_set_owner (s\<lparr>rw_count := - 1, writer := Some t\<rparr>)"
    using assms(3) by (auto simp: rw_enter_def rw_defs split: if_splits)
  have w: "writer s = None" using c readers_count_nonneg [OF assms(1)] by simp
  then have "rw_owner s = None" using rw_invD(1) [OF assms(1)] by auto
  then show "s5 = s" using s1 c w assms(2,4-7) by (auto simp: rw_continue_def rw_exit_def rw_defs fun_upd_idem)
  then show "rw_destroy s5 = Some s5" using c by (simp add: rw_destroy_def RW_LOCK_HELD_def)
qed

lemma rw_upgrade_downgrade:
  assumes "rw_inv s" "rw_pc s t = Idle" "readers s = {#t#}"
    "rw_tryupgrade t s = (rc, s1)" "rw_continue False t s1 = Some s2" "rw_continue False t s2 = Some s3" "rw_continue False t (rw_downgrade t s3) = Some s4"
  shows "RW_WRITE_HELD t s3" "s4 = s"
proof -
  have w: "writer s = None" using reader_no_writer [OF assms(1), of t] assms(3) by simp
  then have c: "rw_owner s = None" "rw_count s = 1" using rw_invD(1) [OF assms(1)] assms(3) by auto
  have s3: "s3 = s\<lparr>rw_count := - 1, readers := {#}, writer := Some t, rw_owner := Some t\<rparr>"
    using w c assms(2-6) by (auto simp: rw_continue_def rw_tryupgrade_def rw_defs fun_upd_idem)
  then show "RW_WRITE_HELD t s3" by (simp add: RW_WRITE_HELD_def)
  show "s4 = s" using s3 w c assms(2,3,7) by (auto simp: rw_continue_def rw_downgrade_def rw_defs fun_upd_idem)
qed

text \<open>While a writer has the semaphore but has not yet written the owner field, other threads read the lock as held for reading.\<close>

lemma read_held_of_writer: "\<exists>s. rw_reach s \<and> writer s = Some 1 \<and> RW_READ_HELD s"
proof -
  let ?s = "at 1 Enter_set_owner (rw_init\<lparr>rw_count := - 1, writer := Some 1\<rparr>)"
  have "rw_step rw_init ?s" by (rule rw_step.rw_enter [where t = 1 and rw = RW_WRITER]) (simp_all add: rw_init_def rw_enter_def down_write_def)
  then have "rw_reach ?s" using rw_reach_init rw_reach_step by blast
  then show ?thesis by (intro exI [of _ ?s]) (simp add: at_def rw_init_def RW_READ_HELD_def)
qed

end
