(* ===== verification/Spl_Rwlock_Variants.thy ===== *)
theory Spl_Rwlock_Variants
  imports Spl_Rwlock
begin

text \<open>
  The variants of \<^verbatim>\<open>__rwsem_tryupgrade\<close> in \<^verbatim>\<open>module/spl/spl-rwlock.c\<close> for the other semaphores of the kernel: a count that is
  compared and exchanged, and the nesting depth of the realtime kernel.  The semaphore with the count of readers and -1 is in \<open>Spl_Rwlock\<close>.
\<close>

section \<open>Compare and exchange\<close>

definition rwsem_cmpxchg :: "int \<Rightarrow> int \<Rightarrow> int \<Rightarrow> int \<times> int" where
  "rwsem_cmpxchg old new cnt = (cnt, if cnt = old then new else cnt)"

text \<open>\<open>RB\<close> and \<open>WB\<close> are the kernel's \<^verbatim>\<open>RWSEM_ACTIVE_READ_BIAS\<close> and \<^verbatim>\<open>RWSEM_ACTIVE_WRITE_BIAS\<close>.\<close>

definition rwsem_tryupgrade_long :: "int \<Rightarrow> int \<Rightarrow> int \<Rightarrow> bool \<times> int" where
  "rwsem_tryupgrade_long RB WB cnt = (let (val, cnt') = rwsem_cmpxchg RB WB cnt in (val = RB, cnt'))"

definition rwsem_tryupgrade_count :: "int \<Rightarrow> int \<Rightarrow> int \<Rightarrow> bool \<times> int" where
  "rwsem_tryupgrade_count RB WB cnt = (let (val, cnt') = rwsem_cmpxchg RB WB cnt in (val = RB, cnt'))"

text \<open>With \<^verbatim>\<open>CONFIG_RWSEM_SPIN_ON_OWNER\<close> the semaphore also has an owner, which a successful upgrade sets.\<close>

definition rwsem_tryupgrade_owned :: "bool \<Rightarrow> (int \<Rightarrow> bool \<times> int) \<Rightarrow> nat \<Rightarrow> int \<times> nat option \<Rightarrow> bool \<times> int \<times> nat option" where
  "rwsem_tryupgrade_owned SPIN_ON_OWNER tryupgrade current sem =
     (case tryupgrade (fst sem) of
        (True, cnt) \<Rightarrow> (True, cnt, if SPIN_ON_OWNER then Some current else snd sem)
      | (False, cnt) \<Rightarrow> (False, cnt, snd sem))"

text \<open>The count of this semaphore for the count \<open>c\<close> of the other: the bias of each reader or of the writer, and a negative bias \<open>Q\<close> while a
  thread waits.\<close>

definition count_of :: "int \<Rightarrow> int \<Rightarrow> int \<Rightarrow> bool \<Rightarrow> int \<Rightarrow> int" where
  "count_of RB WB Q waiting c = (if c = - 1 then WB else c * RB) + (if waiting then Q else 0)"

text \<open>What the kernel's constants satisfy, for up to \<open>N\<close> readers.\<close>

definition biases_ok :: "int \<Rightarrow> int \<Rightarrow> int \<Rightarrow> int \<Rightarrow> bool" where
  "biases_ok RB WB Q N \<longleftrightarrow> 0 < RB \<and> N * RB < - Q \<and> WB = Q + RB \<and> 1 \<le> N"

text \<open>The variants agree: comparing the count with that of one reader succeeds exactly when there is one reader and nobody waits, and leaves the count
  of a writer, as the variant with the spinlock does; an upgrade never succeeds past a waiting thread.\<close>

theorem rwsem_variants_agree:
  assumes "biases_ok RB WB Q N" "- 1 \<le> rw_count s" "rw_count s \<le> N"
    "rwsem_tryupgrade waiting t s = (r, s')" "rwsem_tryupgrade_long RB WB (count_of RB WB Q waiting (rw_count s)) = (r2, c2)"
  shows "r2 = r \<and> c2 = count_of RB WB Q waiting (rw_count s') \<and> (waiting \<longrightarrow> \<not> r) \<and>
    rwsem_tryupgrade_count RB WB = rwsem_tryupgrade_long RB WB \<and>
    rwsem_tryupgrade_owned spin (rwsem_tryupgrade_long RB WB) t (count_of RB WB Q waiting (rw_count s), ow) =
      (r, c2, if r \<and> spin then Some t else ow)"
proof -
  let ?c = "rw_count s"
  have b: "0 < RB" "N * RB < - Q" "WB = Q + RB" "1 \<le> N" using assms(1) by (simp_all add: biases_ok_def)
  have le: "?c * RB \<le> N * RB" using assms(3) b(1) by (simp add: mult_right_mono)
  have one: "?c * RB = RB \<longleftrightarrow> ?c = 1" using b(1) by simp
  have "1 * RB \<le> N * RB" using b(1,4) by (intro mult_right_mono) simp_all
  then have q: "Q + RB < 0" "Q < 0" using b(1,2) by linarith+
  have eq: "count_of RB WB Q waiting ?c = RB \<longleftrightarrow> ?c = 1 \<and> \<not> waiting"
  proof (cases "?c = - 1")
    case True
    then show ?thesis using q b(1,3) by (auto simp: count_of_def)
  next
    case False
    have "?c * RB + Q \<noteq> RB" using le b(1,2) by linarith
    then show ?thesis using False one by (auto simp: count_of_def)
  qed
  have r: "r = (?c = 1 \<and> \<not> waiting)" "rw_count s' = (if r then - 1 else ?c)"
    using assms(4) by (auto simp: rwsem_tryupgrade_def rwsem_values split: if_splits)
  have r2: "r2 = r" "c2 = (if r then WB else count_of RB WB Q waiting ?c)"
    using assms(5) eq r(1) by (auto simp: rwsem_tryupgrade_long_def rwsem_cmpxchg_def)
  have "c2 = count_of RB WB Q waiting (rw_count s')" using r r2 by (simp add: count_of_def)
  moreover have "rwsem_tryupgrade_owned spin (rwsem_tryupgrade_long RB WB) t (count_of RB WB Q waiting ?c, ow) = (r, c2, if r \<and> spin then Some t else ow)"
    using assms(5) r2(1) by (cases r) (simp_all add: rwsem_tryupgrade_owned_def)
  ultimately show ?thesis using r r2 by (auto simp: fun_eq_iff rwsem_tryupgrade_count_def rwsem_tryupgrade_long_def)
qed

text \<open>The constants of a 64-bit machine.\<close>

lemma biases_64: "biases_ok 1 (- 0xffffffff) (- 0x100000000) 0xfffffffe"
  by (simp add: biases_ok_def)

section \<open>The realtime kernel\<close>

text \<open>Readers and writers hold the same mutex; \<open>read_depth\<close> counts how often its owner has entered it for reading, and is 0 for a writer.  The
  assertion that the thread is the owner is \<open>None\<close>; the lowest bit of the owner word is a flag.\<close>

definition RT_MUTEX_OWNER_MASKALL :: u64 where "RT_MUTEX_OWNER_MASKALL = 1"

definition rwsem_tryupgrade_rt :: "u64 \<Rightarrow> u64 \<Rightarrow> int \<Rightarrow> (bool \<times> int) option" where
  "rwsem_tryupgrade_rt owner current read_depth =
     (if owner AND NOT RT_MUTEX_OWNER_MASKALL \<noteq> current then None
      else if read_depth \<le> 1 then Some (True, 0) else Some (False, read_depth))"

text \<open>Only a thread that has the lock passes; it becomes the writer unless it has entered for reading more than once, in which case nothing changes.\<close>

lemma rt_upgrade_exact:
  assumes "even current" "owner = current \<or> owner = current OR 1" "0 \<le> read_depth"
  shows "rwsem_tryupgrade_rt owner current read_depth = Some (read_depth \<le> 1, if read_depth \<le> 1 then 0 else read_depth)"
proof -
  have z: "\<not> bit current 0" using assms(1) by (simp add: bit_0)
  have "owner AND NOT 1 = current"
  proof (rule bit_word_eqI)
    fix n
    show "bit (owner AND NOT 1) n \<longleftrightarrow> bit current n"
      using assms(2) z by (cases "n = 0") (auto simp: bit_simps dest: bit_imp_le_length [of current n])
  qed
  then show ?thesis by (simp add: rwsem_tryupgrade_rt_def RT_MUTEX_OWNER_MASKALL_def)
qed

end
