(* ===== verification/Spl_Mutex.thy ===== *)
theory Spl_Mutex
  imports Condvar
begin

text \<open>
  Mutexes, \<^verbatim>\<open>include/spl/sys/mutex.h\<close>: one mutex with the threads that use it, each access being one step.  The mutex of the kernel
  does not serialise its own release: after \<^verbatim>\<open>mutex_unlock\<close> has let the next thread in it may still access the
  mutex.  The layer adds an owner field and a spinlock around the release.
\<close>

section \<open>State\<close>

datatype mutex_pc = M_idle
  | M_set_owner | M_clear_owner | M_spin_lock | M_unlock | M_unlock_slow | M_spin_unlock

text \<open>The mutex and its lock of the kernel are given by their holders.  \<open>ticket\<close> numbers the acquisitions.\<close>

record kmutex =
  m_mutex :: "nat option"
  m_lock :: "nat option"
  mutex_owner :: "nat option"

record mutex_state = kmutex +
  m_pc :: "nat \<Rightarrow> mutex_pc"
  ticket :: "nat \<Rightarrow> nat"
  next_ticket :: nat

definition m_goto :: "nat \<Rightarrow> mutex_pc \<Rightarrow> mutex_state \<Rightarrow> mutex_state" where
  "m_goto t p s = s\<lparr>m_pc := (m_pc s)(t := p)\<rparr>"

definition mutex_init :: mutex_state where
  "mutex_init = \<lparr>m_mutex = None, m_lock = None, mutex_owner = None, m_pc = (\<lambda>_. M_idle), ticket = (\<lambda>_. 0), next_ticket = 1\<rparr>"

definition spl_mutex_set_owner :: "nat \<Rightarrow> mutex_state \<Rightarrow> mutex_state" where
  "spl_mutex_set_owner t s = s\<lparr>mutex_owner := Some t\<rparr>"

definition spl_mutex_clear_owner :: "mutex_state \<Rightarrow> mutex_state" where
  "spl_mutex_clear_owner s = s\<lparr>mutex_owner := None\<rparr>"

definition MUTEX_HELD :: "nat \<Rightarrow> mutex_state \<Rightarrow> bool" where
  "MUTEX_HELD t s \<longleftrightarrow> mutex_owner s = Some t"

text \<open>The assertion of \<^verbatim>\<open>mutex_destroy\<close>.\<close>

definition mutex_destroy_ok :: "mutex_state \<Rightarrow> bool" where
  "mutex_destroy_ok s \<longleftrightarrow> mutex_owner s = None"

section \<open>Operations\<close>

text \<open>The kernel's mutex and spinlock; \<open>None\<close> blocks.\<close>

definition mutex_lock :: "nat \<Rightarrow> mutex_state \<Rightarrow> mutex_state option" where
  "mutex_lock t s =
     (if m_mutex s = None
      then Some (s\<lparr>m_mutex := Some t, ticket := (ticket s)(t := next_ticket s), next_ticket := next_ticket s + 1\<rparr>) else None)"

definition spin_lock :: "nat \<Rightarrow> mutex_state \<Rightarrow> mutex_state option" where
  "spin_lock t s = (if m_lock s = None then Some (s\<lparr>m_lock := Some t\<rparr>) else None)"

text \<open>Entering, with its assertion; trying never blocks, and may fail although the mutex is free.\<close>

definition mutex_enter_start :: "nat \<Rightarrow> mutex_state \<Rightarrow> mutex_state option" where
  "mutex_enter_start t s = (if mutex_owner s \<noteq> Some t then map_option (m_goto t M_set_owner) (mutex_lock t s) else None)"

definition mutex_tryenter_start :: "bool \<Rightarrow> nat \<Rightarrow> mutex_state \<Rightarrow> bool \<times> mutex_state" where
  "mutex_tryenter_start luck t s =
     (case mutex_lock t s of Some s' \<Rightarrow> if luck then (True, m_goto t M_set_owner s') else (False, s) | None \<Rightarrow> (False, s))"

definition mutex_exit_start :: "nat \<Rightarrow> mutex_state \<Rightarrow> mutex_state" where
  "mutex_exit_start t s = m_goto t M_clear_owner s"

text \<open>The accesses that follow, up to the end of \<^verbatim>\<open>mutex_enter\<close> and of \<^verbatim>\<open>mutex_exit\<close>.\<close>

definition mutex_continue :: "nat \<Rightarrow> mutex_state \<Rightarrow> mutex_state option" where
  "mutex_continue t s =
     (case m_pc s t of
        M_idle \<Rightarrow> None
      | M_set_owner \<Rightarrow> Some (m_goto t M_idle (spl_mutex_set_owner t s))
      | M_clear_owner \<Rightarrow> Some (m_goto t M_spin_lock (spl_mutex_clear_owner s))
      | M_spin_lock \<Rightarrow> map_option (m_goto t M_unlock) (spin_lock t s)
      | M_unlock \<Rightarrow> Some (m_goto t M_unlock_slow (s\<lparr>m_mutex := None\<rparr>))
      | M_unlock_slow \<Rightarrow> Some (m_goto t M_spin_unlock s)
      | M_spin_unlock \<Rightarrow> Some (m_goto t M_idle (s\<lparr>m_lock := None\<rparr>)))"

inductive mutex_step :: "mutex_state \<Rightarrow> mutex_state \<Rightarrow> bool" where
  m_continue: "mutex_continue t s = Some s' \<Longrightarrow> mutex_step s s'"
| m_enter: "m_pc s t = M_idle \<Longrightarrow> mutex_enter_start t s = Some s' \<Longrightarrow> mutex_step s s'"
| m_tryenter: "m_pc s t = M_idle \<Longrightarrow> mutex_tryenter_start luck t s = (rc, s') \<Longrightarrow> mutex_step s s'"
| m_exit: "m_pc s t = M_idle \<Longrightarrow> m_mutex s = Some t \<Longrightarrow> mutex_step s (mutex_exit_start t s)"

inductive mutex_reach :: "mutex_state \<Rightarrow> bool" where
  mutex_reach_init: "mutex_reach mutex_init"
| mutex_reach_step: "mutex_reach s \<Longrightarrow> mutex_step s s' \<Longrightarrow> mutex_reach s'"

lemmas mutex_defs = m_goto_def spl_mutex_set_owner_def spl_mutex_clear_owner_def mutex_lock_def spin_lock_def
  mutex_enter_start_def mutex_tryenter_start_def mutex_exit_start_def mutex_continue_def

section \<open>The invariant\<close>

text \<open>Where a thread that holds the mutex, the spinlock, or neither, can be.\<close>

definition m_thread_ok :: "mutex_state \<Rightarrow> nat \<Rightarrow> bool" where
  "m_thread_ok s t \<longleftrightarrow>
     (case m_pc s t of
        M_idle \<Rightarrow> m_lock s \<noteq> Some t
      | M_unlock \<Rightarrow> m_lock s = Some t \<and> m_mutex s = Some t
      | M_unlock_slow \<Rightarrow> m_lock s = Some t \<and> m_mutex s \<noteq> Some t
      | M_spin_unlock \<Rightarrow> m_lock s = Some t \<and> m_mutex s \<noteq> Some t
      | _ \<Rightarrow> m_lock s \<noteq> Some t \<and> m_mutex s = Some t) \<and>
     ticket s t < next_ticket s"

text \<open>The holder has the latest ticket.\<close>

definition mutex_inv :: "mutex_state \<Rightarrow> bool" where
  "mutex_inv s \<longleftrightarrow>
     (\<forall>t. m_thread_ok s t) \<and>
     mutex_owner s = (case m_mutex s of None \<Rightarrow> None | Some t \<Rightarrow> if m_pc s t \<in> {M_idle, M_clear_owner} then Some t else None) \<and>
     (\<forall>t. m_mutex s = Some t \<longrightarrow> ticket s t = next_ticket s - 1 \<and> (\<forall>u. u \<noteq> t \<longrightarrow> ticket s u < next_ticket s - 1))"

lemma mutex_inv_init: "mutex_inv mutex_init"
  by (simp add: mutex_inv_def mutex_init_def m_thread_ok_def)

lemma mutex_invD:
  assumes "mutex_inv s"
  shows "m_thread_ok s t"
    and "m_mutex s = None \<Longrightarrow> mutex_owner s = None"
    and "m_mutex s = Some t \<Longrightarrow> mutex_owner s = (if m_pc s t \<in> {M_idle, M_clear_owner} then Some t else None)"
    and "m_mutex s = Some t \<Longrightarrow> ticket s t = next_ticket s - 1 \<and> (\<forall>u. u \<noteq> t \<longrightarrow> ticket s u < next_ticket s - 1)"
  using assms by (auto simp: mutex_inv_def)

lemma lock_inv:
  assumes "mutex_inv s" "m_pc s t = M_idle" "mutex_lock t s = Some s'"
  shows "mutex_inv (m_goto t M_set_owner s')"
proof -
  have f: "m_mutex s = None" using assms(3) by (simp add: mutex_lock_def split: if_splits)
  have s': "s' = s\<lparr>m_mutex := Some t, ticket := (ticket s)(t := next_ticket s), next_ticket := next_ticket s + 1\<rparr>"
    using assms(3) f by (simp add: mutex_lock_def)
  have "m_thread_ok (m_goto t M_set_owner s') u" for u
    using mutex_invD(1) [OF assms(1), of u] f assms(2) by (cases "u = t"; cases "m_pc s u") (auto simp: m_thread_ok_def m_goto_def s')
  moreover have "ticket s u < next_ticket s" for u using mutex_invD(1) [OF assms(1), of u] by (simp add: m_thread_ok_def)
  ultimately show ?thesis using mutex_invD(2) [OF assms(1) f] by (simp add: mutex_inv_def m_goto_def s')
qed

text \<open>The accesses of the holder, and those of a thread that has released the mutex but not the spinlock.\<close>

lemma holder_inv:
  assumes "mutex_inv s" "m_mutex s = Some t" "p \<in> {M_idle, M_set_owner, M_clear_owner, M_spin_lock}" "m_pc s t \<noteq> M_unlock"
  shows "mutex_inv (m_goto t p (s\<lparr>mutex_owner := (if p \<in> {M_idle, M_clear_owner} then Some t else None)\<rparr>))"
proof -
  have "m_thread_ok (m_goto t p (s\<lparr>mutex_owner := w\<rparr>)) u" for u w
    using mutex_invD(1) [OF assms(1), of u] mutex_invD(1) [OF assms(1), of t] assms(2-4) by (cases "u = t"; cases "m_pc s u") (auto simp: m_thread_ok_def m_goto_def)
  then show ?thesis using mutex_invD(4) [OF assms(1,2)] assms(2) by (simp add: mutex_inv_def m_goto_def)
qed

lemma spin_inv:
  assumes "mutex_inv s" "m_mutex s = Some t" "m_pc s t = M_spin_lock" "m_lock s = None"
  shows "mutex_inv (m_goto t M_unlock (s\<lparr>m_lock := Some t\<rparr>))"
proof -
  have "m_thread_ok (m_goto t M_unlock (s\<lparr>m_lock := Some t\<rparr>)) u" for u
    using mutex_invD(1) [OF assms(1), of u] mutex_invD(1) [OF assms(1), of t] assms(2-4) by (cases "u = t"; cases "m_pc s u") (auto simp: m_thread_ok_def m_goto_def)
  then show ?thesis using mutex_invD(3,4) [OF assms(1,2)] assms(2,3) by (simp add: mutex_inv_def m_goto_def)
qed

lemma release_inv:
  assumes "mutex_inv s" "m_pc s t = M_unlock"
  shows "mutex_inv (m_goto t M_unlock_slow (s\<lparr>m_mutex := None\<rparr>))"
proof -
  have m: "m_mutex s = Some t" using mutex_invD(1) [OF assms(1), of t] assms(2) by (simp add: m_thread_ok_def)
  have "m_thread_ok (m_goto t M_unlock_slow (s\<lparr>m_mutex := None\<rparr>)) u" for u
    using mutex_invD(1) [OF assms(1), of u] assms(2) m by (cases "u = t"; cases "m_pc s u") (auto simp: m_thread_ok_def m_goto_def)
  then show ?thesis using mutex_invD(3) [OF assms(1) m] assms(2) by (simp add: mutex_inv_def m_goto_def)
qed

lemma finish_inv:
  assumes "mutex_inv s" "m_pc s t \<in> {M_unlock_slow, M_spin_unlock}" "p = M_spin_unlock \<and> l = m_lock s \<or> p = M_idle \<and> l = None"
  shows "mutex_inv (m_goto t p (s\<lparr>m_lock := l\<rparr>))"
proof -
  have m: "m_lock s = Some t" "m_mutex s \<noteq> Some t"
    using mutex_invD(1) [OF assms(1), of t] assms(2) by (auto simp: m_thread_ok_def)
  have "m_thread_ok (m_goto t p (s\<lparr>m_lock := l\<rparr>)) u" for u
    using mutex_invD(1) [OF assms(1), of u] assms(2,3) m by (cases "u = t"; cases "m_pc s u") (auto simp: m_thread_ok_def m_goto_def)
  then show ?thesis
    using mutex_invD(2-4) [OF assms(1)] m(2) by (cases "m_mutex s") (auto simp: mutex_inv_def m_goto_def)
qed

lemma continue_keeps:
  assumes "mutex_inv s" "mutex_continue t s = Some s'"
  shows "mutex_inv s'"
proof -
  have m: "m_mutex s = Some t" if "m_pc s t \<in> {M_set_owner, M_clear_owner, M_spin_lock, M_unlock}"
    using mutex_invD(1) [OF assms(1), of t] that by (auto simp: m_thread_ok_def)
  show ?thesis
  proof (cases "m_pc s t")
    case M_set_owner
    then show ?thesis using holder_inv [OF assms(1) m, of M_idle] assms(2) by (auto simp: mutex_continue_def spl_mutex_set_owner_def)
  next
    case M_clear_owner
    then show ?thesis using holder_inv [OF assms(1) m, of M_spin_lock] assms(2) by (auto simp: mutex_continue_def spl_mutex_clear_owner_def)
  next
    case M_spin_lock
    then show ?thesis using spin_inv [OF assms(1) m] assms(2) by (auto simp: mutex_continue_def spin_lock_def split: if_splits)
  next
    case M_unlock
    then show ?thesis using release_inv [OF assms(1)] assms(2) by (auto simp: mutex_continue_def)
  next
    case M_unlock_slow
    then show ?thesis using finish_inv [OF assms(1), of t M_spin_unlock "m_lock s"] assms(2) by (simp add: mutex_continue_def)
  next
    case M_spin_unlock
    then show ?thesis using finish_inv [OF assms(1), of t M_idle None] assms(2) by (simp add: mutex_continue_def)
  qed (use assms(2) in \<open>simp add: mutex_continue_def\<close>)
qed

lemma held_exact:
  assumes "mutex_inv s" "m_pc s t = M_idle"
  shows "MUTEX_HELD t s \<longleftrightarrow> m_mutex s = Some t"
proof (cases "m_mutex s")
  case None
  then show ?thesis using mutex_invD(2) [OF assms(1)] by (simp add: MUTEX_HELD_def)
next
  case (Some u)
  then show ?thesis using mutex_invD(3) [OF assms(1) Some] assms(2) by (auto simp: MUTEX_HELD_def split: if_splits)
qed

lemma mutex_step_inv:
  assumes "mutex_step s s'" "mutex_inv s"
  shows "mutex_inv s'"
  using assms
proof (induction rule: mutex_step.induct)
  case (m_continue t s s')
  then show ?case using continue_keeps by blast
next
  case (m_enter s t s')
  then show ?case using lock_inv [of s t] by (auto simp: mutex_enter_start_def split: if_splits)
next
  case (m_tryenter s t luck rc s')
  then show ?case using lock_inv [of s t] by (auto simp: mutex_tryenter_start_def split: if_splits option.splits)
next
  case (m_exit s t)
  then have "mutex_owner s = Some t" using held_exact [of s t] by (simp add: MUTEX_HELD_def)
  then have "s\<lparr>mutex_owner := Some t\<rparr> = s" by simp
  then show ?case using holder_inv [of s t M_clear_owner] m_exit by (simp add: mutex_exit_start_def)
qed

lemma mutex_reach_inv: "mutex_reach s \<Longrightarrow> mutex_inv s"
  by (induction rule: mutex_reach.induct) (auto intro: mutex_inv_init mutex_step_inv)

section \<open>Serialised release\<close>

text \<open>C39: When \<^verbatim>\<open>mutex_exit\<close> returns, under every interleaving, all threads that acquired the mutex before the caller have
  returned from their \<^verbatim>\<open>mutex_exit\<close>, although the mutex of the kernel lets the next thread in before it is done.  If nobody acquired it
  after the caller, no thread accesses it any more, both locks are free, and the assertion of \<^verbatim>\<open>mutex_destroy\<close>
  holds: the object the mutex is in may be freed.\<close>

theorem mutex_exit_serialised:
  assumes "mutex_reach s" "m_pc s t = M_spin_unlock" "mutex_continue t s = Some s'"
  shows "(\<forall>u. ticket s' u < ticket s' t \<or> u = t \<longrightarrow> m_pc s' u = M_idle \<and> m_mutex s' \<noteq> Some u) \<and>
    (next_ticket s' = ticket s' t + 1 \<longrightarrow>
       m_mutex s' = None \<and> m_lock s' = None \<and> mutex_destroy_ok s' \<and> (\<forall>u. m_pc s' u = M_idle))"
proof -
  have i: "mutex_inv s'" using assms mutex_reach_inv m_continue mutex_step_inv by blast
  have s': "s' = m_goto t M_idle (s\<lparr>m_lock := None\<rparr>)" using assms(2,3) by (simp add: mutex_continue_def)
  have l: "m_lock s' = None" "m_pc s' t = M_idle" by (simp_all add: s' m_goto_def)
  have m: "m_mutex s' \<noteq> Some t" using mutex_invD(1) [OF mutex_reach_inv [OF assms(1)], of t] assms(2) by (simp add: m_thread_ok_def s' m_goto_def)
  have out: "m_pc s' u = M_idle \<or> m_mutex s' = Some u" for u
    using mutex_invD(1) [OF i, of u] l(1) by (cases "m_pc s' u") (simp_all add: m_thread_ok_def)
  have later: "ticket s' t < ticket s' u \<and> ticket s' u = next_ticket s' - 1" if "m_mutex s' = Some u" for u
    using mutex_invD(4) [OF i that] that m by force
  show ?thesis
  proof (intro conjI allI impI)
    show m0: "m_mutex s' = None" if "next_ticket s' = ticket s' t + 1"
    proof (cases "m_mutex s'")
      case (Some u)
      then show ?thesis using later [OF Some] that by auto
    qed simp
    show "mutex_destroy_ok s'" if "next_ticket s' = ticket s' t + 1" using mutex_invD(2) [OF i m0 [OF that]] by (simp add: mutex_destroy_ok_def)
    show "m_pc s' u = M_idle" if "next_ticket s' = ticket s' t + 1" for u using out [of u] m0 [OF that] by simp
    show "m_mutex s' \<noteq> Some u" if "ticket s' u < ticket s' t \<or> u = t" for u using later [of u] m that by force
    then show "m_pc s' u = M_idle" if "ticket s' u < ticket s' t \<or> u = t" for u using out [of u] that by blast
  qed (rule l)
qed

text \<open>Thread 1 enters and leaves; while it is still in the unlock, thread 2 enters.\<close>

definition demo_mutex :: mutex_state where
  "demo_mutex = \<lparr>m_mutex = Some 2, m_lock = Some 1, mutex_owner = None, m_pc = (\<lambda>_. M_idle)(1 := M_spin_unlock, 2 := M_set_owner),
     ticket = (\<lambda>_. 0)(1 := 1, 2 := 2), next_ticket = 3\<rparr>"

fun mutex_moves :: "nat list \<Rightarrow> mutex_state \<Rightarrow> mutex_state option" where
  "mutex_moves [] s = Some s"
| "mutex_moves (t # ts) s = Option.bind (mutex_continue t s) (mutex_moves ts)"

lemma moves_reach: "mutex_reach s \<Longrightarrow> mutex_moves ts s = Some s' \<Longrightarrow> mutex_reach s'"
proof (induction ts arbitrary: s)
  case (Cons t ts)
  then obtain s1 where s1: "mutex_continue t s = Some s1" "mutex_moves ts s1 = Some s'" by (auto simp: bind_eq_Some_conv)
  then have "mutex_reach s1" using Cons.prems(1) m_continue mutex_reach_step by blast
  then show ?case using Cons.IH s1(2) by blast
qed simp

lemma demo_mutex_reach: "mutex_reach demo_mutex"
proof -
  let ?s1 = "mutex_init\<lparr>m_mutex := Some 1, mutex_owner := Some 1, ticket := (\<lambda>_. 0)(1 := 1), next_ticket := 2\<rparr>"
  let ?s2 = "mutex_init\<lparr>m_lock := Some 1, m_pc := (\<lambda>_. M_idle)(1 := M_spin_unlock), ticket := (\<lambda>_. 0)(1 := 1), next_ticket := 2\<rparr>"
  have "mutex_step mutex_init (the (mutex_enter_start 1 mutex_init))"
    by (rule m_enter [where t = 1]) (simp_all add: mutex_init_def mutex_enter_start_def mutex_lock_def)
  then have "mutex_reach (the (mutex_enter_start 1 mutex_init))" using mutex_reach_init mutex_reach_step by blast
  then have "mutex_reach ?s1"
    by (rule moves_reach [where ts = "[1]"]) (simp add: mutex_defs mutex_init_def fun_upd_idem)
  moreover have "mutex_step ?s1 (mutex_exit_start 1 ?s1)" by (rule m_exit) (simp_all add: mutex_init_def)
  ultimately have "mutex_reach (mutex_exit_start 1 ?s1)" by (rule mutex_reach_step)
  then have "mutex_reach ?s2"
    by (rule moves_reach [where ts = "[1, 1, 1, 1]"]) (simp add: mutex_defs mutex_init_def)
  moreover have "mutex_step ?s2 demo_mutex"
    by (rule m_enter [where t = 2]) (simp_all add: mutex_defs mutex_init_def demo_mutex_def)
  ultimately show ?thesis by (rule mutex_reach_step)
qed

theorem mutex_exit_serialised_witness:
  "mutex_continue 1 demo_mutex = Some (m_goto 1 M_idle (demo_mutex\<lparr>m_lock := None\<rparr>)) \<and>
   m_pc (m_goto 1 M_idle (demo_mutex\<lparr>m_lock := None\<rparr>)) 1 = M_idle"
proof -
  have p: "m_pc demo_mutex 1 = M_spin_unlock" by (simp add: demo_mutex_def)
  then have c: "mutex_continue 1 demo_mutex = Some (m_goto 1 M_idle (demo_mutex\<lparr>m_lock := None\<rparr>))" by (simp add: mutex_continue_def)
  then show ?thesis using mutex_exit_serialised [OF demo_mutex_reach p c] by blast
qed

section \<open>What condition variables rely on\<close>

text \<open>C0: The mutex with its fields implements the mutex that the model of condition variables uses, whose state is the owner alone:
  every step of a thread leaves the owner or is an atomic entering or leaving by a thread that is allowed to, and outside of
  its calls a thread finds itself to be the owner exactly if it is.\<close>

section \<open>What condition variables rely on\<close>

lemma lock_free: "mutex_lock t s = Some s' \<Longrightarrow> m_mutex s = None \<and> m_mutex s' = Some t"
  by (auto simp: mutex_lock_def split: if_splits)

lemma mutex_step_effect:
  assumes "mutex_inv s" "mutex_step s s'"
  shows "m_mutex s' = m_mutex s \<or> (\<exists>t. m_mutex s = None \<and> m_mutex s' = Some t) \<or> (\<exists>t. m_mutex s = Some t \<and> m_mutex s' = None)"
  using assms(2,1)
proof (induction rule: mutex_step.induct)
  case (m_continue t s s')
  show ?case
  proof (cases "m_pc s t = M_unlock")
    case True
    then have "m_mutex s = Some t" using mutex_invD(1) [OF m_continue(2), of t] by (simp add: m_thread_ok_def)
    then show ?thesis using True m_continue(1) by (auto simp: mutex_continue_def m_goto_def)
  next
    case False
    then show ?thesis using m_continue(1)
      by (auto simp: mutex_continue_def m_goto_def spin_lock_def spl_mutex_set_owner_def spl_mutex_clear_owner_def split: mutex_pc.splits if_splits)
  qed
next
  case (m_enter s t s')
  then show ?case using lock_free [of t s] by (auto simp: mutex_enter_start_def m_goto_def split: if_splits)
next
  case (m_tryenter s t luck rc s')
  then show ?case using lock_free [of t s] by (auto simp: mutex_tryenter_start_def m_goto_def split: if_splits option.splits)
next
  case (m_exit s t)
  then show ?case by (simp add: mutex_exit_start_def m_goto_def)
qed

text \<open>C40: The mutex with its fields implements the mutex that the model of condition variables uses, whose state is the owner alone:
  every step of a thread leaves the owner or is an atomic entering or leaving by a thread that is allowed to, and outside of
  its calls a thread finds itself to be the owner exactly if it is.\<close>

theorem mutex_refines:
  assumes "mutex_reach s" "mutex_step s s'" "m_owner c m = m_mutex s"
  shows "(\<exists>u c'. (c' = c \<or> mutex_enter u m c = Some c' \<or> mutex_exit u m c = Some c') \<and> m_owner c' m = m_mutex s') \<and>
    (m_pc s t = M_idle \<longrightarrow> (MUTEX_HELD t s \<longleftrightarrow> mutex_owned t m c))"
proof
  have i: "mutex_inv s" using assms(1) by (rule mutex_reach_inv)
  let ?c = "\<lambda>h. c\<lparr>m_owner := (m_owner c)(m := h)\<rparr>"
  have "mutex_enter u m c = Some (?c (Some u))" if "m_mutex s = None" for u using that assms(3) by (simp add: mutex_enter_def)
  moreover have "mutex_exit u m c = Some (?c None)" if "m_mutex s = Some u" for u using that assms(3) by (simp add: mutex_exit_def)
  moreover have "m_owner (?c h) m = h" for h by simp
  ultimately show "\<exists>u c'. (c' = c \<or> mutex_enter u m c = Some c' \<or> mutex_exit u m c = Some c') \<and> m_owner c' m = m_mutex s'"
    using mutex_step_effect [OF i assms(2)] assms(3) by metis
  show "m_pc s t = M_idle \<longrightarrow> (MUTEX_HELD t s \<longleftrightarrow> mutex_owned t m c)" using held_exact [OF i, of t] assms(3) by (simp add: mutex_owned_def)
qed

theorem mutex_refines_witness: "\<not> MUTEX_HELD 5 mutex_init \<and> \<not> mutex_owned 5 0 (cv_init (\<lambda>_. None))"
proof -
  have "mutex_step mutex_init (the (mutex_enter_start 1 mutex_init))"
    by (rule m_enter [where t = 1]) (simp_all add: mutex_init_def mutex_enter_start_def mutex_lock_def)
  moreover have "m_owner (cv_init (\<lambda>_. None)) 0 = m_mutex mutex_init" by (simp add: cv_init_def mutex_init_def)
  ultimately have "MUTEX_HELD 5 mutex_init \<longleftrightarrow> mutex_owned 5 0 (cv_init (\<lambda>_. None))"
    using mutex_refines [OF mutex_reach_init, of _ "cv_init (\<lambda>_. None)" 0 5] by (simp add: mutex_init_def)
  then show ?thesis by (simp add: mutex_init_def MUTEX_HELD_def)
qed

end
