(* ===== verification/Kmem_Debug.thy ===== *)
theory Kmem_Debug
  imports Kmem
begin

text \<open>
  The public interface of \<^verbatim>\<open>module/spl/spl-kmem.c\<close> over its three builds, its string functions, and what the formatting of leaked
  memory reads and writes.  The loop, the tables and the report underneath are in the theory \<open>Kmem\<close>.
\<close>

section \<open>Allocating and freeing in the three builds\<close>

datatype kmem_build = Plain | Debug | Tracking

definition KM_PUBLIC_MASK :: km_flag where
  "KM_PUBLIC_MASK = KM_SLEEP OR KM_NOSLEEP OR KM_PUSHPAGE"

text \<open>When a warning on a large allocation is printed, the rate permitting.\<close>

definition kmem_alloc_warns :: "u32 \<Rightarrow> u64 \<Rightarrow> km_flag \<Rightarrow> bool" where
  "kmem_alloc_warns spl_kmem_alloc_warn sz flags \<longleftrightarrow>
     spl_kmem_alloc_warn > 0 \<and> sz > ucast spl_kmem_alloc_warn \<and> \<not> has flags KM_VMEM"

text \<open>
  What the kernel provides: the results of its two allocators in every pass of the loop, its test for
  addresses of the second, and its hash function; \<open>dptr\<close> and \<open>dup\<close> are the memory for a tracking node and for its name.
\<close>

record kmem_env =
  env_km :: "nat \<Rightarrow> addr option"
  env_vm :: "nat \<Rightarrow> addr option"
  env_max :: u64
  env_vmalloc_addr :: "addr \<Rightarrow> bool"
  env_hash :: "addr \<Rightarrow> nat"
  env_dptr :: "addr option"
  env_dup :: bool

definition alloc_impl :: "kmem_env \<Rightarrow> u64 \<Rightarrow> km_flag \<Rightarrow> addr option option" where
  "alloc_impl e sz flags = spl_kmem_alloc_impl (env_km e) (env_vm e) (env_max e) sz flags"

text \<open>Outer \<open>None\<close>: the loop does not end, or the assertion on the flags fails.\<close>

definition build_alloc :: "kmem_build \<Rightarrow> kmem_env \<Rightarrow> u64 \<Rightarrow> km_flag \<Rightarrow> string \<Rightarrow> int \<Rightarrow> kmem_state \<Rightarrow> (addr option \<times> kmem_state) option" where
  "build_alloc b e sz flags func line st =
     (case b of
        Plain \<Rightarrow> map_option (\<lambda>ptr. (ptr, st)) (alloc_impl e sz flags)
      | Debug \<Rightarrow> map_option (\<lambda>ptr. spl_kmem_alloc_debug ptr sz st) (alloc_impl e sz flags)
      | Tracking \<Rightarrow>
          if env_dptr e = None \<or> \<not> env_dup e then Some (spl_kmem_alloc_track (env_hash e) (env_dptr e) (env_dup e) None sz func line st)
          else map_option (\<lambda>ptr. spl_kmem_alloc_track (env_hash e) (env_dptr e) (env_dup e) ptr sz func line st) (alloc_impl e sz flags))"

definition spl_kmem_alloc :: "kmem_build \<Rightarrow> kmem_env \<Rightarrow> u64 \<Rightarrow> km_flag \<Rightarrow> string \<Rightarrow> int \<Rightarrow> kmem_state \<Rightarrow> (addr option \<times> kmem_state) option" where
  "spl_kmem_alloc b e sz flags func line st =
     (if flags AND NOT KM_PUBLIC_MASK \<noteq> 0 then None else build_alloc b e sz flags func line st)"

definition spl_kmem_zalloc :: "kmem_build \<Rightarrow> kmem_env \<Rightarrow> u64 \<Rightarrow> km_flag \<Rightarrow> string \<Rightarrow> int \<Rightarrow> kmem_state \<Rightarrow> (addr option \<times> kmem_state) option" where
  "spl_kmem_zalloc b e sz flags func line st =
     (if flags AND NOT KM_PUBLIC_MASK \<noteq> 0 then None else build_alloc b e sz (spl_kmem_zalloc_flags flags) func line st)"

definition spl_vmem_alloc :: "kmem_build \<Rightarrow> kmem_env \<Rightarrow> u64 \<Rightarrow> km_flag \<Rightarrow> string \<Rightarrow> int \<Rightarrow> kmem_state \<Rightarrow> (addr option \<times> kmem_state) option" where
  "spl_vmem_alloc b e sz flags func line st =
     (if flags AND NOT KM_PUBLIC_MASK \<noteq> 0 then None else build_alloc b e sz (spl_vmem_alloc_flags flags) func line st)"

text \<open>Which function of the kernel gets the memory back.\<close>

datatype kernel_free = Kfree addr | Vfree addr

definition spl_kmem_free_impl :: "kmem_env \<Rightarrow> addr \<Rightarrow> kernel_free" where
  "spl_kmem_free_impl e buf = (if env_vmalloc_addr e buf then Vfree buf else Kfree buf)"

definition spl_kmem_free :: "kmem_build \<Rightarrow> kmem_env \<Rightarrow> addr \<Rightarrow> u64 \<Rightarrow> kmem_state \<Rightarrow> (kernel_free option \<times> kmem_state) option" where
  "spl_kmem_free b e buf sz st =
     (case b of
        Plain \<Rightarrow> Some (Some (spl_kmem_free_impl e buf), st)
      | Debug \<Rightarrow> Some (Some (spl_kmem_free_impl e buf), spl_kmem_free_debug sz st)
      | Tracking \<Rightarrow>
          map_option (\<lambda>st'. (if buf = 0 then None else Some (spl_kmem_free_impl e buf), st')) (spl_kmem_free_track (env_hash e) buf sz st))"

definition spl_kmem_init :: kmem_state where
  "spl_kmem_init = spl_kmem_init_tracking"

text \<open>The kernel's test for virtual addresses tells its allocators apart.\<close>

definition kernel_ok :: "kmem_env \<Rightarrow> bool" where
  "kernel_ok e \<longleftrightarrow> (\<forall>n p. (env_km e n = Some p \<longrightarrow> \<not> env_vmalloc_addr e p \<and> p \<noteq> 0) \<and> (env_vm e n = Some p \<longrightarrow> env_vmalloc_addr e p \<and> p \<noteq> 0))"

lemma alloc_loop_attempt:
  assumes "\<And>j. j < n \<Longrightarrow> \<not> has flags KM_NOSLEEP \<and> attempt km vm mx sz flags j = None" "sz \<le> mx \<or> has flags KM_VMEM"
    "has flags KM_NOSLEEP \<or> attempt km vm mx sz flags n = Some p"
  shows "spl_kmem_alloc_impl km vm mx sz flags = Some (attempt km vm mx sz flags n)"
proof (cases "has flags KM_NOSLEEP")
  case True
  then have "n = 0" using assms(1) by (cases n) auto
  then show ?thesis using True assms(2) unfolding spl_kmem_alloc_impl_def
    by (subst kmem_alloc_loop.simps) (auto simp: attempt_def not_le Let_def)
next
  case False
  then show ?thesis using alloc_loop_first [of flags sz mx 0 n km vm p] assms by (simp add: spl_kmem_alloc_impl_def)
qed

text \<open>Whatever pass a pointer comes from, it goes back to the allocator it came from.\<close>

lemma free_matches:
  assumes "kernel_ok e" "attempt (env_km e) (env_vm e) (env_max e) sz flags n = Some p"
  shows "spl_kmem_free_impl e p = (if sz > env_max e \<or> (0 < n \<and> has flags KM_VMEM) then Vfree p else Kfree p)" "p \<noteq> 0"
  using assms by (auto simp: kernel_ok_def attempt_def spl_kmem_free_impl_def split: if_splits)

text \<open>Allocating and freeing leaves the accounting as it was, but for the maximum, in every build.\<close>

lemma debug_alloc_free:
  "spl_kmem_alloc_debug (Some p) sz st = (Some p, st1) \<Longrightarrow> \<exists>mx. spl_kmem_free_debug sz st1 = st\<lparr>kmem_alloc_max := mx\<rparr>"
  by (cases "kmem_alloc_max st < kmem_alloc_used st + sz")
    (auto simp: spl_kmem_alloc_debug_def spl_kmem_free_debug_def Let_def intro: exI [of _ "kmem_alloc_max st"])

lemma filter_absent: "x \<notin> f ` set xs \<Longrightarrow> filter (\<lambda>y. f y \<noteq> x) xs = xs"
  by (induction xs) auto

lemma track_alloc_free:
  assumes "spl_kmem_alloc_track h (Some d) True (Some p) sz func line st = (Some p, st1)" "p \<noteq> 0"
    "d \<notin> kd_node ` set (kmem_list st)" "\<And>i. d \<notin> kd_node ` set (kmem_table st i)"
  shows "\<exists>mx. spl_kmem_free_track h p sz st1 = Some (st\<lparr>kmem_alloc_max := mx\<rparr>)"
proof -
  obtain st0 where st0: "spl_kmem_alloc_debug (Some p) sz st = (Some p, st0)" by (auto simp: spl_kmem_alloc_debug_def Let_def)
  then obtain mx where mx: "spl_kmem_free_debug sz st0 = st\<lparr>kmem_alloc_max := mx\<rparr>" using debug_alloc_free by blast
  have l: "kmem_list st0 = kmem_list st" "kmem_table st0 = kmem_table st"
    using st0 by (auto simp: spl_kmem_alloc_debug_def Let_def split: if_splits)
  let ?kd = "\<lparr>kd_node = d, kd_addr = p, kd_size = sz, kd_func = func, kd_line = line\<rparr>"
  have st1: "st1 = st0\<lparr>kmem_table := (kmem_table st)(h p := ?kd # kmem_table st (h p)), kmem_list := kmem_list st @ [?kd]\<rparr>"
    using assms(1) st0 l by (simp add: spl_kmem_alloc_track_def Let_def)
  have st2: "st0\<lparr>kmem_table := kmem_table st, kmem_list := kmem_list st\<rparr> = st0" using l by simp
  have "kmem_del_init h p st1 = (Some ?kd, st0)"
    using filter_absent [OF assms(3)] filter_absent [OF assms(4), of "h p"] st2
    by (simp add: kmem_del_init_def st1 Let_def fun_upd_idem)
  then have "spl_kmem_free_track h p sz st1 = Some (spl_kmem_free_debug sz st0)" using assms(2) by (simp add: spl_kmem_free_track_def)
  then show ?thesis using mx by auto
qed

text \<open>What every build promises: a pointer that was handed out is freed by the function that belongs to its allocator, no assertion
  fails, and the accounting is as before the allocation.  Tracking needs a node that is not in use.\<close>

theorem kmem_alloc_free:
  assumes "kernel_ok e" "build_alloc b e sz flags func line st = Some (Some p, st1)"
    "alloc_impl e sz flags = Some (attempt (env_km e) (env_vm e) (env_max e) sz flags n)"
    "\<And>d. env_dptr e = Some d \<Longrightarrow> d \<notin> kd_node ` set (kmem_list st) \<and> (\<forall>i. d \<notin> kd_node ` set (kmem_table st i))"
  shows "\<exists>mx. spl_kmem_free b e p sz st1 =
    Some (Some (if sz > env_max e \<or> (0 < n \<and> has flags KM_VMEM) then Vfree p else Kfree p), st\<lparr>kmem_alloc_max := mx\<rparr>)"
proof -
  have a: "attempt (env_km e) (env_vm e) (env_max e) sz flags n = Some p"
    using assms(2,3) by (cases b; cases "attempt (env_km e) (env_vm e) (env_max e) sz flags n")
      (auto simp: build_alloc_def spl_kmem_alloc_debug_def spl_kmem_alloc_track_def Let_def split: if_splits option.splits)
  note f = free_matches [OF assms(1) a]
  show ?thesis
  proof (cases b)
    case Plain
    then have "st1 = st" using assms(2) by (auto simp: build_alloc_def)
    then show ?thesis using Plain f(1) by (intro exI [of _ "kmem_alloc_max st"]) (simp add: spl_kmem_free_def)
  next
    case Debug
    then have "spl_kmem_alloc_debug (Some p) sz st = (Some p, st1)" using assms(2,3) a by (simp add: build_alloc_def)
    then obtain mx where "spl_kmem_free_debug sz st1 = st\<lparr>kmem_alloc_max := mx\<rparr>" using debug_alloc_free by blast
    then show ?thesis using Debug f(1) by (auto simp: spl_kmem_free_def)
  next
    case Tracking
    then have d: "env_dptr e \<noteq> None" "env_dup e" using assms(2) by (auto simp: build_alloc_def spl_kmem_alloc_track_def split: if_splits option.splits)
    then obtain d where d: "env_dptr e = Some d" "env_dup e" by auto
    then have "spl_kmem_alloc_track (env_hash e) (Some d) True (Some p) sz func line st = (Some p, st1)"
      using assms(2,3) a Tracking by (simp add: build_alloc_def)
    then obtain mx where "spl_kmem_free_track (env_hash e) p sz st1 = Some (st\<lparr>kmem_alloc_max := mx\<rparr>)"
      using track_alloc_free f(2) assms(4) [OF d(1)] by blast
    then show ?thesis using Tracking f by (auto simp: spl_kmem_free_def)
  qed
qed

section \<open>Strings\<close>

text \<open>Printing into new memory is tried until the kernel has some; \<open>kv n\<close> is the result of attempt \<open>n\<close>.\<close>

partial_function (option) kmem_vasprintf :: "(nat \<Rightarrow> addr option) \<Rightarrow> nat \<Rightarrow> addr option" where
  "kmem_vasprintf kv n = (case kv n of Some p \<Rightarrow> Some p | None \<Rightarrow> kmem_vasprintf kv (n + 1))"

lemma kmem_vasprintf_returns:
  assumes "\<And>j. j < k \<Longrightarrow> kv (n + j) = None" "kv (n + k) = Some p"
  shows "kmem_vasprintf kv n = Some p"
  using assms
proof (induction k arbitrary: n)
  case 0
  then show ?case by (subst kmem_vasprintf.simps) simp
next
  case (Suc k)
  then have "kv n = None" by (metis add.right_neutral zero_less_Suc)
  moreover have "kmem_vasprintf kv (n + 1) = Some p"
  proof (rule Suc.IH)
    show "kv (n + 1 + j) = None" if "j < k" for j using Suc.prems(1) [of "Suc j"] that by simp
    show "kv (n + 1 + k) = Some p" using Suc.prems(2) by simp
  qed
  ultimately show ?case by (subst kmem_vasprintf.simps) simp
qed

section \<open>Printing leaked memory\<close>

lemma scan_spec:
  assumes "sprintf_scan isp mem mn i n = (str, flag, rd)"
  shows "length str \<le> n" "set rd \<subseteq> {i..<i + n}" "flag \<longleftrightarrow> (\<forall>j < n. (\<forall>k < j. isp (mem (i + k))) \<and> i + j \<le> mn \<longrightarrow> isp (mem (i + j)))"
proof -
  show "length str \<le> n" using assms by (induction n arbitrary: i str flag rd) (auto split: if_splits prod.splits)
  show "set rd \<subseteq> {i..<i + n}" using assms
  proof (induction n arbitrary: i str flag rd)
    case (Suc n)
    then show ?case by (cases "sprintf_scan isp mem mn (i + 1) n") (fastforce split: if_splits dest: Suc.IH)
  qed simp
  show "flag \<longleftrightarrow> (\<forall>j < n. (\<forall>k < j. isp (mem (i + k))) \<and> i + j \<le> mn \<longrightarrow> isp (mem (i + j)))" using assms
  proof (induction n arbitrary: i str flag rd)
    case (Suc n)
    show ?case
    proof (cases "isp (mem i)")
      case True
      obtain s f r where r: "sprintf_scan isp mem mn (i + 1) n = (s, f, r)" by (cases "sprintf_scan isp mem mn (i + 1) n")
      then have "flag = f" using Suc.prems True by simp
      then show ?thesis using Suc.IH [OF r] True by (simp add: All_less_Suc2)
    next
      case False
      then have "flag \<longleftrightarrow> i > mn" using Suc.prems by simp
      then show ?thesis using False by (auto simp: All_less_Suc2)
    qed
  qed simp
qed

lemma overlay_last:
  assumes "length H = 16" "17 \<le> length buf" "last buf = 0"
  shows "length (H @ 0 # drop 17 buf) = length buf" "last (H @ 0 # drop 17 buf) = (0 :: u8)"
  using assms by (auto simp: last_drop)

lemma scan_prefix:
  assumes "sprintf_scan isp mem mn 0 (if len - 1 < sz then len - 1 else sz) = (str, flag, rd)" "17 \<le> len"
  shows "flag \<Longrightarrow> sz \<ge> 15 \<or> (\<forall>j < sz. (\<forall>k < j. isp (mem k)) \<and> j \<le> mn \<longrightarrow> isp (mem j))"
    and "\<not> flag \<Longrightarrow> \<exists>j < sz. (\<forall>k < j. isp (mem k)) \<and> j \<le> mn \<and> \<not> isp (mem j)"
    and "length str < len" "\<And>i. i \<in> set rd \<Longrightarrow> i < sz"
proof -
  let ?n = "if len - 1 < sz then len - 1 else sz"
  note sc = scan_spec [OF assms(1)]
  have n: "?n \<le> sz" "?n < len" "?n < sz \<Longrightarrow> sz \<ge> 15" using assms(2) by (auto split: if_splits)
  show "length str < len" using sc(1) n(2) by simp
  show "i < sz" if "i \<in> set rd" for i using sc(2) that n(1) by fastforce
  have f: "flag \<longleftrightarrow> (\<forall>j < ?n. (\<forall>k < j. isp (mem k)) \<and> j \<le> mn \<longrightarrow> isp (mem j))" using sc(3) by simp
  show "\<exists>j < sz. (\<forall>k < j. isp (mem k)) \<and> j \<le> mn \<and> \<not> isp (mem j)" if "\<not> flag" using f that n(1) by (meson less_le_trans)
  show "sz \<ge> 15 \<or> (\<forall>j < sz. (\<forall>k < j. isp (mem k)) \<and> j \<le> mn \<longrightarrow> isp (mem j))" if "flag"
  proof (cases "?n = sz")
    case True
    then show ?thesis using f that by metis
  qed (use n in auto)
qed

text \<open>The buffer is filled exactly and ends with a zero byte.  Memory outside of the allocation is read exactly if a character among the
  first ones cannot be printed and the allocation is shorter than 15 bytes: the code prints every other byte of the first 15.\<close>

theorem sprintf_addr_exact:
  assumes "17 \<le> len"
  shows "length (fst (spl_sprintf_addr isp mem sz len mn)) = len \<and> last (fst (spl_sprintf_addr isp mem sz len mn)) = 0 \<and>
    ((\<forall>i \<in> set (snd (spl_sprintf_addr isp mem sz len mn)). i < sz) \<longleftrightarrow>
       sz \<ge> 15 \<or> (\<forall>j < sz. (\<forall>k < j. isp (mem k)) \<and> j \<le> mn \<longrightarrow> isp (mem j)))"
proof -
  let ?good = "\<forall>j < sz. (\<forall>k < j. isp (mem k)) \<and> j \<le> mn \<longrightarrow> isp (mem j)"
  obtain str flag rd where r: "sprintf_scan isp mem mn 0 (if len - 1 < sz then len - 1 else sz) = (str, flag, rd)"
    by (cases "sprintf_scan isp mem mn 0 (if len - 1 < sz then len - 1 else sz)")
  note sc = scan_prefix [OF r assms]
  define buf where "buf = str @ replicate (len - length str) (0 :: u8)"
  have buf: "length buf = len" "last buf = 0" using sc(3) by (auto simp: buf_def)
  define H where "H = concat (map (\<lambda>i. hex_byte (mem i)) [0, 2, 4, 6, 8, 10, 12, 14])"
  have H: "length H = 16" by (simp add: H_def hex_byte_def)
  have e: "spl_sprintf_addr isp mem sz len mn = (if flag then (buf, rd) else (H @ 0 # drop 17 buf, rd @ [0, 2, 4, 6, 8, 10, 12, 14]))"
    using r H by (simp add: spl_sprintf_addr_def Let_def flip: buf_def H_def del: list.map concat.simps)
  show ?thesis
  proof (cases flag)
    case True
    then show ?thesis using e buf sc(1,4) by simp
  next
    case False
    then have "sz \<ge> 15 \<or> ?good \<longleftrightarrow> sz \<ge> 15" using sc(2) by blast
    moreover have "(\<forall>i \<in> set (rd @ [0, 2, 4, 6, 8, 10, 12, 14]). i < sz) \<longleftrightarrow> sz \<ge> 15" using sc(4) by auto
    ultimately show ?thesis using e False overlay_last [OF H, of buf] buf assms by (simp only: if_False fst_conv snd_conv)
  qed
qed

lemma sprintf_addr_overreads:
  "15 \<notin> set (snd (spl_sprintf_addr (\<lambda>_. False) (\<lambda>_. 0) 8 17 8)) \<and> 14 \<in> set (snd (spl_sprintf_addr (\<lambda>_. False) (\<lambda>_. 0) 8 17 8))"
  by (simp add: spl_sprintf_addr_def numeral_eq_Suc)

end
