(* ===== verification/Spl_Macros.thy ===== *)
theory Spl_Macros
  imports Spl_Prelude
begin

text \<open>
  The arithmetic of the headers: alignment to powers of two and rounding (\<^verbatim>\<open>include/spl/sys/sysmacros.h\<close>), byte order
  (\<^verbatim>\<open>include/spl/sys/byteorder.h\<close>), and time (\<^verbatim>\<open>include/spl/sys/time.h\<close>, \<^verbatim>\<open>include/spl/sys/timer.h\<close>).  The macros work on any unsigned type, here on words
  of any length.
\<close>

section \<open>Alignment\<close>

definition P2ALIGN :: "'a::len word \<Rightarrow> 'a word \<Rightarrow> 'a word" where
  "P2ALIGN x align = x AND (- align)"

definition P2PHASE :: "'a::len word \<Rightarrow> 'a word \<Rightarrow> 'a word" where
  "P2PHASE x align = x AND (align - 1)"

definition P2NPHASE :: "'a::len word \<Rightarrow> 'a word \<Rightarrow> 'a word" where
  "P2NPHASE x align = (- x) AND (align - 1)"

definition P2ROUNDUP_TYPED :: "'a::len word \<Rightarrow> 'a word \<Rightarrow> 'a word" where
  "P2ROUNDUP_TYPED x align = ((x - 1) OR (align - 1)) + 1"

definition P2END :: "'a::len word \<Rightarrow> 'a word \<Rightarrow> 'a word" where
  "P2END x align = - (NOT x AND (- align))"

definition P2PHASEUP :: "'a::len word \<Rightarrow> 'a word \<Rightarrow> 'a word \<Rightarrow> 'a word" where
  "P2PHASEUP x align phase = phase - ((phase - x) AND (- align))"

definition P2CROSS :: "'a::len word \<Rightarrow> 'a word \<Rightarrow> 'a word \<Rightarrow> bool" where
  "P2CROSS x y align \<longleftrightarrow> (x XOR y) > align - 1"

definition P2BOUNDARY :: "'a::len word \<Rightarrow> 'a word \<Rightarrow> 'a word \<Rightarrow> bool" where
  "P2BOUNDARY off len align \<longleftrightarrow> (off XOR (off + len - 1)) > align - 1"

definition ISP2 :: "'a::len word \<Rightarrow> bool" where
  "ISP2 x \<longleftrightarrow> x AND (x - 1) = 0"

definition IS_P2ALIGNED :: "'a::len word \<Rightarrow> 'a word \<Rightarrow> bool" where
  "IS_P2ALIGNED v a \<longleftrightarrow> v AND (a - 1) = 0"

definition howmany :: "'a::len word \<Rightarrow> 'a word \<Rightarrow> 'a word" where
  "howmany x y = (x + (y - 1)) div y"

definition roundup :: "'a::len word \<Rightarrow> 'a word \<Rightarrow> 'a word" where
  "roundup x y = ((x + (y - 1)) div y) * y"

text \<open>The two masks of a power of two.\<close>

lemma p2_low: "(2 :: 'a::len word) ^ n - 1 = mask n"
  by (simp add: mask_eq_exp_minus_1)

lemma p2_high: "- ((2 :: 'a::len word) ^ n) = NOT (mask n)"
  by (simp add: minus_exp_eq_not_mask)

lemma phase_take_bit: "P2PHASE x (2 ^ n) = take_bit n x"
  by (simp add: P2PHASE_def p2_low take_bit_eq_mask)

lemma align_take_bit: "P2ALIGN x (2 ^ n) = x - take_bit n x"
proof -
  have "take_bit n x + (x AND NOT (mask n)) = x"
    unfolding take_bit_eq_mask by (subst disjunctive_add) (auto simp: bit_simps intro!: bit_word_eqI)
  then show ?thesis by (simp add: P2ALIGN_def p2_high algebra_simps)
qed

lemma roundup_nphase: "P2ROUNDUP_TYPED x (2 ^ n) = x + P2NPHASE x (2 ^ n)"
proof -
  have "(x - 1) OR mask n = (x - 1) + (mask n AND NOT (x - 1))"
    by (subst disjunctive_add) (auto simp: bit_simps intro!: bit_word_eqI)
  moreover have "NOT (x - 1) = - x" by (simp add: not_eq_complement)
  ultimately show ?thesis by (simp add: P2ROUNDUP_TYPED_def P2NPHASE_def p2_low and.commute)
qed

lemma unat_take_bit_mod: "unat (take_bit n (x :: 'a::len word)) = unat x mod 2 ^ n"
  by (simp only: unsigned_take_bit_eq take_bit_nat_def)

lemma unat_drop_div: "unat (drop_bit n (x :: 'a::len word)) = unat x div 2 ^ n"
  by (simp only: unat_drop_bit_eq drop_bit_nat_def)

lemma unat_p2: "n < LENGTH('a) \<Longrightarrow> unat ((2 :: 'a::len word) ^ n) = 2 ^ n"
  by transfer simp

lemma le_mask_drop:
  fixes w :: "'a::len word"
  assumes "n < LENGTH('a)"
  shows "w \<le> mask n \<longleftrightarrow> drop_bit n w = 0"
proof -
  have "(1 :: 'a word) \<le> 2 ^ n" using unat_p2 [OF assms] by (simp add: word_le_nat_alt)
  then have "unat (mask n :: 'a word) = 2 ^ n - 1" using unat_p2 [OF assms] by (simp add: unat_sub mask_eq_exp_minus_1)
  moreover have "drop_bit n w = 0 \<longleftrightarrow> unat w div 2 ^ n = 0" by (simp add: unat_drop_div flip: unat_eq_0)
  moreover have "unat w \<le> 2 ^ n - 1 \<longleftrightarrow> unat w < 2 ^ n" by (cases "(2 :: nat) ^ n") auto
  ultimately show ?thesis by (simp add: word_le_nat_alt div_eq_0_iff)
qed

lemma xor_zero: "(a XOR b = 0) \<longleftrightarrow> a = (b :: 'a::len word)"
proof
  assume "a XOR b = 0"
  then show "a = b" by (intro bit_word_eqI) (metis bit_0_eq bit_xor_iff bot_apply bot_bool_def)
qed simp

lemma cross_div:
  fixes x y :: "'a::len word"
  assumes "n < LENGTH('a)"
  shows "P2CROSS x y (2 ^ n) \<longleftrightarrow> unat x div 2 ^ n \<noteq> unat y div 2 ^ n"
proof -
  have "P2CROSS x y (2 ^ n) \<longleftrightarrow> \<not> drop_bit n (x XOR y) = 0" using le_mask_drop [OF assms, of "x XOR y"] by (simp add: P2CROSS_def p2_low flip: not_le)
  also have "drop_bit n (x XOR y) = 0 \<longleftrightarrow> drop_bit n x = drop_bit n y" by (simp add: drop_bit_xor xor_zero)
  also have "\<dots> \<longleftrightarrow> unat x div 2 ^ n = unat y div 2 ^ n" by (simp add: word_unat_eq_iff unat_drop_div)
  finally show ?thesis .
qed

lemma nphase_unat: "unat (P2NPHASE (x :: 'a::len word) (2 ^ n)) = unat (- x) mod 2 ^ n"
proof -
  have "P2NPHASE x (2 ^ n) = take_bit n (- x)" by (simp add: P2NPHASE_def p2_low take_bit_eq_mask)
  then show ?thesis by (simp only: unat_take_bit_mod)
qed

lemma unat_bound: "unat (x :: 'a::len word) < 2 ^ LENGTH('a)"
  by (rule unsigned_less)

lemma unat_neg:
  assumes "x \<noteq> 0"
  shows "unat (- x :: 'a::len word) = 2 ^ LENGTH('a) - unat x"
proof -
  have "(unat x + unat (- x)) mod 2 ^ LENGTH('a) = 0" using unat_word_ariths(1) [of x "- x"] by simp
  then obtain k where k: "unat x + unat (- x) = 2 ^ LENGTH('a) * k" by auto
  have "0 < unat x" using assms by (simp add: word_neq_0_conv unat_gt_0)
  then have k0: "k \<noteq> 0" using k by (intro notI) simp
  have "unat x + unat (- x) < 2 ^ LENGTH('a) + 2 ^ LENGTH('a)" by (rule add_strict_mono) (rule unat_bound)+
  then have "2 ^ LENGTH('a) * k < 2 ^ LENGTH('a) * 2" unfolding k by (simp only: mult_2_right)
  then have "k < 2" by (simp only: mult_less_cancel1)
  then have "k = 1" using k0 by simp
  then show ?thesis using k by simp
qed

lemma roundup_unat:
  fixes x :: "'a::len word"
  assumes n: "n < LENGTH('a)" and x: "unat x + 2 ^ n \<le> 2 ^ LENGTH('a)"
  shows "2 ^ n dvd unat (P2ROUNDUP_TYPED x (2 ^ n)) \<and> unat x \<le> unat (P2ROUNDUP_TYPED x (2 ^ n)) \<and> unat (P2ROUNDUP_TYPED x (2 ^ n)) < unat x + 2 ^ n"
proof (cases "x = 0")
  case True
  then show ?thesis by (simp add: roundup_nphase P2NPHASE_def)
next
  case False
  let ?p = "unat (P2NPHASE x (2 ^ n))"
  have p: "?p = (2 ^ LENGTH('a) - unat x) mod 2 ^ n" by (simp only: nphase_unat unat_neg [OF False])
  have lt: "?p < 2 ^ n" unfolding p by simp
  then have "unat x + ?p < 2 ^ LENGTH('a)" using x by linarith
  then have u: "unat (P2ROUNDUP_TYPED x (2 ^ n)) = unat x + ?p" by (simp add: roundup_nphase unat_word_ariths(1))
  have "(2 :: nat) ^ n dvd 2 ^ LENGTH('a)" using n by (simp add: le_imp_power_dvd)
  then have "2 ^ n dvd unat x + (2 ^ LENGTH('a) - unat x)" using le_add_diff_inverse [OF less_imp_le [OF unat_bound [of x]]] by metis
  then have "(unat x + ?p) mod 2 ^ n = 0" unfolding p by (metis mod_add_right_eq dvd_imp_mod_0)
  then show ?thesis using u lt by auto
qed

lemma isp2_exact: "ISP2 (x :: 'a::len word) \<longleftrightarrow> x = 0 \<or> (\<exists>n < LENGTH('a). x = 2 ^ n)"
proof (cases "x = 0")
  case False
  then obtain i where "bit x i" by (metis bit_0_eq bit_word_eqI bot_apply bot_bool_def)
  define m where "m = (LEAST i. bit x i)"
  have m: "bit x m" "\<And>i. i < m \<Longrightarrow> \<not> bit x i" unfolding m_def using LeastI [of "bit x", OF \<open>bit x i\<close>] not_less_Least by blast+
  then have ml: "m < LENGTH('a)" by (simp add: bit_imp_le_length)
  define h where "h = x AND NOT (mask (Suc m))"
  have "x = h OR 2 ^ m" using m ml by (intro bit_word_eqI) (auto simp: h_def bit_simps less_Suc_eq)
  moreover have "h OR 2 ^ m = h + 2 ^ m" by (subst disjunctive_add) (auto simp: h_def bit_simps)
  ultimately have xs: "x = h + 2 ^ m" by simp
  then have "x - 1 = h + mask m" by (simp add: mask_eq_exp_minus_1)
  also have "\<dots> = h OR mask m" by (rule disjunctive_add) (auto simp: h_def bit_simps)
  finally have "x AND (x - 1) = h" using m ml by (intro bit_word_eqI) (auto simp: h_def bit_simps less_Suc_eq)
  then have "ISP2 x \<longleftrightarrow> x = 2 ^ m" using xs by (auto simp: ISP2_def)
  moreover have "x = 2 ^ m" if "x = 2 ^ n" "n < LENGTH('a)" for n
    using m(1) that by (auto simp: bit_simps)
  ultimately show ?thesis using ml False by blast
qed (simp add: ISP2_def)

text \<open>The alignment macros compute what their names say, for every power of two that the type holds: the phase is the remainder, aligning gives the
  greatest multiple that is not above the value, rounding up the least that is not below (when it fits), crossing tells that the two values are
  in different blocks, the test of alignment divisibility, and the test for powers of two accepts exactly these and zero.\<close>

theorem p2_macros_exact:
  fixes x y :: "'a::len word"
  assumes "n < LENGTH('a)"
  shows "unat (P2PHASE x (2 ^ n)) = unat x mod 2 ^ n \<and>
    unat (P2ALIGN x (2 ^ n)) = (unat x div 2 ^ n) * 2 ^ n \<and>
    (unat x + 2 ^ n \<le> 2 ^ LENGTH('a) \<longrightarrow>
       2 ^ n dvd unat (P2ROUNDUP_TYPED x (2 ^ n)) \<and> unat x \<le> unat (P2ROUNDUP_TYPED x (2 ^ n)) \<and> unat (P2ROUNDUP_TYPED x (2 ^ n)) < unat x + 2 ^ n) \<and>
    (P2CROSS x y (2 ^ n) \<longleftrightarrow> unat x div 2 ^ n \<noteq> unat y div 2 ^ n) \<and>
    (IS_P2ALIGNED x (2 ^ n) \<longleftrightarrow> 2 ^ n dvd unat x) \<and>
    (ISP2 x \<longleftrightarrow> x = 0 \<or> (\<exists>m < LENGTH('a). x = 2 ^ m))"
proof (intro conjI)
  have ph: "unat (P2PHASE x (2 ^ n)) = unat x mod 2 ^ n" by (simp only: phase_take_bit unat_take_bit_mod)
  then show "unat (P2PHASE x (2 ^ n)) = unat x mod 2 ^ n" .
  have "take_bit n x \<le> x" by (simp only: word_le_nat_alt unat_take_bit_mod mod_less_eq_dividend)
  then have "unat (P2ALIGN x (2 ^ n)) = unat x - unat x mod 2 ^ n" by (simp only: align_take_bit unat_sub unat_take_bit_mod)
  then show "unat (P2ALIGN x (2 ^ n)) = (unat x div 2 ^ n) * 2 ^ n" by (simp add: minus_mod_eq_div_mult)
  have "IS_P2ALIGNED x (2 ^ n) \<longleftrightarrow> unat (P2PHASE x (2 ^ n)) = 0" by (simp add: IS_P2ALIGNED_def P2PHASE_def unat_eq_0)
  then show "IS_P2ALIGNED x (2 ^ n) \<longleftrightarrow> 2 ^ n dvd unat x" by (simp add: ph dvd_eq_mod_eq_0)
qed (use roundup_unat [OF assms] cross_div [OF assms] isp2_exact in blast)+

theorem p2_macros_exact_witness: "unat (P2PHASE (13 :: u32) (2 ^ 3)) = 5 \<and> 8 dvd unat (P2ROUNDUP_TYPED (13 :: u32) (2 ^ 3)) \<and> ISP2 (64 :: u32)"
proof -
  have "(64 :: u32) = 2 ^ 6" by simp
  then have "\<exists>m < LENGTH(32). (64 :: u32) = 2 ^ m" by (intro exI [of _ 6]) simp
  then show ?thesis using p2_macros_exact [where n = 3 and x = "13 :: u32" and y = 0] p2_macros_exact [where n = 3 and x = "64 :: u32" and y = 0] by simp
qed

section \<open>Byte order\<close>

text \<open>The macros on the widest type; each swaps the halves after swapping them inside.\<close>

definition BSWAP_8 :: "u64 \<Rightarrow> u64" where "BSWAP_8 x = x AND 0xff"
definition BSWAP_16 :: "u64 \<Rightarrow> u64" where "BSWAP_16 x = push_bit 8 (BSWAP_8 x) OR BSWAP_8 (drop_bit 8 x)"
definition BSWAP_32 :: "u64 \<Rightarrow> u64" where "BSWAP_32 x = push_bit 16 (BSWAP_16 x) OR BSWAP_16 (drop_bit 16 x)"
definition BSWAP_64 :: "u64 \<Rightarrow> u64" where "BSWAP_64 x = push_bit 32 (BSWAP_32 x) OR BSWAP_32 (drop_bit 32 x)"

text \<open>On a little-endian machine; \<open>htonl\<close> is the kernel's.\<close>

definition htonll :: "(u32 \<Rightarrow> u32) \<Rightarrow> u64 \<Rightarrow> u64" where
  "htonll htonl n = push_bit 32 (ucast (htonl (ucast n))) + ucast (htonl (ucast (drop_bit 32 n)))"

definition BE_IN8 :: "(u64 \<Rightarrow> u8) \<Rightarrow> u64 \<Rightarrow> u8" where "BE_IN8 m xa = m xa"
definition BE_IN16 :: "(u64 \<Rightarrow> u8) \<Rightarrow> u64 \<Rightarrow> u16" where "BE_IN16 m xa = push_bit 8 (ucast (BE_IN8 m xa)) OR ucast (BE_IN8 m (xa + 1))"
definition BE_IN32 :: "(u64 \<Rightarrow> u8) \<Rightarrow> u64 \<Rightarrow> u32" where "BE_IN32 m xa = push_bit 16 (ucast (BE_IN16 m xa)) OR ucast (BE_IN16 m (xa + 2))"

text \<open>A function on the low \<open>n\<close> bits that is its own inverse there.\<close>

definition swaps :: "nat \<Rightarrow> (u64 \<Rightarrow> u64) \<Rightarrow> bool" where
  "swaps n f \<longleftrightarrow> (\<forall>x. f (f x) = take_bit n x \<and> f (take_bit n x) = f x \<and> take_bit n (f x) = f x)"

lemma swaps_8: "swaps 8 BSWAP_8"
proof -
  have "(0xff :: u64) = mask 8" by (simp add: mask_eq_exp_minus_1)
  then have "BSWAP_8 x = take_bit 8 x" for x by (simp only: BSWAP_8_def take_bit_eq_mask)
  then show ?thesis by (simp add: swaps_def)
qed

lemma swaps_double:
  assumes s: "swaps n f" and n: "n + n \<le> 64"
  shows "swaps (n + n) (\<lambda>x. push_bit n (f x) OR f (drop_bit n x))" (is "swaps _ ?g")
  unfolding swaps_def
proof (intro allI conjI)
  fix x
  have f: "f (f y) = take_bit n y" "f (take_bit n y) = f y" "take_bit n (f y) = f y" for y using s unfolding swaps_def by auto
  have low: "take_bit n (?g y) = f (drop_bit n y)" for y
  proof -
    have "take_bit n (?g y) = take_bit n (f (drop_bit n y))" by (rule bit_word_eqI) (auto simp: bit_simps)
    then show ?thesis by (simp only: f(3))
  qed
  have hb: "bit (f y) i \<Longrightarrow> i < n" for y i using f(3) [of y] by (metis bit_take_bit_iff)
  have high: "drop_bit n (?g y) = f y" for y
    using n by (intro bit_word_eqI) (auto simp: bit_simps dest: hb)
  have "f (?g x) = take_bit n (drop_bit n x)" using f(2) [of "?g x"] low [of x] f(1) by metis
  then show "?g (?g x) = take_bit (n + n) x"
    using high [of x] f(1) n by (intro bit_word_eqI) (auto simp: bit_simps)
  have "f (take_bit (n + n) x) = f x" using f(2) [of "take_bit (n + n) x"] f(2) [of x] by (simp add: min_absorb1)
  moreover have "f (drop_bit n (take_bit (n + n) x)) = f (drop_bit n x)"
    using f(2) [of "drop_bit n x"] by (simp add: drop_bit_take_bit)
  ultimately show "?g (take_bit (n + n) x) = ?g x" by simp
  show "take_bit (n + n) (?g x) = ?g x" by (rule bit_word_eqI) (auto simp: bit_simps dest: hb)
qed

lemma swaps_all: "swaps 16 BSWAP_16" "swaps 32 BSWAP_32" "swaps 64 BSWAP_64"
proof -
  show s16: "swaps 16 BSWAP_16" using swaps_double [OF swaps_8] unfolding BSWAP_16_def [abs_def] by simp
  show s32: "swaps 32 BSWAP_32" using swaps_double [OF s16] unfolding BSWAP_32_def [abs_def] by simp
  show "swaps 64 BSWAP_64" using swaps_double [OF s32] unfolding BSWAP_64_def [abs_def] by simp
qed

text \<open>Swapping is its own inverse, and the function for 64 bits over that of the kernel for 32 bits agrees with the macro.\<close>

theorem bswap_involution: "BSWAP_64 (BSWAP_64 x) = x" "BSWAP_32 (BSWAP_32 (ucast (y :: u32))) = ucast y"
proof -
  have "take_bit 64 x = x" by (rule bit_word_eqI) (auto simp: bit_simps)
  then show "BSWAP_64 (BSWAP_64 x) = x" using swaps_all(3) unfolding swaps_def by simp
  have "take_bit 32 (ucast y :: u64) = ucast y" by (rule bit_word_eqI) (auto simp: bit_simps dest: bit_imp_le_length)
  then show "BSWAP_32 (BSWAP_32 (ucast y)) = ucast y" using swaps_all(2) unfolding swaps_def by simp
qed

lemma htonll_bswap:
  assumes "\<And>x. ucast (htonl x) = BSWAP_32 (ucast x)"
  shows "htonll htonl n = BSWAP_64 n"
proof -
  have t: "ucast (ucast y :: u32) = take_bit 32 y" for y :: u64 by (rule bit_word_eqI) (auto simp: bit_simps)
  have s: "BSWAP_32 (take_bit 32 y) = BSWAP_32 y" "take_bit 32 (BSWAP_32 y) = BSWAP_32 y" for y using swaps_all(2) unfolding swaps_def by auto
  have hb: "bit (BSWAP_32 y) i \<Longrightarrow> i < 32" for y i using s(2) [of y] by (metis bit_take_bit_iff)
  have "htonll htonl n = push_bit 32 (BSWAP_32 n) + BSWAP_32 (drop_bit 32 n)" by (simp only: htonll_def assms t s(1))
  also have "\<dots> = BSWAP_64 n" unfolding BSWAP_64_def by (rule disjunctive_add) (auto simp: bit_simps dest: hb)
  finally show ?thesis .
qed

section \<open>Time\<close>

text \<open>Ticks are compared by the sign of their difference.\<close>

definition ddi_time_before64 :: "u64 \<Rightarrow> u64 \<Rightarrow> bool" where
  "ddi_time_before64 a b \<longleftrightarrow> sint (a - b) < 0"

definition ddi_time_after64 :: "u64 \<Rightarrow> u64 \<Rightarrow> bool" where
  "ddi_time_after64 a b \<longleftrightarrow> ddi_time_before64 b a"

definition ddi_time_before_eq64 :: "u64 \<Rightarrow> u64 \<Rightarrow> bool" where
  "ddi_time_before_eq64 a b \<longleftrightarrow> \<not> ddi_time_after64 a b"

definition ddi_time_after_eq64 :: "u64 \<Rightarrow> u64 \<Rightarrow> bool" where
  "ddi_time_after_eq64 a b \<longleftrightarrow> ddi_time_before_eq64 b a"

text \<open>For times that are less than \<open>2 ^ 63\<close> ticks apart the comparison is right, also when the counter has wrapped around in between.\<close>

theorem ddi_time_exact:
  assumes "\<bar>s - t\<bar> < 2 ^ 63"
  shows "ddi_time_before64 (word_of_int s) (word_of_int t) \<longleftrightarrow> s < t" "ddi_time_after64 (word_of_int s) (word_of_int t) \<longleftrightarrow> s > t"
    "ddi_time_before_eq64 (word_of_int s) (word_of_int t) \<longleftrightarrow> s \<le> t" "ddi_time_after_eq64 (word_of_int s) (word_of_int t) \<longleftrightarrow> s \<ge> t"
proof -
  have d: "sint (word_of_int k :: u64) = k" if "\<bar>k\<bar> < 2 ^ 63" for k
    using that unfolding sint_sbintrunc' by (intro signed_take_bit_int_eq_self) (simp_all add: abs_less_iff)
  have w: "word_of_int a - word_of_int b = (word_of_int (a - b) :: u64)" for a b by simp
  have st: "\<bar>t - s\<bar> < 2 ^ 63" using assms by linarith
  have b: "ddi_time_before64 (word_of_int s) (word_of_int t) \<longleftrightarrow> s < t" "ddi_time_before64 (word_of_int t) (word_of_int s) \<longleftrightarrow> t < s"
    unfolding ddi_time_before64_def w d [OF assms] d [OF st] by auto
  then show "ddi_time_before64 (word_of_int s) (word_of_int t) \<longleftrightarrow> s < t" "ddi_time_after64 (word_of_int s) (word_of_int t) \<longleftrightarrow> s > t"
    "ddi_time_before_eq64 (word_of_int s) (word_of_int t) \<longleftrightarrow> s \<le> t" "ddi_time_after_eq64 (word_of_int s) (word_of_int t) \<longleftrightarrow> s \<ge> t"
    by (auto simp: ddi_time_after64_def ddi_time_before_eq64_def ddi_time_after_eq64_def)
qed

text \<open>Sleeping on kernels without \<^verbatim>\<open>usleep_range\<close>: milliseconds to sleep, or microseconds to spin.\<close>

datatype delay = Msleep u32 | Udelay u64

definition usleep_range :: "u64 \<Rightarrow> u64 \<Rightarrow> delay" where
  "usleep_range MAX_UDELAY_MS mn = (if mn \<ge> MAX_UDELAY_MS then Msleep (ucast (mn div 1000)) else Udelay mn)"

text \<open>The threshold is in milliseconds but the argument in microseconds: of a delay of 5 to 999 microseconds nothing is left.\<close>

lemma usleep_range_too_short: "5 \<le> mn \<Longrightarrow> mn < 1000 \<Longrightarrow> usleep_range 5 mn = Msleep 0"
proof -
  assume "5 \<le> mn" "mn < 1000"
  then have "mn div 1000 = 0" by (simp add: div_word_less)
  then show "usleep_range 5 mn = Msleep 0" using \<open>5 \<le> mn\<close> by (simp add: usleep_range_def)
qed

text \<open>The conversions of \<^verbatim>\<open>include/spl/sys/time.h\<close> on signed 64-bit numbers, and the clock, from the seconds and nanoseconds of the kernel.\<close>

definition MSEC2NSEC :: "int \<Rightarrow> u64" where "MSEC2NSEC m = word_of_int m * 1000000"
definition USEC2NSEC :: "int \<Rightarrow> u64" where "USEC2NSEC m = word_of_int m * 1000"
definition SEC2NSEC :: "int \<Rightarrow> u64" where "SEC2NSEC m = word_of_int m * 1000000000"
definition NSEC2MSEC :: "u64 \<Rightarrow> int" where "NSEC2MSEC n = (if sint n < 0 then - ((- sint n) div 1000000) else sint n div 1000000)"
definition NSEC2USEC :: "u64 \<Rightarrow> int" where "NSEC2USEC n = (if sint n < 0 then - ((- sint n) div 1000) else sint n div 1000)"
definition NSEC2SEC :: "u64 \<Rightarrow> int" where "NSEC2SEC n = (if sint n < 0 then - ((- sint n) div 1000000000) else sint n div 1000000000)"

definition gethrtime :: "int \<times> int \<Rightarrow> u64" where
  "gethrtime now = word_of_int (fst now) * 1000000000 + word_of_int (snd now)"

lemma sint_64: "\<bar>k\<bar> < 2 ^ 63 \<Longrightarrow> sint (word_of_int k :: u64) = k"
  unfolding sint_sbintrunc' by (intro signed_take_bit_int_eq_self) (simp_all add: abs_less_iff)

text \<open>A time converted to nanoseconds and back is the same time, if the nanoseconds fit, and the clock orders moments as their seconds and nanoseconds
  do; it is right for 292 years.\<close>

theorem time_conversions:
  assumes "\<bar>m\<bar> < 9223372036"
  shows "NSEC2MSEC (MSEC2NSEC m) = m" "NSEC2USEC (USEC2NSEC m) = m" "NSEC2SEC (SEC2NSEC m) = m"
proof -
  have w: "word_of_int m * (numeral k :: u64) = word_of_int (m * numeral k)" for k by simp
  have s: "sint (word_of_int (m * 1000000) :: u64) = m * 1000000" "sint (word_of_int (m * 1000) :: u64) = m * 1000"
    "sint (word_of_int (m * 1000000000) :: u64) = m * 1000000000"
    by (rule sint_64; use assms in \<open>simp add: abs_less_iff\<close>)+
  show "NSEC2MSEC (MSEC2NSEC m) = m" unfolding NSEC2MSEC_def MSEC2NSEC_def w s by (auto simp flip: mult_minus_left)
  show "NSEC2USEC (USEC2NSEC m) = m" unfolding NSEC2USEC_def USEC2NSEC_def w s by (auto simp flip: mult_minus_left)
  show "NSEC2SEC (SEC2NSEC m) = m" unfolding NSEC2SEC_def SEC2NSEC_def w s by (auto simp flip: mult_minus_left)
qed

theorem gethrtime_orders:
  assumes "0 \<le> s1" "s1 < 9223372035" "0 \<le> s2" "s2 < 9223372035" "n1 \<in> {0..<1000000000}" "n2 \<in> {0..<1000000000}"
  shows "sint (gethrtime (s1, n1)) < sint (gethrtime (s2, n2)) \<longleftrightarrow> s1 < s2 \<or> s1 = s2 \<and> n1 < n2"
proof -
  have "sint (gethrtime (s, n)) = s * 1000000000 + n" if "0 \<le> s" "s < 9223372035" "n \<in> {0..<1000000000}" for s n
  proof -
    have "gethrtime (s, n) = word_of_int (s * 1000000000 + n)" by (simp add: gethrtime_def)
    moreover have "\<bar>s * 1000000000 + n\<bar> < 2 ^ 63" using that by simp
    ultimately show ?thesis by (simp only: sint_64)
  qed
  then show ?thesis using assms by auto
qed

end
