(* ===== verification/Kmem_Cache_Race.thy ===== *)
theory Kmem_Cache_Race
  imports Spl_Prelude
begin

text \<open>
  Destroying a cache of \<^verbatim>\<open>module/spl/spl-kmem-cache.c\<close> against its background tasks: the ageing task, which dispatches its successor, and the
  task that grows the cache.  Each access to the shared fields \<^verbatim>\<open>skc_flags\<close>, \<^verbatim>\<open>skc_ref\<close> and \<^verbatim>\<open>skc_taskqid\<close> is a step.
\<close>

section \<open>State\<close>

text \<open>Ageing tasks are named by their task ids; the argument is the id of the successor.\<close>

datatype age_pc = A_none | A_delayed | A_inc | A_work | A_test | A_dispatch | A_test2 nat | A_cancel nat | A_store nat | A_dec | A_done

datatype destroy_pc = D_idle | D_read | D_cancel nat | D_ref | D_freed

datatype grow_pc = G_work | G_dec | G_clear | G_done

record age_state =
  kmc_destroy :: bool
  skc_ref :: int
  skc_taskqid :: nat
  next_id :: nat
  age_pc :: "nat \<Rightarrow> age_pc"
  destroy_pc :: destroy_pc
  grow_pc :: grow_pc
  use_after_free :: bool

definition age_goto :: "nat \<Rightarrow> age_pc \<Rightarrow> age_state \<Rightarrow> age_state" where
  "age_goto i p s = s\<lparr>age_pc := (age_pc s)(i := p)\<rparr>"

text \<open>A new cache: the first ageing task is dispatched, and perhaps a task grows it.\<close>

definition age_init :: "bool \<Rightarrow> age_state" where
  "age_init growing =
     \<lparr>kmc_destroy = False, skc_ref = (if growing then 1 else 0), skc_taskqid = 1, next_id = 2, age_pc = (\<lambda>_. A_none)(1 := A_delayed),
      destroy_pc = D_idle, grow_pc = (if growing then G_work else G_done), use_after_free = False\<rparr>"

text \<open>Every step of a task reads or writes the cache.\<close>

definition touch :: "age_state \<Rightarrow> age_state" where
  "touch s = (if destroy_pc s = D_freed then s\<lparr>use_after_free := True\<rparr> else s)"

text \<open>Cancelling a task: one that is delayed never runs, one that runs is waited for.\<close>

definition cancel_id :: "nat \<Rightarrow> age_state \<Rightarrow> age_state option" where
  "cancel_id k s =
     (case age_pc s k of
        A_delayed \<Rightarrow> Some (age_goto k A_done s)
      | A_none \<Rightarrow> Some s
      | A_done \<Rightarrow> Some s
      | _ \<Rightarrow> None)"

section \<open>Steps\<close>

definition cache_age_step :: "nat \<Rightarrow> age_state \<Rightarrow> age_state option" where
  "cache_age_step i s0 =
     (let s = touch s0 in
      case age_pc s i of
        A_delayed \<Rightarrow> Some (age_goto i A_inc s)
      | A_inc \<Rightarrow> Some (age_goto i A_work (s\<lparr>skc_ref := skc_ref s + 1\<rparr>))
      | A_work \<Rightarrow> Some (age_goto i A_test s)
      | A_test \<Rightarrow> Some (age_goto i (if kmc_destroy s then A_store 0 else A_dispatch) s)
      | A_dispatch \<Rightarrow> Some (age_goto i (A_test2 (next_id s)) (age_goto (next_id s) A_delayed (s\<lparr>next_id := next_id s + 1\<rparr>)))
      | A_test2 k \<Rightarrow> Some (age_goto i (if kmc_destroy s then A_cancel k else A_store k) s)
      | A_cancel k \<Rightarrow> map_option (age_goto i (A_store k)) (cancel_id k s)
      | A_store k \<Rightarrow> Some (age_goto i A_dec (s\<lparr>skc_taskqid := k\<rparr>))
      | A_dec \<Rightarrow> Some (age_goto i A_done (s\<lparr>skc_ref := skc_ref s - 1\<rparr>))
      | _ \<Rightarrow> None)"

definition cache_destroy_step :: "age_state \<Rightarrow> age_state option" where
  "cache_destroy_step s =
     (case destroy_pc s of
        D_idle \<Rightarrow> Some (s\<lparr>kmc_destroy := True, destroy_pc := D_read\<rparr>)
      | D_read \<Rightarrow> Some (s\<lparr>destroy_pc := D_cancel (skc_taskqid s)\<rparr>)
      | D_cancel k \<Rightarrow> map_option (\<lambda>s'. s'\<lparr>destroy_pc := D_ref\<rparr>) (cancel_id k s)
      | D_ref \<Rightarrow> if skc_ref s = 0 then Some (s\<lparr>destroy_pc := D_freed\<rparr>) else None
      | D_freed \<Rightarrow> None)"

definition grow_work_step :: "age_state \<Rightarrow> age_state option" where
  "grow_work_step s0 =
     (let s = touch s0 in
      case grow_pc s of
        G_work \<Rightarrow> Some (s\<lparr>grow_pc := G_dec\<rparr>)
      | G_dec \<Rightarrow> Some (s\<lparr>skc_ref := skc_ref s - 1, grow_pc := G_clear\<rparr>)
      | G_clear \<Rightarrow> Some (s\<lparr>grow_pc := G_done\<rparr>)
      | G_done \<Rightarrow> None)"

text \<open>A run: the ageing task with a given id, the destroyer, or the growing task moves.\<close>

datatype mover = Age nat | Destroy | Grow

definition move :: "mover \<Rightarrow> age_state \<Rightarrow> age_state option" where
  "move m s = (case m of Age i \<Rightarrow> cache_age_step i s | Destroy \<Rightarrow> cache_destroy_step s | Grow \<Rightarrow> grow_work_step s)"

fun moves :: "mover list \<Rightarrow> age_state \<Rightarrow> age_state option" where
  "moves [] s = Some s"
| "moves (m # ms) s = Option.bind (move m s) (moves ms)"

lemmas age_defs = move_def cache_age_step_def cache_destroy_step_def grow_work_step_def cancel_id_def touch_def age_goto_def age_init_def

section \<open>Two races\<close>


section \<open>When destroying is safe\<close>

text \<open>What has to be avoided: the destroyer reads the id of the next task while the ageing task is about to store it, or a task starts while its
  predecessor has not ended (its delay of some seconds makes this unlikely).\<close>

definition quiet :: "age_pc \<Rightarrow> bool" where
  "quiet p \<longleftrightarrow> p \<in> {A_none, A_delayed, A_done}"

definition calm :: "mover \<Rightarrow> age_state \<Rightarrow> bool" where
  "calm m s \<longleftrightarrow>
     (case m of
        Age i \<Rightarrow> age_pc s i = A_delayed \<longrightarrow> (\<forall>j. quiet (age_pc s j))
      | Destroy \<Rightarrow> destroy_pc s = D_read \<longrightarrow> (\<forall>i k. age_pc s i = A_store k \<longrightarrow> age_pc s k \<noteq> A_delayed)
      | Grow \<Rightarrow> True)"

inductive calm_reach :: "age_state \<Rightarrow> bool" where
  calm_init: "calm_reach (age_init False)"
| calm_step: "calm_reach s \<Longrightarrow> calm m s \<Longrightarrow> move m s = Some s' \<Longrightarrow> calm_reach s'"

abbreviation delayed_in :: "age_state \<Rightarrow> nat set \<Rightarrow> bool" where
  "delayed_in s K \<equiv> \<forall>j. age_pc s j = A_delayed \<longrightarrow> j \<in> K"

text \<open>What holds of the task \<open>w\<close> that is running, if any: its place says what is referenced and what is delayed.\<close>

definition runs_ok :: "nat option \<Rightarrow> age_state \<Rightarrow> bool" where
  "runs_ok w s \<longleftrightarrow>
     (case w of
        None \<Rightarrow> skc_ref s = 0 \<and> delayed_in s {skc_taskqid s}
      | Some i \<Rightarrow>
          (case age_pc s i of
             A_inc \<Rightarrow> skc_ref s = 0 \<and> skc_taskqid s = i \<and> delayed_in s {}
           | A_work \<Rightarrow> skc_ref s = 1 \<and> skc_taskqid s = i \<and> delayed_in s {}
           | A_test \<Rightarrow> skc_ref s = 1 \<and> skc_taskqid s = i \<and> delayed_in s {}
           | A_dispatch \<Rightarrow> skc_ref s = 1 \<and> skc_taskqid s = i \<and> delayed_in s {}
           | A_test2 k \<Rightarrow> skc_ref s = 1 \<and> skc_taskqid s = i \<and> delayed_in s {k}
           | A_cancel k \<Rightarrow> skc_ref s = 1 \<and> skc_taskqid s = i \<and> delayed_in s {k}
           | A_store k \<Rightarrow> skc_ref s = 1 \<and> skc_taskqid s = i \<and> delayed_in s {k}
           | A_dec \<Rightarrow> skc_ref s = 1 \<and> delayed_in s {skc_taskqid s}
           | _ \<Rightarrow> False))"

definition destroys_ok :: "nat option \<Rightarrow> age_state \<Rightarrow> bool" where
  "destroys_ok w s \<longleftrightarrow>
     (case destroy_pc s of
        D_idle \<Rightarrow> True
      | D_read \<Rightarrow> kmc_destroy s
      | D_cancel d \<Rightarrow> kmc_destroy s \<and>
          (case w of None \<Rightarrow> delayed_in s {d}
           | Some i \<Rightarrow> (case age_pc s i of A_dec \<Rightarrow> delayed_in s {d} | A_store k \<Rightarrow> d = i \<and> delayed_in s {} | _ \<Rightarrow> d = i))
      | D_ref \<Rightarrow> kmc_destroy s \<and> delayed_in s {} \<and> (case w of None \<Rightarrow> True | Some i \<Rightarrow> age_pc s i = A_dec)
      | D_freed \<Rightarrow> delayed_in s {} \<and> w = None)"

definition age_inv :: "nat option \<Rightarrow> age_state \<Rightarrow> bool" where
  "age_inv w s \<longleftrightarrow> (\<forall>i. Some i \<noteq> w \<longrightarrow> quiet (age_pc s i)) \<and> (\<forall>i \<ge> next_id s. age_pc s i = A_none) \<and>
     runs_ok w s \<and> destroys_ok w s \<and> grow_pc s = G_done \<and> \<not> use_after_free s"

lemma age_inv_init: "age_inv None (age_init False)"
  by (simp add: age_inv_def age_init_def quiet_def runs_ok_def destroys_ok_def)

lemma runs_not_quiet: "runs_ok (Some i) s \<Longrightarrow> \<not> quiet (age_pc s i)"
  by (cases "age_pc s i") (simp_all add: runs_ok_def quiet_def)

text \<open>The parts of the invariant see only some fields.\<close>

lemma runs_cong: "age_pc s' = age_pc s \<Longrightarrow> skc_ref s' = skc_ref s \<Longrightarrow> skc_taskqid s' = skc_taskqid s \<Longrightarrow> runs_ok w s' = runs_ok w s"
  by (simp only: runs_ok_def)

lemma destroys_read:
  assumes "runs_ok w s" "kmc_destroy s" "\<And>i k. age_pc s i = A_store k \<Longrightarrow> age_pc s k \<noteq> A_delayed"
  shows "destroys_ok w (s\<lparr>destroy_pc := D_cancel (skc_taskqid s)\<rparr>)"
proof (cases w)
  case None
  then show ?thesis using assms(1,2) by (simp add: destroys_ok_def runs_ok_def)
next
  case (Some i)
  show ?thesis
  proof (cases "age_pc s i")
    case (A_store k)
    then have "delayed_in s {k}" "skc_taskqid s = i" using assms(1) Some by (simp_all add: runs_ok_def)
    then have "delayed_in s {}" using assms(3) [OF A_store] by blast
    then show ?thesis using Some A_store assms(2) \<open>skc_taskqid s = i\<close> by (simp add: destroys_ok_def)
  qed (use assms(1,2) Some in \<open>simp_all add: destroys_ok_def runs_ok_def\<close>)
qed

text \<open>When the destroyer gets past cancelling, the task it knew is over, and nothing is left to start.\<close>

lemma destroys_cancel:
  assumes "runs_ok w s" "destroys_ok w s" "destroy_pc s = D_cancel d" "quiet (age_pc s d)"
  shows "kmc_destroy s" "delayed_in s {d}" "w = None \<or> (\<exists>i. w = Some i \<and> i \<noteq> d \<and> age_pc s i = A_dec)"
proof -
  show "kmc_destroy s" using assms(2,3) by (simp add: destroys_ok_def)
  have "w = None \<or> (\<exists>i. w = Some i \<and> i \<noteq> d \<and> age_pc s i = A_dec)"
  proof (cases w)
    case (Some i)
    then have "i \<noteq> d" using runs_not_quiet [of i s] assms(1,4) by auto
    then have "age_pc s i = A_dec" using assms(2,3) Some by (cases "age_pc s i") (simp_all add: destroys_ok_def)
    then show ?thesis using Some \<open>i \<noteq> d\<close> by simp
  qed simp
  then show "w = None \<or> (\<exists>i. w = Some i \<and> i \<noteq> d \<and> age_pc s i = A_dec)" .
  then show "delayed_in s {d}" using assms(2,3) by (auto simp: destroys_ok_def)
qed

lemma age_invI:
  assumes "\<And>j. Some j \<noteq> w \<Longrightarrow> quiet (age_pc s j)" "\<And>j. next_id s \<le> j \<Longrightarrow> age_pc s j = A_none" "runs_ok w s" "destroys_ok w s"
    "grow_pc s = G_done" "\<not> use_after_free s"
  shows "age_inv w s"
  using assms by (simp add: age_inv_def)

lemma age_invD:
  assumes "age_inv w s"
  shows "\<And>j. Some j \<noteq> w \<Longrightarrow> quiet (age_pc s j)" "\<And>j. next_id s \<le> j \<Longrightarrow> age_pc s j = A_none" "runs_ok w s" "destroys_ok w s"
    "grow_pc s = G_done" "\<not> use_after_free s"
  using assms unfolding age_inv_def by auto

lemma destroyer_moves:
  assumes "age_inv w s" "age_pc s' = age_pc s" "skc_ref s' = skc_ref s" "skc_taskqid s' = skc_taskqid s" "next_id s' = next_id s"
    "grow_pc s' = grow_pc s" "use_after_free s' = use_after_free s" "destroys_ok w s'"
  shows "age_inv w s'"
  using assms(1) assms(8) runs_cong [OF assms(2-4), of w] unfolding age_inv_def assms(2,5-7) by simp

lemma destroy_cancel_inv:
  assumes i: "age_inv w s" and D: "destroy_pc s = D_cancel d" and q: "quiet (age_pc s d)"
    and s': "s' = s\<lparr>age_pc := (age_pc s)(d := if age_pc s d = A_delayed then A_done else age_pc s d), destroy_pc := D_ref\<rparr>"
  shows "age_inv w s'"
proof (rule age_invI)
  note I = age_invD [OF i] and d = destroys_cancel [OF age_invD(3,4) [OF i] D q]
  have f: "skc_ref s' = skc_ref s" "destroy_pc s' = D_ref" "kmc_destroy s'" using d(1) by (simp_all add: s')
  have no: "age_pc s' j \<noteq> A_delayed" for j
  proof (cases "j = d")
    case True
    then show ?thesis by (simp add: s')
  next
    case False
    then have "age_pc s j \<noteq> A_delayed" using d(2) by blast
    then show ?thesis using False by (simp add: s')
  qed
  have r: "w = None \<and> skc_ref s = 0 \<or> (\<exists>j. w = Some j \<and> age_pc s' j = A_dec \<and> skc_ref s = 1)"
  proof (cases w)
    case None
    then show ?thesis using I(3) by (simp add: runs_ok_def)
  next
    case (Some j)
    then have j: "j \<noteq> d" "age_pc s j = A_dec" using d(3) by auto
    then have "age_pc s' j = A_dec" by (simp add: s')
    then show ?thesis using I(3) Some j by (simp add: runs_ok_def)
  qed
  show "runs_ok w s'" using r no f(1) by (elim disjE exE conjE) (simp_all add: runs_ok_def)
  show "destroys_ok w s'" using r no f(2,3) by (elim disjE exE conjE) (simp_all add: destroys_ok_def)
  show "quiet (age_pc s' j)" if "Some j \<noteq> w" for j using I(1) [OF that] by (cases "j = d") (auto simp: s' quiet_def)
  show "age_pc s' j = A_none" if "next_id s' \<le> j" for j
  proof -
    have "age_pc s j = A_none" using I(2) [of j] that by (simp add: s')
    then show ?thesis by (auto simp: s')
  qed
  show "grow_pc s' = G_done" "\<not> use_after_free s'" using I(5,6) by (simp_all add: s')
qed

lemma destroy_inv:
  assumes i: "age_inv w s" and c: "calm Destroy s" and s: "cache_destroy_step s = Some s'"
  shows "age_inv w s'"
proof (cases "destroy_pc s")
  case D_idle
  then have s': "s' = s\<lparr>kmc_destroy := True, destroy_pc := D_read\<rparr>" using s by (simp add: cache_destroy_step_def)
  show ?thesis by (rule destroyer_moves [OF i]) (simp_all add: s' destroys_ok_def)
next
  case D_read
  then have s': "s' = s\<lparr>destroy_pc := D_cancel (skc_taskqid s)\<rparr>" using s by (simp add: cache_destroy_step_def)
  have "kmc_destroy s" using age_invD(4) [OF i] D_read by (simp add: destroys_ok_def)
  then have "destroys_ok w s'" unfolding s' using destroys_read [OF age_invD(3) [OF i]] c D_read by (simp add: calm_def)
  then show ?thesis by (rule destroyer_moves [OF i, rotated -1]) (simp_all add: s')
next
  case (D_cancel d)
  have q: "quiet (age_pc s d)" using s D_cancel by (cases "age_pc s d") (simp_all add: cache_destroy_step_def cancel_id_def quiet_def)
  have "s' = s\<lparr>age_pc := (age_pc s)(d := if age_pc s d = A_delayed then A_done else age_pc s d), destroy_pc := D_ref\<rparr>"
    using s D_cancel q by (auto simp: cache_destroy_step_def cancel_id_def quiet_def age_goto_def)
  then show ?thesis by (rule destroy_cancel_inv [OF i D_cancel q])
next
  case D_ref
  then have s': "s' = s\<lparr>destroy_pc := D_freed\<rparr>" and r: "skc_ref s = 0" using s by (auto simp: cache_destroy_step_def split: if_splits)
  have "w = None"
  proof (cases w)
    case (Some j)
    then have "age_pc s j = A_dec" using age_invD(4) [OF i] D_ref by (simp add: destroys_ok_def)
    then show ?thesis using age_invD(3) [OF i] Some r by (simp add: runs_ok_def)
  qed simp
  then have "destroys_ok w s'" using age_invD(4) [OF i] D_ref by (simp add: s' destroys_ok_def)
  then show ?thesis by (rule destroyer_moves [OF i, rotated -1]) (simp_all add: s')
qed (use s in \<open>simp add: cache_destroy_step_def\<close>)

text \<open>A step of the running task that only moves it on.\<close>

lemma freed_no_task:
  assumes "age_inv w s" "age_pc s i = A_delayed \<or> w = Some i"
  shows "destroy_pc s \<noteq> D_freed" "touch s = s"
proof -
  show "destroy_pc s \<noteq> D_freed" using age_invD(4) [OF assms(1)] assms(2) by (auto simp: destroys_ok_def)
  then show "touch s = s" by (simp add: touch_def)
qed

lemma task_moves:
  assumes i: "age_inv (Some i) s" and s': "age_pc s' = (age_pc s)(i := p)" "next_id s' = next_id s" "grow_pc s' = grow_pc s" "use_after_free s' = use_after_free s"
    and r: "runs_ok (Some i) s'" "destroys_ok (Some i) s'"
  shows "age_inv (Some i) s'"
proof (rule age_invI)
  note I = age_invD [OF i]
  have "i < next_id s"
  proof (rule ccontr)
    assume "\<not> i < next_id s"
    then have "age_pc s i = A_none" using I(2) by simp
    then show False using runs_not_quiet [OF I(3)] by (simp add: quiet_def)
  qed
  then show "age_pc s' j = A_none" if "next_id s' \<le> j" for j using I(2) [of j] that by (simp add: s')
  show "quiet (age_pc s' j)" if "Some j \<noteq> Some i" for j using I(1) [of j] that by (simp add: s')
qed (use age_invD(5,6) [OF i] s' r in simp_all)

text \<open>The delayed tasks after moving the running one, which is not delayed.\<close>

lemma delayed_moved: "age_pc s i \<noteq> A_delayed \<Longrightarrow> p \<noteq> A_delayed \<Longrightarrow> ((age_pc s)(i := p)) j = A_delayed \<longleftrightarrow> age_pc s j = A_delayed"
  by auto

lemma task_simple:
  assumes i: "age_inv (Some i) s" and p: "age_pc s i \<noteq> A_delayed" "p \<noteq> A_delayed"
    and r: "runs_ok (Some i) (age_goto i p s)" "destroys_ok (Some i) (age_goto i p s)"
  shows "age_inv (Some i) (age_goto i p s)"
  by (rule task_moves [OF i, of _ p]) (use r in \<open>simp_all add: age_goto_def\<close>)

text \<open>As long as the running task has not reached its store, all the destroyer may know is that task.\<close>

definition early :: "age_pc \<Rightarrow> bool" where
  "early p \<longleftrightarrow> p \<noteq> A_dec \<and> (\<forall>k. p \<noteq> A_store k)"

definition knows :: "nat \<Rightarrow> age_state \<Rightarrow> bool" where
  "knows i s \<longleftrightarrow> (case destroy_pc s of D_idle \<Rightarrow> True | D_read \<Rightarrow> kmc_destroy s | D_cancel d \<Rightarrow> kmc_destroy s \<and> d = i | _ \<Rightarrow> False)"

lemma destroys_early: "early (age_pc s i) \<Longrightarrow> destroys_ok (Some i) s \<longleftrightarrow> knows i s"
  by (cases "age_pc s i"; cases "destroy_pc s") (simp_all add: early_def destroys_ok_def knows_def)

lemma knows_cong: "destroy_pc s' = destroy_pc s \<Longrightarrow> kmc_destroy s' = kmc_destroy s \<Longrightarrow> knows i s' = knows i s"
  by (simp only: knows_def)

lemma age_step_early:
  assumes i: "age_inv (Some i) s" and e: "early (age_pc s i)" "early p" "p \<noteq> A_delayed"
    and s': "age_pc s' = (age_pc s)(i := p)" "next_id s' = next_id s" "grow_pc s' = grow_pc s" "use_after_free s' = use_after_free s"
      "kmc_destroy s' = kmc_destroy s" "destroy_pc s' = destroy_pc s" and r: "runs_ok (Some i) s'"
  shows "age_inv (Some i) s'"
proof -
  have "knows i s" using age_invD(4) [OF i] destroys_early [OF e(1)] by simp
  then have "destroys_ok (Some i) s'" using destroys_early [of s' i] e(2) s' knows_cong [of s' s i] by simp
  then show ?thesis by (rule task_moves [OF i s'(1-4) r])
qed

lemma age_inc_inv:
  assumes i: "age_inv (Some i) s" and p: "age_pc s i = A_inc"
  shows "age_inv (Some i) (age_goto i A_work (s\<lparr>skc_ref := skc_ref s + 1\<rparr>))"
proof -
  have "skc_ref s = 0" "skc_taskqid s = i" "delayed_in s {}" using age_invD(3) [OF i] p by (simp_all add: runs_ok_def)
  then show ?thesis by (intro age_step_early [OF i, of A_work]) (simp_all add: p early_def age_goto_def runs_ok_def)
qed

lemma age_work_inv:
  assumes i: "age_inv (Some i) s" and p: "age_pc s i = A_work"
  shows "age_inv (Some i) (age_goto i A_test s)"
proof -
  have "skc_ref s = 1" "skc_taskqid s = i" "delayed_in s {}" using age_invD(3) [OF i] p by (simp_all add: runs_ok_def)
  then show ?thesis by (intro age_step_early [OF i, of A_test]) (simp_all add: p early_def age_goto_def runs_ok_def)
qed

lemma age_test_inv:
  assumes i: "age_inv (Some i) s" and p: "age_pc s i = A_test"
  shows "age_inv (Some i) (age_goto i (if kmc_destroy s then A_store 0 else A_dispatch) s)"
proof -
  have r: "skc_ref s = 1" "skc_taskqid s = i" "delayed_in s {}" using age_invD(3) [OF i] p by (simp_all add: runs_ok_def)
  show ?thesis
  proof (cases "kmc_destroy s")
    case True
    have k: "knows i s" using age_invD(4) [OF i] destroys_early [of s i] p by (simp add: early_def)
    have "destroys_ok (Some i) (age_goto i (A_store 0) s)"
      using k r by (cases "destroy_pc s") (simp_all add: destroys_ok_def knows_def age_goto_def)
    moreover have "runs_ok (Some i) (age_goto i (A_store 0) s)" using r by (simp add: runs_ok_def age_goto_def)
    ultimately show ?thesis using task_simple [OF i, of "A_store 0"] p True by simp
  next
    case False
    then show ?thesis using r by (simp, intro age_step_early [OF i, of A_dispatch]) (simp_all add: p early_def age_goto_def runs_ok_def)
  qed
qed

lemma age_dispatch_inv:
  assumes i: "age_inv (Some i) s" and p: "age_pc s i = A_dispatch"
    and pc: "age_pc s' = ((age_pc s)(next_id s := A_delayed))(i := A_test2 (next_id s))" and n': "next_id s' = next_id s + 1"
    and f: "skc_ref s' = skc_ref s" "skc_taskqid s' = skc_taskqid s" "grow_pc s' = grow_pc s" "use_after_free s' = use_after_free s"
      "kmc_destroy s' = kmc_destroy s" "destroy_pc s' = destroy_pc s"
  shows "age_inv (Some i) s'"
proof (rule age_invI)
  note I = age_invD [OF i]
  have r: "skc_ref s = 1" "skc_taskqid s = i" "delayed_in s {}" using I(3) p by (simp_all add: runs_ok_def)
  have n: "next_id s \<noteq> i" using I(2) [of i] p by auto
  have d: "age_pc s' j = A_delayed \<longleftrightarrow> j = next_id s" for j using r(3) n unfolding pc by auto
  have pi: "age_pc s' i = A_test2 (next_id s)" by (simp add: pc)
  show "runs_ok (Some i) s'" using r f d pi by (simp add: runs_ok_def)
  have "knows i s" using I(4) destroys_early [of s i] p by (simp add: early_def)
  then show "destroys_ok (Some i) s'" using destroys_early [of s' i] knows_cong [OF f(6,5), of i] pi by (simp add: early_def)
  show "quiet (age_pc s' j)" if "Some j \<noteq> Some i" for j using I(1) [of j] that by (simp add: pc quiet_def)
  show "age_pc s' j = A_none" if "next_id s' \<le> j" for j
  proof -
    have j: "next_id s < j" using that n' by simp
    then have a: "age_pc s j = A_none" using I(2) [of j] by simp
    then have "j \<noteq> i" using p by auto
    then show ?thesis using a j by (simp add: pc)
  qed
  show "grow_pc s' = G_done" "\<not> use_after_free s'" using I(5,6) f by simp_all
qed

lemma age_test2_inv:
  assumes i: "age_inv (Some i) s" and p: "age_pc s i = A_test2 k"
  shows "age_inv (Some i) (age_goto i (if kmc_destroy s then A_cancel k else A_store k) s)"
proof -
  have r: "skc_ref s = 1" "skc_taskqid s = i" "delayed_in s {k}" using age_invD(3) [OF i] p by (simp_all add: runs_ok_def)
  have d: "((age_pc s)(i := q)) j = A_delayed \<longleftrightarrow> age_pc s j = A_delayed" if "q \<noteq> A_delayed" for j q using that p by simp
  show ?thesis
  proof (cases "kmc_destroy s")
    case True
    then show ?thesis using r by (simp, intro age_step_early [OF i, of "A_cancel k"]) (simp_all add: p early_def age_goto_def runs_ok_def)
  next
    case False
    have k: "knows i s" using age_invD(4) [OF i] destroys_early [of s i] p by (simp add: early_def)
    then have "destroy_pc s = D_idle" using False by (cases "destroy_pc s") (simp_all add: knows_def)
    then have "destroys_ok (Some i) (age_goto i (A_store k) s)" by (simp add: destroys_ok_def age_goto_def)
    moreover have "runs_ok (Some i) (age_goto i (A_store k) s)" using r by (simp add: runs_ok_def age_goto_def)
    ultimately show ?thesis using task_simple [OF i, of "A_store k"] p False by simp
  qed
qed

lemma age_store_inv:
  assumes i: "age_inv (Some i) s" and p: "age_pc s i = A_store k"
  shows "age_inv (Some i) (age_goto i A_dec (s\<lparr>skc_taskqid := k\<rparr>))"
proof -
  have r: "skc_ref s = 1" "delayed_in s {k}" using age_invD(3) [OF i] p by (simp_all add: runs_ok_def)
  have "destroys_ok (Some i) s" using age_invD(4) [OF i] .
  then have "destroys_ok (Some i) (age_goto i A_dec (s\<lparr>skc_taskqid := k\<rparr>))"
    using p by (cases "destroy_pc s") (simp_all add: destroys_ok_def age_goto_def)
  moreover have "runs_ok (Some i) (age_goto i A_dec (s\<lparr>skc_taskqid := k\<rparr>))" using r by (simp add: runs_ok_def age_goto_def)
  ultimately show ?thesis by (intro task_moves [OF i, of _ A_dec]) (simp_all add: age_goto_def)
qed

lemma age_dec_inv:
  assumes i: "age_inv (Some i) s" and p: "age_pc s i = A_dec"
  shows "age_inv None (age_goto i A_done (s\<lparr>skc_ref := skc_ref s - 1\<rparr>))" (is "age_inv _ ?s")
proof (rule age_invI)
  note I = age_invD [OF i]
  have r: "skc_ref s = 1" "delayed_in s {skc_taskqid s}" using I(3) p by (simp_all add: runs_ok_def)
  show "runs_ok None ?s" using r by (simp add: runs_ok_def age_goto_def)
  show "destroys_ok None ?s" using I(4) p by (cases "destroy_pc s") (simp_all add: destroys_ok_def age_goto_def)
  show "quiet (age_pc ?s j)" for j using I(1) [of j] by (simp add: age_goto_def quiet_def)
  show "age_pc ?s j = A_none" if "next_id ?s \<le> j" for j
  proof -
    have "age_pc s j = A_none" using I(2) [of j] that by (simp add: age_goto_def)
    then show ?thesis using p by (auto simp: age_goto_def)
  qed
qed (use age_invD(5,6) [OF i] in \<open>simp_all add: age_goto_def\<close>)

lemma age_cancel_inv:
  assumes i: "age_inv (Some i) s" and p: "age_pc s i = A_cancel k" and c: "cancel_id k s = Some s1"
  shows "age_inv (Some i) (age_goto i (A_store k) s1)" (is "age_inv _ ?s")
proof (rule age_invI)
  note I = age_invD [OF i]
  have r: "skc_ref s = 1" "skc_taskqid s = i" "delayed_in s {k}" using I(3) p by (simp_all add: runs_ok_def)
  have q: "quiet (age_pc s k)" using c by (cases "age_pc s k") (simp_all add: cancel_id_def quiet_def)
  then have ki: "k \<noteq> i" using p by (auto simp: quiet_def)
  have s1: "s1 = s\<lparr>age_pc := (age_pc s)(k := if age_pc s k = A_delayed then A_done else age_pc s k)\<rparr>"
    using c q by (auto simp: cancel_id_def quiet_def age_goto_def)
  have f: "skc_ref ?s = skc_ref s" "skc_taskqid ?s = skc_taskqid s" "destroy_pc ?s = destroy_pc s" "kmc_destroy ?s = kmc_destroy s"
    "age_pc ?s i = A_store k" "next_id ?s = next_id s" by (simp_all add: age_goto_def s1)
  have pc: "age_pc ?s j = (if j = k \<and> age_pc s k = A_delayed then A_done else age_pc s j)" if "j \<noteq> i" for j using that by (simp add: age_goto_def s1)
  have no: "age_pc ?s j \<noteq> A_delayed" for j
  proof (cases "j = i")
    case False
    then show ?thesis using pc [OF False] r(3) by (cases "j = k") auto
  qed (simp add: f)
  show "runs_ok (Some i) ?s" using r f no by (simp add: runs_ok_def)
  have "knows i s" using I(4) destroys_early [of s i] p by (simp add: early_def)
  then show "destroys_ok (Some i) ?s" using f no by (cases "destroy_pc s") (simp_all add: destroys_ok_def knows_def)
  show "quiet (age_pc ?s j)" if "Some j \<noteq> Some i" for j using I(1) [of j] that pc [of j] by (auto simp: quiet_def)
  show "age_pc ?s j = A_none" if "next_id ?s \<le> j" for j
  proof -
    have a: "age_pc s j = A_none" using I(2) [of j] that f by simp
    then have "j \<noteq> i" using p by auto
    then show ?thesis using pc [of j] a by auto
  qed
  show "grow_pc ?s = G_done" "\<not> use_after_free ?s" using I(5,6) by (simp_all add: age_goto_def s1)
qed

lemma age_fire_inv:
  assumes i: "age_inv None s" and p: "age_pc s i = A_delayed"
  shows "age_inv (Some i) (age_goto i A_inc s)" (is "age_inv _ ?s")
proof (rule age_invI)
  note I = age_invD [OF i]
  have r: "skc_ref s = 0" "delayed_in s {skc_taskqid s}" using I(3) by (simp_all add: runs_ok_def)
  then have t: "skc_taskqid s = i" using p by auto
  have f: "skc_ref ?s = skc_ref s" "skc_taskqid ?s = skc_taskqid s" "destroy_pc ?s = destroy_pc s" "kmc_destroy ?s = kmc_destroy s"
    "age_pc ?s i = A_inc" "next_id ?s = next_id s" by (simp_all add: age_goto_def)
  have no: "age_pc ?s j \<noteq> A_delayed" for j
  proof (cases "j = i")
    case False
    then have "age_pc s j \<noteq> A_delayed" using r(2) t by auto
    then show ?thesis using False by (simp add: age_goto_def)
  qed (simp add: f)
  show "runs_ok (Some i) ?s" using r t f no by (simp add: runs_ok_def)
  have "knows i s" using I(4) p by (cases "destroy_pc s") (auto simp: destroys_ok_def knows_def)
  then show "destroys_ok (Some i) ?s" using destroys_early [of ?s i] knows_cong [OF f(3,4), of i] f(5) by (simp add: early_def)
  show "quiet (age_pc ?s j)" if "Some j \<noteq> Some i" for j using I(1) [of j] that by (simp add: age_goto_def)
  show "age_pc ?s j = A_none" if "next_id ?s \<le> j" for j
  proof -
    have a: "age_pc s j = A_none" using I(2) [of j] that f by simp
    then have "j \<noteq> i" using p by auto
    then show ?thesis using a by (simp add: age_goto_def)
  qed
  show "grow_pc ?s = G_done" "\<not> use_after_free ?s" using I(5,6) by (simp_all add: age_goto_def)
qed

lemma age_step_inv:
  assumes i: "age_inv w s" and c: "calm (Age i) s" and s: "cache_age_step i s = Some s'"
  shows "\<exists>w'. age_inv w' s'"
proof (cases "age_pc s i = A_delayed")
  case True
  have "w = None"
  proof (cases w)
    case (Some j)
    then have "\<not> quiet (age_pc s j)" using runs_not_quiet [of j s] age_invD(3) [OF i] by simp
    then show ?thesis using c True by (simp add: calm_def)
  qed simp
  then have "age_inv (Some i) (age_goto i A_inc s)" using age_fire_inv i True by simp
  moreover have "s' = age_goto i A_inc s" using s freed_no_task [OF i, of i] True by (simp add: cache_age_step_def)
  ultimately show ?thesis by blast
next
  case False
  have nq: "\<not> quiet (age_pc s i)"
    using s False by (cases "age_pc s i") (simp_all add: cache_age_step_def touch_def quiet_def split: if_splits)
  then have w: "w = Some i" using age_invD(1) [OF i, of i] by blast
  then have t: "touch s = s" using freed_no_task [OF i, of i] by simp
  note i' = i [unfolded w]
  show ?thesis
  proof (cases "age_pc s i")
    case A_dispatch
    have "age_inv (Some i) (age_goto i (A_test2 (next_id s)) (age_goto (next_id s) A_delayed (s\<lparr>next_id := next_id s + 1\<rparr>)))"
      by (rule age_dispatch_inv [OF i' A_dispatch]) (simp_all add: age_goto_def)
    then show ?thesis using s t A_dispatch by (auto simp: cache_age_step_def)
  next
    case (A_cancel k)
    then obtain s1 where "cancel_id k s = Some s1" "s' = age_goto i (A_store k) s1" using s t by (auto simp: cache_age_step_def)
    then show ?thesis using age_cancel_inv [OF i' A_cancel] by blast
  next
    case A_dec
    then show ?thesis using age_dec_inv [OF i'] s t by (auto simp: cache_age_step_def)
  qed (use s t nq age_inc_inv [OF i'] age_work_inv [OF i'] age_test_inv [OF i'] age_test2_inv [OF i'] age_store_inv [OF i'] in \<open>auto simp: cache_age_step_def quiet_def\<close>)
qed

lemma calm_inv: "calm_reach s \<Longrightarrow> \<exists>w. age_inv w s"
proof (induction rule: calm_reach.induct)
  case calm_init
  then show ?case using age_inv_init by blast
next
  case (calm_step s m s')
  then obtain w where w: "age_inv w s" by blast
  show ?case
  proof (cases m)
    case (Age i)
    then show ?thesis using age_step_inv [OF w, of i s'] calm_step by (simp add: move_def)
  next
    case Destroy
    then have "age_inv w s'" using destroy_inv [OF w, of s'] calm_step by (simp add: move_def)
    then show ?thesis by blast
  next
    case Grow
    then show ?thesis using calm_step(3) age_invD(5) [OF w] by (simp add: move_def grow_work_step_def touch_def split: if_splits)
  qed
qed


text \<open>Destroying begins while the first ageing task is about to dispatch: it then cancels its successor itself.\<close>

definition demo_destroyed :: age_state where
  "demo_destroyed = \<lparr>kmc_destroy = True, skc_ref = 0, skc_taskqid = 2, next_id = 3, age_pc = (\<lambda>_. A_none)(1 := A_done, 2 := A_done),
     destroy_pc = D_freed, grow_pc = G_done, use_after_free = False\<rparr>"

fun calm_moves :: "mover list \<Rightarrow> age_state \<Rightarrow> bool" where
  "calm_moves [] s = True"
| "calm_moves (m # ms) s = (calm m s \<and> (case move m s of None \<Rightarrow> True | Some s' \<Rightarrow> calm_moves ms s'))"

lemma calm_moves_reach: "calm_reach s \<Longrightarrow> moves ms s = Some s' \<Longrightarrow> calm_moves ms s \<Longrightarrow> calm_reach s'"
proof (induction ms arbitrary: s)
  case (Cons m ms)
  then obtain s1 where s1: "move m s = Some s1" "moves ms s1 = Some s'" by (auto simp: bind_eq_Some_conv)
  then have "calm_reach s1" using Cons.prems calm_step by auto
  then show ?case using Cons.IH s1 Cons.prems(3) by auto
qed simp

lemma demo_destroyed_reach: "calm_reach demo_destroyed"
proof -
  let ?ms = "[Age 1, Age 1, Age 1, Age 1, Destroy, Destroy, Age 1, Age 1, Age 1, Age 1, Age 1, Destroy, Destroy]"
  have "moves ?ms (age_init False) = Some demo_destroyed" by (simp add: age_defs demo_destroyed_def fun_upd_twist)
  moreover have "calm_moves ?ms (age_init False)" by (auto simp: age_defs calm_def quiet_def)
  ultimately show ?thesis using calm_moves_reach [OF calm_init] by blast
qed


end
