(* ===== verification/Kmem_Cache_Kernel.thy ===== *)
theory Kmem_Cache_Kernel
  imports Kmem_Cache Spl_Macros
begin

text \<open>
  The slab allocator of \<^verbatim>\<open>module/spl/spl-kmem-cache.c\<close> towards the kernel: the memory of slabs, the addresses inside a slab, magazines as objects, constructors
  of objects, and the start and end of the module's part.
\<close>

section \<open>Memory of slabs\<close>

text \<open>The two functions of the kernel that give memory, and their counterparts.  \<open>ans\<close> is the kernel's answer; the assertions on the size and on
  the address are \<open>None\<close>.\<close>

datatype kv_call = Get_free_pages u32 nat | Vmalloc u32 u32

datatype kv_free_call = Free_pages addr nat | Vfree_slab addr

definition kv_alloc :: "(u32 \<Rightarrow> nat) \<Rightarrow> (kv_call \<Rightarrow> addr option) \<Rightarrow> u32 \<Rightarrow> u64 \<Rightarrow> u32 \<Rightarrow> u32 \<Rightarrow> (kv_call \<times> addr option) option" where
  "kv_alloc get_order ans GFP_HIGHMEM flags sz lflags =
     (if has flags KMC_KMEM \<and> \<not> ISP2 sz then None
      else let c = (if has flags KMC_KMEM then Get_free_pages lflags (get_order sz) else Vmalloc sz (lflags OR GFP_HIGHMEM))
           in case ans c of
                None \<Rightarrow> Some (c, None)
              | Some p \<Rightarrow> if p mod unat PAGE_SIZE = 0 then Some (c, Some p) else None)"

text \<open>Freeing also counts the pages for the reclaiming of the kernel, if that is under way.\<close>

definition kv_free :: "(u32 \<Rightarrow> nat) \<Rightarrow> u64 \<Rightarrow> addr \<Rightarrow> u32 \<Rightarrow> u64 option \<Rightarrow> (kv_free_call \<times> u64 option) option" where
  "kv_free get_order flags ptr sz reclaimed_slab =
     (if ptr mod unat PAGE_SIZE \<noteq> 0 \<or> has flags KMC_KMEM \<and> \<not> ISP2 sz then None
      else Some (if has flags KMC_KMEM then Free_pages ptr (get_order sz) else Vfree_slab ptr,
                 map_option (\<lambda>r. r + ucast (drop_bit 12 sz)) reclaimed_slab))"

text \<open>The counterpart of a call.\<close>

fun undoes :: "kv_free_call \<Rightarrow> kv_call \<Rightarrow> addr \<Rightarrow> bool" where
  "undoes (Free_pages p n) (Get_free_pages _ m) q \<longleftrightarrow> p = q \<and> n = m"
| "undoes (Vfree_slab p) (Vmalloc _ _) q \<longleftrightarrow> p = q"
| "undoes _ _ _ \<longleftrightarrow> False"

text \<open>Memory goes back the way it came, with the same order, and freeing passes its assertions.\<close>

theorem kv_balanced:
  assumes "kv_alloc get_order ans hi flags sz lf = Some (c, Some p)"
  shows "\<exists>f r'. kv_free get_order flags p sz r = Some (f, r') \<and> undoes f c p"
  using assms by (auto simp: kv_alloc_def kv_free_def Let_def split: if_splits option.splits)

theorem kv_balanced_witness:
  "\<exists>f r'. kv_free (\<lambda>_. 3) KMC_KMEM 8192 32768 (Some 1) = Some (f, r') \<and> undoes f (Get_free_pages 0 3) 8192"
proof -
  have "ISP2 (32768 :: u32)" by (simp add: ISP2_def)
  then have "kv_alloc (\<lambda>_. 3) (\<lambda>_. Some 8192) 2 KMC_KMEM 32768 0 = Some (Get_free_pages 0 3, Some 8192)"
    by (simp add: kv_alloc_def has_def KMC_KMEM_def PAGE_SIZE_def)
  then show ?thesis by (rule kv_balanced)
qed

section \<open>Addresses and sizes\<close>

lemma P2ROUNDUP_typed: "P2ROUNDUP x a = P2ROUNDUP_TYPED x a"
  by (simp add: P2ROUNDUP_def P2ROUNDUP_TYPED_def)

definition spl_sko_from_obj :: "u32 \<Rightarrow> u32 \<Rightarrow> addr \<Rightarrow> addr" where
  "spl_sko_from_obj obj_size align obj = obj + unat (P2ROUNDUP obj_size align)"

text \<open>The header of an object is behind the object, aligned like it, and inside the space of the object.\<close>

theorem sko_behind_obj:
  assumes "n < 32" "unat sz + 2 ^ n \<le> 2 ^ 32" "2 ^ n dvd obj"
  shows "obj + unat sz \<le> spl_sko_from_obj sz (2 ^ n) obj \<and> 2 ^ n dvd spl_sko_from_obj sz (2 ^ n) obj \<and>
    spl_sko_from_obj sz (2 ^ n) obj < obj + unat sz + 2 ^ n"
proof -
  have "n < LENGTH(32)" using assms(1) by simp
  from roundup_unat [OF this, of sz] show ?thesis using assms(2,3) by (simp add: spl_sko_from_obj_def P2ROUNDUP_typed)
qed

theorem sko_behind_obj_witness: "spl_sko_from_obj 100 (2 ^ 3) 4096 < 4096 + 100 + 8"
  using sko_behind_obj [of 3 100 4096] by simp

text \<open>\<^verbatim>\<open>fls64\<close> is the position of the highest bit, from one, and zero for zero.\<close>

fun fls :: "nat \<Rightarrow> nat" where
  "fls n = (if n = 0 then 0 else Suc (fls (n div 2)))"

declare fls.simps [simp del]

lemma fls_0: "fls 0 = 0"
  by (subst fls.simps) simp

lemma fls_1: "fls (Suc 0) = Suc 0"
  by (subst fls.simps) (simp add: fls_0)

lemma fls_bounds: "n \<noteq> 0 \<Longrightarrow> 2 ^ (fls n - 1) \<le> n \<and> n < 2 ^ fls n"
proof (induction n rule: fls.induct)
  case (1 n)
  show ?case
  proof (cases "n div 2 = 0")
    case True
    then have "n = 1" using 1(2) by (simp add: div_eq_0_iff)
    then show ?thesis by (simp add: fls_1)
  next
    case False
    then have "2 ^ (fls (n div 2) - 1) \<le> n div 2" "n div 2 < 2 ^ fls (n div 2)" using 1 by auto
    moreover obtain m where m: "fls (n div 2) = Suc m" using False by (simp add: fls.simps [of "n div 2"])
    ultimately show ?thesis using fls.simps [of n] 1(2) by auto
  qed
qed

text \<open>The result of the shift is cut to 32 bits.\<close>

definition spl_offslab_size :: "u32 \<Rightarrow> u32 \<Rightarrow> u32" where
  "spl_offslab_size obj_size align = ucast (push_bit (fls (unat (spl_obj_size obj_size align)) + 1) (1 :: u64))"

lemma unat_push_1: "m < 32 \<Longrightarrow> unat (ucast (push_bit m (1 :: u64)) :: u32) = 2 ^ m"
proof -
  assume m: "m < 32"
  have "ucast (push_bit m (1 :: u64)) = (2 ^ m :: u32)" using m by (intro bit_word_eqI) (auto simp: bit_simps)
  then show ?thesis using unat_p2 [where 'a = 32, of m] m by simp
qed

text \<open>A power of two, as the kernel's page allocator needs, with room for the object; it is always at least twice, and up to four times, what is needed.
  For objects of a gigabyte and more it is zero.\<close>

theorem offslab_size_exact:
  assumes "0 < unat (spl_obj_size sz al)" "unat (spl_obj_size sz al) < 2 ^ 30"
  shows "ISP2 (spl_offslab_size sz al) \<and> 2 * unat (spl_obj_size sz al) < unat (spl_offslab_size sz al) \<and>
    unat (spl_offslab_size sz al) \<le> 4 * unat (spl_obj_size sz al)"
proof -
  let ?x = "unat (spl_obj_size sz al)"
  have b: "2 ^ (fls ?x - 1) \<le> ?x" "?x < 2 ^ fls ?x" using fls_bounds [of ?x] assms(1) by auto
  have f: "fls ?x \<noteq> 0" using assms(1) by (simp add: fls.simps [of ?x])
  have "(2 :: nat) ^ (fls ?x - 1) < 2 ^ 30" using b(1) assms(2) by linarith
  then have "fls ?x - 1 < 30" by (rule power_less_imp_less_exp [rotated]) simp
  then have m: "fls ?x + 1 < 32" using f by linarith
  then have u: "unat (spl_offslab_size sz al) = 2 ^ (fls ?x + 1)" unfolding spl_offslab_size_def by (rule unat_push_1)
  obtain k where k: "fls ?x = Suc k" using f by (cases "fls ?x") auto
  have "unat (spl_offslab_size sz al) = unat ((2 :: u32) ^ (fls ?x + 1))" using u unat_p2 [where 'a = 32, of "fls ?x + 1"] m by simp
  then have "spl_offslab_size sz al = 2 ^ (fls ?x + 1)" by (simp only: word_unat_eq_iff)
  then have "\<exists>n < LENGTH(32). spl_offslab_size sz al = 2 ^ n" using m by (intro exI [of _ "fls ?x + 1"]) (simp del: power_Suc)
  then have "ISP2 (spl_offslab_size sz al)" using isp2_exact [of "spl_offslab_size sz al"] by blast
  then show ?thesis using u b k by simp
qed

theorem offslab_size_exact_witness: "ISP2 (spl_offslab_size 1000 8)"
proof -
  have "spl_obj_size 1000 8 = 1040" by (simp add: spl_obj_size_def P2ROUNDUP_def sizeof_obj_def)
  then show ?thesis using offslab_size_exact [of 1000 8] by simp
qed

section \<open>Magazines and objects\<close>

definition spl_magazine_alloc :: "bool \<Rightarrow> nat \<Rightarrow> nat \<Rightarrow> u64 \<Rightarrow> spl_kmem_magazine option" where
  "spl_magazine_alloc mem skc_mag_size skc_mag_refill jiffies =
     (if mem then Some \<lparr>skm_objs = [], skm_size = skc_mag_size, skm_refill = skc_mag_refill, skm_age = jiffies\<rparr> else None)"

text \<open>The assertion that the magazine is empty.\<close>

definition spl_magazine_free :: "spl_kmem_magazine \<Rightarrow> bool" where
  "spl_magazine_free skm \<longleftrightarrow> skm_avail skm = 0"

definition spl_cache_grow_wait :: "spl_kmem_cache \<Rightarrow> bool" where
  "spl_cache_grow_wait skc \<longleftrightarrow> \<not> has (skc_flags skc) KMC_GROWING"

text \<open>The end of \<^verbatim>\<open>spl_kmem_cache_alloc\<close> and the begin of \<^verbatim>\<open>spl_kmem_cache_free\<close>: the constructor runs on every object that is handed
  out, and the destructor on every one that comes back, so that they alternate.\<close>

datatype obj_call = Ctor addr | Dtor addr | Prefetch addr

definition alloc_ret :: "bool \<Rightarrow> addr option \<Rightarrow> obj_call list" where
  "alloc_ret skc_ctor obj = (case obj of None \<Rightarrow> [] | Some p \<Rightarrow> if skc_ctor then [Ctor p] else [Prefetch p])"

definition free_begin :: "bool \<Rightarrow> addr \<Rightarrow> obj_call list" where
  "free_begin skc_dtor obj = (if skc_dtor then [Dtor obj] else [])"

section \<open>The module's part\<close>

datatype cache_call = Cache_taskq_create u32 u32 | Register_shrinker | Unregister_shrinker | Cache_taskq_destroy

definition spl_kmem_cache_init :: "u32 \<Rightarrow> cache_call list" where
  "spl_kmem_cache_init spl_kmem_cache_kmem_threads =
     [Cache_taskq_create spl_kmem_cache_kmem_threads (spl_kmem_cache_kmem_threads * 8), Register_shrinker]"

definition spl_kmem_cache_fini :: "cache_call list" where
  "spl_kmem_cache_fini = [Unregister_shrinker, Cache_taskq_destroy]"

end
