(* ===== verification/Spl_Client_Caches.thy ===== *)
theory Spl_Client_Caches
  imports Kmem_Cache Spl_Thread
begin

text \<open>
  The caches that other parts of the module make for themselves: the workspaces of \<^verbatim>\<open>module/spl/spl-zlib.c\<close> and the vnodes of
  \<^verbatim>\<open>module/spl/spl-vnode.c\<close>, over the slab allocator of \<open>Kmem_Cache\<close>.
\<close>

section \<open>Workspaces\<close>

definition KMC_NOEMERGENCY :: u64 where "KMC_NOEMERGENCY = push_bit 9 1"

text \<open>\<open>alloc\<close> is \<^verbatim>\<open>kmem_cache_alloc\<close> on the cache of workspaces.\<close>

definition zlib_workspace_alloc :: "gfp_bits \<Rightarrow> (km_flag \<Rightarrow> 'a) \<Rightarrow> km_flag \<Rightarrow> 'a" where
  "zlib_workspace_alloc g alloc flags = alloc (flags AND NOT (GFP_FS g))"

definition zlib_workspace_free :: "(addr \<Rightarrow> 'a) \<Rightarrow> addr \<Rightarrow> 'a" where
  "zlib_workspace_free free workspace = free workspace"

text \<open>\<open>create\<close> is \<^verbatim>\<open>kmem_cache_create\<close> for a size, an alignment and flags; \<open>None\<close> is a failed verification in it.  The result is the value returned and
  the pointer to the cache.\<close>

definition spl_zlib_init :: "(u64 \<Rightarrow> u64 \<Rightarrow> u64 \<Rightarrow> create_result) \<Rightarrow> u64 \<Rightarrow> u64 \<Rightarrow> (int \<times> spl_kmem_cache option) option" where
  "spl_zlib_init create deflate_size inflate_size =
     (case create (max deflate_size inflate_size) 0 (KMC_VMEM OR KMC_NOEMERGENCY) of
        Cache c \<Rightarrow> Some (0, Some c)
      | Null_cache \<Rightarrow> Some (1, None)
      | Verify_failed \<Rightarrow> None)"

definition spl_zlib_fini :: "(spl_kmem_cache \<Rightarrow> 'a option) \<Rightarrow> spl_kmem_cache option \<Rightarrow> ('a \<times> spl_kmem_cache option) option" where
  "spl_zlib_fini destroy zlib_workspace_cache = (case zlib_workspace_cache of None \<Rightarrow> None | Some c \<Rightarrow> map_option (\<lambda>s. (s, None)) (destroy c))"

text \<open>The workspaces come from virtual memory, whatever the parameters of the module say, and the module refuses to start exactly if there is no cache.\<close>

theorem zlib_init_exact:
  assumes "spl_zlib_init (spl_kmem_cache_create get_order tun mem mags max_kmem jiffies) d i = Some (rc, cache)"
  shows "rc = (case cache of None \<Rightarrow> 1 | Some _ \<Rightarrow> 0) \<and>
    (\<forall>c. cache = Some c \<longrightarrow> has (skc_flags c) KMC_VMEM \<and> \<not> has (skc_flags c) KMC_KMEM \<and> skc_obj_size c = ucast (max d i))"
  using assms
  by (auto simp: spl_zlib_init_def spl_kmem_cache_create_def new_cache_def cache_kind_def spl_magazine_create_def KMC_NOEMERGENCY_def KMC_KMEM_def KMC_VMEM_def
      KMC_SLAB_def KMC_NOMAGAZINE_def KMC_OFFSLAB_def has_def Let_def split: if_splits sum.splits prod.splits create_result.splits)

text \<open>The mask of \<^verbatim>\<open>zlib_workspace_alloc\<close> is a bit of the kernel's flags, but the flags are those of the layer: for every combination of
  these it changes nothing, and a sleeping allocation may still enter the file system.\<close>

lemma zlib_mask_useless:
  assumes "GFP_FS g = 0x80" "flags AND NOT (KM_NOSLEEP OR KM_PUSHPAGE OR KM_ZERO OR KM_VMEM) = 0"
  shows "zlib_workspace_alloc g alloc flags = alloc flags"
proof -
  have "flags = flags AND (KM_NOSLEEP OR KM_PUSHPAGE OR KM_ZERO OR KM_VMEM)"
    using assms(2) by (metis bit.conj_disj_distrib bit.disj_cancel_right bit.conj_one_right bit.disj_zero_right)
  then have "flags AND NOT 0x80 = flags AND ((KM_NOSLEEP OR KM_PUSHPAGE OR KM_ZERO OR KM_VMEM) AND NOT 0x80)" by (metis and.assoc)
  also have "(KM_NOSLEEP OR KM_PUSHPAGE OR KM_ZERO OR KM_VMEM) AND NOT 0x80 = KM_NOSLEEP OR KM_PUSHPAGE OR KM_ZERO OR KM_VMEM"
    by (simp add: KM_NOSLEEP_def KM_PUSHPAGE_def KM_ZERO_def KM_VMEM_def)
  finally show ?thesis using \<open>flags = flags AND _\<close> assms(1) by (simp add: zlib_workspace_alloc_def)
qed

section \<open>Vnodes\<close>

text \<open>The two caches; \<open>vnode_size\<close> and \<open>file_size\<close> are the sizes of the structures.\<close>

definition spl_vn_init ::
  "(u64 \<Rightarrow> u64 \<Rightarrow> u64 \<Rightarrow> create_result) \<Rightarrow> u64 \<Rightarrow> u64 \<Rightarrow> (int \<times> spl_kmem_cache option \<times> spl_kmem_cache option) option" where
  "spl_vn_init create vnode_size file_size =
     (let ptr = (\<lambda>r. case r of Cache c \<Rightarrow> Some (Some c) | Null_cache \<Rightarrow> Some None | Verify_failed \<Rightarrow> None)
      in Option.bind (ptr (create vnode_size 64 0)) (\<lambda>vn_cache. map_option (\<lambda>vn_file_cache. (0, vn_cache, vn_file_cache)) (ptr (create file_size 64 0))))"

text \<open>A failure to make a cache is not reported: the module goes on with null pointers.\<close>

lemma vn_init_ignores_failure:
  "spl_vn_init (spl_kmem_cache_create get_order tun False mags max_kmem jiffies) vs fs = Some (0, None, None)"
  by (simp add: spl_vn_init_def spl_kmem_cache_create_def)

end
