(* ===== verification/Spl_Err.thy ===== *)
theory Spl_Err
  imports Spl_Prelude
begin

text \<open>
  Messages on the console and failed assertions, \<^verbatim>\<open>module/spl/spl-err.c\<close>: what is printed, with which level, and whether the caller gets
  control back.  \<open>formatted\<close> is the text of the format with its arguments; \<^verbatim>\<open>vsnprintf\<close> cuts it to the buffer.
\<close>

datatype level = KERN_DEFAULT | KERN_EMERG | KERN_WARNING | KERN_NOTICE

datatype err_event = Printk level string | Dump_stack | Kernel_panic string | Sleep_forever

definition MAXMSGLEN :: nat where "MAXMSGLEN = 256"

definition vsnprintf :: "nat \<Rightarrow> string \<Rightarrow> string" where
  "vsnprintf n formatted = take (n - 1) formatted"

definition LF :: string where "LF = [CHR 0x0A]"

fun show_nat :: "nat \<Rightarrow> string" where
  "show_nat n = (if n < 10 then [] else show_nat (n div 10)) @ [char_of (48 + n mod 10 :: nat)]"

declare show_nat.simps [simp del]

text \<open>\<open>limit\<close>: the rate limit lets the message through.\<close>

definition spl_dumpstack :: "bool \<Rightarrow> nat \<Rightarrow> err_event list" where
  "spl_dumpstack limit pid = (if limit then [Printk KERN_DEFAULT (''Showing stack for process '' @ show_nat pid @ LF), Dump_stack] else [])"

text \<open>The rest of a string from the last occurrence of a character.\<close>

fun strrchr :: "string \<Rightarrow> char \<Rightarrow> string option" where
  "strrchr [] c = None"
| "strrchr (x # xs) c = (case strrchr xs c of Some r \<Rightarrow> Some r | None \<Rightarrow> if x = c then Some (x # xs) else None)"

definition newfile :: "string \<Rightarrow> string" where
  "newfile file = (case strrchr file CHR ''/'' of Some r \<Rightarrow> tl r | None \<Rightarrow> file)"

text \<open>A failed assertion: the kernel is halted, or the thread sleeps for ever.\<close>

definition spl_panic :: "bool \<Rightarrow> nat \<Rightarrow> bool \<Rightarrow> string \<Rightarrow> string \<Rightarrow> nat \<Rightarrow> string \<Rightarrow> err_event list" where
  "spl_panic limit pid spl_panic_halt file func line formatted =
     (let msg = vsnprintf MAXMSGLEN formatted
      in [Printk KERN_EMERG msg, Printk KERN_EMERG (''PANIC at '' @ newfile file @ '':'' @ show_nat line @ '':'' @ func @ ''()'' @ LF)] @
         (if spl_panic_halt then [Kernel_panic msg] else spl_dumpstack limit pid @ [Sleep_forever]))"

definition CE_CONT :: int where "CE_CONT = 0"
definition CE_NOTE :: int where "CE_NOTE = 1"
definition CE_WARN :: int where "CE_WARN = 2"
definition CE_PANIC :: int where "CE_PANIC = 3"
definition CE_IGNORE :: int where "CE_IGNORE = 4"

lemmas ce_defs = CE_CONT_def CE_NOTE_def CE_WARN_def CE_PANIC_def CE_IGNORE_def

definition vcmn_err :: "bool \<Rightarrow> nat \<Rightarrow> int \<Rightarrow> string \<Rightarrow> err_event list" where
  "vcmn_err limit pid ce formatted =
     (let msg = vsnprintf (MAXMSGLEN - 1) formatted
      in if ce = CE_IGNORE then []
         else if ce = CE_CONT then [Printk KERN_DEFAULT msg]
         else if ce = CE_NOTE then [Printk KERN_NOTICE (''NOTICE: '' @ msg @ LF)]
         else if ce = CE_WARN then [Printk KERN_WARNING (''WARNING: '' @ msg @ LF)]
         else if ce = CE_PANIC then [Printk KERN_EMERG (''PANIC: '' @ msg @ LF)] @ spl_dumpstack limit pid @ [Sleep_forever]
         else [])"

definition cmn_err :: "bool \<Rightarrow> nat \<Rightarrow> int \<Rightarrow> string \<Rightarrow> err_event list" where
  "cmn_err = vcmn_err"

section \<open>Properties\<close>

lemma strrchr_none: "strrchr xs c = None \<longleftrightarrow> c \<notin> set xs"
  by (induction xs) (auto split: option.splits)

lemma strrchr_some: "strrchr xs c = Some r \<Longrightarrow> \<exists>p q. r = c # q \<and> xs = p @ r \<and> c \<notin> set q"
proof (induction xs)
  case (Cons x xs)
  show ?case
  proof (cases "strrchr xs c")
    case None
    then show ?thesis using Cons.prems strrchr_none [of xs c] by (auto split: if_splits)
  next
    case (Some r')
    then obtain p q where "r' = c # q" "xs = p @ r'" "c \<notin> set q" using Cons.IH Cons.prems by auto
    moreover have "r' = r" using Some Cons.prems by simp
    ultimately have "r = c # q \<and> x # xs = (x # p) @ r \<and> c \<notin> set q" by simp
    then show ?thesis by blast
  qed
qed simp

text \<open>The name printed is the last component of the path.\<close>

lemma newfile_exact: "CHR ''/'' \<notin> set (newfile file) \<and> (newfile file = file \<or> (\<exists>d. file = d @ CHR ''/'' # newfile file))"
proof (cases "strrchr file CHR ''/''")
  case None
  then show ?thesis using strrchr_none [of "file" "CHR ''/''"] by (simp add: newfile_def)
next
  case (Some r)
  then show ?thesis using strrchr_some [OF Some] by (auto simp: newfile_def)
qed

definition halts :: "err_event list \<Rightarrow> bool" where
  "halts es \<longleftrightarrow> (\<exists>e \<in> set es. e = Sleep_forever \<or> (\<exists>m. e = Kernel_panic m))"

text \<open>No caller gets control back from a failed assertion, and from a message only if it is no panic; nothing is printed after that, and no message
  is longer than its buffer.\<close>

theorem err_halts_exactly:
  "halts (spl_panic limit pid halt file func line fmt)" "\<not> halts (butlast (spl_panic limit pid halt file func line fmt))"
  "halts (cmn_err limit pid ce fmt) \<longleftrightarrow> ce = CE_PANIC" "length (vsnprintf MAXMSGLEN fmt) < MAXMSGLEN"
  "cmn_err limit pid ce fmt = [] \<longleftrightarrow> ce \<notin> {CE_CONT, CE_NOTE, CE_WARN, CE_PANIC}"
proof -
  show "halts (spl_panic limit pid halt file func line fmt)" by (auto simp: halts_def spl_panic_def Let_def)
  show "\<not> halts (butlast (spl_panic limit pid halt file func line fmt))"
    by (cases halt; cases limit) (simp_all add: halts_def spl_panic_def Let_def spl_dumpstack_def butlast_append)
  show "halts (cmn_err limit pid ce fmt) \<longleftrightarrow> ce = CE_PANIC"
    by (auto simp: halts_def cmn_err_def vcmn_err_def Let_def spl_dumpstack_def ce_defs)
  show "length (vsnprintf MAXMSGLEN fmt) < MAXMSGLEN" by (simp add: vsnprintf_def MAXMSGLEN_def)
  show "cmn_err limit pid ce fmt = [] \<longleftrightarrow> ce \<notin> {CE_CONT, CE_NOTE, CE_WARN, CE_PANIC}"
    by (auto simp: cmn_err_def vcmn_err_def Let_def ce_defs)
qed

end
