(* ===== verification/Spec2Isabelle.thy ===== *)
theory Spec2Isabelle
  imports Spl_List Tsd_Props Xdr Taskq_Worker Spl_Division Spl_Random Spl_Generic Kmem_Cache_Spec Condvar_Props Condvar_Timed Spl_Cred Spl_Kstat_Props Spl_Kstat_Registry Spl_Sysctl Spl_Kobj Spl_Thread Spl_Rwlock_Variants Spl_Mutex Kmem_Debug Spl_Macros Kmem_Cache_Race Kmem_Cache_Kernel Spl_Client_Caches Spl_Err
begin

text \<open>
  \<^bold>\<open>The Solaris Porting Layer.\<close>  The program is a Linux kernel module that offers the interfaces of the Solaris kernel to file
  system code: memory and object caches, thread specific data, task queues, locks and condition variables, lists, XDR
  streams, kernel statistics, proc files, files, credentials, and arithmetic that the kernel or compiler of a 32-bit machine lacks.  Its parts
  use each other in layers.  Lists and locks are at the bottom; the allocators use both; thread specific data is a hash
  table on lists; task queues remember in it which queue a worker belongs to, and the slab allocator
  runs its growing and ageing in a task queue; statistics, proc files and
  vnodes are clients of all of these; \<^verbatim>\<open>spl_init\<close> and \<^verbatim>\<open>spl_fini\<close> in \<^verbatim>\<open>module/spl/spl-generic.c\<close> start and stop them in order.

  \<^bold>\<open>Theories and sources.\<close>  Paths are relative to the root of the repository.

  \<^item> \<open>Spl_Prelude\<close>: machine integers as words, error numbers, collections of rewrite rules, and the locale
    \<open>stepwise_refinement\<close> (operations that keep an invariant and act on an abstraction as abstract operations do).
  \<^item> \<open>Linux_List\<close>, \<open>Spl_List\<close>: the rings of \<^verbatim>\<open>struct list_head\<close> as functions \<open>nxt\<close> and \<open>prv\<close> on addresses, and every function of
    \<^verbatim>\<open>include/spl/sys/list.h\<close>.  The pointers represent a sequence, and each function edits the sequence as its name says.  The locale
    \<open>deque\<close> states the contract; it is interpreted on the list functions.
  \<^item> \<open>Tsd\<close>, \<open>Tsd_Props\<close>: \<^verbatim>\<open>module/spl/spl-tsd.c\<close>.  The state has the hash bins, the entries by address, the ring of entries of every
    thread and of every key, and a log of destructor calls.  Shown: an invariant of all reachable tables, \<^verbatim>\<open>tsd_get\<close> returns the last value set, and what
    \<^verbatim>\<open>tsd_destroy\<close>, \<^verbatim>\<open>tsd_exit\<close> and \<^verbatim>\<open>tsd_create\<close> do.  The locale \<open>thread_store\<close> is the contract of clients.
  \<^item> \<open>Xdr\<close>: \<^verbatim>\<open>module/spl/spl-xdr.c\<close>, streams over a byte memory with 64-bit addresses.  The locale \<open>xdr_codec\<close> (one type: encoding into a
    buffer and decoding back) is interpreted for every type; round trip, bounds and strictness hold for messages of all types.
  \<^item> \<open>Taskq\<close>, \<open>Taskq_Props\<close>, \<open>Taskq_Safety\<close>, \<open>Taskq_Worker\<close>: \<^verbatim>\<open>module/spl/spl-taskq.c\<close>.  Every section under \<^verbatim>\<open>tq_lock\<close> is one function on the record of
    the queue; an inductive relation interleaves callers, workers and timers.  Shown: the invariant, exact waiting and cancelling, order of
    execution, dispatching that always returns, that a worker drains the queue, the making of threads and of the queues of the module, destroying, and two defects.
  \<^item> \<open>Spl_Division\<close>, \<open>Spl_Random\<close>, \<open>Spl_Generic\<close>: \<^verbatim>\<open>module/spl/spl-generic.c\<close> and \<^verbatim>\<open>include/spl/sys/vmsystm.h\<close>.  Division against the mathematical
    quotient, the random generator and its jump, number parsing, copying, host id, initialisation.
  \<^item> \<open>Kmem\<close>, \<open>Kmem_Debug\<close>: \<^verbatim>\<open>module/spl/spl-kmem.c\<close>, \<^verbatim>\<open>module/spl/spl-vmem.c\<close>, \<^verbatim>\<open>include/spl/sys/kmem.h\<close>.  Flags, the allocation loop, the byte count, the table of
    live allocations, the public functions in the three builds, and the printing of leaked memory.
  \<^item> \<open>Kmem_Cache\<close>, \<open>Kmem_Cache_Props\<close>, \<open>Kmem_Cache_Alloc\<close>, \<open>Kmem_Cache_Life\<close>, \<open>Kmem_Cache_Spec\<close>: \<^verbatim>\<open>module/spl/spl-kmem-cache.c\<close>.  Slabs, magazines per processor, emergency
    objects; growing, refilling, allocating, freeing, ageing, reaping, creating and destroying.  Other threads act through an environment function
    wherever the code drops the lock.  Shown: the invariant, that no object is handed out twice, liveness, the layout of a slab, and refinement of
    a set of objects in use.  The locale \<open>object_cache\<close> is the contract; \<open>kmem_kernel\<close> states what the kernel provides, and gives the
    contract by a \<^theory_text>\<open>sublocale\<close>.
  \<^item> \<open>Kmem_Cache_Kernel\<close>, \<open>Kmem_Cache_Race\<close>: the same source.  The memory of slabs, addresses, constructors and the module functions; and destroying a cache against its ageing
    and growing tasks, where each access of the reference count, the flags and the task id is a step.  Shown: two windows in which a task runs on
    a freed cache, and that outside of them no task does.
  \<^item> \<open>Spl_Macros\<close>: the macros of \<^verbatim>\<open>include/spl/sys/sysmacros.h\<close>, \<^verbatim>\<open>byteorder.h\<close>, \<^verbatim>\<open>timer.h\<close> and \<^verbatim>\<open>time.h\<close> that compute: alignment against remainder and rounding, byte order, comparison of times.
  \<^item> \<open>Spl_Mutex\<close>, \<open>Spl_Rwlock\<close>, \<open>Spl_Rwlock_Variants\<close>, \<open>Condvar\<close>, \<open>Condvar_Props\<close>, \<open>Condvar_Timed\<close>: \<^verbatim>\<open>include/spl/sys/mutex.h\<close>, \<^verbatim>\<open>include/spl/sys/rwlock.h\<close>, \<^verbatim>\<open>module/spl/spl-rwlock.c\<close>,
    \<^verbatim>\<open>module/spl/spl-condvar.c\<close>.  One object with all its threads; each access to a shared field is a step, and a program counter says what
    a thread does next.  Shown for every interleaving: the release of a mutex is serialised, the owner fields are exact, upgrading is exact, wake-ups are not lost,
    destroying a condition variable is safe and ends, a timed wait returns, the variants of upgrading agree.  The detailed mutex refines the one the condition variables use.
  \<^item> \<open>Spl_Cred\<close>: \<^verbatim>\<open>module/spl/spl-cred.c\<close>, the binary search in the groups and the accessors, and \<^verbatim>\<open>include/spl/sys/sid.h\<close>.
  \<^item> \<open>Spl_Kstat\<close>, \<open>Spl_Kstat_Props\<close>, \<open>Spl_Kstat_Registry\<close>: \<^verbatim>\<open>module/spl/spl-kstat.c\<close>.  Queue accounting is exact, raw reads end, the registry refines a set of
    names (interpretation \<open>kr\<close> of \<open>stepwise_refinement\<close>), and a race in deleting.
  \<^item> \<open>Spl_Proc\<close>, \<open>Spl_Sysctl\<close>: \<^verbatim>\<open>module/spl/spl-proc.c\<close>, with every access of the string buffers, the listings, the making of entries, and what
    a reader of the files and sysctl entries sees.
  \<^item> \<open>Vnode\<close>, \<open>Spl_Kobj\<close>: \<^verbatim>\<open>module/spl/spl-vnode.c\<close> and \<^verbatim>\<open>module/spl/spl-kobj.c\<close>.  Files and paths as reference counts; the table of descriptors refines a count per thread and descriptor
    (interpretation \<open>vt\<close>).
  \<^item> \<open>Spl_Thread\<close>: \<^verbatim>\<open>module/spl/spl-thread.c\<close> and \<^verbatim>\<open>module/spl/spl-zlib.c\<close>, memory on every path; \<open>Spl_Client_Caches\<close>: the caches that the compression wrappers and the vnodes make.
  \<^item> \<open>Spl_Err\<close>: \<^verbatim>\<open>module/spl/spl-err.c\<close>, messages and failed assertions, and which calls do not return.

  \<^bold>\<open>Conventions.\<close>  A C structure is a record, an operation a function from the state to the new state and its result, an error number a
  constructor of \<open>errno\<close>, a failed assertion or an access of freed memory the value \<open>None\<close>.  Integers are words where their width matters.  Kernel
  code is a parameter: what the allocators return, the rotations of the red-black tree, \<^verbatim>\<open>get_order\<close>, hash functions, the thread \<^verbatim>\<open>wake_up\<close> chooses, the file and
  proc file systems, zlib; what the properties need of it is a hypothesis, and every such property has an instance.

  \<^bold>\<open>Loops and bounds.\<close>  Loops that can run forever are \<^theory_text>\<open>partial_function (option)\<close>, with a theorem on when they
  return: \<open>tsd_drain\<close>, \<open>kmem_alloc_loop\<close>, \<open>kmem_vasprintf\<close>, \<open>kthread_loop\<close>, \<open>raw_loop\<close>.  Loops on other threads take the number of passes: \<open>task_alloc\<close> polls 100 times
  as in the code, refilling a magazine needs at most \<open>2 * 256 + 1\<close> passes because a magazine holds 256 objects and each pass but
  those that grow the cache moves one, and an allocation that may sleep is shown to return within two passes.

  \<^bold>\<open>Not modelled.\<close>  The atomic operations (names for those of the kernel), the address limits around reads and writes, lock dependency checking, the rate limits of messages, and the headers that only declare types or hide kernel
  versions.  Memory is sequentially consistent: the barriers of the code are not modelled, each access is a step.
\<close>

end
